(* ===== verification/Prelude.thy ===== *)
theory Prelude
  imports Main "HOL-Library.Word" "HOL-Library.AList" "HOL-Library.Multiset"
begin

text \<open>
  Shared vocabulary of the development: machine integers and byte strings, Go maps as
  association lists (the list order is one iteration order of \<open>range\<close>), results that carry
  an error, reachable states of a step relation, and the generic lemmas the component theories
  rewrite with.
\<close>

section \<open>Types\<close>

text \<open>\<open>uint\<close> and \<open>uint64\<close> are 64 bits wide on every platform the programs are built for;
  \<open>string\<close> and \<open>[]byte\<close> are lists of 8-bit characters.\<close>

type_synonym u64 = "64 word"
type_synonym u32 = "32 word"
type_synonym bytes = "char list"
type_synonym ('k, 'v) gomap = "('k \<times> 'v) list"
type_synonym ('e, 'a) res = "'e + 'a"

named_theorems wsum_simps \<open>rewriting of weighted sums over association lists\<close>

section \<open>Definitions\<close>

text \<open>The well-formedness of a Go map: no key occurs twice.\<close>

definition wf_map :: "('k, 'v) gomap \<Rightarrow> bool" where
  "wf_map m \<longleftrightarrow> distinct (map fst m)"

text \<open>\<open>m[k]\<close> of a map with a numeric element type: an absent key reads as zero.\<close>

definition get0 :: "('k, 'v::zero) gomap \<Rightarrow> 'k \<Rightarrow> 'v" where
  "get0 m k = (case map_of m k of None \<Rightarrow> 0 | Some v \<Rightarrow> v)"

text \<open>The sum of a weight over the elements of a map.\<close>

definition wsum :: "('v \<Rightarrow> nat) \<Rightarrow> ('k, 'v) gomap \<Rightarrow> nat" where
  "wsum f m = (\<Sum>(k, v) \<leftarrow> m. f v)"

text \<open>The states reachable from an initial state by labelled steps.\<close>

inductive reachable :: "('s \<Rightarrow> bool) \<Rightarrow> ('s \<Rightarrow> 'e \<Rightarrow> 's \<Rightarrow> bool) \<Rightarrow> 's \<Rightarrow> bool"
  for init step where
  reach_init: "init s \<Longrightarrow> reachable init step s"
| reach_step: "reachable init step s \<Longrightarrow> step s e s' \<Longrightarrow> reachable init step s'"

section \<open>Interfaces\<close>

text \<open>What a client of a Go map relies on.\<close>

locale go_map =
  fixes get :: "'m \<Rightarrow> 'k \<Rightarrow> 'v option"
    and put :: "'k \<Rightarrow> 'v \<Rightarrow> 'm \<Rightarrow> 'm"
    and del :: "'k \<Rightarrow> 'm \<Rightarrow> 'm"
    and invar :: "'m \<Rightarrow> bool"
  assumes get_set: "get (put k v m) = (get m)(k \<mapsto> v)"
    and get_del: "get (del k m) = (get m)(k := None)"
    and invar_set: "invar m \<Longrightarrow> invar (put k v m)"
    and invar_del: "invar m \<Longrightarrow> invar (del k m)"
begin

lemma get_set_same: "get (put k v m) k = Some v"
  by (simp add: get_set)

lemma get_set_other: "k' \<noteq> k \<Longrightarrow> get (put k v m) k' = get m k'"
  by (simp add: get_set)

lemma get_set_twice: "get (put k v (put k w m)) = get (put k v m)"
  by (simp add: get_set)

lemma get_del_same: "get (del k m) k = None"
  by (simp add: get_del)

lemma get_del_other: "k' \<noteq> k \<Longrightarrow> get (del k m) k' = get m k'"
  by (simp add: get_del)

end

text \<open>A state machine with an invariant: what every reachable state satisfies.\<close>

locale invariant_of =
  fixes init :: "'s \<Rightarrow> bool"
    and step :: "'s \<Rightarrow> 'e \<Rightarrow> 's \<Rightarrow> bool"
    and inv :: "'s \<Rightarrow> bool"
  assumes inv_init: "init s \<Longrightarrow> inv s"
    and inv_step: "inv s \<Longrightarrow> step s e s' \<Longrightarrow> inv s'"
begin

lemma reachable_inv: "reachable init step s \<Longrightarrow> inv s"
  by (induction rule: reachable.induct) (auto intro: inv_init inv_step)

end

section \<open>Maps as association lists\<close>

lemma map_of_filter_del: "map_of (AList.delete k m) = (map_of m)(k := None)"
  by (simp add: AList.delete_conv')

interpretation gm: go_map map_of AList.update AList.delete wf_map
proof unfold_locales
  fix k v m k'
  show "map_of (AList.update k v m) = (map_of m)(k \<mapsto> v)"
    by (rule AList.update_conv')
  show "map_of (AList.delete k m) = (map_of m)(k := None)"
    by (rule map_of_filter_del)
  show "wf_map m \<Longrightarrow> wf_map (AList.update k v m)"
    by (simp add: wf_map_def AList.distinct_update)
  show "wf_map m \<Longrightarrow> wf_map (AList.delete k m)"
    by (simp add: wf_map_def AList.distinct_delete)
qed

lemmas map_get = gm.get_set gm.get_del

lemma wf_map_Nil [simp]: "wf_map []"
  by (simp add: wf_map_def)

lemma wf_map_mapv [simp]: "wf_map (map (\<lambda>(k, v). (k, f v)) m) = wf_map m"
  by (simp add: wf_map_def case_prod_unfold comp_def)

lemma map_of_mapv: "map_of (map (\<lambda>(k, v). (k, f v)) m) k = map_option f (map_of m k)"
  by (induction m) auto

lemma wf_map_Cons: "wf_map ((k, v) # m) \<longleftrightarrow> k \<notin> fst ` set m \<and> wf_map m"
  by (auto simp: wf_map_def)

lemma wf_map_of_iff: "wf_map m \<Longrightarrow> map_of m k = Some v \<longleftrightarrow> (k, v) \<in> set m"
  by (simp add: wf_map_def)

lemma get0_update [simp]:
  "get0 (AList.update k v m) k' = (if k' = k then v else get0 m k')"
  by (simp add: get0_def map_get)

lemma get0_Nil [simp]: "get0 [] k = 0"
  by (simp add: get0_def)

lemma set_update:
  "wf_map m \<Longrightarrow> set (AList.update k v m) = insert (k, v) {p \<in> set m. fst p \<noteq> k}"
  by (induction m) (auto simp: wf_map_def image_iff)

lemma avoid_image: "k \<notin> f ` A \<Longrightarrow> {y \<in> A. f y \<noteq> k} = A"
  by blast

section \<open>Weighted sums\<close>

lemma wsum_Nil [simp, wsum_simps]: "wsum f [] = 0"
  by (simp add: wsum_def)

lemma wsum_Cons [simp, wsum_simps]: "wsum f ((k, v) # m) = f v + wsum f m"
  by (simp add: wsum_def)

lemma wsum_update:
  "wf_map m \<Longrightarrow> map_of m k = Some v \<Longrightarrow> wsum f (AList.update k v' m) + f v = wsum f m + f v'"
  by (induction m) (auto simp: wf_map_Cons split: if_splits)

lemma wsum_mapv: "wsum f (map (\<lambda>(k, v). (k, g v)) m) = wsum (\<lambda>v. f (g v)) m"
  by (induction m) auto

lemma wsum_cong:
  "(\<And>k v. (k, v) \<in> set m \<Longrightarrow> f v = g v) \<Longrightarrow> wsum f m = wsum g m"
  unfolding wsum_def by (intro arg_cong [where f = sum_list] map_cong) auto

lemma wsum_mono:
  "(\<And>k v. (k, v) \<in> set m \<Longrightarrow> f v \<le> g v) \<Longrightarrow> wsum f m \<le> wsum g m"
  unfolding wsum_def by (rule sum_list_mono) auto

lemma wsum_add: "wsum (\<lambda>v. f v + g v) m = wsum f m + wsum g m"
  by (induction m) auto

lemma wsum_member: "(k, v) \<in> set m \<Longrightarrow> f v \<le> wsum f m"
  by (induction m) auto

section \<open>Iteration order\<close>

text \<open>Two lists with the same entries are two iteration orders of the same map.\<close>

lemma wsum_mset: "mset m = mset m' \<Longrightarrow> wsum f m = wsum f m'"
  unfolding wsum_def by (metis mset_map sum_mset_sum_list)

lemma wf_map_mset: "mset m = mset m' \<Longrightarrow> wf_map m = wf_map m'"
  unfolding wf_map_def by (metis mset_eq_imp_distinct_iff mset_map)

lemma map_of_mset:
  assumes "mset m = mset m'" "wf_map m"
  shows "map_of m k = map_of m' k"
proof -
  have "map_of m k = Some v \<longleftrightarrow> map_of m' k = Some v" for v
    using assms wf_map_mset [OF assms(1)] mset_eq_setD [OF assms(1)] by (simp add: wf_map_of_iff)
  then show ?thesis by (metis not_None_eq)
qed

lemma get0_mset: "mset m = mset m' \<Longrightarrow> wf_map m \<Longrightarrow> get0 m k = get0 m' k"
  by (simp add: get0_def map_of_mset)

section \<open>Words\<close>

lemma u64_le_one [simp]: "(x :: u64) \<le> 1 \<longleftrightarrow> x = 0 \<or> x = 1"
proof
  assume "x \<le> 1"
  then have "unat x \<le> 1" by (simp add: word_le_nat_alt)
  then have "unat x = unat (0 :: u64) \<or> unat x = unat (1 :: u64)" by auto
  then show "x = 0 \<or> x = 1" by (simp only: word_unat_eq_iff)
qed auto

end
