(* ===== verification/Strconv.thy ===== *)
theory Strconv
  imports Prelude
begin

text \<open>
  The parts of Go's standard library the components use on strings: \<open>encoding/hex\<close>,
  \<open>strconv.ParseUint\<close> and \<open>strconv.ParseInt\<close> in base 16, the verbs \<open>%d\<close>, \<open>%x\<close> and \<open>%04x\<close> of
  \<open>fmt\<close>, and \<open>strings.Join\<close>. The round trips between printing and parsing are proved here once.
\<close>

section \<open>Definitions\<close>

definition hexdigit :: "nat \<Rightarrow> char" where
  "hexdigit n = ''0123456789abcdef'' ! n"

definition hexval :: "char \<Rightarrow> nat option" where
  "hexval c = (let n = of_char c in
     if 48 \<le> n \<and> n \<le> 57 then Some (n - 48)
     else if 97 \<le> n \<and> n \<le> 102 then Some (n - 87)
     else if 65 \<le> n \<and> n \<le> 70 then Some (n - 55)
     else None)"

datatype hex_error = InvalidByteError char | ErrLength

definition EncodeToString :: "bytes \<Rightarrow> string" where
  "EncodeToString bs =
     concat (map (\<lambda>c. [hexdigit (of_char c div 16), hexdigit (of_char c mod 16)]) bs)"

fun DecodeString :: "string \<Rightarrow> (hex_error, bytes) res" where
  "DecodeString [] = Inr []"
| "DecodeString [c] =
     (case hexval c of None \<Rightarrow> Inl (InvalidByteError c) | Some _ \<Rightarrow> Inl ErrLength)"
| "DecodeString (p # q # r) =
     (case hexval p of None \<Rightarrow> Inl (InvalidByteError p)
      | Some a \<Rightarrow> (case hexval q of None \<Rightarrow> Inl (InvalidByteError q)
        | Some b \<Rightarrow> (case DecodeString r of Inl e \<Rightarrow> Inl e
          | Inr bs \<Rightarrow> Inr (char_of (16 * a + b) # bs))))"

fun parse_hex :: "string \<Rightarrow> nat \<Rightarrow> nat option" where
  "parse_hex [] acc = Some acc"
| "parse_hex (c # cs) acc =
     (case hexval c of None \<Rightarrow> None | Some d \<Rightarrow> parse_hex cs (16 * acc + d))"

datatype num_error = ErrSyntax | ErrRange

text \<open>\<open>strconv.ParseUint(s, 16, bits)\<close>.\<close>

definition ParseUint16 :: "string \<Rightarrow> nat \<Rightarrow> (num_error, nat) res" where
  "ParseUint16 s bits =
     (if s = [] then Inl ErrSyntax
      else case parse_hex s 0 of None \<Rightarrow> Inl ErrSyntax
        | Some n \<Rightarrow> if n < 2 ^ bits then Inr n else Inl ErrRange)"

text \<open>\<open>strconv.ParseInt(s, 16, 0)\<close>: an optional sign, then the digits; the result fits an \<open>int\<close>.\<close>

definition ParseInt16 :: "string \<Rightarrow> (num_error, int) res" where
  "ParseInt16 s =
     (case s of [] \<Rightarrow> Inl ErrSyntax
      | c # r \<Rightarrow>
        let neg = (c = CHR ''-'');
            digits = (if c = CHR ''+'' \<or> c = CHR ''-'' then r else s)
        in (case ParseUint16 digits 64 of Inl e \<Rightarrow> Inl e
            | Inr n \<Rightarrow>
              if \<not> neg \<and> n \<ge> 2 ^ 63 then Inl ErrRange
              else if neg \<and> n > 2 ^ 63 then Inl ErrRange
              else Inr (if neg then - int n else int n)))"

fun hexstr :: "nat \<Rightarrow> string" where
  "hexstr n = (if n < 16 then [hexdigit n] else hexstr (n div 16) @ [hexdigit (n mod 16)])"

definition hex04 :: "nat \<Rightarrow> string" where
  "hex04 n = replicate (4 - length (hexstr n)) (CHR ''0'') @ hexstr n"

fun decstr :: "nat \<Rightarrow> string" where
  "decstr n = (if n < 10 then [char_of (48 + n)] else decstr (n div 10) @ [char_of (48 + n mod 10)])"

fun join :: "string \<Rightarrow> string list \<Rightarrow> string" where
  "join sep [] = []"
| "join sep [x] = x"
| "join sep (x # y # ys) = x @ sep @ join sep (y # ys)"

declare hexstr.simps [simp del] decstr.simps [simp del]

section \<open>Hexadecimal digits\<close>

lemma hexval_hexdigit [simp]:
  assumes "n < 16"
  shows "hexval (hexdigit n) = Some n"
proof -
  have "n \<in> {0, 1, 2, 3, 4, 5, 6, 7, 8, 9, 10, 11, 12, 13, 14, 15}"
    using assms unfolding insert_iff empty_iff by presburger
  then show ?thesis by (auto simp: hexdigit_def hexval_def)
qed

lemma hexval_bound: "hexval c = Some d \<Longrightarrow> d < 16"
  by (auto simp: hexval_def Let_def split: if_splits)

lemma of_char_lt: "(of_char c :: nat) < 256"
  using of_char_mod_256 [of c, where ?'a = nat] by (metis mod_less_divisor zero_less_numeral)

lemma hexdigit_neq_sign [simp]:
  assumes "n < 16"
  shows "hexdigit n \<noteq> CHR ''+''" "hexdigit n \<noteq> CHR ''-''"
  using hexval_hexdigit [OF assms] by (auto simp: hexval_def)

section \<open>encoding/hex\<close>

lemma EncodeToString_Cons [simp]:
  "EncodeToString (c # bs) =
     hexdigit (of_char c div 16) # hexdigit (of_char c mod 16) # EncodeToString bs"
  by (simp add: EncodeToString_def)

lemma EncodeToString_Nil [simp]: "EncodeToString [] = []"
  by (simp add: EncodeToString_def)

lemma length_EncodeToString [simp]: "length (EncodeToString bs) = 2 * length bs"
  by (induction bs) auto

lemma DecodeString_EncodeToString: "DecodeString (EncodeToString bs) = Inr bs"
proof (induction bs)
  case (Cons c bs)
  have "of_char c div 16 < (16::nat)" "of_char c mod 16 < (16::nat)"
    using of_char_lt [of c] by (auto simp: less_mult_imp_div_less)
  with Cons show ?case by simp
qed simp

lemma DecodeString_length: "DecodeString s = Inr bs \<Longrightarrow> length s = 2 * length bs"
  by (induction s arbitrary: bs rule: DecodeString.induct)
    (auto split: option.splits sum.splits)

section \<open>Printing and parsing numbers\<close>

lemma parse_hex_append:
  "parse_hex (xs @ ys) acc =
     (case parse_hex xs acc of None \<Rightarrow> None | Some a \<Rightarrow> parse_hex ys a)"
  by (induction xs arbitrary: acc) (auto split: option.splits)

lemma parse_hex_hexstr: "parse_hex (hexstr n) 0 = Some n"
proof (induction n rule: hexstr.induct)
  case (1 n)
  then show ?case
    by (subst hexstr.simps) (auto simp: parse_hex_append)
qed

lemma parse_hex_zeros: "parse_hex (replicate k (CHR ''0'')) 0 = Some 0"
  by (induction k) (auto simp: hexval_def)

lemma parse_hex_hex04: "parse_hex (hex04 n) 0 = Some n"
  by (simp add: hex04_def parse_hex_append parse_hex_zeros parse_hex_hexstr)

lemma parse_hex_bound: "parse_hex s acc = Some n \<Longrightarrow> n < (acc + 1) * 16 ^ length s"
proof (induction s arbitrary: acc)
  case (Cons c cs)
  then obtain d where d: "hexval c = Some d" "parse_hex cs (16 * acc + d) = Some n"
    by (auto split: option.splits)
  have "n < (16 * acc + d + 1) * 16 ^ length cs"
    using Cons.IH [OF d(2)] .
  also have "\<dots> \<le> (16 * (acc + 1)) * 16 ^ length cs"
    using hexval_bound [OF d(1)] by (intro mult_le_mono1) simp
  finally show ?case by (simp add: algebra_simps)
qed simp

lemma hexstr_not_Nil [simp]: "hexstr n \<noteq> []"
  by (subst hexstr.simps) simp

lemma length_hexstr: "0 < k \<Longrightarrow> n < 16 ^ k \<Longrightarrow> length (hexstr n) \<le> k"
proof (induction k arbitrary: n)
  case (Suc k)
  show ?case
  proof (cases "n < 16")
    case True
    then show ?thesis by (simp add: hexstr.simps [of n])
  next
    case False
    with Suc.prems have "0 < k" by (cases k) auto
    moreover have "n div 16 < 16 ^ k"
      using Suc.prems(2) by (simp add: less_mult_imp_div_less mult.commute)
    ultimately have "length (hexstr (n div 16)) \<le> k" by (rule Suc.IH)
    with False show ?thesis by (simp add: hexstr.simps [of n])
  qed
qed simp

lemma length_hex04 [simp]: "n < 65536 \<Longrightarrow> length (hex04 n) = 4"
  using length_hexstr [of 4 n] by (simp add: hex04_def)

lemma hexstr_digits: "c \<in> set (hexstr n) \<Longrightarrow> \<exists>d < 16. c = hexdigit d"
proof (induction n rule: hexstr.induct)
  case (1 n)
  have "n mod 16 < 16" by simp
  with 1 show ?case by (subst (asm) (2) hexstr.simps) (fastforce split: if_splits)
qed

lemma hex04_head:
  assumes "hex04 n = c # r"
  shows "c \<noteq> CHR ''+'' \<and> c \<noteq> CHR ''-''"
proof -
  have "c \<in> set (hex04 n)" using assms by simp
  then have "c = CHR ''0'' \<or> c \<in> set (hexstr n)" by (auto simp: hex04_def)
  then show ?thesis
  proof
    assume "c \<in> set (hexstr n)"
    then obtain d where "d < 16" "c = hexdigit d" using hexstr_digits by blast
    then show ?thesis by (simp only: hexdigit_neq_sign not_False_eq_True simp_thms)
  qed simp
qed

lemma ParseInt16_hex04:
  assumes "n < 65536"
  shows "ParseInt16 (hex04 n) = Inr (int n)"
proof -
  have "length (hex04 n) = 4" using assms by simp
  then obtain c r where cr: "hex04 n = c # r" by (cases "hex04 n") auto
  have "n < 2 ^ 63" "n < 2 ^ 64" using assms by auto
  then show ?thesis
    using hex04_head [OF cr] parse_hex_hex04 [of n]
    by (simp add: ParseInt16_def ParseUint16_def cr)
qed

lemma ParseUint16_hex04: "n < 65536 \<Longrightarrow> ParseUint16 (hex04 n) 16 = Inr n"
  by (simp add: ParseUint16_def parse_hex_hex04) (simp add: hex04_def)

section \<open>Decimal numbers and splitting\<close>

definition decval :: "char \<Rightarrow> nat option" where
  "decval c = (let n = of_char c in if 48 \<le> n \<and> n \<le> 57 then Some (n - 48) else None)"

fun parse_dec :: "string \<Rightarrow> nat \<Rightarrow> nat option" where
  "parse_dec [] acc = Some acc"
| "parse_dec (c # cs) acc =
     (case decval c of None \<Rightarrow> None | Some d \<Rightarrow> parse_dec cs (10 * acc + d))"

text \<open>\<open>strconv.Atoi\<close>: the value and the error. A number out of range gives the nearest \<open>int\<close>.\<close>

definition Atoi :: "string \<Rightarrow> int \<times> num_error option" where
  "Atoi s =
     (let neg = (take 1 s = ''-'');
          digits = (if take 1 s = ''-'' \<or> take 1 s = ''+'' then drop 1 s else s)
      in if digits = [] then (0, Some ErrSyntax)
         else case parse_dec digits 0 of
                None \<Rightarrow> (0, Some ErrSyntax)
              | Some n \<Rightarrow>
                  if \<not> neg \<and> n \<ge> 2 ^ 63 then (2 ^ 63 - 1, Some ErrRange)
                  else if neg \<and> n > 2 ^ 63 then (- (2 ^ 63), Some ErrRange)
                  else (if neg then - int n else int n, None))"

text \<open>\<open>strings.Split\<close> with a separator of one byte.\<close>

fun split_char :: "char \<Rightarrow> string \<Rightarrow> string list" where
  "split_char sep [] = [[]]"
| "split_char sep (c # cs) =
     (if c = sep then [] # split_char sep cs
      else case split_char sep cs of [] \<Rightarrow> [[c]] | w # ws \<Rightarrow> (c # w) # ws)"

lemma decval_digit [simp]: "d < 10 \<Longrightarrow> decval (char_of (48 + d)) = Some d"
  by (simp add: decval_def of_char_of)

lemma parse_dec_append:
  "parse_dec (xs @ ys) acc = (case parse_dec xs acc of None \<Rightarrow> None | Some a \<Rightarrow> parse_dec ys a)"
  by (induction xs arbitrary: acc) (auto split: option.splits)

lemma parse_dec_decstr: "parse_dec (decstr n) 0 = Some n"
proof (induction n rule: decstr.induct)
  case (1 n)
  then show ?case by (subst decstr.simps) (auto simp: parse_dec_append)
qed

lemma decstr_not_Nil [simp]: "decstr n \<noteq> []"
  by (subst decstr.simps) simp

lemma decstr_digits: "c \<in> set (decstr n) \<Longrightarrow> decval c \<noteq> None"
proof (induction n rule: decstr.induct)
  case (1 n)
  show ?case
  proof (cases "n < 10")
    case True
    then show ?thesis using 1(2) by (simp add: decstr.simps [of n])
  next
    case False
    then have "c \<in> set (decstr (n div 10)) \<or> c = char_of (48 + n mod 10)"
      using 1(2) by (auto simp: decstr.simps [of n])
    then show ?thesis using 1(1) [OF False] by auto
  qed
qed

lemma decstr_no_sign: "CHR ''-'' \<notin> set (decstr n)" "CHR ''+'' \<notin> set (decstr n)"
  using decstr_digits [of "CHR ''-''" n] decstr_digits [of "CHR ''+''" n] by (auto simp: decval_def)

lemma Atoi_decstr: "n < 2 ^ 63 \<Longrightarrow> Atoi (decstr n) = (int n, None)"
proof -
  assume n: "n < 2 ^ 63"
  obtain c r where cr: "decstr n = c # r" by (cases "decstr n") auto
  then have "c \<noteq> CHR ''-''" "c \<noteq> CHR ''+''" using decstr_no_sign [of n] by auto
  then show ?thesis using n parse_dec_decstr [of n] by (simp add: Atoi_def cr)
qed

lemma split_char_none: "sep \<notin> set s \<Longrightarrow> split_char sep s = [s]"
  by (induction s) auto

lemma split_char_once: "sep \<notin> set s \<Longrightarrow> split_char sep (s @ sep # t) = s # split_char sep t"
  by (induction s) auto

end
