(* ===== verification/Voting.thy ===== *)
theory Voting
  imports Strconv
begin

text \<open>
  Votes of reference transactions, \<open>internal/transaction/voting/vote.go\<close>. A vote is an array of
  twenty bytes. SHA-1 itself is a parameter: what the code relies on is that a digest has the size
  of a vote.
\<close>

section \<open>Definitions\<close>

type_synonym Vote = bytes

definition voteSize :: nat where
  "voteSize = 20"

definition wf_vote :: "Vote \<Rightarrow> bool" where
  "wf_vote v \<longleftrightarrow> length v = voteSize"

datatype vote_error = InvalidVoteLength nat | InvalidVoteString hex_error

definition Vote_Bytes :: "Vote \<Rightarrow> bytes" where
  "Vote_Bytes v = v"

definition Vote_String :: "Vote \<Rightarrow> string" where
  "Vote_String v = EncodeToString v"

definition VoteFromHash :: "bytes \<Rightarrow> (vote_error, Vote) res" where
  "VoteFromHash bs =
     (if length bs \<noteq> voteSize then Inl (InvalidVoteLength (length bs)) else Inr bs)"

definition VoteFromString :: "string \<Rightarrow> (vote_error, Vote) res" where
  "VoteFromString s =
     (case DecodeString s of Inl e \<Rightarrow> Inl (InvalidVoteString e) | Inr bs \<Rightarrow> VoteFromHash bs)"

definition VoteFromData :: "(bytes \<Rightarrow> bytes) \<Rightarrow> bytes \<Rightarrow> Vote" where
  "VoteFromData sha1 data = sha1 data"

text \<open>\<open>VoteHash\<close> embeds a running hash: the state is what has been written so far.\<close>

definition NewVoteHash :: bytes where
  "NewVoteHash = []"

definition VoteHash_Write :: "bytes \<Rightarrow> bytes \<Rightarrow> bytes" where
  "VoteHash_Write h p = h @ p"

definition VoteHash_Vote :: "(bytes \<Rightarrow> bytes) \<Rightarrow> bytes \<Rightarrow> (vote_error, Vote) res" where
  "VoteHash_Vote sha1 h = VoteFromHash (sha1 h)"

section \<open>Lemmas\<close>

lemma VoteFromHash_Inr [simp]: "VoteFromHash bs = Inr v \<longleftrightarrow> wf_vote bs \<and> v = bs"
  by (auto simp: VoteFromHash_def wf_vote_def)

lemma VoteFromString_String: "wf_vote v \<Longrightarrow> VoteFromString (Vote_String v) = Inr v"
  by (simp add: VoteFromString_def Vote_String_def DecodeString_EncodeToString)

lemma VoteFromString_length:
  "VoteFromString s = Inr v \<Longrightarrow> wf_vote v \<and> length s = 40"
  using DecodeString_length [of s v]
  by (auto simp: VoteFromString_def wf_vote_def voteSize_def split: sum.splits)

lemma Vote_String_inj: "Vote_String v = Vote_String w \<Longrightarrow> v = w"
  unfolding Vote_String_def using DecodeString_EncodeToString [of v] DecodeString_EncodeToString [of w]
  by (metis sum.inject(2))

end
