(* ===== verification/Subtransaction.thy ===== *)
theory Subtransaction
  imports Voting
begin

text \<open>
  A single voting session of a reference transaction,
  \<open>internal/praefect/transactions/subtransaction.go\<close>. Every method runs under the
  subtransaction's lock, so each is one atomic function of the state; the done channel is the flag
  whether it has been closed. \<open>collectVotes\<close> blocks until the channel is closed or its context is
  done: the step relation \<open>sub_step\<close> has that as the guard of its rule. The maps are association
  lists whose order is one iteration order of Go's \<open>range\<close>.
\<close>

section \<open>State\<close>

datatype VoteResult = VoteUndecided | VoteCommitted | VoteFailed | VoteCanceled | VoteStopped

record Voter =
  Name :: string
  Votes :: u64
  vote :: "Vote option"
  result :: VoteResult

record subtransaction =
  doneCh :: bool
  threshold :: u64
  votersByNode :: "(string, Voter) gomap"
  voteCounts :: "(Vote, u64) gomap"

text \<open>The errors of the package. A wrapped error keeps the error it wraps, which is what
  \<open>errors.Is\<close> looks through. \<open>CtxError\<close> is the error of a context that is done.\<close>

datatype tx_error =
    ErrDuplicateNodes | ErrMissingNodes | ErrInvalidThreshold
  | ErrTransactionFailed | ErrTransactionCanceled | ErrTransactionStopped
  | ErrNotFound
  | InvalidNode string
  | AlreadyCastVote string
  | CannotChangeCommitted
  | InvalidVoterState VoteResult
  | ChangingVote
  | AlreadyFinished
  | UndecidedState string
  | MissingVoter
  | TransactionExists
  | CtxError string
  | Wrapped string tx_error

fun errors_Is :: "tx_error \<Rightarrow> tx_error \<Rightarrow> bool" where
  "errors_Is (Wrapped msg e) target \<longleftrightarrow> Wrapped msg e = target \<or> errors_Is e target"
| "errors_Is e target \<longleftrightarrow> e = target"

section \<open>Operations\<close>

definition newSubtransaction :: "Voter list \<Rightarrow> u64 \<Rightarrow> subtransaction" where
  "newSubtransaction voters thr =
     \<lparr> doneCh = False, threshold = thr,
       votersByNode = fold (\<lambda>v m. AList.update (Name v) v m) voters [],
       voteCounts = [] \<rparr>"

definition isDone :: "subtransaction \<Rightarrow> bool" where
  "isDone t \<longleftrightarrow> doneCh t"

definition cancel_voter :: "Voter \<Rightarrow> Voter" where
  "cancel_voter v = (if result v = VoteUndecided then v\<lparr>result := VoteCanceled\<rparr> else v)"

definition sub_cancel :: "subtransaction \<Rightarrow> subtransaction" where
  "sub_cancel t =
     t\<lparr>votersByNode := map (\<lambda>(n, v). (n, cancel_voter v)) (votersByNode t), doneCh := True\<rparr>"

text \<open>The loop of \<open>stop\<close>: it returns at the first voter that has been stopped before, with the
  voters visited so far already changed. The flag says whether the loop returned early.\<close>

fun stop_voters :: "(string, Voter) gomap \<Rightarrow> (string, Voter) gomap \<times> bool" where
  "stop_voters [] = ([], False)"
| "stop_voters ((n, v) # vs) =
     (case result v of
        VoteStopped \<Rightarrow> ((n, v) # vs, True)
      | VoteUndecided \<Rightarrow>
          (let (vs', e) = stop_voters vs in ((n, v\<lparr>result := VoteStopped\<rparr>) # vs', e))
      | _ \<Rightarrow> (let (vs', e) = stop_voters vs in ((n, v) # vs', e)))"

definition sub_stop :: "subtransaction \<Rightarrow> subtransaction \<times> tx_error option" where
  "sub_stop t =
     (let (vs, early) = stop_voters (votersByNode t);
          t' = t\<lparr>votersByNode := vs\<rparr>
      in if early then (t', Some ErrTransactionStopped) else (t'\<lparr>doneCh := True\<rparr>, None))"

definition sub_state :: "subtransaction \<Rightarrow> (string, VoteResult) gomap" where
  "sub_state t = map (\<lambda>(n, v). (n, result v)) (votersByNode t)"

fun quorum_leader :: "(Vote, u64) gomap \<Rightarrow> Vote option \<Rightarrow> u64 \<Rightarrow> Vote option \<times> u64" where
  "quorum_leader [] leader majority = (leader, majority)"
| "quorum_leader ((v, voteCount) # vs) leader majority =
     (if majority < voteCount then quorum_leader vs (Some v) voteCount
      else quorum_leader vs leader majority)"

fun outstanding_votes :: "(string, Voter) gomap \<Rightarrow> u64 \<Rightarrow> u64" where
  "outstanding_votes [] outstanding = outstanding"
| "outstanding_votes ((n, v) # vs) outstanding =
     (if vote v = None \<and> result v = VoteUndecided then outstanding_votes vs (outstanding + Votes v)
      else outstanding_votes vs outstanding)"

definition quorumCheck :: "subtransaction \<Rightarrow> Vote option \<times> bool" where
  "quorumCheck t =
     (let (leader, majority) = quorum_leader (voteCounts t) None 0
      in if majority \<ge> threshold t then (leader, True)
         else (None, majority + outstanding_votes (votersByNode t) 0 \<ge> threshold t))"

definition mustSignalVoters :: "subtransaction \<Rightarrow> bool" where
  "mustSignalVoters t =
     (if isDone t then False
      else let (majorityVote, quorumPossible) = quorumCheck t
           in if majorityVote \<noteq> None then True else \<not> quorumPossible)"

text \<open>The body of the loop over all voters. It is reached with a majority vote or with
  \<open>quorumPossible\<close> false, so the comparison never sees a nil majority.\<close>

definition decide_voter :: "Vote option \<Rightarrow> bool \<Rightarrow> Voter \<Rightarrow> Voter" where
  "decide_voter majorityVote quorumPossible v =
     (if result v \<noteq> VoteUndecided then v
      else if vote v = None then v
      else if \<not> quorumPossible then v\<lparr>result := VoteFailed\<rparr>
      else if vote v = majorityVote then v\<lparr>result := VoteCommitted\<rparr>
      else v\<lparr>result := VoteFailed\<rparr>)"

text \<open>What \<open>updateVoterState\<close> does once the vote has been counted or taken back: settle the voters
  that have voted, and run the deferred signalling.\<close>

definition settle_voters :: "subtransaction \<Rightarrow> subtransaction" where
  "settle_voters t =
     (let (majorityVote, quorumPossible) = quorumCheck t;
          t' = (if majorityVote = None \<and> quorumPossible then t
                else t\<lparr>votersByNode :=
                  map (\<lambda>(n, v). (n, decide_voter majorityVote quorumPossible v)) (votersByNode t)\<rparr>)
      in if mustSignalVoters t' then t'\<lparr>doneCh := True\<rparr> else t')"

definition updateVoterState ::
    "subtransaction \<Rightarrow> string \<Rightarrow> Voter \<Rightarrow> Vote option \<Rightarrow> (tx_error, subtransaction) res" where
  "updateVoterState t node voter v =
     (case result voter of
        VoteCanceled \<Rightarrow> Inl ErrTransactionCanceled
      | VoteStopped \<Rightarrow> Inl ErrTransactionStopped
      | VoteCommitted \<Rightarrow> Inl CannotChangeCommitted
      | VoteFailed \<Rightarrow> Inl (InvalidVoterState VoteFailed)
      | VoteUndecided \<Rightarrow>
         (case v of
            Some w \<Rightarrow>
              if vote voter \<noteq> None then Inl ChangingVote
              else Inr (settle_voters
                (t\<lparr>voteCounts := AList.update w (get0 (voteCounts t) w + Votes voter) (voteCounts t),
                   votersByNode := AList.update node (voter\<lparr>vote := Some w\<rparr>) (votersByNode t)\<rparr>))
          | None \<Rightarrow>
              if isDone t then Inl AlreadyFinished
              else Inr (settle_voters
                (t\<lparr>voteCounts :=
                     (case vote voter of None \<Rightarrow> voteCounts t
                      | Some w \<Rightarrow>
                          AList.update w (get0 (voteCounts t) w - Votes voter) (voteCounts t)),
                   votersByNode :=
                     AList.update node (voter\<lparr>result := VoteCanceled, vote := None\<rparr>)
                       (votersByNode t)\<rparr>))))"

definition sub_vote :: "subtransaction \<Rightarrow> string \<Rightarrow> Vote \<Rightarrow> (tx_error, subtransaction) res" where
  "sub_vote t node v =
     (case map_of (votersByNode t) node of
        None \<Rightarrow> Inl (InvalidNode node)
      | Some voter \<Rightarrow>
          if vote voter \<noteq> None then Inl (AlreadyCastVote node)
          else (case updateVoterState t node voter (Some v) of
                  Inl e \<Rightarrow> Inl (Wrapped ''updating state of node'' e)
                | Inr t' \<Rightarrow> Inr t'))"

text \<open>The message of a failed vote: \<open>got %d/%d votes for %v\<close>.\<close>

definition too_few_votes :: "subtransaction \<Rightarrow> Vote \<Rightarrow> string" where
  "too_few_votes t v =
     ''got '' @ decstr (unat (get0 (voteCounts t) v)) @ ''/'' @ decstr (unat (threshold t)) @
     '' votes for '' @ Vote_String v"

text \<open>What \<open>collectVotes\<close> does once it has been woken up; \<open>ctxErr\<close> is the error of its context, if the
  context is done by then.\<close>

definition collectVotes ::
    "subtransaction \<Rightarrow> string option \<Rightarrow> string \<Rightarrow> subtransaction \<times> tx_error option" where
  "collectVotes t ctxErr node =
     (case map_of (votersByNode t) node of
        None \<Rightarrow> (t, Some (InvalidNode node))
      | Some voter \<Rightarrow>
         (case ctxErr of
            Some err \<Rightarrow>
              (case updateVoterState t node voter None of
                 Inl e \<Rightarrow> (t, Some (Wrapped ''cancel vote'' e))
               | Inr t' \<Rightarrow> (t', Some (CtxError err)))
          | None \<Rightarrow>
              (t, case result voter of
                    VoteCommitted \<Rightarrow> None
                  | VoteFailed \<Rightarrow>
                      if vote voter = None
                      then Some (Wrapped ''did not cast a vote'' ErrTransactionFailed)
                      else Some (Wrapped (too_few_votes t (the (vote voter))) ErrTransactionFailed)
                  | VoteCanceled \<Rightarrow> Some ErrTransactionCanceled
                  | VoteStopped \<Rightarrow> Some ErrTransactionStopped
                  | VoteUndecided \<Rightarrow> Some (UndecidedState node))))"

definition getResult :: "subtransaction \<Rightarrow> string \<Rightarrow> (tx_error, VoteResult) res" where
  "getResult t node =
     (case map_of (votersByNode t) node of
        None \<Rightarrow> Inl (InvalidNode node)
      | Some voter \<Rightarrow> Inr (result voter))"

definition getVote :: "subtransaction \<Rightarrow> string \<Rightarrow> (tx_error, Vote option) res" where
  "getVote t node =
     (case map_of (votersByNode t) node of
        None \<Rightarrow> Inl (InvalidNode node)
      | Some voter \<Rightarrow> Inr (vote voter))"

definition sub_cancelNodeVoter ::
    "subtransaction \<Rightarrow> string \<Rightarrow> (tx_error, subtransaction) res" where
  "sub_cancelNodeVoter t node =
     (case map_of (votersByNode t) node of
        None \<Rightarrow> Inl (InvalidNode node)
      | Some voter \<Rightarrow>
         (case updateVoterState t node voter None of
            Inl e \<Rightarrow> Inl (Wrapped ''cancel vote'' e)
          | Inr t' \<Rightarrow> Inr t'))"

fun getPropagatedVoters :: "subtransaction \<Rightarrow> Voter list \<Rightarrow> (tx_error, Voter list) res" where
  "getPropagatedVoters t [] = Inr []"
| "getPropagatedVoters t (voter # voters) =
     (case map_of (votersByNode t) (Name voter) of
        None \<Rightarrow> Inl MissingVoter
      | Some subVoter \<Rightarrow>
         (case getPropagatedVoters t voters of
            Inl e \<Rightarrow> Inl e
          | Inr rest \<Rightarrow>
              Inr ((if result subVoter = VoteCanceled then voter\<lparr>result := VoteCanceled\<rparr> else voter)
                   # rest)))"

section \<open>Steps\<close>

datatype sub_event =
    Cast string Vote
  | Collect string "string option"
  | CancelNode string
  | CancelAll
  | StopAll

inductive sub_step :: "subtransaction \<Rightarrow> sub_event \<Rightarrow> subtransaction \<Rightarrow> bool" where
  step_cast: "sub_vote t node v = Inr t' \<Longrightarrow> sub_step t (Cast node v) t'"
| step_collect: "isDone t \<or> ctxErr \<noteq> None \<Longrightarrow> collectVotes t ctxErr node = (t', r) \<Longrightarrow>
    sub_step t (Collect node ctxErr) t'"
| step_cancel_node: "sub_cancelNodeVoter t node = Inr t' \<Longrightarrow> sub_step t (CancelNode node) t'"
| step_cancel: "sub_step t CancelAll (sub_cancel t)"
| step_stop: "sub_stop t = (t', r) \<Longrightarrow> sub_step t StopAll t'"

text \<open>A subtransaction starts with voters that have distinct names, have not voted and are undecided
  or, when their cancellation is propagated, canceled; the threshold is a strict majority of the
  votes and the votes do not overflow, which is what \<open>newTransaction\<close> checks.\<close>

definition fresh_voter :: "Voter \<Rightarrow> bool" where
  "fresh_voter v \<longleftrightarrow> vote v = None \<and> result v \<in> {VoteUndecided, VoteCanceled}"

definition valid_threshold :: "Voter list \<Rightarrow> u64 \<Rightarrow> bool" where
  "valid_threshold voters thr \<longleftrightarrow>
     (\<Sum>v\<leftarrow>voters. unat (Votes v)) < 2 ^ 63 \<and>
     (\<Sum>v\<leftarrow>voters. unat (Votes v)) < 2 * unat thr"

definition sub_init :: "subtransaction \<Rightarrow> bool" where
  "sub_init t \<longleftrightarrow> (\<exists>voters thr. t = newSubtransaction voters thr \<and>
     distinct (map Name voters) \<and> list_all fresh_voter voters \<and> valid_threshold voters thr)"

section \<open>Invariant\<close>

text \<open>The votes cast for a value, the votes that may still be cast, and all votes.\<close>

definition cast_weight :: "Vote \<Rightarrow> Voter \<Rightarrow> nat" where
  "cast_weight v x = (if vote x = Some v then unat (Votes x) else 0)"

definition open_weight :: "Voter \<Rightarrow> nat" where
  "open_weight x = (if vote x = None \<and> result x = VoteUndecided then unat (Votes x) else 0)"

definition support :: "subtransaction \<Rightarrow> Vote \<Rightarrow> nat" where
  "support t v = wsum (cast_weight v) (votersByNode t)"

definition outstanding :: "subtransaction \<Rightarrow> nat" where
  "outstanding t = wsum open_weight (votersByNode t)"

definition totalVotes :: "subtransaction \<Rightarrow> nat" where
  "totalVotes t = wsum (\<lambda>x. unat (Votes x)) (votersByNode t)"

abbreviation is_voter :: "subtransaction \<Rightarrow> string \<Rightarrow> Voter \<Rightarrow> bool" where
  "is_voter t n x \<equiv> (n, x) \<in> set (votersByNode t)"

abbreviation quorum_for :: "subtransaction \<Rightarrow> Vote \<Rightarrow> bool" where
  "quorum_for t v \<equiv> unat (threshold t) \<le> support t v"

abbreviation quorum_impossible :: "subtransaction \<Rightarrow> bool" where
  "quorum_impossible t \<equiv> (\<forall>v. support t v + outstanding t < unat (threshold t))"

text \<open>The tallies are exact: the counters agree with the votes that have been cast.\<close>

definition sub_wf :: "subtransaction \<Rightarrow> bool" where
  "sub_wf t \<longleftrightarrow>
     wf_map (votersByNode t) \<and> wf_map (voteCounts t) \<and>
     totalVotes t < 2 ^ 63 \<and> totalVotes t < 2 * unat (threshold t) \<and>
     (\<forall>v. unat (get0 (voteCounts t) v) = support t v)"

abbreviation no_undecided :: "subtransaction \<Rightarrow> bool" where
  "no_undecided t \<equiv> (\<forall>n x. is_voter t n x \<longrightarrow> result x \<noteq> VoteUndecided)"

text \<open>What holds of a voter in each of its states, before and after the voters are settled.\<close>

definition voter_ok :: "subtransaction \<Rightarrow> Voter \<Rightarrow> bool" where
  "voter_ok t x \<longleftrightarrow>
     (case result x of
        VoteUndecided \<Rightarrow> doneCh t \<longrightarrow> (\<exists>v. quorum_for t v) \<or> quorum_impossible t
      | VoteCommitted \<Rightarrow> doneCh t \<and> (\<exists>v. vote x = Some v \<and> quorum_for t v)
      | VoteFailed \<Rightarrow> doneCh t \<and>
          (\<exists>v. vote x = Some v \<and> ((\<exists>w. w \<noteq> v \<and> quorum_for t w) \<or> quorum_impossible t))
      | VoteCanceled \<Rightarrow> True
      | VoteStopped \<Rightarrow> doneCh t \<and> no_undecided t)"

definition decided_ok :: "subtransaction \<Rightarrow> bool" where
  "decided_ok t \<longleftrightarrow> (\<forall>n x. is_voter t n x \<longrightarrow> voter_ok t x)"

definition sub_inv :: "subtransaction \<Rightarrow> bool" where
  "sub_inv t \<longleftrightarrow> sub_wf t \<and> decided_ok t \<and>
     (\<forall>n x. is_voter t n x \<longrightarrow> vote x \<noteq> None \<longrightarrow>
        (if doneCh t then result x \<noteq> VoteUndecided
         else \<not> quorum_impossible t \<and> (\<forall>v. \<not> quorum_for t v)))"

section \<open>Tallies\<close>

lemma quorum_leader_max:
  assumes "quorum_leader vc l m = (l', m')" "wf_map vc"
  shows "m \<le> m' \<and> (\<forall>v. get0 vc v \<le> m') \<and>
    (l' = l \<and> m' = m \<or> (\<exists>v. l' = Some v \<and> get0 vc v = m' \<and> m < m'))"
  using assms
proof (induction vc l m rule: quorum_leader.induct)
  case (2 v c vs l m)
  have "get0 ((v, c) # vs) w = (if w = v then c else get0 vs w)" for w
    by (simp add: get0_def)
  moreover have "get0 vs v = 0"
    using 2(4) by (simp add: wf_map_Cons get0_def map_of_eq_None_iff [THEN iffD2])
  ultimately show ?case
    using 2 by (fastforce simp: wf_map_Cons split: if_splits)
qed simp

lemma outstanding_votes_unat:
  "unat a + wsum open_weight vs < 2 ^ 64 \<Longrightarrow>
    unat (outstanding_votes vs a) = unat a + wsum open_weight vs"
proof (induction vs a rule: outstanding_votes.induct)
  case (2 n v vs a)
  show ?case
  proof (cases "vote v = None \<and> result v = VoteUndecided")
    case True
    with 2(3) have "unat (a + Votes v) = unat a + unat (Votes v)"
      by (intro unat_add_lem [THEN iffD1]) (simp add: open_weight_def)
    with 2 True show ?thesis by (simp add: open_weight_def)
  next
    case False
    with 2 show ?thesis by (auto simp: open_weight_def)
  qed
qed simp

lemma support_outstanding_total: "support t v + outstanding t \<le> totalVotes t"
  unfolding support_def outstanding_def totalVotes_def wsum_add [symmetric]
  by (rule wsum_mono) (auto simp: cast_weight_def open_weight_def)

lemma supports_total: "v \<noteq> w \<Longrightarrow> support t v + support t w \<le> totalVotes t"
  unfolding support_def totalVotes_def wsum_add [symmetric]
  by (rule wsum_mono) (auto simp: cast_weight_def)

text \<open>Two values cannot both have a quorum.\<close>

lemma quorum_unique: "sub_wf t \<Longrightarrow> quorum_for t v \<Longrightarrow> quorum_for t w \<Longrightarrow> v = w"
  using supports_total [of v w t] by (force simp: sub_wf_def)

lemma impossible_no_quorum: "quorum_impossible t \<Longrightarrow> \<not> quorum_for t v"
  using add_lessD1 not_le by blast

text \<open>The quorum check computes the three cases exactly.\<close>

lemma quorumCheck_cases:
  assumes wf: "sub_wf t"
  obtains (Quorum) v where "quorumCheck t = (Some v, True)" "quorum_for t v"
  | (Possible) "quorumCheck t = (None, True)" "\<And>v. \<not> quorum_for t v" "\<not> quorum_impossible t"
  | (Impossible) "quorumCheck t = (None, False)" "quorum_impossible t"
proof -
  obtain l m where lm: "quorum_leader (voteCounts t) None 0 = (l, m)" by fastforce
  have wfm: "wf_map (voteCounts t)" and cnt: "\<And>v. unat (get0 (voteCounts t) v) = support t v"
    and tot: "totalVotes t < 2 ^ 63" "totalVotes t < 2 * unat (threshold t)"
    using wf by (auto simp: sub_wf_def)
  have max: "\<And>v. support t v \<le> unat m"
    and lead: "l = None \<and> m = 0 \<or> (\<exists>v. l = Some v \<and> support t v = unat m)"
    using quorum_leader_max [OF lm wfm] cnt by (auto simp: word_le_nat_alt)
  have mtot: "unat m + outstanding t \<le> totalVotes t"
    using lead support_outstanding_total [of t] by (cases "m = 0") (metis add_leD2 add_0 unat_0)+
  have "unat (outstanding_votes (votersByNode t) 0) = outstanding t"
    using mtot tot outstanding_votes_unat [of 0 "votersByNode t"] by (simp add: outstanding_def)
  then have out: "unat (m + outstanding_votes (votersByNode t) 0) = unat m + outstanding t"
    using mtot tot by (subst unat_add_lem [THEN iffD1]) auto
  have thr: "0 < unat (threshold t)" using tot by simp
  show thesis
  proof (cases "threshold t \<le> m")
    case True
    then have "unat (threshold t) \<le> unat m" by (simp add: word_le_nat_alt)
    with lead thr obtain v where "l = Some v" "quorum_for t v" by auto
    with True lm show thesis by (intro Quorum [of v]) (auto simp: quorumCheck_def)
  next
    case False
    then have lt: "unat m < unat (threshold t)" by (simp add: word_le_nat_alt)
    have no: "\<not> quorum_for t v" for v using max [of v] lt by simp
    have ex: "\<exists>v. support t v = unat m"
      using lead max [of undefined] by (cases "m = 0") auto
    show thesis
    proof (cases "unat (threshold t) \<le> unat m + outstanding t")
      case True
      with False lm out have "quorumCheck t = (None, True)"
        by (auto simp: quorumCheck_def word_le_nat_alt)
      moreover have "\<not> quorum_impossible t" using ex True by (metis not_less)
      ultimately show thesis using Possible no by blast
    next
      case imp: False
      with False lm out have "quorumCheck t = (None, False)"
        by (auto simp: quorumCheck_def word_le_nat_alt)
      moreover have "quorum_impossible t" using imp max by (meson add_le_mono1 le_less_trans not_le)
      ultimately show thesis using Impossible by blast
    qed
  qed
qed

section \<open>Every operation keeps the invariant\<close>

lemma decide_voter_simps [simp]:
  "vote (decide_voter mv q x) = vote x" "Votes (decide_voter mv q x) = Votes x"
  "Name (decide_voter mv q x) = Name x"
  by (auto simp: decide_voter_def)

lemma decide_voter_unvoted [simp]: "vote x = None \<Longrightarrow> decide_voter mv q x = x"
  by (simp add: decide_voter_def)

text \<open>Changing results only, and leaving the outstanding voters alone, keeps the tallies.\<close>

lemma tallies_map:
  assumes "\<And>x. vote (f x) = vote x" "\<And>x. Votes (f x) = Votes x"
  shows "support (t\<lparr>votersByNode := map (\<lambda>(n, x). (n, f x)) (votersByNode t)\<rparr>) v = support t v"
    and "totalVotes (t\<lparr>votersByNode := map (\<lambda>(n, x). (n, f x)) (votersByNode t)\<rparr>) = totalVotes t"
  by (auto intro!: wsum_cong simp: support_def totalVotes_def wsum_mapv cast_weight_def assms)

lemma outstanding_map_eq:
  assumes "\<And>x. vote (f x) = vote x" "\<And>x. Votes (f x) = Votes x" "\<And>x. vote x = None \<Longrightarrow> f x = x"
  shows "outstanding (t\<lparr>votersByNode := map (\<lambda>(n, x). (n, f x)) (votersByNode t)\<rparr>) = outstanding t"
  unfolding outstanding_def by (auto intro!: wsum_cong simp: wsum_mapv open_weight_def assms)

lemma outstanding_map_le:
  assumes "\<And>x. vote (f x) = vote x" "\<And>x. Votes (f x) = Votes x"
    "\<And>x. result (f x) = VoteUndecided \<Longrightarrow> result x = VoteUndecided"
  shows "outstanding (t\<lparr>votersByNode := map (\<lambda>(n, x). (n, f x)) (votersByNode t)\<rparr>) \<le> outstanding t"
  unfolding outstanding_def by (auto intro!: wsum_mono simp: wsum_mapv open_weight_def assms)

lemma tallies_doneCh [simp]:
  "support (t\<lparr>doneCh := b\<rparr>) v = support t v" "outstanding (t\<lparr>doneCh := b\<rparr>) = outstanding t"
  "totalVotes (t\<lparr>doneCh := b\<rparr>) = totalVotes t"
  by (simp_all add: support_def outstanding_def totalVotes_def)

lemma sub_wf_doneCh [simp]: "sub_wf (t\<lparr>doneCh := b\<rparr>) = sub_wf t"
  by (simp add: sub_wf_def)

lemma sub_wf_map:
  assumes "sub_wf t" "\<And>x. vote (f x) = vote x" "\<And>x. Votes (f x) = Votes x"
  shows "sub_wf (t\<lparr>votersByNode := map (\<lambda>(n, x). (n, f x)) (votersByNode t)\<rparr>)"
  using assms by (simp add: sub_wf_def tallies_map)

text \<open>The state after the loop over the voters; \<open>settle_voters\<close> unfolds to one of three shapes.\<close>

definition settled :: "Vote option \<Rightarrow> bool \<Rightarrow> subtransaction \<Rightarrow> subtransaction" where
  "settled mv q t = t\<lparr>votersByNode := map (\<lambda>(n, x). (n, decide_voter mv q x)) (votersByNode t)\<rparr>"

lemma settled_simps [simp]:
  "support (settled mv q t) v = support t v" "outstanding (settled mv q t) = outstanding t"
  "totalVotes (settled mv q t) = totalVotes t" "threshold (settled mv q t) = threshold t"
  "doneCh (settled mv q t) = doneCh t" "voteCounts (settled mv q t) = voteCounts t"
  "sub_wf t \<Longrightarrow> sub_wf (settled mv q t)"
  by (simp_all add: settled_def tallies_map outstanding_map_eq sub_wf_map)

lemma quorumCheck_settled: "sub_wf t \<Longrightarrow> quorumCheck (settled mv q t) = quorumCheck t"
proof -
  have "outstanding_votes (map (\<lambda>(n, x). (n, decide_voter mv q x)) vs) a = outstanding_votes vs a"
    for vs a
    by (induction vs a rule: outstanding_votes.induct) (auto simp: decide_voter_def)
  then show ?thesis by (simp add: settled_def quorumCheck_def split: prod.splits)
qed

lemma settle_voters_settled:
  "quorumCheck t = (mv, q) \<Longrightarrow> mv \<noteq> None \<or> \<not> q \<Longrightarrow> sub_wf t \<Longrightarrow>
    settle_voters t = (settled mv q t)\<lparr>doneCh := True\<rparr>"
proof -
  assume a: "quorumCheck t = (mv, q)" "mv \<noteq> None \<or> \<not> q" "sub_wf t"
  have "settle_voters t =
      (if mustSignalVoters (settled mv q t) then (settled mv q t)\<lparr>doneCh := True\<rparr> else settled mv q t)"
    using a(1,2) by (auto simp: settle_voters_def settled_def Let_def)
  moreover have "mustSignalVoters (settled mv q t) \<longleftrightarrow> \<not> doneCh t"
    using a by (auto simp: mustSignalVoters_def isDone_def quorumCheck_settled)
  moreover have "doneCh t \<Longrightarrow> (settled mv q t)\<lparr>doneCh := True\<rparr> = settled mv q t"
    by (cases t) (simp add: settled_def)
  ultimately show ?thesis by simp
qed

lemma settle_voters_possible:
  "quorumCheck t = (None, True) \<Longrightarrow> settle_voters t = t"
  by (simp add: settle_voters_def mustSignalVoters_def)

lemma is_voter_settled:
  "is_voter (settled mv q t) n x \<longleftrightarrow> (\<exists>y. is_voter t n y \<and> x = decide_voter mv q y)"
  by (force simp: settled_def)

lemma decide_voter_result:
  "result (decide_voter mv q x) =
     (if result x \<noteq> VoteUndecided \<or> vote x = None then result x
      else if q \<and> vote x = mv then VoteCommitted else VoteFailed)"
  by (auto simp: decide_voter_def)

text \<open>A voter that keeps its state stays well-explained while quorums persist.\<close>

lemma voter_ok_mono:
  assumes "voter_ok t x" "result y = result x" "result x \<noteq> VoteUndecided \<Longrightarrow> vote y = vote x"
    "doneCh t \<Longrightarrow> doneCh t'" "result x = VoteUndecided \<Longrightarrow> doneCh t' \<Longrightarrow> doneCh t"
    "\<And>v. quorum_for t v \<Longrightarrow> quorum_for t' v"
    "quorum_impossible t \<Longrightarrow> quorum_impossible t'" "no_undecided t \<Longrightarrow> no_undecided t'"
  shows "voter_ok t' y"
proof (cases "result x")
  case VoteUndecided
  then show ?thesis using assms(1,2,5,6,7) by (auto simp: voter_ok_def)
next
  case VoteCommitted
  then show ?thesis using assms(1-4,6) by (auto simp: voter_ok_def)
next
  case VoteFailed
  then show ?thesis using assms(1-4,6,7) unfolding voter_ok_def by fastforce
next
  case VoteCanceled
  then show ?thesis using assms(2) by (simp add: voter_ok_def)
next
  case VoteStopped
  then show ?thesis using assms(1,2,4,8) unfolding voter_ok_def by fastforce
qed

text \<open>Settling the voters establishes the invariant from what an update leaves.\<close>

lemma settled_inv:
  assumes wf: "sub_wf t" and ok: "decided_ok t"
    and q: "q \<Longrightarrow> (\<exists>v. mv = Some v \<and> quorum_for t v)" "\<not> q \<Longrightarrow> quorum_impossible t"
  shows "sub_inv ((settled mv q t)\<lparr>doneCh := True\<rparr>)" (is "sub_inv ?t'")
proof -
  have dec: "(\<exists>v. quorum_for t v) \<or> quorum_impossible t" using q by blast
  have und: "no_undecided t \<Longrightarrow> no_undecided ?t'"
    by (fastforce simp: is_voter_settled decide_voter_result)
  have "voter_ok ?t' (decide_voter mv q y)" if y: "is_voter t n y" for n y
  proof (cases "result y = VoteUndecided")
    case True
    consider "vote y = None" | a where "vote y = Some a" "q" | a where "vote y = Some a" "\<not> q"
      by (cases "vote y") auto
    then show ?thesis
    proof cases
      case 1
      with True dec show ?thesis by (simp add: voter_ok_def decide_voter_result)
    next
      case (2 a)
      with q(1) obtain v where "mv = Some v" "quorum_for t v" by blast
      with True 2 show ?thesis
        by (cases "a = v") (auto simp: voter_ok_def decide_voter_result)
    next
      case 3
      with True q(2) show ?thesis by (simp add: voter_ok_def decide_voter_result)
    qed
  next
    case False
    show ?thesis
    proof (rule voter_ok_mono)
      show "voter_ok t y" using ok y by (auto simp: decided_ok_def)
    qed (use False und in \<open>auto simp: decide_voter_result\<close>)
  qed
  then have "decided_ok ?t'" by (auto simp: decided_ok_def is_voter_settled)
  moreover have "result x \<noteq> VoteUndecided" if "is_voter ?t' n x" "vote x \<noteq> None" for n x
    using that by (auto simp: is_voter_settled decide_voter_result split: if_splits)
  ultimately show ?thesis using wf by (simp add: sub_inv_def)
qed

lemma settle_voters_inv:
  assumes wf: "sub_wf t" and ok: "decided_ok t"
  shows "sub_inv (settle_voters t)"
  using wf
proof (cases rule: quorumCheck_cases)
  case (Quorum v)
  have "sub_inv ((settled (Some v) True t)\<lparr>doneCh := True\<rparr>)"
    by (rule settled_inv [OF wf ok]) (use Quorum(2) in auto)
  then show ?thesis by (simp add: settle_voters_settled [OF Quorum(1) _ wf])
next
  case Possible
  have "result x \<noteq> VoteUndecided" if "doneCh t" "is_voter t n x" for n x
    using ok that Possible(2,3) unfolding decided_ok_def voter_ok_def by fastforce
  then have "sub_inv t"
    using wf ok Possible(2,3) unfolding sub_inv_def by metis
  then show ?thesis by (simp add: settle_voters_possible [OF Possible(1)])
next
  case Impossible
  have "sub_inv ((settled None False t)\<lparr>doneCh := True\<rparr>)"
    by (rule settled_inv [OF wf ok]) (use Impossible(2) in auto)
  then show ?thesis by (simp add: settle_voters_settled [OF Impossible(1) _ wf])
qed

text \<open>Casting a vote: the tally of the value grows, what is still possible does not.\<close>

definition cast_vote :: "subtransaction \<Rightarrow> string \<Rightarrow> Voter \<Rightarrow> Vote \<Rightarrow> subtransaction" where
  "cast_vote t node voter w =
     t\<lparr>voteCounts := AList.update w (get0 (voteCounts t) w + Votes voter) (voteCounts t),
       votersByNode := AList.update node (voter\<lparr>vote := Some w\<rparr>) (votersByNode t)\<rparr>"

definition retract_vote :: "subtransaction \<Rightarrow> string \<Rightarrow> Voter \<Rightarrow> subtransaction" where
  "retract_vote t node voter =
     t\<lparr>voteCounts :=
         (case vote voter of None \<Rightarrow> voteCounts t
          | Some w \<Rightarrow> AList.update w (get0 (voteCounts t) w - Votes voter) (voteCounts t)),
       votersByNode :=
         AList.update node (voter\<lparr>result := VoteCanceled, vote := None\<rparr>) (votersByNode t)\<rparr>"

lemma updateVoterState_Some:
  "updateVoterState t node voter (Some w) = Inr t' \<longleftrightarrow>
     result voter = VoteUndecided \<and> vote voter = None \<and> t' = settle_voters (cast_vote t node voter w)"
  by (auto simp: updateVoterState_def cast_vote_def split: VoteResult.splits if_splits)

lemma updateVoterState_None:
  "updateVoterState t node voter None = Inr t' \<longleftrightarrow>
     result voter = VoteUndecided \<and> \<not> doneCh t \<and> t' = settle_voters (retract_vote t node voter)"
  by (auto simp: updateVoterState_def retract_vote_def isDone_def split: VoteResult.splits if_splits)

lemma cast_vote_simps [simp]:
  "threshold (cast_vote t node x w) = threshold t" "doneCh (cast_vote t node x w) = doneCh t"
  by (simp_all add: cast_vote_def)

lemma retract_vote_simps [simp]:
  "threshold (retract_vote t node x) = threshold t" "doneCh (retract_vote t node x) = doneCh t"
  by (simp_all add: retract_vote_def)

lemma cast_vote_tallies:
  assumes "wf_map (votersByNode t)" "map_of (votersByNode t) node = Some x"
    "result x = VoteUndecided" "vote x = None"
  shows "support (cast_vote t node x w) v = support t v + (if v = w then unat (Votes x) else 0)"
    and "outstanding (cast_vote t node x w) + unat (Votes x) = outstanding t"
    and "totalVotes (cast_vote t node x w) = totalVotes t"
  using wsum_update [OF assms(1,2), of "cast_weight v" "x\<lparr>vote := Some w\<rparr>"]
    wsum_update [OF assms(1,2), of open_weight "x\<lparr>vote := Some w\<rparr>"]
    wsum_update [OF assms(1,2), of "\<lambda>x. unat (Votes x)" "x\<lparr>vote := Some w\<rparr>"] assms(3,4)
  by (auto simp: support_def outstanding_def totalVotes_def cast_vote_def cast_weight_def open_weight_def)

lemma is_voter_cast_vote:
  "wf_map (votersByNode t) \<Longrightarrow> is_voter (cast_vote t node x w) n y \<longleftrightarrow>
     n = node \<and> y = x\<lparr>vote := Some w\<rparr> \<or> n \<noteq> node \<and> is_voter t n y"
  by (auto simp: cast_vote_def set_update)

lemma cast_vote_wf:
  assumes wf: "sub_wf t" and x: "map_of (votersByNode t) node = Some x"
    "result x = VoteUndecided" "vote x = None"
  shows "sub_wf (cast_vote t node x w)"
proof -
  have wfm: "wf_map (votersByNode t)" and cnt: "\<And>v. unat (get0 (voteCounts t) v) = support t v"
    and tot: "totalVotes t < 2 ^ 63"
    using wf by (auto simp: sub_wf_def)
  note tally = cast_vote_tallies [OF wfm x]
  have "support t w + unat (Votes x) \<le> totalVotes t"
    using support_outstanding_total [of t w] tally(2) [of w] by simp
  then have "unat (get0 (voteCounts t) w + Votes x) = support t w + unat (Votes x)"
    using tot cnt [of w] by (subst unat_add_lem [THEN iffD1]) auto
  then have "unat (get0 (voteCounts (cast_vote t node x w)) v) = support (cast_vote t node x w) v" for v
    using cnt [of v] by (simp add: tally) (simp add: cast_vote_def)
  then show ?thesis
    using wf tally(3) by (simp add: sub_wf_def) (simp add: cast_vote_def gm.invar_set)
qed

lemma cast_vote_decided:
  assumes inv: "sub_inv t" and x: "map_of (votersByNode t) node = Some x"
    "result x = VoteUndecided" "vote x = None"
  shows "decided_ok (cast_vote t node x w)"
proof -
  have wfm: "wf_map (votersByNode t)" and ok: "decided_ok t"
    using inv by (auto simp: sub_inv_def sub_wf_def)
  note tally = cast_vote_tallies [OF wfm x, of w]
  have mono: "quorum_for t v \<Longrightarrow> quorum_for (cast_vote t node x w) v" for v
    by (simp add: tally)
  have imp: "quorum_impossible t \<Longrightarrow> quorum_impossible (cast_vote t node x w)"
    using tally(2) by (simp add: tally(1)) (metis add.assoc add.commute add_leD1 le_less_trans order_refl)
  have old: "is_voter t node x" using x(1) wfm by (simp add: wf_map_of_iff)
  have "voter_ok (cast_vote t node x w) y" if y: "is_voter (cast_vote t node x w) n y" for n y
  proof (rule voter_ok_mono)
    show "voter_ok t (if n = node then x else y)"
      using y old ok wfm by (auto simp: decided_ok_def is_voter_cast_vote)
  qed (use y old x(2) wfm mono imp in \<open>auto simp: is_voter_cast_vote\<close>)
  then show ?thesis by (auto simp: decided_ok_def)
qed

text \<open>Taking a vote back happens only while the session is open.\<close>

lemma retract_vote_tallies:
  assumes "wf_map (votersByNode t)" "map_of (votersByNode t) node = Some x"
  shows "support (retract_vote t node x) v + cast_weight v x = support t v"
    and "totalVotes (retract_vote t node x) = totalVotes t"
  using wsum_update [OF assms, of "cast_weight v" "x\<lparr>result := VoteCanceled, vote := None\<rparr>"]
    wsum_update [OF assms, of "\<lambda>x. unat (Votes x)" "x\<lparr>result := VoteCanceled, vote := None\<rparr>"]
  by (auto simp: support_def totalVotes_def retract_vote_def cast_weight_def)

lemma is_voter_retract_vote:
  "wf_map (votersByNode t) \<Longrightarrow> is_voter (retract_vote t node x) n y \<longleftrightarrow>
     n = node \<and> y = x\<lparr>result := VoteCanceled, vote := None\<rparr> \<or> n \<noteq> node \<and> is_voter t n y"
  by (auto simp: retract_vote_def set_update)

lemma retract_vote_wf:
  assumes wf: "sub_wf t" and x: "map_of (votersByNode t) node = Some x"
  shows "sub_wf (retract_vote t node x)"
proof -
  have wfm: "wf_map (votersByNode t)" and cnt: "\<And>v. unat (get0 (voteCounts t) v) = support t v"
    using wf by (auto simp: sub_wf_def)
  note tally = retract_vote_tallies [OF wfm x]
  have "unat (get0 (voteCounts (retract_vote t node x)) v) = support (retract_vote t node x) v" for v
  proof (cases "vote x = Some v")
    case True
    then have "unat (Votes x) \<le> unat (get0 (voteCounts t) v)"
      using tally(1) [of v] cnt [of v] by (simp add: cast_weight_def)
    then have "unat (get0 (voteCounts t) v - Votes x) = support t v - unat (Votes x)"
      using cnt [of v] by (simp add: unat_sub word_le_nat_alt)
    with True tally(1) [of v] show ?thesis by (simp add: retract_vote_def cast_weight_def)
  next
    case False
    with tally(1) [of v] cnt [of v] show ?thesis
      by (auto simp: retract_vote_def cast_weight_def split: option.splits)
  qed
  then show ?thesis
    using wf tally(2) by (simp add: sub_wf_def)
      (auto simp: retract_vote_def gm.invar_set split: option.splits)
qed

lemma open_results:
  "decided_ok t \<Longrightarrow> \<not> doneCh t \<Longrightarrow> is_voter t n y \<Longrightarrow> result y \<in> {VoteUndecided, VoteCanceled}"
  unfolding decided_ok_def voter_ok_def by (cases "result y") fastforce+

lemma retract_vote_decided:
  assumes "sub_inv t" "\<not> doneCh t"
  shows "decided_ok (retract_vote t node x)"
proof -
  have "wf_map (votersByNode t)" "\<And>n y. is_voter t n y \<Longrightarrow> result y \<in> {VoteUndecided, VoteCanceled}"
    using assms open_results [of t] by (auto simp: sub_inv_def sub_wf_def)
  then show ?thesis
    using assms(2) by (fastforce simp: decided_ok_def voter_ok_def is_voter_retract_vote)
qed

lemma updateVoterState_inv:
  assumes "sub_inv t" "map_of (votersByNode t) node = Some x" "updateVoterState t node x v = Inr t'"
  shows "sub_inv t'"
proof (cases v)
  case None
  with assms show ?thesis
    by (auto simp: updateVoterState_None sub_inv_def [of t]
        intro!: settle_voters_inv retract_vote_wf retract_vote_decided)
next
  case (Some w)
  with assms show ?thesis
    by (auto simp: updateVoterState_Some sub_inv_def [of t]
        intro!: settle_voters_inv cast_vote_wf cast_vote_decided)
qed

lemma sub_vote_inv: "sub_inv t \<Longrightarrow> sub_vote t node v = Inr t' \<Longrightarrow> sub_inv t'"
  by (auto simp: sub_vote_def dest: updateVoterState_inv split: option.splits if_splits sum.splits)

lemma sub_cancelNodeVoter_inv: "sub_inv t \<Longrightarrow> sub_cancelNodeVoter t node = Inr t' \<Longrightarrow> sub_inv t'"
  by (auto simp: sub_cancelNodeVoter_def dest: updateVoterState_inv split: option.splits sum.splits)

lemma collectVotes_inv: "sub_inv t \<Longrightarrow> collectVotes t ctxErr node = (t', r) \<Longrightarrow> sub_inv t'"
  by (auto simp: collectVotes_def dest: updateVoterState_inv split: option.splits sum.splits)

text \<open>Canceling and stopping everything closes the session and leaves nobody undecided.\<close>

definition close_with :: "VoteResult \<Rightarrow> Voter \<Rightarrow> Voter" where
  "close_with r v = (if result v = VoteUndecided then v\<lparr>result := r\<rparr> else v)"

lemma close_with_simps [simp]:
  "vote (close_with r x) = vote x" "Votes (close_with r x) = Votes x"
  "result (close_with r x) = (if result x = VoteUndecided then r else result x)"
  by (simp_all add: close_with_def)

definition closed :: "VoteResult \<Rightarrow> subtransaction \<Rightarrow> subtransaction" where
  "closed r t = t\<lparr>votersByNode := map (\<lambda>(n, x). (n, close_with r x)) (votersByNode t), doneCh := True\<rparr>"

lemma closed_inv:
  assumes inv: "sub_inv t" and r: "r \<in> {VoteCanceled, VoteStopped}"
  shows "sub_inv (closed r t)"
proof -
  let ?u = "t\<lparr>votersByNode := map (\<lambda>(n, x). (n, close_with r x)) (votersByNode t)\<rparr>"
  have cl: "closed r t = ?u\<lparr>doneCh := True\<rparr>" by (simp add: closed_def)
  have tally: "support ?u v = support t v" "outstanding ?u \<le> outstanding t" for v
    by (rule tallies_map(1), simp, simp) (rule outstanding_map_le, use r in \<open>auto split: if_splits\<close>)
  have mem: "is_voter (closed r t) n x \<longleftrightarrow> (\<exists>y. is_voter t n y \<and> x = close_with r y)" for n x
    by (force simp: cl)
  have und: "no_undecided (closed r t)" using r by (auto simp: mem split: if_splits)
  have "sub_wf (closed r t)"
    unfolding cl sub_wf_doneCh by (rule sub_wf_map) (use inv in \<open>auto simp: sub_inv_def\<close>)
  moreover have "voter_ok (closed r t) (close_with r y)" if y: "is_voter t n y" for n y
  proof (cases "result y = VoteUndecided")
    case True
    then show ?thesis using r und by (auto simp: voter_ok_def closed_def)
  next
    case False
    show ?thesis
    proof (rule voter_ok_mono)
      show "voter_ok t y" using y inv by (auto simp: sub_inv_def decided_ok_def)
      show "quorum_impossible (closed r t)" if "quorum_impossible t"
        using that tally by (simp add: cl) (meson add_le_cancel_left le_less_trans)
      show "quorum_for (closed r t) v" if "quorum_for t v" for v
        using that tally(1) [of v] by (simp add: cl)
    qed (use False und in \<open>auto simp: cl\<close>)
  qed
  ultimately show ?thesis using und by (auto simp: sub_inv_def decided_ok_def mem closed_def)
qed

lemma sub_cancel_closed: "sub_cancel t = closed VoteCanceled t"
  by (simp add: sub_cancel_def closed_def cancel_voter_def close_with_def)

lemma stop_voters_no_stopped:
  "\<forall>(n, x) \<in> set vs. result x \<noteq> VoteStopped \<Longrightarrow>
    stop_voters vs = (map (\<lambda>(n, x). (n, close_with VoteStopped x)) vs, False)"
  by (induction vs rule: stop_voters.induct) (auto simp: close_with_def split: VoteResult.splits)

lemma stop_voters_no_undecided:
  "\<forall>(n, x) \<in> set vs. result x \<noteq> VoteUndecided \<Longrightarrow> fst (stop_voters vs) = vs"
  by (induction vs rule: stop_voters.induct) (auto split: VoteResult.splits prod.splits)

lemma stop_voters_early:
  "snd (stop_voters vs) \<longleftrightarrow> (\<exists>n x. (n, x) \<in> set vs \<and> result x = VoteStopped)"
  by (induction vs rule: stop_voters.induct) (fastforce split: VoteResult.splits prod.splits)+

text \<open>Whatever the order in which the voters are visited, stopping is all or nothing.\<close>

lemma sub_stop_cases:
  assumes inv: "sub_inv t"
  shows "sub_stop t =
    (if \<exists>n x. is_voter t n x \<and> result x = VoteStopped then (t, Some ErrTransactionStopped)
     else (closed VoteStopped t, None))"
proof (cases "\<exists>n x. is_voter t n x \<and> result x = VoteStopped")
  case True
  then have "no_undecided t"
    using inv unfolding sub_inv_def decided_ok_def voter_ok_def by fastforce
  then have "fst (stop_voters (votersByNode t)) = votersByNode t"
    by (intro stop_voters_no_undecided) auto
  moreover have "snd (stop_voters (votersByNode t))"
    using True by (auto simp: stop_voters_early)
  ultimately show ?thesis using True by (auto simp: sub_stop_def Let_def split: prod.splits)
next
  case False
  then have "stop_voters (votersByNode t) =
      (map (\<lambda>(n, x). (n, close_with VoteStopped x)) (votersByNode t), False)"
    by (intro stop_voters_no_stopped) auto
  with False show ?thesis by (simp add: sub_stop_def closed_def)
qed

lemma sub_stop_inv: "sub_inv t \<Longrightarrow> sub_stop t = (t', r) \<Longrightarrow> sub_inv t'"
  by (auto simp: sub_stop_cases closed_inv split: if_splits)

text \<open>The initial state.\<close>

lemma fold_update_distinct:
  "distinct (map Name vs) \<Longrightarrow> \<forall>v \<in> set vs. Name v \<notin> fst ` set m \<Longrightarrow>
    fold (\<lambda>v m. AList.update (Name v) v m) vs m = m @ map (\<lambda>v. (Name v, v)) vs"
proof (induction vs arbitrary: m)
  case (Cons v vs)
  have "AList.update (Name v) v m = m @ [(Name v, v)]" if "Name v \<notin> fst ` set m" for m
    using that by (induction m) auto
  moreover have "\<forall>u \<in> set vs. Name u \<notin> fst ` set (m @ [(Name v, v)])"
    using Cons.prems by (auto simp: image_iff)
  ultimately show ?case using Cons.prems Cons.IH [of "m @ [(Name v, v)]"] by simp
qed simp

lemma newSubtransaction_voters:
  "distinct (map Name voters) \<Longrightarrow>
    votersByNode (newSubtransaction voters thr) = map (\<lambda>v. (Name v, v)) voters"
  by (simp add: newSubtransaction_def fold_update_distinct)

lemma newSubtransaction_simps [simp]:
  "doneCh (newSubtransaction voters thr) = False" "threshold (newSubtransaction voters thr) = thr"
  "voteCounts (newSubtransaction voters thr) = []"
  by (simp_all add: newSubtransaction_def)

lemma newSubtransaction_inv:
  assumes d: "distinct (map Name voters)" and f: "list_all fresh_voter voters"
    and v: "valid_threshold voters thr"
  shows "sub_inv (newSubtransaction voters thr)"
proof -
  let ?t = "newSubtransaction voters thr"
  have tot: "totalVotes ?t = (\<Sum>v\<leftarrow>voters. unat (Votes v))"
    by (simp add: totalVotes_def newSubtransaction_voters [OF d] wsum_def comp_def)
  have fr: "vote x = None \<and> result x \<in> {VoteUndecided, VoteCanceled}" if "is_voter ?t n x" for n x
    using that f by (auto simp: newSubtransaction_voters [OF d] list_all_iff fresh_voter_def)
  have "support ?t w = wsum (\<lambda>_. 0) (votersByNode ?t)" for w
    unfolding support_def using fr by (intro wsum_cong) (auto simp: cast_weight_def)
  then have sup: "support ?t w = 0" for w by (simp add: wsum_def)
  have "sub_wf ?t"
    using v d tot by (simp add: sub_wf_def sup valid_threshold_def newSubtransaction_voters wf_map_def comp_def)
  moreover have "decided_ok ?t"
    using fr by (fastforce simp: decided_ok_def voter_ok_def)
  ultimately show ?thesis using fr by (auto simp: sub_inv_def)
qed

interpretation sub: invariant_of sub_init sub_step sub_inv
proof unfold_locales
  fix t t' e
  show "sub_init t \<Longrightarrow> sub_inv t"
    by (auto simp: sub_init_def newSubtransaction_inv)
  show "sub_inv t \<Longrightarrow> sub_step t e t' \<Longrightarrow> sub_inv t'"
    by (auto elim!: sub_step.cases intro: sub_vote_inv collectVotes_inv sub_cancelNodeVoter_inv
        sub_stop_inv simp: sub_cancel_closed closed_inv)
qed

abbreviation sub_reachable :: "subtransaction \<Rightarrow> bool" where
  "sub_reachable \<equiv> reachable sub_init sub_step"

lemma sub_reachable_vote: "sub_reachable t \<Longrightarrow> sub_vote t node v = Inr t' \<Longrightarrow> sub_reachable t'"
  by (rule reach_step [where e = "Cast node v"]) (auto intro: step_cast)

section \<open>Properties\<close>

text \<open>C1: Agreement. In every reachable state of a subtransaction, two voters that have committed
  have cast the same vote, and the votes cast for it reach the threshold.\<close>

theorem subtransaction_agreement:
  assumes "sub_reachable t" "is_voter t n x" "is_voter t m y"
    "result x = VoteCommitted" "result y = VoteCommitted"
  shows "\<exists>v. vote x = Some v \<and> vote y = Some v \<and> unat (threshold t) \<le> support t v"
proof -
  have inv: "sub_inv t" by (rule sub.reachable_inv) (rule assms)
  then have "voter_ok t x" "voter_ok t y" using assms(2,3) by (auto simp: sub_inv_def decided_ok_def)
  with assms(4,5) obtain v w where "vote x = Some v" "quorum_for t v" "vote y = Some w" "quorum_for t w"
    by (auto simp: voter_ok_def)
  with inv show ?thesis using quorum_unique [of t v w] by (auto simp: sub_inv_def)
qed

text \<open>Three voters with one vote each and a threshold of two; the first two agree.\<close>

definition demo_voters :: "Voter list" where
  "demo_voters = map (\<lambda>n. \<lparr>Name = n, Votes = 1, vote = None, result = VoteUndecided\<rparr>) [''a'', ''b'', ''c'']"

definition demo_sub :: subtransaction where
  "demo_sub = newSubtransaction demo_voters 2"

lemma demo_sub_init: "sub_init demo_sub"
  unfolding sub_init_def demo_sub_def
  by (intro exI conjI, rule refl)
    (simp_all add: demo_voters_def fresh_voter_def valid_threshold_def)

definition demo_sub2 :: subtransaction where
  "demo_sub2 = projr (sub_vote (projr (sub_vote demo_sub ''a'' ''x'')) ''b'' ''x'')"

lemmas demo_eval = demo_sub_def demo_voters_def newSubtransaction_def sub_vote_def updateVoterState_def
  settle_voters_def mustSignalVoters_def isDone_def quorumCheck_def get0_def decide_voter_def

lemma demo_sub2_eval:
  "demo_sub2 = \<lparr>doneCh = True, threshold = 2,
     votersByNode = [(''a'', \<lparr>Name = ''a'', Votes = 1, vote = Some ''x'', result = VoteCommitted\<rparr>),
       (''b'', \<lparr>Name = ''b'', Votes = 1, vote = Some ''x'', result = VoteCommitted\<rparr>),
       (''c'', \<lparr>Name = ''c'', Votes = 1, vote = None, result = VoteUndecided\<rparr>)],
     voteCounts = [(''x'', 2)]\<rparr>"
  by (simp add: demo_sub2_def demo_eval)

lemma demo_sub2_reachable: "sub_reachable demo_sub2"
proof -
  obtain t1 where t1: "sub_vote demo_sub ''a'' ''x'' = Inr t1" by (simp add: demo_eval)
  obtain t2 where t2: "sub_vote t1 ''b'' ''x'' = Inr t2" using t1 by (auto simp: demo_eval)
  have "sub_reachable demo_sub" using demo_sub_init by (rule reach_init)
  then have "sub_reachable t2" using t1 t2 by (blast intro: sub_reachable_vote)
  then show ?thesis using t1 t2 by (simp add: demo_sub2_def)
qed

theorem subtransaction_agreement_witness:
  "\<exists>v. Some ''x'' = Some v \<and> Some ''x'' = Some v \<and> unat (threshold demo_sub2) \<le> support demo_sub2 v"
  using subtransaction_agreement [OF demo_sub2_reachable,
      of "''a''" "\<lparr>Name = ''a'', Votes = 1, vote = Some ''x'', result = VoteCommitted\<rparr>"
         "''b''" "\<lparr>Name = ''b'', Votes = 1, vote = Some ''x'', result = VoteCommitted\<rparr>"]
  by (simp add: demo_sub2_eval)

text \<open>What a waiting voter learns. After its vote has been cast and the session is done, a voter
  whose context is still alive gets success only if its vote reached the threshold, the quorum
  failure only if it did not, and never the error of an undecided voter.\<close>

theorem collectVotes_outcome:
  assumes "sub_reachable t" "doneCh t" "map_of (votersByNode t) node = Some x" "vote x = Some v"
  shows "\<exists>r. collectVotes t None node = (t, r) \<and>
    (r = None \<longrightarrow> unat (threshold t) \<le> support t v) \<and>
    (\<forall>e. r = Some e \<longrightarrow> errors_Is e ErrTransactionFailed \<longrightarrow> support t v < unat (threshold t)) \<and>
    (r = None \<or> (\<exists>e \<in> {ErrTransactionFailed, ErrTransactionCanceled, ErrTransactionStopped}.
       \<exists>e'. r = Some e' \<and> errors_Is e' e))"
proof -
  have inv: "sub_inv t" by (rule sub.reachable_inv) (rule assms)
  then have vx: "is_voter t node x" using assms(3) by (simp add: sub_inv_def sub_wf_def wf_map_of_iff)
  then have ok: "voter_ok t x" and und: "result x \<noteq> VoteUndecided"
    using inv assms(2,4) by (auto simp: sub_inv_def decided_ok_def)
  have uniq: "support t v < unat (threshold t)" if "result x = VoteFailed"
  proof -
    from ok that assms(4) consider w where "w \<noteq> v" "quorum_for t w" | "quorum_impossible t"
      by (auto simp: voter_ok_def)
    then show ?thesis
    proof cases
      case (1 w)
      moreover have "sub_wf t" using inv by (simp add: sub_inv_def)
      ultimately show ?thesis using quorum_unique [of t v w] by (cases "quorum_for t v") auto
    next
      case 2
      then show ?thesis using add_lessD1 by blast
    qed
  qed
  have com: "result x = VoteCommitted \<Longrightarrow> quorum_for t v" using ok assms(4) by (auto simp: voter_ok_def)
  show ?thesis
    using und com uniq assms(3,4) by (cases "result x") (simp_all add: collectVotes_def)
qed

theorem collectVotes_outcome_witness:
  "\<exists>r. collectVotes demo_sub2 None ''a'' = (demo_sub2, r) \<and>
    (r = None \<longrightarrow> unat (threshold demo_sub2) \<le> support demo_sub2 ''x'')"
proof -
  have "doneCh demo_sub2" "map_of (votersByNode demo_sub2) ''a'' =
      Some \<lparr>Name = ''a'', Votes = 1, vote = Some ''x'', result = VoteCommitted\<rparr>"
    by (simp_all add: demo_sub2_eval)
  from collectVotes_outcome [OF demo_sub2_reachable this, of "''x''"] show ?thesis by auto
qed

text \<open>C2: No voter waits forever for a vote that cannot come. Once somebody has voted and every voter
  has either voted or been decided, the session is done and every waiting \<open>collectVotes\<close> can
  proceed.\<close>

theorem all_voted_done:
  assumes "sub_reachable t" "is_voter t n x" "vote x \<noteq> None"
    "\<And>m y. is_voter t m y \<Longrightarrow> vote y = None \<Longrightarrow> result y \<noteq> VoteUndecided"
  shows "doneCh t"
proof (rule ccontr)
  assume nd: "\<not> doneCh t"
  have inv: "sub_inv t" by (rule sub.reachable_inv) (rule assms)
  have "outstanding t = wsum (\<lambda>_. 0) (votersByNode t)"
    unfolding outstanding_def using assms(4) by (intro wsum_cong) (auto simp: open_weight_def)
  then have "outstanding t = 0" by (simp add: wsum_def)
  with inv nd assms(2,3) show False by (auto simp: sub_inv_def not_less)
qed

theorem all_voted_done_witness:
  "doneCh (projr (sub_vote demo_sub2 ''c'' ''y''))"
proof -
  obtain t where t: "sub_vote demo_sub2 ''c'' ''y'' = Inr t"
    "votersByNode t = [(''a'', \<lparr>Name = ''a'', Votes = 1, vote = Some ''x'', result = VoteCommitted\<rparr>),
       (''b'', \<lparr>Name = ''b'', Votes = 1, vote = Some ''x'', result = VoteCommitted\<rparr>),
       (''c'', \<lparr>Name = ''c'', Votes = 1, vote = Some ''y'', result = VoteFailed\<rparr>)]"
    by (simp add: demo_sub2_eval demo_eval)
  have "sub_reachable t" using demo_sub2_reachable t(1) by (rule sub_reachable_vote)
  moreover have "is_voter t ''a'' \<lparr>Name = ''a'', Votes = 1, vote = Some ''x'', result = VoteCommitted\<rparr>"
    by (simp add: t(2))
  ultimately have "doneCh t" by (rule all_voted_done) (auto simp: t(2))
  then show ?thesis by (simp add: t(1))
qed

text \<open>The quorum check does not depend on the order in which Go iterates over the two maps: every
  permutation of the vote counters and of the voters gives the same verdict.\<close>

theorem quorumCheck_order_independent:
  assumes wf: "sub_wf t" and v: "mset vs = mset (votersByNode t)" and c: "mset cs = mset (voteCounts t)"
  shows "quorumCheck (t\<lparr>votersByNode := vs, voteCounts := cs\<rparr>) = quorumCheck t"
proof -
  let ?t = "t\<lparr>votersByNode := vs, voteCounts := cs\<rparr>"
  have tally: "support ?t u = support t u" "outstanding ?t = outstanding t"
    "totalVotes ?t = totalVotes t" for u
    using wsum_mset [OF v] by (simp_all add: support_def outstanding_def totalVotes_def)
  have "sub_wf ?t"
    using wf wf_map_mset [OF v] wf_map_mset [OF c] get0_mset [OF c [symmetric]]
    by (simp add: sub_wf_def tally)
  then show ?thesis
  proof (cases rule: quorumCheck_cases)
    case (Quorum u)
    then show ?thesis
      using wf quorum_unique [OF wf] impossible_no_quorum [of t u]
      by (cases rule: quorumCheck_cases [OF wf]) (auto simp: tally)
  next
    case Possible
    then show ?thesis by (cases rule: quorumCheck_cases [OF wf]) (auto simp: tally)
  next
    case Impossible
    then show ?thesis
      using impossible_no_quorum [of t] by (cases rule: quorumCheck_cases [OF wf]) (auto simp: tally)
  qed
qed

theorem quorumCheck_order_independent_witness:
  "quorumCheck (demo_sub2\<lparr>votersByNode := rev (votersByNode demo_sub2), voteCounts := voteCounts demo_sub2\<rparr>)
     = (Some ''x'', True)"
proof -
  have "sub_wf demo_sub2" using sub.reachable_inv [OF demo_sub2_reachable] by (simp add: sub_inv_def)
  moreover have "quorumCheck demo_sub2 = (Some ''x'', True)" by (simp add: demo_sub2_eval quorumCheck_def)
  ultimately show ?thesis
    by (subst quorumCheck_order_independent) simp_all
qed

text \<open>A step leaves the state of a decided voter alone.\<close>

lemma settle_voters_keeps:
  assumes "is_voter t n x" "result x \<noteq> VoteUndecided" "sub_wf t"
  shows "is_voter (settle_voters t) n x"
  using assms(3)
proof (cases rule: quorumCheck_cases)
  case Possible
  then show ?thesis using assms(1) by (simp add: settle_voters_possible)
qed (use assms in \<open>auto simp: settle_voters_settled is_voter_settled decide_voter_def\<close>)

lemma updateVoterState_keeps:
  assumes inv: "sub_inv t" and x: "is_voter t n x" "result x \<noteq> VoteUndecided"
    and u: "map_of (votersByNode t) node = Some y" "updateVoterState t node y v = Inr t'"
  shows "is_voter t' n x"
proof -
  have wf: "sub_wf t" "wf_map (votersByNode t)" using inv by (auto simp: sub_inv_def sub_wf_def)
  have y: "result y = VoteUndecided"
    using u(2) by (cases v) (auto simp: updateVoterState_Some updateVoterState_None)
  have ne: "n \<noteq> node"
    using x u(1) y wf(2) by (metis option.inject wf_map_of_iff)
  show ?thesis
  proof (cases v)
    case None
    with u wf ne x show ?thesis
      by (auto simp: updateVoterState_None is_voter_retract_vote intro!: settle_voters_keeps retract_vote_wf)
  next
    case (Some w)
    with u wf ne x show ?thesis
      by (auto simp: updateVoterState_Some is_voter_cast_vote intro!: settle_voters_keeps cast_vote_wf)
  qed
qed

lemma closed_keeps: "is_voter t n x \<Longrightarrow> result x \<noteq> VoteUndecided \<Longrightarrow> is_voter (closed r t) n x"
  by (force simp: closed_def close_with_def)

text \<open>C3: Decisions are final. Whatever step a subtransaction takes, a voter that has been committed,
  failed, canceled or stopped keeps its vote and its result.\<close>

theorem decisions_are_final:
  assumes r: "sub_reachable t" and s: "sub_step t e t'" and x: "is_voter t n x" "result x \<noteq> VoteUndecided"
  shows "is_voter t' n x"
proof -
  have inv: "sub_inv t" using r by (rule sub.reachable_inv)
  note keep = updateVoterState_keeps [OF inv x]
  from s show ?thesis
  proof cases
    case (step_cast node v)
    then show ?thesis by (auto simp: sub_vote_def split: option.splits if_splits sum.splits intro: keep)
  next
    case (step_collect ctxErr node r)
    then show ?thesis using x by (auto simp: collectVotes_def split: option.splits sum.splits intro: keep)
  next
    case (step_cancel_node node)
    then show ?thesis by (auto simp: sub_cancelNodeVoter_def split: option.splits sum.splits intro: keep)
  next
    case step_cancel
    then show ?thesis using x by (simp add: sub_cancel_closed closed_keeps)
  next
    case (step_stop r)
    then show ?thesis using x by (auto simp: sub_stop_cases [OF inv] closed_keeps split: if_splits)
  qed
qed

theorem decisions_are_final_witness:
  "is_voter (sub_cancel demo_sub2) ''a''
     \<lparr>Name = ''a'', Votes = 1, vote = Some ''x'', result = VoteCommitted\<rparr>"
  by (rule decisions_are_final [OF demo_sub2_reachable step_cancel]) (simp_all add: demo_sub2_eval)

end
