(* ===== verification/Transaction.thy ===== *)
theory Transaction
  imports Subtransaction
begin

text \<open>
  Transactions, \<open>internal/praefect/transactions/transaction.go\<close>: a sequence of subtransactions all
  voters go through. A pointer to a subtransaction is its index, which never changes since the slice
  only grows. \<open>transaction.vote\<close> is not atomic: another goroutine may run between looking up the
  subtransaction, casting the vote and waiting for the outcome, so the step relation \<open>tx_step\<close> has
  one rule for each part and keeps the calls in flight.
\<close>

section \<open>State\<close>

datatype transactionState = transactionOpen | transactionCanceled | transactionStopped

record transaction =
  tx_id :: u64
  tx_threshold :: u64
  tx_voters :: "Voter list"
  tx_state :: transactionState
  subtransactions :: "subtransaction list"

section \<open>Operations\<close>

fun check_voters :: "Voter list \<Rightarrow> string list \<Rightarrow> u64 \<Rightarrow> (tx_error, u64) res" where
  "check_voters [] seen acc = Inr acc"
| "check_voters (v # vs) seen acc =
     (if Name v \<in> set seen then Inl ErrDuplicateNodes
      else check_voters vs (Name v # seen) (acc + Votes v))"

definition newTransaction :: "u64 \<Rightarrow> Voter list \<Rightarrow> u64 \<Rightarrow> (tx_error, transaction) res" where
  "newTransaction i voters thr =
     (if voters = [] then Inl ErrMissingNodes
      else case check_voters voters [] 0 of
        Inl e \<Rightarrow> Inl e
      | Inr allVotes \<Rightarrow>
          if allVotes < thr then Inl ErrInvalidThreshold
          else if thr * 2 \<le> allVotes then Inl ErrInvalidThreshold
          else Inr \<lparr>tx_id = i, tx_threshold = thr, tx_voters = voters,
                    tx_state = transactionOpen, subtransactions = []\<rparr>)"

definition tx_cancel :: "transaction \<Rightarrow> transaction" where
  "tx_cancel t =
     t\<lparr>subtransactions := map sub_cancel (subtransactions t), tx_state := transactionCanceled\<rparr>"

fun stop_subs :: "subtransaction list \<Rightarrow> subtransaction list \<times> tx_error option" where
  "stop_subs [] = ([], None)"
| "stop_subs (s # ss) =
     (case sub_stop s of
        (s', Some e) \<Rightarrow> (s' # ss, Some e)
      | (s', None) \<Rightarrow> (let (ss', r) = stop_subs ss in (s' # ss', r)))"

definition tx_stop :: "transaction \<Rightarrow> transaction \<times> tx_error option" where
  "tx_stop t =
     (case stop_subs (subtransactions t) of
        (ss, Some e) \<Rightarrow> (t\<lparr>subtransactions := ss\<rparr>, Some e)
      | (ss, None) \<Rightarrow> (t\<lparr>subtransactions := ss, tx_state := transactionStopped\<rparr>, None))"

definition ID :: "transaction \<Rightarrow> u64" where
  "ID t = tx_id t"

definition tx_State :: "transaction \<Rightarrow> (string, VoteResult) gomap" where
  "tx_State t =
     (if subtransactions t = [] then
        fold (\<lambda>v m. AList.update (Name v)
               (case tx_state t of transactionOpen \<Rightarrow> VoteUndecided
                | transactionCanceled \<Rightarrow> VoteCanceled | transactionStopped \<Rightarrow> VoteStopped) m)
          (tx_voters t) []
      else fold (\<lambda>(n, r) m. AList.update n r m) (sub_state (last (subtransactions t))) [])"

definition CountSubtransactions :: "transaction \<Rightarrow> nat" where
  "CountSubtransactions t = length (subtransactions t)"

definition DidVote :: "transaction \<Rightarrow> string \<Rightarrow> bool" where
  "DidVote t node =
     (case subtransactions t of
        [] \<Rightarrow> False
      | s # _ \<Rightarrow> (case getVote s node of Inl _ \<Rightarrow> False | Inr v \<Rightarrow> v \<noteq> None))"

text \<open>The pending subtransactions of a node are the ones from the returned index on; an index equal
  to their number means that there are none.\<close>

fun pending_from :: "string \<Rightarrow> subtransaction list \<Rightarrow> nat \<Rightarrow> (tx_error, nat) res" where
  "pending_from node [] i = Inr i"
| "pending_from node (s # ss) i =
     (case getResult s node of
        Inl e \<Rightarrow> Inl e
      | Inr r \<Rightarrow>
         (case r of
            VoteUndecided \<Rightarrow> Inr i
          | VoteCommitted \<Rightarrow> pending_from node ss (Suc i)
          | VoteFailed \<Rightarrow> Inl ErrTransactionFailed
          | VoteCanceled \<Rightarrow> Inl ErrTransactionCanceled
          | VoteStopped \<Rightarrow> Inl ErrTransactionStopped))"

definition getPendingNodeSubtransactions :: "transaction \<Rightarrow> string \<Rightarrow> (tx_error, nat) res" where
  "getPendingNodeSubtransactions t node = pending_from node (subtransactions t) 0"

definition createSubtransaction :: "transaction \<Rightarrow> (tx_error, subtransaction) res" where
  "createSubtransaction t =
     (if subtransactions t = [] then Inr (newSubtransaction (tx_voters t) (tx_threshold t))
      else case getPropagatedVoters (last (subtransactions t)) (tx_voters t) of
             Inl e \<Rightarrow> Inl e
           | Inr vs \<Rightarrow> Inr (newSubtransaction vs (tx_threshold t)))"

definition getOrCreateSubtransaction ::
    "transaction \<Rightarrow> string \<Rightarrow> (tx_error, transaction \<times> nat) res" where
  "getOrCreateSubtransaction t node =
     (case tx_state t of
        transactionCanceled \<Rightarrow> Inl ErrTransactionCanceled
      | transactionStopped \<Rightarrow> Inl ErrTransactionStopped
      | transactionOpen \<Rightarrow>
         (case getPendingNodeSubtransactions t node of
            Inl e \<Rightarrow> Inl e
          | Inr i \<Rightarrow>
              if i < length (subtransactions t) then Inr (t, i)
              else (case createSubtransaction t of
                      Inl e \<Rightarrow> Inl e
                    | Inr s \<Rightarrow>
                        Inr (t\<lparr>subtransactions := subtransactions t @ [s]\<rparr>,
                             length (subtransactions t)))))"

text \<open>\<open>transaction.vote\<close> up to the point where it waits: the subtransaction it waits on, or the error
  it returns.\<close>

definition tx_cast :: "transaction \<Rightarrow> nat \<Rightarrow> string \<Rightarrow> Vote \<Rightarrow> transaction \<times> tx_error option" where
  "tx_cast t i node v =
     (case sub_vote (subtransactions t ! i) node v of
        Inl e \<Rightarrow> (t, Some e)
      | Inr s \<Rightarrow> (t\<lparr>subtransactions := (subtransactions t)[i := s]\<rparr>, None))"

definition tx_vote_begin ::
    "transaction \<Rightarrow> string \<Rightarrow> Vote \<Rightarrow> transaction \<times> (tx_error, nat) res" where
  "tx_vote_begin t node v =
     (case getOrCreateSubtransaction t node of
        Inl e \<Rightarrow> (t, Inl e)
      | Inr (t', i) \<Rightarrow>
         (case tx_cast t' i node v of
            (t'', Some e) \<Rightarrow> (t'', Inl e)
          | (t'', None) \<Rightarrow> (t'', Inr i)))"

definition tx_collect ::
    "transaction \<Rightarrow> nat \<Rightarrow> string option \<Rightarrow> string \<Rightarrow> transaction \<times> tx_error option" where
  "tx_collect t i ctxErr node =
     (let (s, r) = collectVotes (subtransactions t ! i) ctxErr node
      in (t\<lparr>subtransactions := (subtransactions t)[i := s]\<rparr>, r))"

fun cancel_pending :: "string \<Rightarrow> subtransaction list \<Rightarrow> subtransaction list \<times> tx_error option" where
  "cancel_pending node [] = ([], None)"
| "cancel_pending node (s # ss) =
     (case sub_cancelNodeVoter s node of
        Inl e \<Rightarrow> (s # ss, Some e)
      | Inr s' \<Rightarrow> (let (ss', r) = cancel_pending node ss in (s' # ss', r)))"

definition tx_cancelNodeVoter :: "transaction \<Rightarrow> string \<Rightarrow> transaction \<times> tx_error option" where
  "tx_cancelNodeVoter t node =
     (case getPendingNodeSubtransactions t node of
        Inl e \<Rightarrow> (t, Some e)
      | Inr i \<Rightarrow>
         (case (if i < length (subtransactions t) then Inr (subtransactions t)
                else case createSubtransaction t of
                       Inl e \<Rightarrow> Inl e
                     | Inr s \<Rightarrow> Inr (subtransactions t @ [s])) of
            Inl e \<Rightarrow> (t, Some e)
          | Inr subs \<Rightarrow>
              (let (rest, r) = cancel_pending node (drop i subs)
               in (t\<lparr>subtransactions := take i subs @ rest\<rparr>, r))))"

section \<open>Steps\<close>

text \<open>A call of \<open>vote\<close> has looked up its subtransaction, or waits for it to finish.\<close>

datatype call = Looked_up string Vote nat | Waiting string nat

record tx_sys =
  tx :: transaction
  calls :: "call list"

datatype tx_event =
    Lookup string Vote | CastCall call | CollectCall call "string option"
  | CancelVoter string | CancelTx | StopTx

inductive tx_step :: "tx_sys \<Rightarrow> tx_event \<Rightarrow> tx_sys \<Rightarrow> bool" where
  lookup: "getOrCreateSubtransaction (tx s) node = Inr (t', i) \<Longrightarrow>
    tx_step s (Lookup node v) (s\<lparr>tx := t', calls := Looked_up node v i # calls s\<rparr>)"
| cast_ok: "Looked_up node v i \<in> set (calls s) \<Longrightarrow> tx_cast (tx s) i node v = (t', None) \<Longrightarrow>
    tx_step s (CastCall (Looked_up node v i))
      (s\<lparr>tx := t', calls := Waiting node i # remove1 (Looked_up node v i) (calls s)\<rparr>)"
| cast_error: "Looked_up node v i \<in> set (calls s) \<Longrightarrow> tx_cast (tx s) i node v = (t', Some e) \<Longrightarrow>
    tx_step s (CastCall (Looked_up node v i))
      (s\<lparr>tx := t', calls := remove1 (Looked_up node v i) (calls s)\<rparr>)"
| collect: "Waiting node i \<in> set (calls s) \<Longrightarrow>
    isDone (subtransactions (tx s) ! i) \<or> ctxErr \<noteq> None \<Longrightarrow>
    tx_collect (tx s) i ctxErr node = (t', r) \<Longrightarrow>
    tx_step s (CollectCall (Waiting node i) ctxErr)
      (s\<lparr>tx := t', calls := remove1 (Waiting node i) (calls s)\<rparr>)"
| cancel_voter: "tx_cancelNodeVoter (tx s) node = (t', r) \<Longrightarrow>
    tx_step s (CancelVoter node) (s\<lparr>tx := t'\<rparr>)"
| cancel_tx: "tx_step s CancelTx (s\<lparr>tx := tx_cancel (tx s)\<rparr>)"
| stop_tx: "tx_stop (tx s) = (t', r) \<Longrightarrow> tx_step s StopTx (s\<lparr>tx := t'\<rparr>)"

text \<open>A transaction starts as \<open>newTransaction\<close> returns it, for voters without a vote whose votes sum
  up to less than \<open>2 ^ 63\<close>.\<close>

definition votes_in_range :: "Voter list \<Rightarrow> bool" where
  "votes_in_range voters \<longleftrightarrow> (\<Sum>v\<leftarrow>voters. unat (Votes v)) < 2 ^ 63"

definition unvoted :: "Voter \<Rightarrow> bool" where
  "unvoted v \<longleftrightarrow> vote v = None \<and> result v = VoteUndecided"

definition tx_init :: "tx_sys \<Rightarrow> bool" where
  "tx_init s \<longleftrightarrow> calls s = [] \<and> (\<exists>i voters thr. newTransaction i voters thr = Inr (tx s) \<and>
     list_all unvoted voters \<and> votes_in_range voters)"

section \<open>How an operation changes a subtransaction\<close>

definition active :: "Voter \<Rightarrow> bool" where
  "active x \<longleftrightarrow> vote x \<noteq> None \<or> result x \<noteq> VoteUndecided"

text \<open>The names and the numbers of votes of the voters, which no operation changes.\<close>

definition weights :: "subtransaction \<Rightarrow> (string \<times> u64) list" where
  "weights s = map (\<lambda>(n, x). (n, Votes x)) (votersByNode s)"

lemma weights_names: "map fst (votersByNode s) = map fst (weights s)"
  by (simp add: weights_def case_prod_unfold comp_def)

lemma weights_map:
  assumes "\<And>x. Votes (f x) = Votes x"
  shows "weights (s\<lparr>votersByNode := map (\<lambda>(n, x). (n, f x)) (votersByNode s)\<rparr>) = weights s"
  using assms by (simp add: weights_def case_prod_unfold comp_def)

lemma weights_doneCh [simp]: "weights (s\<lparr>doneCh := b\<rparr>) = weights s"
  by (simp add: weights_def)

lemma weights_update:
  assumes "map_of (votersByNode s) k = Some x" "Votes y = Votes x"
    "votersByNode s' = AList.update k y (votersByNode s)"
  shows "weights s' = weights s"
proof -
  have "map (\<lambda>(n, x). (n, Votes x)) (AList.update k y m) = map (\<lambda>(n, x). (n, Votes x)) m"
    if "map_of m k = Some x" for m
    using that assms(2) by (induction m) (auto split: if_splits)
  with assms(1,3) show ?thesis by (simp add: weights_def)
qed

text \<open>What every operation keeps; only the nodes in \<open>N\<close> may have cast a vote.\<close>

definition evolves :: "string set \<Rightarrow> subtransaction \<Rightarrow> subtransaction \<Rightarrow> bool" where
  "evolves N s s' \<longleftrightarrow>
     sub_inv s' \<and> threshold s' = threshold s \<and>
     weights s' = weights s \<and>
     (\<forall>n x. is_voter s n x \<longrightarrow> result x \<noteq> VoteUndecided \<longrightarrow> is_voter s' n x) \<and>
     (\<forall>n x. is_voter s n x \<longrightarrow> active x \<longrightarrow> (\<exists>y. is_voter s' n y \<and> active y)) \<and>
     (\<forall>n y. is_voter s' n y \<longrightarrow> vote y \<noteq> None \<longrightarrow> n \<in> N \<or> (\<exists>x. is_voter s n x \<and> vote x \<noteq> None))"

lemma evolves_refl: "sub_inv s \<Longrightarrow> evolves N s s"
  by (auto simp: evolves_def)

lemma settle_voters_frame:
  assumes "sub_wf t"
  shows "threshold (settle_voters t) = threshold t"
    "weights (settle_voters t) = weights t"
    "is_voter t n x \<Longrightarrow> \<exists>y. is_voter (settle_voters t) n y \<and> vote y = vote x \<and> (active x \<longrightarrow> active y)"
    "is_voter (settle_voters t) n y \<Longrightarrow> \<exists>x. is_voter t n x \<and> vote y = vote x"
proof -
  obtain mv q where qc: "quorumCheck t = (mv, q)" by fastforce
  obtain t' where t': "settle_voters t = t' \<or> settle_voters t = t'\<lparr>doneCh := True\<rparr>"
    "t' = t \<or> (\<exists>mv q. t' = settled mv q t)"
    using settle_voters_settled [OF qc _ assms] settle_voters_possible [of t] qc
    by (cases "mv \<noteq> None \<or> \<not> q") auto
  show "threshold (settle_voters t) = threshold t" using t' by auto
  show "weights (settle_voters t) = weights t"
    using t' by (auto simp: settled_def weights_map)
  show "\<exists>y. is_voter (settle_voters t) n y \<and> vote y = vote x \<and> (active x \<longrightarrow> active y)" if "is_voter t n x"
  proof -
    have "active (decide_voter mv q x)" if "active x" for mv q
      using that by (auto simp: active_def decide_voter_result)
    then have "\<exists>y. is_voter t' n y \<and> vote y = vote x \<and> (active x \<longrightarrow> active y)"
      using t'(2) that by (force simp: is_voter_settled)
    then show ?thesis using t'(1) by auto
  qed
  show "\<exists>x. is_voter t n x \<and> vote y = vote x" if "is_voter (settle_voters t) n y"
  proof -
    have "is_voter t' n y" using t'(1) that by auto
    then show ?thesis using t'(2) by (elim disjE exE) (simp_all add: is_voter_settled, blast, force)
  qed
qed

lemma evolves_updateVoterState:
  assumes inv: "sub_inv t" and x: "map_of (votersByNode t) node = Some x"
    and u: "updateVoterState t node x v = Inr t'"
  shows "evolves (if v = None then {} else {node}) t t'"
proof -
  have wf: "sub_wf t" "wf_map (votersByNode t)" using inv by (auto simp: sub_inv_def sub_wf_def)
  have inx: "is_voter t node x" using x wf(2) by (simp add: wf_map_of_iff)
  define c where "c = (case v of None \<Rightarrow> retract_vote t node x | Some w \<Rightarrow> cast_vote t node x w)"
  have weights: "weights c = weights t"
  proof (cases v)
    case None
    show ?thesis by (rule weights_update [OF x, of "x\<lparr>result := VoteCanceled, vote := None\<rparr>"])
        (simp_all add: None c_def retract_vote_def)
  next
    case (Some w)
    show ?thesis by (rule weights_update [OF x, of "x\<lparr>vote := Some w\<rparr>"])
        (simp_all add: Some c_def cast_vote_def)
  qed
  have c: "t' = settle_voters c" "sub_wf c" "threshold c = threshold t"
    using u retract_vote_wf [OF wf(1) x] cast_vote_wf [OF wf(1) x]
    by (cases v; simp add: c_def updateVoterState_None updateVoterState_Some)+
  have fwd: "\<exists>z. is_voter c n z \<and> active z" if "is_voter t n y" "active y" for n y
    using that wf(2) by (cases "n = node"; cases v)
      (auto simp: c_def is_voter_retract_vote is_voter_cast_vote active_def)
  have bwd: "n \<in> (if v = None then {} else {node}) \<or> (\<exists>y. is_voter t n y \<and> vote y \<noteq> None)"
    if "is_voter c n z" "vote z \<noteq> None" for n z
    using that wf(2) by (cases v) (auto simp: c_def is_voter_retract_vote is_voter_cast_vote)
  show ?thesis
    unfolding evolves_def
  proof (intro conjI allI impI)
    show "sub_inv t'" by (rule updateVoterState_inv [OF inv x u])
    show "threshold t' = threshold t" "weights t' = weights t"
      using c weights settle_voters_frame(1,2) [OF c(2)] by auto
    show "is_voter t' n y" if "is_voter t n y" "result y \<noteq> VoteUndecided" for n y
      by (rule updateVoterState_keeps [OF inv that x u])
    show "\<exists>z. is_voter t' n z \<and> active z" if "is_voter t n y" "active y" for n y
      using fwd [OF that] settle_voters_frame(3) [OF c(2)] c(1) by blast
    show "n \<in> (if v = None then {} else {node}) \<or> (\<exists>y. is_voter t n y \<and> vote y \<noteq> None)"
      if "is_voter t' n z" "vote z \<noteq> None" for n z
      using that settle_voters_frame(4) [OF c(2)] bwd c(1) by (metis (full_types))
  qed
qed

lemma evolves_vote: "sub_inv t \<Longrightarrow> sub_vote t node v = Inr t' \<Longrightarrow> evolves {node} t t'"
  using evolves_updateVoterState [of t node _ "Some v" t']
  by (auto simp: sub_vote_def split: option.splits if_splits sum.splits)

lemma evolves_cancelNodeVoter: "sub_inv t \<Longrightarrow> sub_cancelNodeVoter t node = Inr t' \<Longrightarrow> evolves {} t t'"
  using evolves_updateVoterState [of t node _ None t']
  by (auto simp: sub_cancelNodeVoter_def split: option.splits sum.splits)

lemma evolves_collect: "sub_inv t \<Longrightarrow> collectVotes t ctxErr node = (t', r) \<Longrightarrow> evolves {} t t'"
  using evolves_updateVoterState [of t node _ None t']
  by (auto simp: collectVotes_def evolves_refl split: option.splits sum.splits)

lemma evolves_closed:
  assumes "sub_inv t" "r \<in> {VoteCanceled, VoteStopped}"
  shows "evolves {} t (closed r t)"
  unfolding evolves_def
proof (intro conjI allI impI)
  show "sub_inv (closed r t)" by (rule closed_inv [OF assms])
  show "is_voter (closed r t) n x" if "is_voter t n x" "result x \<noteq> VoteUndecided" for n x
    using that by (rule closed_keeps)
  show "\<exists>y. is_voter (closed r t) n y \<and> active y" if "is_voter t n x" "active x" for n x
    using that assms(2) by (force simp: closed_def active_def intro!: exI [of _ "close_with r x"])
  show "n \<in> {} \<or> (\<exists>x. is_voter t n x \<and> vote x \<noteq> None)" if "is_voter (closed r t) n y" "vote y \<noteq> None" for n y
    using that by (auto simp: closed_def)
qed (simp_all add: closed_def weights_map)

lemma evolves_cancel: "sub_inv t \<Longrightarrow> evolves {} t (sub_cancel t)"
  by (simp add: sub_cancel_closed evolves_closed)

lemma evolves_stop: "sub_inv t \<Longrightarrow> sub_stop t = (t', r) \<Longrightarrow> evolves {} t t'"
  by (auto simp: sub_stop_cases evolves_refl evolves_closed split: if_splits)

section \<open>Invariant of a transaction\<close>

definition committed_before :: "subtransaction list \<Rightarrow> string \<Rightarrow> nat \<Rightarrow> bool" where
  "committed_before subs n j \<longleftrightarrow>
     (\<forall>i < j. i < length subs \<longrightarrow> (\<exists>y. is_voter (subs ! i) n y \<and> result y = VoteCommitted))"

definition subs_ok :: "Voter list \<Rightarrow> u64 \<Rightarrow> subtransaction list \<Rightarrow> bool" where
  "subs_ok voters thr subs \<longleftrightarrow>
     (\<forall>j < length subs. sub_inv (subs ! j) \<and> threshold (subs ! j) = thr \<and>
        weights (subs ! j) = map (\<lambda>v. (Name v, Votes v)) voters \<and>
        (\<forall>n x. is_voter (subs ! j) n x \<longrightarrow> vote x \<noteq> None \<longrightarrow> committed_before subs n j))"

definition call_ok :: "subtransaction list \<Rightarrow> call \<Rightarrow> bool" where
  "call_ok subs c \<longleftrightarrow>
     (case c of
        Looked_up n v i \<Rightarrow> i < length subs \<and> committed_before subs n i
      | Waiting n i \<Rightarrow> i < length subs \<and> committed_before subs n i \<and>
          (\<exists>x. is_voter (subs ! i) n x \<and> active x))"

definition tx_static :: "transaction \<Rightarrow> bool" where
  "tx_static t \<longleftrightarrow> distinct (map Name (tx_voters t)) \<and> list_all unvoted (tx_voters t) \<and>
     valid_threshold (tx_voters t) (tx_threshold t)"

definition tx_inv :: "tx_sys \<Rightarrow> bool" where
  "tx_inv s \<longleftrightarrow> tx_static (tx s) \<and>
     subs_ok (tx_voters (tx s)) (tx_threshold (tx s)) (subtransactions (tx s)) \<and>
     (\<forall>c \<in> set (calls s). call_ok (subtransactions (tx s)) c)"

text \<open>Subtransactions that evolve in place, each by the votes of nodes that were allowed to vote.\<close>

definition evolve_all :: "(nat \<Rightarrow> string set) \<Rightarrow> subtransaction list \<Rightarrow> subtransaction list \<Rightarrow> bool" where
  "evolve_all N subs subs' \<longleftrightarrow> length subs' = length subs \<and>
     (\<forall>j < length subs. evolves (N j) (subs ! j) (subs' ! j) \<and>
        (\<forall>n \<in> N j. committed_before subs n j))"

lemma committed_before_evolve:
  "evolve_all N subs subs' \<Longrightarrow> committed_before subs n j \<Longrightarrow> committed_before subs' n j"
  unfolding committed_before_def evolve_all_def evolves_def by (metis VoteResult.distinct(1))

lemma subs_ok_evolve:
  assumes "subs_ok voters thr subs" "evolve_all N subs subs'"
  shows "subs_ok voters thr subs'"
  unfolding subs_ok_def
proof (intro allI impI conjI)
  fix j assume j: "j < length subs'"
  then have e: "evolves (N j) (subs ! j) (subs' ! j)" "\<forall>n \<in> N j. committed_before subs n j"
    and j': "j < length subs"
    using assms(2) by (auto simp: evolve_all_def)
  show "sub_inv (subs' ! j)" "threshold (subs' ! j) = thr"
    "weights (subs' ! j) = map (\<lambda>v. (Name v, Votes v)) voters"
    using e(1) assms(1) j' by (auto simp: evolves_def subs_ok_def)
  fix n x assume "is_voter (subs' ! j) n x" "vote x \<noteq> None"
  then have "n \<in> N j \<or> (\<exists>y. is_voter (subs ! j) n y \<and> vote y \<noteq> None)"
    using e(1) by (auto simp: evolves_def)
  then have "committed_before subs n j" using e(2) assms(1) j' by (auto simp: subs_ok_def)
  then show "committed_before subs' n j" by (rule committed_before_evolve [OF assms(2)])
qed

lemma call_ok_evolve: "evolve_all N subs subs' \<Longrightarrow> call_ok subs c \<Longrightarrow> call_ok subs' c"
  using committed_before_evolve [of N subs subs']
  by (cases c) (auto simp: call_ok_def evolve_all_def evolves_def)

lemma tx_inv_evolve:
  assumes "tx_inv s" "evolve_all N (subtransactions (tx s)) (subtransactions t')"
    "tx_voters t' = tx_voters (tx s)" "tx_threshold t' = tx_threshold (tx s)"
    "\<And>c. c \<in> set cs \<Longrightarrow> c \<in> set (calls s) \<or> call_ok (subtransactions t') c"
  shows "tx_inv (s\<lparr>tx := t', calls := cs\<rparr>)"
proof -
  have "\<forall>c \<in> set cs. call_ok (subtransactions t') c"
    using assms(1,5) call_ok_evolve [OF assms(2)] unfolding tx_inv_def by blast
  then show ?thesis
    using assms(1,3,4) subs_ok_evolve [OF _ assms(2)] by (simp add: tx_inv_def tx_static_def)
qed

lemma evolve_all_update:
  assumes "subs_ok voters thr subs" "i < length subs" "evolves N (subs ! i) s'"
    "\<And>n. n \<in> N \<Longrightarrow> committed_before subs n i"
  shows "evolve_all (\<lambda>j. if j = i then N else {}) subs (subs[i := s'])"
  using assms by (auto simp: evolve_all_def nth_list_update subs_ok_def intro: evolves_refl)

lemma evolve_all_map:
  assumes "length subs' = length subs" "\<And>j. j < length subs \<Longrightarrow> evolves {} (subs ! j) (subs' ! j)"
  shows "evolve_all (\<lambda>_. {}) subs subs'"
  using assms by (auto simp: evolve_all_def)

lemma list_all2_evolves:
  assumes "list_all2 (evolves {}) subs subs'"
  shows "evolve_all (\<lambda>_. {}) subs subs'"
  using assms by (intro evolve_all_map) (auto dest: list_all2_lengthD list_all2_nthD)

lemma stop_subs_evolves:
  "list_all sub_inv ss \<Longrightarrow> stop_subs ss = (ss', r) \<Longrightarrow> list_all2 (evolves {}) ss ss'"
proof (induction ss arbitrary: ss' r rule: stop_subs.induct)
  case (2 s ss)
  obtain s' e where s': "sub_stop s = (s', e)" by fastforce
  have rest: "list_all2 (evolves {}) ss ss"
    using 2(2) by (auto simp: list_all_iff list_all2_conv_all_nth intro: evolves_refl)
  show ?case
    using 2 s' rest evolves_stop [OF _ s'] by (auto split: option.splits prod.splits)
qed simp

lemma cancel_pending_evolves:
  "list_all sub_inv ss \<Longrightarrow> cancel_pending node ss = (ss', r) \<Longrightarrow> list_all2 (evolves {}) ss ss'"
proof (induction node ss arbitrary: ss' r rule: cancel_pending.induct)
  case (2 node s ss)
  have refl: "list_all2 (evolves {}) ss ss" "evolves {} s s"
    using 2(2) by (auto simp: list_all_iff list_all2_conv_all_nth intro: evolves_refl)
  show ?case
    using 2 refl evolves_cancelNodeVoter [of s node]
    by (auto split: sum.splits prod.splits)
qed simp

text \<open>New subtransactions.\<close>

definition propagate :: "subtransaction \<Rightarrow> Voter \<Rightarrow> Voter" where
  "propagate t v =
     (case map_of (votersByNode t) (Name v) of
        Some y \<Rightarrow> if result y = VoteCanceled then v\<lparr>result := VoteCanceled\<rparr> else v
      | None \<Rightarrow> v)"

lemma propagate_simps [simp]:
  "Name (propagate t v) = Name v" "Votes (propagate t v) = Votes v" "vote (propagate t v) = vote v"
  by (auto simp: propagate_def split: option.splits)

lemma getPropagatedVoters_Inr:
  "getPropagatedVoters t vs = Inr vs' \<Longrightarrow> vs' = map (propagate t) vs"
  by (induction t vs arbitrary: vs' rule: getPropagatedVoters.induct)
    (auto simp: propagate_def split: option.splits sum.splits)

lemma propagate_fresh: "unvoted v \<Longrightarrow> fresh_voter (propagate t v)"
  by (auto simp: unvoted_def fresh_voter_def propagate_def split: option.splits)

lemma createSubtransaction_voters:
  assumes "createSubtransaction t = Inr s"
  obtains vs where "s = newSubtransaction vs (tx_threshold t)"
    "vs = (if subtransactions t = [] then tx_voters t
           else map (propagate (last (subtransactions t))) (tx_voters t))"
  using assms by (auto simp: createSubtransaction_def dest: getPropagatedVoters_Inr split: if_splits sum.splits)

lemma createSubtransaction_ok:
  assumes st: "tx_static t" and c: "createSubtransaction t = Inr s"
  shows "sub_inv s" "threshold s = tx_threshold t"
    "weights s = map (\<lambda>v. (Name v, Votes v)) (tx_voters t)" "is_voter s n x \<Longrightarrow> vote x = None"
proof -
  obtain vs where s: "s = newSubtransaction vs (tx_threshold t)"
    and vs: "vs = (if subtransactions t = [] then tx_voters t
           else map (propagate (last (subtransactions t))) (tx_voters t))"
    using c by (rule createSubtransaction_voters)
  have names: "map Name vs = map Name (tx_voters t)" "map Votes vs = map Votes (tx_voters t)"
    by (auto simp: vs)
  have d: "distinct (map Name vs)" using st names by (simp add: tx_static_def)
  have f: "list_all fresh_voter vs"
    using st by (auto simp: vs tx_static_def list_all_iff propagate_fresh) (auto simp: unvoted_def fresh_voter_def)
  have "(\<Sum>v\<leftarrow>vs. unat (Votes v)) = (\<Sum>v\<leftarrow>tx_voters t. unat (Votes v))"
    using arg_cong [OF names(2), of "\<lambda>ws. sum_list (map unat ws)"] by (simp add: comp_def)
  then have "valid_threshold vs (tx_threshold t)"
    using st by (simp add: tx_static_def valid_threshold_def)
  then show "sub_inv s" using d f by (simp add: s newSubtransaction_inv)
  show "threshold s = tx_threshold t" by (simp add: s)
  show "weights s = map (\<lambda>v. (Name v, Votes v)) (tx_voters t)"
    by (simp add: s weights_def newSubtransaction_voters [OF d] comp_def) (simp add: vs)
  show "vote x = None" if "is_voter s n x"
    using that f by (auto simp: s newSubtransaction_voters [OF d] list_all_iff fresh_voter_def)
qed

lemma committed_before_append:
  "j \<le> length subs \<Longrightarrow> committed_before (subs @ [s]) n j = committed_before subs n j"
  by (auto simp: committed_before_def nth_append)

lemma subs_ok_append:
  assumes ok: "subs_ok voters thr subs" and s: "sub_inv s" "threshold s = thr"
    "weights s = map (\<lambda>v. (Name v, Votes v)) voters" "\<And>n x. is_voter s n x \<Longrightarrow> vote x = None"
  shows "subs_ok voters thr (subs @ [s])"
  unfolding subs_ok_def
proof (intro allI impI)
  fix j assume "j < length (subs @ [s])"
  then consider "j < length subs" | "j = length subs" by fastforce
  then show "sub_inv ((subs @ [s]) ! j) \<and> threshold ((subs @ [s]) ! j) = thr \<and>
      weights ((subs @ [s]) ! j) = map (\<lambda>v. (Name v, Votes v)) voters \<and>
      (\<forall>n x. is_voter ((subs @ [s]) ! j) n x \<longrightarrow> vote x \<noteq> None \<longrightarrow> committed_before (subs @ [s]) n j)"
  proof cases
    case 1
    then show ?thesis using ok by (simp add: subs_ok_def nth_append committed_before_append)
  next
    case 2
    then show ?thesis using s by (simp add: nth_append)
  qed
qed

lemma call_ok_append: "call_ok subs c \<Longrightarrow> call_ok (subs @ [s]) c"
  by (cases c) (auto simp: call_ok_def nth_append committed_before_append)

lemma tx_inv_append:
  assumes inv: "tx_inv s" and c: "createSubtransaction (tx s) = Inr sub"
  shows "tx_inv (s\<lparr>tx := (tx s)\<lparr>subtransactions := subtransactions (tx s) @ [sub]\<rparr>\<rparr>)"
proof -
  have st: "tx_static (tx s)" using inv by (simp add: tx_inv_def)
  then show ?thesis
    using inv subs_ok_append [OF _ createSubtransaction_ok [OF st c]]
    by (auto simp: tx_inv_def tx_static_def call_ok_append)
qed

lemma pending_from_committed:
  "pending_from node ss i = Inr k \<Longrightarrow> i \<le> k \<and> k \<le> i + length ss \<and>
    (\<forall>j < k - i. \<exists>y. map_of (votersByNode (ss ! j)) node = Some y \<and> result y = VoteCommitted)"
proof (induction node ss i rule: pending_from.induct)
  case (2 node s ss i)
  then show ?case
    by (auto simp: getResult_def nth_Cons' split: option.splits VoteResult.splits)
qed simp

lemma getPending_committed:
  assumes "getPendingNodeSubtransactions t node = Inr k" "subs_ok voters thr (subtransactions t)"
  shows "k \<le> length (subtransactions t) \<and> committed_before (subtransactions t) node k"
  using pending_from_committed [OF assms(1) [unfolded getPendingNodeSubtransactions_def]]
  by (auto simp: committed_before_def dest!: map_of_SomeD)

section \<open>Creating transactions\<close>

lemma check_voters_eq:
  "check_voters vs seen acc =
     (if distinct (map Name vs) \<and> set (map Name vs) \<inter> set seen = {}
      then Inr (acc + (\<Sum>v\<leftarrow>vs. Votes v)) else Inl ErrDuplicateNodes)"
  by (induction vs seen acc rule: check_voters.induct) (auto simp: add.assoc)

lemma unat_sum_votes:
  "(\<Sum>v\<leftarrow>vs. unat (Votes v)) < 2 ^ 64 \<Longrightarrow> unat (\<Sum>v\<leftarrow>vs. Votes v) = (\<Sum>v\<leftarrow>vs. unat (Votes v))"
proof (induction vs)
  case (Cons v vs)
  then have "unat (Votes v + (\<Sum>v\<leftarrow>vs. Votes v)) = unat (Votes v) + unat (\<Sum>v\<leftarrow>vs. Votes v)"
    by (intro unat_add_lem [THEN iffD1]) simp
  with Cons show ?case by simp
qed simp

lemma newTransaction_cases:
  assumes "votes_in_range voters"
  shows "newTransaction i voters thr =
    (if voters = [] then Inl ErrMissingNodes
     else if \<not> distinct (map Name voters) then Inl ErrDuplicateNodes
     else if (\<Sum>v\<leftarrow>voters. unat (Votes v)) < 2 * unat thr \<and> unat thr \<le> (\<Sum>v\<leftarrow>voters. unat (Votes v))
     then Inr \<lparr>tx_id = i, tx_threshold = thr, tx_voters = voters,
               tx_state = transactionOpen, subtransactions = []\<rparr>
     else Inl ErrInvalidThreshold)"
proof -
  let ?S = "\<Sum>v\<leftarrow>voters. unat (Votes v)"
  have S: "unat (\<Sum>v\<leftarrow>voters. Votes v) = ?S"
    using assms by (intro unat_sum_votes) (simp add: votes_in_range_def)
  have le: "(\<Sum>v\<leftarrow>voters. Votes v) < thr \<longleftrightarrow> ?S < unat thr"
    by (simp add: word_less_nat_alt S)
  have dbl: "thr * 2 \<le> (\<Sum>v\<leftarrow>voters. Votes v) \<longleftrightarrow> 2 * unat thr \<le> ?S" if "unat thr \<le> ?S"
  proof -
    have "unat thr * unat (2 :: u64) < 2 ^ 64" using that assms by (simp add: votes_in_range_def)
    then have "unat (thr * 2) = unat thr * 2" by (subst unat_mult_lem [THEN iffD1]) simp_all
    then show ?thesis by (simp add: word_le_nat_alt S mult.commute)
  qed
  show ?thesis using le dbl by (auto simp: newTransaction_def check_voters_eq)
qed

lemma newTransaction_static:
  "newTransaction i voters thr = Inr t \<Longrightarrow> votes_in_range voters \<Longrightarrow> list_all unvoted voters \<Longrightarrow>
    tx_static t \<and> subtransactions t = []"
  by (auto simp: newTransaction_cases tx_static_def valid_threshold_def votes_in_range_def split: if_splits)

section \<open>Every step keeps the invariant\<close>

lemma committed_quorum:
  assumes "sub_inv t" "is_voter t n x" "result x = VoteCommitted"
  shows "\<exists>v. vote x = Some v \<and> quorum_for t v"
proof -
  have "voter_ok t x" using assms(1,2) by (auto simp: sub_inv_def decided_ok_def)
  with assms(3) show ?thesis by (simp add: voter_ok_def)
qed

lemma sub_vote_active:
  assumes "sub_inv t" "sub_vote t node v = Inr t'"
  shows "\<exists>x. is_voter t' node x \<and> active x"
proof -
  obtain x where x: "map_of (votersByNode t) node = Some x" "updateVoterState t node x (Some v) = Inr t'"
    using assms(2) by (auto simp: sub_vote_def split: option.splits if_splits sum.splits)
  have wf: "sub_wf t" "wf_map (votersByNode t)" using assms(1) by (auto simp: sub_inv_def sub_wf_def)
  have u: "result x = VoteUndecided" "vote x = None" "t' = settle_voters (cast_vote t node x v)"
    using x(2) by (auto simp: updateVoterState_Some)
  have "is_voter (cast_vote t node x v) node (x\<lparr>vote := Some v\<rparr>)"
    by (simp add: is_voter_cast_vote [OF wf(2)])
  from settle_voters_frame(3) [OF cast_vote_wf [OF wf(1) x(1) u(1,2)] this] u(3) show ?thesis
    by (auto simp: active_def)
qed

lemma tx_inv_cast:
  assumes inv: "tx_inv s" and c: "Looked_up node v i \<in> set (calls s)"
    and r: "tx_cast (tx s) i node v = (t', None)"
  shows "tx_inv (s\<lparr>tx := t', calls := Waiting node i # remove1 (Looked_up node v i) (calls s)\<rparr>)"
proof -
  let ?subs = "subtransactions (tx s)"
  obtain s' where s': "sub_vote (?subs ! i) node v = Inr s'" "t' = (tx s)\<lparr>subtransactions := ?subs[i := s']\<rparr>"
    using r by (auto simp: tx_cast_def split: sum.splits)
  have ok: "subs_ok (tx_voters (tx s)) (tx_threshold (tx s)) ?subs" and
    i: "i < length ?subs" "committed_before ?subs node i"
    using inv c by (auto simp: tx_inv_def call_ok_def)
  have ev: "evolves {node} (?subs ! i) s'"
    using ok i(1) s'(1) by (intro evolves_vote) (auto simp: subs_ok_def)
  have all: "evolve_all (\<lambda>j. if j = i then {node} else {}) ?subs (?subs[i := s'])"
    by (rule evolve_all_update [OF ok i(1) ev]) (use i(2) in auto)
  have "\<exists>x. is_voter s' node x \<and> active x"
    by (rule sub_vote_active [OF _ s'(1)]) (use ok i(1) in \<open>auto simp: subs_ok_def\<close>)
  then have "call_ok (?subs[i := s']) (Waiting node i)"
    using i committed_before_evolve [OF all] by (simp add: call_ok_def)
  then show ?thesis
    by (intro tx_inv_evolve [OF inv, of "\<lambda>j. if j = i then {node} else {}"])
      (use all s'(2) in \<open>auto dest: notin_set_remove1 set_remove1_subset [THEN subsetD]\<close>)
qed

lemma tx_inv_remove:
  assumes "tx_inv s" "evolve_all N (subtransactions (tx s)) (subtransactions t')"
    "tx_voters t' = tx_voters (tx s)" "tx_threshold t' = tx_threshold (tx s)"
  shows "tx_inv (s\<lparr>tx := t', calls := remove1 c (calls s)\<rparr>)" "tx_inv (s\<lparr>tx := t'\<rparr>)"
proof -
  show "tx_inv (s\<lparr>tx := t', calls := remove1 c (calls s)\<rparr>)"
    by (rule tx_inv_evolve [OF assms]) (auto dest: set_remove1_subset [THEN subsetD])
  have "tx_inv (s\<lparr>tx := t', calls := calls s\<rparr>)"
    by (rule tx_inv_evolve [OF assms]) auto
  then show "tx_inv (s\<lparr>tx := t'\<rparr>)" by simp
qed

lemma evolve_all_refl: "subs_ok voters thr subs \<Longrightarrow> evolve_all (\<lambda>_. {}) subs subs"
  by (auto simp: evolve_all_def subs_ok_def intro: evolves_refl)

lemma tx_inv_collect:
  assumes inv: "tx_inv s" and c: "Waiting node i \<in> set (calls s)"
    and r: "tx_collect (tx s) i ctxErr node = (t', r)"
  shows "tx_inv (s\<lparr>tx := t', calls := remove1 (Waiting node i) (calls s)\<rparr>)"
proof -
  let ?subs = "subtransactions (tx s)"
  obtain s' where s': "collectVotes (?subs ! i) ctxErr node = (s', r)"
    "t' = (tx s)\<lparr>subtransactions := ?subs[i := s']\<rparr>"
    using r by (auto simp: tx_collect_def split: prod.splits)
  have ok: "subs_ok (tx_voters (tx s)) (tx_threshold (tx s)) ?subs" and i: "i < length ?subs"
    using inv c by (auto simp: tx_inv_def call_ok_def)
  have ev: "evolves {} (?subs ! i) s'"
    using ok i s'(1) by (intro evolves_collect) (auto simp: subs_ok_def)
  have "evolve_all (\<lambda>j. if j = i then {} else {}) ?subs (?subs[i := s'])"
    by (rule evolve_all_update [OF ok i ev]) auto
  then show ?thesis using s'(2) by (intro tx_inv_remove(1) [OF inv]) auto
qed

lemma tx_inv_cancel_pending:
  assumes inv: "tx_inv s" and r: "cancel_pending node (drop i (subtransactions (tx s))) = (rest, r)"
    and t': "t' = (tx s)\<lparr>subtransactions := take i (subtransactions (tx s)) @ rest\<rparr>"
  shows "tx_inv (s\<lparr>tx := t'\<rparr>)"
proof -
  let ?subs = "subtransactions (tx s)"
  have invs: "list_all sub_inv ?subs"
    using inv by (auto simp: tx_inv_def subs_ok_def list_all_length)
  have "list_all2 (evolves {}) (take i ?subs) (take i ?subs)"
    using invs by (auto simp: list_all_length list_all2_conv_all_nth intro: evolves_refl)
  moreover have "list_all2 (evolves {}) (drop i ?subs) rest"
    using invs r by (intro cancel_pending_evolves) (auto simp: list_all_iff dest: in_set_dropD)
  ultimately have "list_all2 (evolves {}) (take i ?subs @ drop i ?subs) (take i ?subs @ rest)"
    by (rule list_all2_appendI)
  then have "evolve_all (\<lambda>_. {}) ?subs (take i ?subs @ rest)" by (simp add: list_all2_evolves)
  then show ?thesis using t' by (intro tx_inv_remove(2) [OF inv]) auto
qed

lemma tx_inv_cancelNodeVoter:
  assumes inv: "tx_inv s" and r: "tx_cancelNodeVoter (tx s) node = (t', r)"
  shows "tx_inv (s\<lparr>tx := t'\<rparr>)"
proof (cases "getPendingNodeSubtransactions (tx s) node")
  case (Inl e)
  then show ?thesis using inv r by (auto simp: tx_cancelNodeVoter_def)
next
  case (Inr i)
  show ?thesis
  proof (cases "i < length (subtransactions (tx s))")
    case True
    obtain rest e where c: "cancel_pending node (drop i (subtransactions (tx s))) = (rest, e)" by fastforce
    with True Inr r show ?thesis
      by (intro tx_inv_cancel_pending [OF inv c]) (auto simp: tx_cancelNodeVoter_def)
  next
    case False
    show ?thesis
    proof (cases "createSubtransaction (tx s)")
      case (Inl e)
      then show ?thesis using inv r Inr False by (auto simp: tx_cancelNodeVoter_def)
    next
      case new: (Inr sub)
      let ?s = "s\<lparr>tx := (tx s)\<lparr>subtransactions := subtransactions (tx s) @ [sub]\<rparr>\<rparr>"
      obtain rest e where c: "cancel_pending node (drop i (subtransactions (tx ?s))) = (rest, e)" by fastforce
      with False Inr new r have "t' = (tx ?s)\<lparr>subtransactions := take i (subtransactions (tx ?s)) @ rest\<rparr>"
        by (auto simp: tx_cancelNodeVoter_def simp del: drop_append take_append)
      from tx_inv_cancel_pending [OF tx_inv_append [OF inv new] c this] show ?thesis by simp
    qed
  qed
qed

lemma tx_inv_stop:
  assumes inv: "tx_inv s" and r: "tx_stop (tx s) = (t', r)"
  shows "tx_inv (s\<lparr>tx := t'\<rparr>)"
proof -
  obtain ss e where ss: "stop_subs (subtransactions (tx s)) = (ss, e)" by fastforce
  have "list_all sub_inv (subtransactions (tx s))"
    using inv by (auto simp: tx_inv_def subs_ok_def list_all_length)
  then have "evolve_all (\<lambda>_. {}) (subtransactions (tx s)) ss"
    using ss by (intro list_all2_evolves stop_subs_evolves)
  then show ?thesis
    using r ss by (intro tx_inv_remove(2) [OF inv]) (auto simp: tx_stop_def split: option.splits)
qed

lemma tx_inv_cancel: "tx_inv s \<Longrightarrow> tx_inv (s\<lparr>tx := tx_cancel (tx s)\<rparr>)"
  by (rule tx_inv_remove(2), assumption, rule evolve_all_map)
    (auto simp: tx_cancel_def tx_inv_def subs_ok_def intro: evolves_cancel)

lemma tx_inv_lookup:
  assumes inv: "tx_inv s" and r: "getOrCreateSubtransaction (tx s) node = Inr (t', i)"
  shows "tx_inv (s\<lparr>tx := t', calls := Looked_up node v i # calls s\<rparr>)"
proof -
  let ?subs = "subtransactions (tx s)"
  have ok: "subs_ok (tx_voters (tx s)) (tx_threshold (tx s)) ?subs" using inv by (simp add: tx_inv_def)
  obtain k where k: "getPendingNodeSubtransactions (tx s) node = Inr k"
    using r by (auto simp: getOrCreateSubtransaction_def split: transactionState.splits sum.splits)
  note com = getPending_committed [OF k ok]
  show ?thesis
  proof (cases "k < length ?subs")
    case True
    with r k have "t' = tx s" "i = k"
      by (auto simp: getOrCreateSubtransaction_def split: transactionState.splits)
    with True com inv show ?thesis by (simp add: tx_inv_def call_ok_def)
  next
    case False
    with r k com obtain sub where sub: "createSubtransaction (tx s) = Inr sub"
      "t' = (tx s)\<lparr>subtransactions := ?subs @ [sub]\<rparr>" "i = length ?subs"
      by (auto simp: getOrCreateSubtransaction_def split: transactionState.splits sum.splits)
    with False com have "call_ok (subtransactions t') (Looked_up node v i)"
      by (auto simp: call_ok_def committed_before_append)
    with tx_inv_append [OF inv sub(1)] sub(2) show ?thesis by (simp add: tx_inv_def)
  qed
qed

interpretation txn: invariant_of tx_init tx_step tx_inv
proof unfold_locales
  fix s s' e
  show "tx_init s \<Longrightarrow> tx_inv s"
    using newTransaction_static by (fastforce simp: tx_init_def tx_inv_def subs_ok_def)
  assume inv: "tx_inv s"
  assume "tx_step s e s'"
  then show "tx_inv s'"
  proof cases
    case (cast_error node v i t' e')
    then have "t' = tx s" by (auto simp: tx_cast_def split: sum.splits)
    with cast_error inv show ?thesis
      by (auto simp: tx_inv_def dest: set_remove1_subset [THEN subsetD])
  qed (simp_all add: tx_inv_lookup [OF inv] tx_inv_cast [OF inv] tx_inv_collect [OF inv]
      tx_inv_cancelNodeVoter [OF inv] tx_inv_cancel [OF inv] tx_inv_stop [OF inv])
qed

abbreviation tx_reachable :: "tx_sys \<Rightarrow> bool" where
  "tx_reachable \<equiv> reachable tx_init tx_step"

lemma tx_reachable_vote:
  assumes "tx_reachable s" "tx_vote_begin (tx s) node v = (t', Inr i)"
  shows "tx_reachable (s\<lparr>tx := t', calls := Waiting node i # calls s\<rparr>)"
proof -
  obtain u where u: "getOrCreateSubtransaction (tx s) node = Inr (u, i)" "tx_cast u i node v = (t', None)"
    using assms(2) by (auto simp: tx_vote_begin_def split: sum.splits prod.splits option.splits)
  let ?s = "s\<lparr>tx := u, calls := Looked_up node v i # calls s\<rparr>"
  have "tx_reachable ?s" by (rule reach_step [OF assms(1) lookup [OF u(1)]])
  moreover have "tx_step ?s (CastCall (Looked_up node v i))
      (?s\<lparr>tx := t', calls := Waiting node i # remove1 (Looked_up node v i) (calls ?s)\<rparr>)"
    by (rule cast_ok) (use u(2) in auto)
  ultimately show ?thesis by (auto dest: reach_step)
qed

section \<open>Properties\<close>

text \<open>A transaction is created exactly for a nonempty set of distinctly named voters and a
  threshold that is attainable and more than half of all votes; otherwise the matching error is
  returned. The votes are assumed not to exceed the range in which their doubling fits 64 bits.\<close>

theorem newTransaction_validates:
  assumes "(\<Sum>v\<leftarrow>voters. unat (Votes v)) < 2 ^ 63"
  shows "newTransaction i voters thr =
    (if voters = [] then Inl ErrMissingNodes
     else if \<not> distinct (map Name voters) then Inl ErrDuplicateNodes
     else if (\<Sum>v\<leftarrow>voters. unat (Votes v)) < 2 * unat thr \<and> unat thr \<le> (\<Sum>v\<leftarrow>voters. unat (Votes v))
     then Inr \<lparr>tx_id = i, tx_threshold = thr, tx_voters = voters,
               tx_state = transactionOpen, subtransactions = []\<rparr>
     else Inl ErrInvalidThreshold)"
  by (rule newTransaction_cases) (unfold votes_in_range_def, rule assms)

theorem newTransaction_validates_witness:
  "newTransaction 7 demo_voters 1 = Inl ErrInvalidThreshold"
  by (subst newTransaction_validates) (simp_all add: demo_voters_def)

text \<open>C4: All nodes go through the same sequence. In every reachable state, a node that has voted on a
  subtransaction has committed every earlier one, and there it agreed with every other node that
  committed.\<close>

theorem sequence_agreement:
  assumes r: "tx_reachable s" and ij: "i < j" "j < length (subtransactions (tx s))"
    and x: "is_voter (subtransactions (tx s) ! j) n x" "vote x \<noteq> None"
  shows "\<exists>y v. is_voter (subtransactions (tx s) ! i) n y \<and> result y = VoteCommitted \<and> vote y = Some v \<and>
    (\<forall>m z. is_voter (subtransactions (tx s) ! i) m z \<longrightarrow> result z = VoteCommitted \<longrightarrow> vote z = Some v)"
proof -
  let ?subs = "subtransactions (tx s)"
  have ok: "subs_ok (tx_voters (tx s)) (tx_threshold (tx s)) ?subs"
    using txn.reachable_inv [OF r] by (simp add: tx_inv_def)
  then have inv: "sub_inv (?subs ! i)" using ij by (simp add: subs_ok_def)
  then have wf: "sub_wf (?subs ! i)" by (simp add: sub_inv_def)
  have "committed_before ?subs n j" using ok ij x by (auto simp: subs_ok_def)
  then obtain y where y: "is_voter (?subs ! i) n y" "result y = VoteCommitted"
    using ij by (auto simp: committed_before_def)
  have com: "\<exists>v. vote z = Some v \<and> quorum_for (?subs ! i) v"
    if "is_voter (?subs ! i) m z" "result z = VoteCommitted" for m z
    using inv that by (rule committed_quorum)
  obtain v where v: "vote y = Some v" "quorum_for (?subs ! i) v" using com [OF y] by blast
  have "vote z = Some v" if "is_voter (?subs ! i) m z" "result z = VoteCommitted" for m z
    using com [OF that] v(2) quorum_unique [OF wf] by blast
  with y v show ?thesis by blast
qed

text \<open>A run: the first two nodes commit the first subtransaction, the first node goes on to the second,
  and the third node has not voted yet.\<close>

definition demo_tx0 :: tx_sys where
  "demo_tx0 = \<lparr>tx = projr (newTransaction 1 demo_voters 2), calls = []\<rparr>"

definition demo_vote :: "tx_sys \<Rightarrow> string \<Rightarrow> Vote \<Rightarrow> tx_sys" where
  "demo_vote s node v = (let (t', r) = tx_vote_begin (tx s) node v
     in s\<lparr>tx := t', calls := Waiting node (projr r) # calls s\<rparr>)"

definition demo_tx :: tx_sys where
  "demo_tx = demo_vote (demo_vote (demo_vote demo_tx0 ''a'' ''x'') ''b'' ''x'') ''a'' ''y''"

lemma demo_vote_reachable:
  "tx_reachable s \<Longrightarrow> isl (snd (tx_vote_begin (tx s) node v)) = False \<Longrightarrow> tx_reachable (demo_vote s node v)"
  using tx_reachable_vote [of s node v]
  by (cases "tx_vote_begin (tx s) node v"; cases "snd (tx_vote_begin (tx s) node v)")
    (auto simp: demo_vote_def)

lemmas tx_eval = demo_eval demo_tx0_def demo_vote_def tx_vote_begin_def getOrCreateSubtransaction_def
  getPendingNodeSubtransactions_def createSubtransaction_def tx_cast_def newTransaction_def getResult_def

lemma demo_tx_reachable: "tx_reachable demo_tx"
proof -
  have "newTransaction 1 demo_voters 2 = Inr (tx demo_tx0)"
    by (simp add: demo_tx0_def newTransaction_def demo_voters_def)
  moreover have "list_all unvoted demo_voters" "votes_in_range demo_voters"
    by (simp_all add: demo_voters_def unvoted_def votes_in_range_def)
  ultimately have "tx_init demo_tx0" unfolding tx_init_def by (auto simp: demo_tx0_def)
  then have "tx_reachable demo_tx0" by (rule reach_init)
  then show ?thesis
    unfolding demo_tx_def by (intro demo_vote_reachable) (simp_all add: tx_eval)
qed

lemma demo_tx_subs:
  "map votersByNode (subtransactions (tx demo_tx)) =
     [[(''a'', \<lparr>Name = ''a'', Votes = 1, vote = Some ''x'', result = VoteCommitted\<rparr>),
       (''b'', \<lparr>Name = ''b'', Votes = 1, vote = Some ''x'', result = VoteCommitted\<rparr>),
       (''c'', \<lparr>Name = ''c'', Votes = 1, vote = None, result = VoteUndecided\<rparr>)],
      [(''a'', \<lparr>Name = ''a'', Votes = 1, vote = Some ''y'', result = VoteUndecided\<rparr>),
       (''b'', \<lparr>Name = ''b'', Votes = 1, vote = None, result = VoteUndecided\<rparr>),
       (''c'', \<lparr>Name = ''c'', Votes = 1, vote = None, result = VoteUndecided\<rparr>)]]"
  "map doneCh (subtransactions (tx demo_tx)) = [True, False]"
  "getPendingNodeSubtransactions (tx demo_tx) ''c'' = Inr 0"
  by (simp_all add: demo_tx_def tx_eval)

lemma demo_tx_nth:
  "length (subtransactions (tx demo_tx)) = 2"
  "votersByNode (subtransactions (tx demo_tx) ! 0) =
     [(''a'', \<lparr>Name = ''a'', Votes = 1, vote = Some ''x'', result = VoteCommitted\<rparr>),
      (''b'', \<lparr>Name = ''b'', Votes = 1, vote = Some ''x'', result = VoteCommitted\<rparr>),
      (''c'', \<lparr>Name = ''c'', Votes = 1, vote = None, result = VoteUndecided\<rparr>)]"
  "votersByNode (subtransactions (tx demo_tx) ! 1) =
     [(''a'', \<lparr>Name = ''a'', Votes = 1, vote = Some ''y'', result = VoteUndecided\<rparr>),
      (''b'', \<lparr>Name = ''b'', Votes = 1, vote = None, result = VoteUndecided\<rparr>),
      (''c'', \<lparr>Name = ''c'', Votes = 1, vote = None, result = VoteUndecided\<rparr>)]"
  "doneCh (subtransactions (tx demo_tx) ! 0)" "calls demo_tx = [Waiting ''a'' 1, Waiting ''b'' 0, Waiting ''a'' 0]"
  by (simp_all add: demo_tx_def tx_eval)

theorem sequence_agreement_witness:
  "\<exists>y v. is_voter (subtransactions (tx demo_tx) ! 0) ''a'' y \<and> result y = VoteCommitted \<and> vote y = Some v \<and>
    (\<forall>m z. is_voter (subtransactions (tx demo_tx) ! 0) m z \<longrightarrow> result z = VoteCommitted \<longrightarrow> vote z = Some v)"
proof -
  have "(0::nat) < 1" "1 < length (subtransactions (tx demo_tx))" by (simp_all add: demo_tx_nth)
  moreover have "is_voter (subtransactions (tx demo_tx) ! 1) ''a''
      \<lparr>Name = ''a'', Votes = 1, vote = Some ''y'', result = VoteUndecided\<rparr>"
    by (simp only: demo_tx_nth) simp
  ultimately show ?thesis by (rule sequence_agreement [OF demo_tx_reachable]) simp
qed

text \<open>A call that waits on a finished subtransaction ends with success or with one of the three
  outcomes of a transaction; the errors for an unknown or an undecided voter cannot occur.\<close>

theorem waiting_call_outcome:
  assumes r: "tx_reachable s" and c: "Waiting node i \<in> set (calls s)"
    and d: "doneCh (subtransactions (tx s) ! i)"
  shows "\<exists>e. snd (tx_collect (tx s) i None node) = e \<and>
    (e = None \<or> (\<exists>e' f. e = Some e' \<and> errors_Is e' f \<and>
       f \<in> {ErrTransactionFailed, ErrTransactionCanceled, ErrTransactionStopped}))"
proof -
  let ?sub = "subtransactions (tx s) ! i"
  have inv: "tx_inv s" using r by (rule txn.reachable_inv)
  then have "call_ok (subtransactions (tx s)) (Waiting node i)" using c by (auto simp: tx_inv_def)
  then obtain x where i: "i < length (subtransactions (tx s))" and x: "is_voter ?sub node x" "active x"
    by (auto simp: call_ok_def)
  have sinv: "sub_inv ?sub" using inv i by (auto simp: tx_inv_def subs_ok_def)
  then have m: "map_of (votersByNode ?sub) node = Some x"
    using x(1) by (simp add: sub_inv_def sub_wf_def wf_map_of_iff)
  have "result x \<noteq> VoteUndecided" using sinv x d by (auto simp: sub_inv_def active_def)
  then show ?thesis
    using m by (cases "result x") (auto simp: tx_collect_def collectVotes_def)
qed

theorem waiting_call_outcome_witness:
  "snd (tx_collect (tx demo_tx) 0 None ''b'') = None \<and>
   (\<exists>e. snd (tx_collect (tx demo_tx) 0 None ''b'') = e \<and>
    (e = None \<or> (\<exists>e' f. e = Some e' \<and> errors_Is e' f \<and>
       f \<in> {ErrTransactionFailed, ErrTransactionCanceled, ErrTransactionStopped})))"
proof
  show "snd (tx_collect (tx demo_tx) 0 None ''b'') = None"
    by (simp add: tx_collect_def collectVotes_def demo_tx_nth)
  show "\<exists>e. snd (tx_collect (tx demo_tx) 0 None ''b'') = e \<and>
    (e = None \<or> (\<exists>e' f. e = Some e' \<and> errors_Is e' f \<and>
       f \<in> {ErrTransactionFailed, ErrTransactionCanceled, ErrTransactionStopped}))"
    by (rule waiting_call_outcome [OF demo_tx_reachable]) (simp_all add: demo_tx_nth)
qed

lemma getPropagatedVoters_ok:
  "\<forall>v \<in> set vs. Name v \<in> fst ` set (votersByNode t) \<Longrightarrow>
    getPropagatedVoters t vs = Inr (map (propagate t) vs)"
proof (induction t vs rule: getPropagatedVoters.induct)
  case (2 t v vs)
  then obtain y where "map_of (votersByNode t) (Name v) = Some y"
    by (metis list.set_intros(1) map_of_eq_None_iff not_None_eq)
  with 2 show ?case by (simp add: propagate_def)
qed simp

text \<open>Cancellations carry over. In every reachable state with a subtransaction, a new one can be
  created, and a voter is canceled in it exactly if it was canceled in the last one.\<close>

theorem canceled_voter_propagates:
  assumes r: "tx_reachable s" and ne: "subtransactions (tx s) \<noteq> []"
  shows "\<exists>sub. createSubtransaction (tx s) = Inr sub \<and>
    (\<forall>n. getResult sub n = Inr VoteCanceled \<longleftrightarrow>
       getResult (last (subtransactions (tx s))) n = Inr VoteCanceled)"
proof -
  let ?l = "last (subtransactions (tx s))" and ?vs = "tx_voters (tx s)"
  have inv: "tx_inv s" using r by (rule txn.reachable_inv)
  have names: "map fst (votersByNode ?l) = map Name ?vs"
    using inv ne by (simp add: tx_inv_def subs_ok_def last_conv_nth weights_names comp_def)
  have st: "distinct (map Name ?vs)" "list_all unvoted ?vs" using inv by (auto simp: tx_inv_def tx_static_def)
  have mem: "fst ` set (votersByNode ?l) = Name ` set ?vs"
    using arg_cong [OF names, of set] by simp
  let ?sub = "newSubtransaction (map (propagate ?l) ?vs) (tx_threshold (tx s))"
  have c: "createSubtransaction (tx s) = Inr ?sub"
    using ne mem by (simp add: createSubtransaction_def getPropagatedVoters_ok)
  have vs: "votersByNode ?sub = map (\<lambda>v. (Name v, propagate ?l v)) ?vs"
    using st(1) by (simp add: newSubtransaction_voters comp_def)
  have "getResult ?sub n = Inr VoteCanceled \<longleftrightarrow> getResult ?l n = Inr VoteCanceled" for n
  proof (cases "n \<in> Name ` set ?vs")
    case True
    then obtain v where v: "v \<in> set ?vs" "Name v = n" by auto
    have "map_of (votersByNode ?sub) n = Some (propagate ?l v)"
      using v st(1) by (intro map_of_is_SomeI) (auto simp: vs comp_def)
    moreover obtain y where "map_of (votersByNode ?l) n = Some y"
      using True mem by (metis map_of_eq_None_iff not_None_eq)
    moreover have "result v = VoteUndecided" using st(2) v(1) by (auto simp: list_all_iff unvoted_def)
    ultimately show ?thesis using v(2) by (auto simp: getResult_def propagate_def)
  next
    case False
    then have "map_of (votersByNode ?sub) n = None" "map_of (votersByNode ?l) n = None"
      using mem by (auto simp: map_of_eq_None_iff vs)
    then show ?thesis by (simp add: getResult_def)
  qed
  with c show ?thesis by blast
qed

theorem canceled_voter_propagates_witness:
  "\<exists>sub. createSubtransaction (tx demo_tx) = Inr sub \<and>
    (\<forall>n. getResult sub n = Inr VoteCanceled \<longleftrightarrow>
       getResult (last (subtransactions (tx demo_tx))) n = Inr VoteCanceled)"
  by (rule canceled_voter_propagates [OF demo_tx_reachable]) (use demo_tx_nth(1) in auto)

text \<open>Canceling a node stops at a finished subtransaction. If the first subtransaction a node has
  not decided on is already done, which is the case when the other nodes reached quorum without it,
  then canceling the node's voter fails and changes nothing: in the later subtransactions the node
  still counts as outstanding.\<close>

theorem cancelNodeVoter_stops_at_finished:
  assumes "getPendingNodeSubtransactions (tx s) node = Inr i" "i < length (subtransactions (tx s))"
    "getResult (subtransactions (tx s) ! i) node = Inr VoteUndecided"
    "doneCh (subtransactions (tx s) ! i)"
  shows "tx_cancelNodeVoter (tx s) node = (tx s, Some (Wrapped ''cancel vote'' AlreadyFinished))"
proof -
  let ?subs = "subtransactions (tx s)"
  obtain x where "map_of (votersByNode (?subs ! i)) node = Some x" "result x = VoteUndecided"
    using assms(3) by (auto simp: getResult_def split: option.splits)
  then have "sub_cancelNodeVoter (?subs ! i) node = Inl (Wrapped ''cancel vote'' AlreadyFinished)"
    using assms(4) by (simp add: sub_cancelNodeVoter_def updateVoterState_def isDone_def)
  moreover have "drop i ?subs = ?subs ! i # drop (Suc i) ?subs"
    using assms(2) by (simp add: Cons_nth_drop_Suc)
  ultimately have "cancel_pending node (drop i ?subs) =
      (drop i ?subs, Some (Wrapped ''cancel vote'' AlreadyFinished))"
    by simp
  then show ?thesis using assms(1,2) by (simp add: tx_cancelNodeVoter_def)
qed

theorem cancelNodeVoter_stops_at_finished_witness:
  "tx_reachable demo_tx \<and>
   tx_cancelNodeVoter (tx demo_tx) ''c'' = (tx demo_tx, Some (Wrapped ''cancel vote'' AlreadyFinished)) \<and>
   getResult (subtransactions (tx demo_tx) ! 1) ''c'' = Inr VoteUndecided"
proof (intro conjI)
  show "tx_reachable demo_tx" by (rule demo_tx_reachable)
  show "tx_cancelNodeVoter (tx demo_tx) ''c'' = (tx demo_tx, Some (Wrapped ''cancel vote'' AlreadyFinished))"
    by (rule cancelNodeVoter_stops_at_finished [where i = 0])
      (simp_all add: demo_tx_subs(3) demo_tx_nth getResult_def)
  show "getResult (subtransactions (tx demo_tx) ! 1) ''c'' = Inr VoteUndecided"
    by (simp only: getResult_def demo_tx_nth) simp
qed

end
