(* ===== verification/TxManager.thy ===== *)
theory TxManager
  imports Transaction
begin

text \<open>
  The transaction manager, \<open>internal/praefect/transactions/manager.go\<close>, and the gRPC handlers on top of
  it, \<open>internal/praefect/service/transaction/server.go\<close>. A \<open>*transaction\<close> is an index into the list of
  allocated transactions, because the cancel function returned by \<open>RegisterTransaction\<close> and calls in
  flight keep the pointer after the manager has dropped it from its map. Metrics and logging are left
  out, except for the label under which the outcome of a vote is counted.
\<close>

section \<open>State\<close>

record Manager =
  idSequence :: u64
  transactions :: "(u64, nat) gomap"
  heap :: "transaction list"

section \<open>Operations\<close>

definition NewManager :: Manager where
  "NewManager = \<lparr>idSequence = 0, transactions = [], heap = []\<rparr>"

definition RegisterTransaction ::
    "Manager \<Rightarrow> Voter list \<Rightarrow> u64 \<Rightarrow> Manager \<times> (tx_error, nat) res" where
  "RegisterTransaction mgr voters thr =
     (let transactionID = idSequence mgr + 1;
          mgr = mgr\<lparr>idSequence := transactionID\<rparr>
      in case newTransaction transactionID voters thr of
           Inl e \<Rightarrow> (mgr, Inl e)
         | Inr t \<Rightarrow>
             if map_of (transactions mgr) transactionID \<noteq> None then (mgr, Inl TransactionExists)
             else (mgr\<lparr>transactions := AList.update transactionID (length (heap mgr)) (transactions mgr),
                       heap := heap mgr @ [t]\<rparr>,
                   Inr (length (heap mgr))))"

text \<open>The cancel function of a registered transaction; it logs how many voters committed.\<close>

definition cancelTransaction :: "Manager \<Rightarrow> nat \<Rightarrow> Manager \<times> nat \<times> nat" where
  "cancelTransaction mgr p =
     (let mgr1 = mgr\<lparr>transactions := AList.delete (ID (heap mgr ! p)) (transactions mgr)\<rparr>;
          t = tx_cancel (heap mgr1 ! p);
          state = tx_State t;
          committed = length (filter (\<lambda>(n, r). r = VoteCommitted) state)
      in (mgr1\<lparr>heap := (heap mgr1)[p := t]\<rparr>, committed, length state))"

text \<open>\<open>voteTransaction\<close> up to the point where the vote waits for its outcome.\<close>

definition voteTransaction ::
    "Manager \<Rightarrow> u64 \<Rightarrow> string \<Rightarrow> Vote \<Rightarrow> Manager \<times> (tx_error, nat \<times> nat) res" where
  "voteTransaction mgr transactionID node v =
     (case map_of (transactions mgr) transactionID of
        None \<Rightarrow> (mgr, Inl (Wrapped (decstr (unat transactionID)) ErrNotFound))
      | Some p \<Rightarrow>
         (case tx_vote_begin (heap mgr ! p) node v of
            (t, Inl e) \<Rightarrow> (mgr\<lparr>heap := (heap mgr)[p := t]\<rparr>, Inl e)
          | (t, Inr i) \<Rightarrow> (mgr\<lparr>heap := (heap mgr)[p := t]\<rparr>, Inr (p, i))))"

definition counterLabel :: "tx_error option \<Rightarrow> string" where
  "counterLabel err =
     (case err of
        None \<Rightarrow> ''committed''
      | Some e \<Rightarrow>
          if errors_Is e ErrTransactionStopped then ''stopped''
          else if errors_Is e ErrTransactionFailed then ''failed''
          else if errors_Is e ErrTransactionCanceled then ''canceled''
          else ''invalid'')"

definition StopTransaction :: "Manager \<Rightarrow> u64 \<Rightarrow> Manager \<times> tx_error option" where
  "StopTransaction mgr transactionID =
     (case map_of (transactions mgr) transactionID of
        None \<Rightarrow> (mgr, Some (Wrapped (decstr (unat transactionID)) ErrNotFound))
      | Some p \<Rightarrow>
          (let (t, r) = tx_stop (heap mgr ! p) in (mgr\<lparr>heap := (heap mgr)[p := t]\<rparr>, r)))"

definition CancelTransactionNodeVoter :: "Manager \<Rightarrow> u64 \<Rightarrow> string \<Rightarrow> Manager \<times> tx_error option" where
  "CancelTransactionNodeVoter mgr transactionID node =
     (case map_of (transactions mgr) transactionID of
        None \<Rightarrow> (mgr, Some (Wrapped (decstr (unat transactionID)) ErrNotFound))
      | Some p \<Rightarrow>
          (let (t, r) = tx_cancelNodeVoter (heap mgr ! p) node
           in (mgr\<lparr>heap := (heap mgr)[p := t]\<rparr>,
               map_option (Wrapped ''canceling transaction node voter'') r)))"

section \<open>gRPC handlers\<close>

datatype VoteState = COMMIT | ABORT | STOP

datatype grpc_error =
    InvalidArgument vote_error | NotFound tx_error | Canceled tx_error | Internal tx_error

text \<open>The handler calls the manager only for a well-formed hash; \<open>VoteTx\<close> is what the manager's
  \<open>VoteTransaction\<close> returns for that vote.\<close>

definition Server_VoteTransaction ::
    "(Vote \<Rightarrow> tx_error option) \<Rightarrow> bytes \<Rightarrow> (grpc_error, VoteState) res" where
  "Server_VoteTransaction VoteTx hash =
     (case VoteFromHash hash of
        Inl e \<Rightarrow> Inl (InvalidArgument e)
      | Inr v \<Rightarrow>
         (case VoteTx v of
            None \<Rightarrow> Inr COMMIT
          | Some e \<Rightarrow>
              if errors_Is e ErrNotFound then Inl (NotFound e)
              else if errors_Is e ErrTransactionCanceled then Inl (Canceled e)
              else if errors_Is e ErrTransactionStopped then Inr STOP
              else if errors_Is e ErrTransactionFailed then Inr ABORT
              else Inl (Internal e)))"

definition Server_StopTransaction ::
    "Manager \<Rightarrow> u64 \<Rightarrow> Manager \<times> (grpc_error, unit) res" where
  "Server_StopTransaction mgr transactionID =
     (case StopTransaction mgr transactionID of
        (mgr', None) \<Rightarrow> (mgr', Inr ())
      | (mgr', Some e) \<Rightarrow>
          (mgr', if errors_Is e ErrNotFound then Inl (NotFound e)
                 else if errors_Is e ErrTransactionCanceled then Inl (Canceled e)
                 else if errors_Is e ErrTransactionStopped then Inr ()
                 else Inl (Internal e)))"

section \<open>Invariant\<close>

text \<open>The map points to the allocated transaction with the key as its id, and no id is above the
  sequence as long as the sequence has not wrapped around.\<close>

definition mgr_inv :: "Manager \<Rightarrow> bool" where
  "mgr_inv mgr \<longleftrightarrow> wf_map (transactions mgr) \<and>
     (\<forall>i p. (i, p) \<in> set (transactions mgr) \<longrightarrow>
        p < length (heap mgr) \<and> tx_id (heap mgr ! p) = i \<and> i \<le> idSequence mgr)"

lemma NewManager_inv: "mgr_inv NewManager"
  by (simp add: mgr_inv_def NewManager_def)

lemma tx_id_list_update:
  "tx_id t = tx_id (ts ! p) \<Longrightarrow> tx_id (ts[p := t] ! q) = tx_id (ts ! q)"
  by (cases "p = q"; cases "p < length ts") (auto simp: list_update_beyond)

lemma mgr_inv_heap:
  "mgr_inv mgr \<Longrightarrow> tx_id t = tx_id (heap mgr ! p) \<Longrightarrow> mgr_inv (mgr\<lparr>heap := (heap mgr)[p := t]\<rparr>)"
  by (simp add: mgr_inv_def tx_id_list_update)

lemma tx_id_stop: "tx_stop t = (t', r) \<Longrightarrow> tx_id t' = tx_id t"
  by (auto simp: tx_stop_def split: prod.splits option.splits)

lemma tx_id_cancelNodeVoter: "tx_cancelNodeVoter t node = (t', r) \<Longrightarrow> tx_id t' = tx_id t"
  by (auto simp: tx_cancelNodeVoter_def Let_def split: sum.splits prod.splits if_splits)

lemma tx_id_vote: "tx_vote_begin t node v = (t', r) \<Longrightarrow> tx_id t' = tx_id t"
  by (auto simp: tx_vote_begin_def getOrCreateSubtransaction_def tx_cast_def
      split: sum.splits prod.splits option.splits transactionState.splits if_splits)

lemma tx_id_cancel [simp]: "tx_id (tx_cancel t) = tx_id t"
  by (simp add: tx_cancel_def)

lemma voteTransaction_inv: "mgr_inv mgr \<Longrightarrow> voteTransaction mgr i node v = (mgr', r) \<Longrightarrow> mgr_inv mgr'"
  by (auto simp: voteTransaction_def intro!: mgr_inv_heap dest: tx_id_vote
      split: option.splits prod.splits sum.splits)

lemma StopTransaction_inv: "mgr_inv mgr \<Longrightarrow> StopTransaction mgr i = (mgr', r) \<Longrightarrow> mgr_inv mgr'"
  by (auto simp: StopTransaction_def Let_def intro!: mgr_inv_heap dest: tx_id_stop
      split: option.splits prod.splits)

lemma CancelTransactionNodeVoter_inv:
  "mgr_inv mgr \<Longrightarrow> CancelTransactionNodeVoter mgr i node = (mgr', r) \<Longrightarrow> mgr_inv mgr'"
  by (auto simp: CancelTransactionNodeVoter_def Let_def intro!: mgr_inv_heap dest: tx_id_cancelNodeVoter
      split: option.splits prod.splits)

lemma set_delete: "set (AList.delete k m) = {q \<in> set m. fst q \<noteq> k}"
  by (auto simp: AList.delete_eq)

lemma cancelTransaction_inv: "mgr_inv mgr \<Longrightarrow> mgr_inv (fst (cancelTransaction mgr p))"
proof -
  assume "mgr_inv mgr"
  then have "mgr_inv (mgr\<lparr>transactions := AList.delete (ID (heap mgr ! p)) (transactions mgr)\<rparr>)"
    by (auto simp: mgr_inv_def set_delete gm.invar_del)
  from mgr_inv_heap [OF this, of "tx_cancel (heap mgr ! p)" p] show ?thesis
    by (simp add: cancelTransaction_def Let_def)
qed

lemma newTransaction_id: "newTransaction i voters thr = Inr t \<Longrightarrow> tx_id t = i"
  by (auto simp: newTransaction_def split: if_splits sum.splits)

lemma RegisterTransaction_inv:
  assumes inv: "mgr_inv mgr" and nw: "idSequence mgr < idSequence mgr + 1"
    and r: "RegisterTransaction mgr voters thr = (mgr', r)"
  shows "mgr_inv mgr'"
proof -
  have le: "x \<le> idSequence mgr + 1" if "x \<le> idSequence mgr" for x
    using that nw by (rule order_trans [OF _ less_imp_le])
  have old: "p < Suc (length (heap mgr)) \<and> tx_id ((heap mgr @ [t]) ! p) = i \<and> i \<le> idSequence mgr + 1"
    if "(i, p) \<in> set (transactions mgr)" for i p t
    using inv le that by (fastforce simp: mgr_inv_def nth_append)
  show ?thesis
    using inv r le old
    by (auto simp: RegisterTransaction_def Let_def mgr_inv_def set_update gm.invar_set
        newTransaction_id split: sum.splits if_splits)
qed

text \<open>The next id is not in use.\<close>

lemma fresh_id:
  assumes "mgr_inv mgr" "idSequence mgr < idSequence mgr + 1"
  shows "map_of (transactions mgr) (idSequence mgr + 1) = None"
proof (rule ccontr)
  assume "map_of (transactions mgr) (idSequence mgr + 1) \<noteq> None"
  then obtain p where "(idSequence mgr + 1, p) \<in> set (transactions mgr)" by (auto dest: map_of_SomeD)
  then have "idSequence mgr + 1 \<le> idSequence mgr" using assms(1) by (auto simp: mgr_inv_def)
  with assms(2) show False by simp
qed

section \<open>Properties\<close>

text \<open>Registering a transaction never clashes with one that is already registered: as long as
  the 64-bit sequence does not wrap around, the id is new, the transaction is stored under it and the
  other transactions are untouched.\<close>

theorem RegisterTransaction_fresh:
  assumes inv: "mgr_inv mgr" and nw: "idSequence mgr < idSequence mgr + 1"
    and t: "newTransaction (idSequence mgr + 1) voters thr = Inr t"
  shows "\<exists>mgr' p. RegisterTransaction mgr voters thr = (mgr', Inr p) \<and>
    map_of (transactions mgr) (idSequence mgr + 1) = None \<and>
    map_of (transactions mgr') = (map_of (transactions mgr))(idSequence mgr + 1 \<mapsto> p) \<and>
    heap mgr' ! p = t \<and> take (length (heap mgr)) (heap mgr') = heap mgr \<and> mgr_inv mgr'"
proof -
  let ?i = "idSequence mgr + 1"
  have none: "map_of (transactions mgr) ?i = None" using inv nw by (rule fresh_id)
  obtain mgr' r where r: "RegisterTransaction mgr voters thr = (mgr', r)" by fastforce
  then have "mgr_inv mgr'" by (rule RegisterTransaction_inv [OF inv nw])
  then show ?thesis
    using r t none by (auto simp: RegisterTransaction_def Let_def gm.get_set)
qed

theorem RegisterTransaction_fresh_witness:
  "\<exists>mgr' p. RegisterTransaction NewManager demo_voters 2 = (mgr', Inr p) \<and>
    map_of (transactions mgr') = [1 \<mapsto> p]"
proof -
  have "newTransaction (idSequence NewManager + 1) demo_voters 2 =
      Inr \<lparr>tx_id = 1, tx_threshold = 2, tx_voters = demo_voters,
           tx_state = transactionOpen, subtransactions = []\<rparr>"
    by (simp add: newTransaction_def demo_voters_def NewManager_def)
  from RegisterTransaction_fresh [OF NewManager_inv _ this] show ?thesis
    by (auto simp: NewManager_def)
qed

text \<open>The cancel function ends a transaction for good. Afterwards the manager answers every vote, stop
  or cancellation for its id with \<open>ErrNotFound\<close>, every vote still in flight finds a finished
  subtransaction in which no voter is undecided, and the other transactions are as before.\<close>

theorem cancelTransaction_ends:
  assumes inv: "mgr_inv mgr" and p: "map_of (transactions mgr) i = Some p"
    and r: "cancelTransaction mgr p = (mgr', c, n)"
  shows "errors_Is (projl (snd (voteTransaction mgr' i node v))) ErrNotFound \<and>
    fst (voteTransaction mgr' i node v) = mgr' \<and>
    (\<exists>e. StopTransaction mgr' i = (mgr', Some e) \<and> errors_Is e ErrNotFound) \<and>
    (\<exists>e. CancelTransactionNodeVoter mgr' i node = (mgr', Some e) \<and> errors_Is e ErrNotFound) \<and>
    list_all (\<lambda>s. isDone s \<and> no_undecided s) (subtransactions (heap mgr' ! p)) \<and>
    (\<forall>j. j \<noteq> i \<longrightarrow> map_of (transactions mgr') j = map_of (transactions mgr) j) \<and>
    (\<forall>q. q \<noteq> p \<longrightarrow> heap mgr' ! q = heap mgr ! q)"
proof -
  have ip: "p < length (heap mgr)" "ID (heap mgr ! p) = i"
    using inv map_of_SomeD [OF p] by (auto simp: mgr_inv_def ID_def)
  have m': "transactions mgr' = AList.delete i (transactions mgr)"
    "heap mgr' = (heap mgr)[p := tx_cancel (heap mgr ! p)]"
    using r ip by (auto simp: cancelTransaction_def Let_def)
  have none: "map_of (transactions mgr') i = None" by (simp add: m' gm.get_del)
  have dn: "list_all (\<lambda>s. isDone s \<and> no_undecided s) (subtransactions (tx_cancel (heap mgr ! p)))"
    by (auto simp: tx_cancel_def sub_cancel_def isDone_def cancel_voter_def list_all_iff split: if_splits)
  show ?thesis
    using none dn ip
    by (simp add: voteTransaction_def StopTransaction_def CancelTransactionNodeVoter_def m' gm.get_del)
qed

definition demo_mgr :: Manager where
  "demo_mgr = fst (RegisterTransaction NewManager demo_voters 2)"

lemma demo_mgr_eval:
  "demo_mgr = \<lparr>idSequence = 1, transactions = [(1, 0)],
     heap = [\<lparr>tx_id = 1, tx_threshold = 2, tx_voters = demo_voters,
              tx_state = transactionOpen, subtransactions = []\<rparr>]\<rparr>"
  by (simp add: demo_mgr_def RegisterTransaction_def newTransaction_def demo_voters_def NewManager_def)

theorem cancelTransaction_ends_witness:
  "errors_Is (projl (snd (voteTransaction (fst (cancelTransaction demo_mgr 0)) 1 ''a'' ''x''))) ErrNotFound"
proof -
  obtain mgr' c n where r: "cancelTransaction demo_mgr 0 = (mgr', c, n)" by (cases "cancelTransaction demo_mgr 0")
  have "mgr_inv demo_mgr" "map_of (transactions demo_mgr) 1 = Some 0"
    by (simp_all add: demo_mgr_eval mgr_inv_def wf_map_def)
  from cancelTransaction_ends [OF this r] show ?thesis by (simp add: r)
qed



end
