(* ===== verification/ReplicationQueue.thy ===== *)
theory ReplicationQueue
  imports Prelude
begin

text \<open>
  The in-memory replication event queue, \<open>internal/praefect/datastore/memory.go\<close>, with the types it
  shares with the SQL implementation, \<open>queue.go\<close> and \<open>datastore.go\<close>. Every operation runs under the
  queue's lock. \<open>json.Marshal\<close> is the argument \<open>marshal\<close>, of which nothing is assumed: \<open>None\<close> is an error.
  The clock is an argument as well: \<open>now i\<close> is what \<open>time.Now\<close> returns in the \<open>i\<close>-th turn of a loop.
  The interceptor at the end of the file is a wrapper around any implementation of the interface.
\<close>

section \<open>State\<close>

datatype JobState =
    JobStateReady | JobStateInProgress | JobStateCompleted | JobStateFailed | JobStateDead

datatype ChangeType = UpdateRepo | CreateRepo | DeleteRepo | DeleteReplica | RenameRepo

text \<open>\<open>Params\<close> maps names to values of any type, a string or another one; the queue never looks inside.\<close>

datatype go_any = AnyString string | AnyOther nat

type_synonym Params = "(string, go_any) gomap"

record ReplicationJob =
  RepositoryID :: int
  ReplicaPath :: string
  Change :: ChangeType
  RelativePath :: string
  TargetNodeStorage :: string
  SourceNodeStorage :: string
  VirtualStorage :: string
  job_Params :: Params

record ReplicationEvent =
  ev_ID :: u64
  ev_State :: JobState
  Attempt :: int
  LockID :: string
  CreatedAt :: nat
  UpdatedAt :: "nat option"
  Job :: ReplicationJob
  Meta :: Params

type_synonym eventDestination = "string \<times> string \<times> string"

record memoryReplicationEventQueue =
  seq :: u64
  queued :: "ReplicationEvent list"
  dequeued :: "u64 set"
  storageNamesByVirtualStorage :: "(string, string list) gomap"
  lastEventByDest :: "(eventDestination, ReplicationEvent) gomap"

datatype queue_error =
    UnsupportedState JobState | NotInProgress u64 JobState | ErrDeadAckedAsFailed
  | MarshalError | NilDereference

type_synonym marshaller = "ReplicationJob \<Rightarrow> string option"

section \<open>Operations\<close>

text \<open>\<open>conf\<close> lists the virtual storages by name with the storages of their nodes.\<close>

definition NewMemoryReplicationEventQueue ::
    "(string \<times> string list) list \<Rightarrow> memoryReplicationEventQueue" where
  "NewMemoryReplicationEventQueue conf =
     \<lparr>seq = 0, queued = [], dequeued = {},
      storageNamesByVirtualStorage = fold (\<lambda>(name, storages). AList.update name storages) conf [],
      lastEventByDest = []\<rparr>"

definition nextID :: "memoryReplicationEventQueue \<Rightarrow> memoryReplicationEventQueue \<times> u64" where
  "nextID s = (s\<lparr>seq := seq s + 1\<rparr>, seq s + 1)"

definition defineDest :: "ReplicationEvent \<Rightarrow> eventDestination" where
  "defineDest event =
     (VirtualStorage (Job event), TargetNodeStorage (Job event), RelativePath (Job event))"

definition Enqueue ::
    "nat \<Rightarrow> memoryReplicationEventQueue \<Rightarrow> ReplicationEvent
     \<Rightarrow> memoryReplicationEventQueue \<times> ReplicationEvent" where
  "Enqueue now s event =
     (let event = event\<lparr>Attempt := 3, ev_State := JobStateReady, CreatedAt := now,
            LockID := VirtualStorage (Job event) @ ''|'' @ TargetNodeStorage (Job event) @ ''|'' @
                      RelativePath (Job event)\<rparr>;
          dest = defineDest event;
          (s, i) = nextID s;
          event = event\<lparr>ev_ID := i\<rparr>
      in (s\<lparr>queued := queued s @ [event],
            lastEventByDest := AList.update dest event (lastEventByDest s)\<rparr>, event))"

text \<open>The update of \<open>lastEventByDest\<close> that follows every change of a queued event.\<close>

definition refresh_last ::
    "ReplicationEvent \<Rightarrow> (eventDestination, ReplicationEvent) gomap
     \<Rightarrow> (eventDestination, ReplicationEvent) gomap" where
  "refresh_last event m =
     (case map_of m (defineDest event) of
        Some l \<Rightarrow> if ev_ID l = ev_ID event then AList.update (defineDest event) event m else m
      | None \<Rightarrow> m)"

definition dequeue_event :: "nat \<Rightarrow> ReplicationEvent \<Rightarrow> ReplicationEvent" where
  "dequeue_event now event =
     event\<lparr>Attempt := Attempt event - 1, ev_State := JobStateInProgress, UpdatedAt := Some now\<rparr>"

definition dequeue_at ::
    "nat \<Rightarrow> nat \<Rightarrow> memoryReplicationEventQueue \<Rightarrow> memoryReplicationEventQueue" where
  "dequeue_at now i s =
     (let event = dequeue_event now (queued s ! i)
      in s\<lparr>queued := (queued s)[i := event], dequeued := insert (ev_ID event) (dequeued s),
           lastEventByDest := refresh_last event (lastEventByDest s)\<rparr>)"

definition eligible :: "string \<Rightarrow> string \<Rightarrow> ReplicationEvent \<Rightarrow> bool" where
  "eligible virtualStorage nodeStorage event \<longleftrightarrow>
     VirtualStorage (Job event) = virtualStorage \<and> TargetNodeStorage (Job event) = nodeStorage \<and>
     (ev_State event = JobStateReady \<or> ev_State event = JobStateFailed)"

text \<open>The loop of \<open>Dequeue\<close>. An error returns no events, but the events dequeued before it stay
  dequeued.\<close>

function dequeue_loop ::
    "marshaller \<Rightarrow> (nat \<Rightarrow> nat) \<Rightarrow> string \<Rightarrow> string \<Rightarrow> int \<Rightarrow> nat \<Rightarrow> string set \<Rightarrow> ReplicationEvent list
     \<Rightarrow> memoryReplicationEventQueue \<Rightarrow> memoryReplicationEventQueue \<times> (queue_error, ReplicationEvent list) res"
where
  "dequeue_loop marshal now vs ns cnt i uniqueJob res s =
     (if i < length (queued s) then
        if eligible vs ns (queued s ! i) then
          (case marshal (Job (queued s ! i)) of
             None \<Rightarrow> (s, Inl MarshalError)
           | Some jobData \<Rightarrow>
               if jobData \<in> uniqueJob then dequeue_loop marshal now vs ns cnt (Suc i) uniqueJob res s
               else
                 (let s' = dequeue_at (now i) i s;
                      res' = res @ [queued s' ! i]
                  in if int (length res') \<ge> cnt then (s', Inr res')
                     else dequeue_loop marshal now vs ns cnt (Suc i) (insert jobData uniqueJob) res' s'))
        else dequeue_loop marshal now vs ns cnt (Suc i) uniqueJob res s
      else (s, Inr res))"
  by pat_completeness auto
termination
  by (relation "measure (\<lambda>(m, now, vs, ns, c, i, u, r, s). length (queued s) - i)")
    (auto simp: dequeue_at_def Let_def)

definition Dequeue ::
    "marshaller \<Rightarrow> (nat \<Rightarrow> nat) \<Rightarrow> memoryReplicationEventQueue \<Rightarrow> string \<Rightarrow> string \<Rightarrow> int
     \<Rightarrow> memoryReplicationEventQueue \<times> (queue_error, ReplicationEvent list) res" where
  "Dequeue marshal now s virtualStorage nodeStorage cnt =
     dequeue_loop marshal now virtualStorage nodeStorage cnt 0 {} [] s"

definition allowToAck :: "JobState \<Rightarrow> queue_error option" where
  "allowToAck state =
     (if state = JobStateCompleted \<or> state = JobStateFailed \<or> state = JobStateDead then None
      else Some (UnsupportedState state))"

definition queue_remove :: "nat \<Rightarrow> memoryReplicationEventQueue \<Rightarrow> memoryReplicationEventQueue" where
  "queue_remove i s =
     s\<lparr>dequeued := dequeued s - {ev_ID (queued s ! i)},
       queued := take i (queued s) @ drop (Suc i) (queued s)\<rparr>"

text \<open>The inner loop of \<open>Acknowledge\<close>: removes the events with the same job data that were created
  before the acknowledged one was dequeued.\<close>

function ack_similar ::
    "marshaller \<Rightarrow> string \<Rightarrow> nat \<Rightarrow> nat \<Rightarrow> memoryReplicationEventQueue
     \<Rightarrow> memoryReplicationEventQueue \<times> queue_error option" where
  "ack_similar marshal ackJobData dequeuedAt j s =
     (if j < length (queued s) then
        if dequeuedAt < CreatedAt (queued s ! j) then (s, None)
        else (case marshal (Job (queued s ! j)) of
                None \<Rightarrow> (s, Some MarshalError)
              | Some sameJobData \<Rightarrow>
                  if ackJobData = sameJobData
                  then ack_similar marshal ackJobData dequeuedAt (Suc j) (queue_remove j s)
                  else ack_similar marshal ackJobData dequeuedAt (Suc j) s)
      else (s, None))"
  by pat_completeness auto
termination
  by (relation "measure (\<lambda>(m, d, t, j, s). length (queued s) - j)") (auto simp: queue_remove_def)

declare dequeue_loop.simps [simp del] ack_similar.simps [simp del]

definition ack_event :: "nat \<Rightarrow> JobState \<Rightarrow> nat \<Rightarrow> memoryReplicationEventQueue \<Rightarrow> memoryReplicationEventQueue" where
  "ack_event now state i s =
     (let event = (queued s ! i)\<lparr>ev_State := state, UpdatedAt := Some now\<rparr>
      in s\<lparr>queued := (queued s)[i := event], lastEventByDest := refresh_last event (lastEventByDest s)\<rparr>)"

text \<open>One turn of the outer loop of \<open>Acknowledge\<close>, for the event at index \<open>i\<close>.\<close>

definition ack_at ::
    "marshaller \<Rightarrow> nat \<Rightarrow> JobState \<Rightarrow> nat \<Rightarrow> memoryReplicationEventQueue
     \<Rightarrow> memoryReplicationEventQueue \<times> queue_error option" where
  "ack_at marshal now state i s =
     (let event = queued s ! i in
      if ev_State event \<noteq> JobStateInProgress then (s, Some (NotInProgress (ev_ID event) (ev_State event)))
      else if Attempt event = 0 \<and> state = JobStateFailed then (s, Some ErrDeadAckedAsFailed)
      else
        (let s' = ack_event now state i s in
         if state = JobStateCompleted then
           (case marshal (Job event) of
              None \<Rightarrow> (s', Some MarshalError)
            | Some ackJobData \<Rightarrow>
                if Suc i < length (queued s') \<and> UpdatedAt event = None then (s', Some NilDereference)
                else (case ack_similar marshal ackJobData (the (UpdatedAt event)) (Suc i) s' of
                        (s'', Some e) \<Rightarrow> (s'', Some e)
                      | (s'', None) \<Rightarrow> (queue_remove i s'', None)))
         else if state = JobStateDead then (queue_remove i s', None)
         else (s', None)))"

definition index_of :: "u64 \<Rightarrow> ReplicationEvent list \<Rightarrow> nat" where
  "index_of i es = length (takeWhile (\<lambda>e. ev_ID e \<noteq> i) es)"

fun ack_ids ::
    "marshaller \<Rightarrow> (nat \<Rightarrow> nat) \<Rightarrow> JobState \<Rightarrow> u64 list \<Rightarrow> u64 list \<Rightarrow> memoryReplicationEventQueue
     \<Rightarrow> memoryReplicationEventQueue \<times> (queue_error, u64 list) res" where
  "ack_ids marshal now state [] res s = (s, Inr res)"
| "ack_ids marshal now state (i # ids) res s =
     (if i \<notin> dequeued s then ack_ids marshal now state ids res s
      else if index_of i (queued s) < length (queued s) then
        (case ack_at marshal (now (length ids)) state (index_of i (queued s)) s of
           (s', Some e) \<Rightarrow> (s', Inl e)
         | (s', None) \<Rightarrow> ack_ids marshal now state ids (res @ [i]) s')
      else ack_ids marshal now state ids res s)"

definition Acknowledge ::
    "marshaller \<Rightarrow> (nat \<Rightarrow> nat) \<Rightarrow> memoryReplicationEventQueue \<Rightarrow> JobState \<Rightarrow> u64 list
     \<Rightarrow> memoryReplicationEventQueue \<times> (queue_error, u64 list) res" where
  "Acknowledge marshal now s state ids =
     (if ids = [] then (s, Inr [])
      else case allowToAck state of
             Some e \<Rightarrow> (s, Inl e)
           | None \<Rightarrow> ack_ids marshal now state ids [] s)"

definition AcknowledgeStale :: "memoryReplicationEventQueue \<Rightarrow> memoryReplicationEventQueue \<times> nat" where
  "AcknowledgeStale s = (s, 0)"

section \<open>Steps\<close>

datatype queue_event = Enq ReplicationEvent | Deq string string int | Ack JobState "u64 list"

inductive queue_step ::
    "memoryReplicationEventQueue \<Rightarrow> queue_event \<Rightarrow> memoryReplicationEventQueue \<Rightarrow> bool" where
  step_enqueue: "seq s < seq s + 1 \<Longrightarrow> queue_step s (Enq event) (fst (Enqueue t s event))"
| step_dequeue: "queue_step s (Deq vs ns cnt) (fst (Dequeue marshal now s vs ns cnt))"
| step_ack: "queue_step s (Ack state ids) (fst (Acknowledge marshal now s state ids))"

definition queue_init :: "memoryReplicationEventQueue \<Rightarrow> bool" where
  "queue_init s \<longleftrightarrow> (\<exists>conf. s = NewMemoryReplicationEventQueue conf)"

section \<open>Invariant\<close>

text \<open>What holds of an event in each of its states.\<close>

definition event_ok :: "u64 set \<Rightarrow> ReplicationEvent \<Rightarrow> bool" where
  "event_ok deq e \<longleftrightarrow> (ev_ID e \<in> deq \<longleftrightarrow> ev_State e \<noteq> JobStateReady) \<and>
     (case ev_State e of
        JobStateReady \<Rightarrow> Attempt e = 3
      | JobStateInProgress \<Rightarrow> 0 \<le> Attempt e \<and> Attempt e < 3 \<and> UpdatedAt e \<noteq> None
      | JobStateFailed \<Rightarrow> 0 < Attempt e \<and> Attempt e < 3
      | _ \<Rightarrow> 0 \<le> Attempt e \<and> Attempt e < 3)"

definition last_ok :: "memoryReplicationEventQueue \<Rightarrow> bool" where
  "last_ok s \<longleftrightarrow> (\<forall>e l. e \<in> set (queued s) \<longrightarrow>
     map_of (lastEventByDest s) (defineDest e) = Some l \<longrightarrow> ev_ID l = ev_ID e \<longrightarrow> l = e)"

definition queue_inv :: "memoryReplicationEventQueue \<Rightarrow> bool" where
  "queue_inv s \<longleftrightarrow>
     sorted_wrt (<) (map ev_ID (queued s)) \<and>
     (\<forall>e. e \<in> set (queued s) \<longrightarrow> ev_ID e \<le> seq s \<and> event_ok (dequeued s) e) \<and>
     dequeued s \<subseteq> ev_ID ` set (queued s) \<and> last_ok s"

lemma queue_inv_init: "queue_init s \<Longrightarrow> queue_inv s"
  by (auto simp: queue_init_def NewMemoryReplicationEventQueue_def queue_inv_def last_ok_def)

lemma queue_inv_distinct: "queue_inv s \<Longrightarrow> distinct (map ev_ID (queued s))"
  by (simp add: queue_inv_def strict_sorted_iff)

lemma Enqueue_simps:
  "queued (fst (Enqueue t s event)) = queued s @ [snd (Enqueue t s event)]"
  "seq (fst (Enqueue t s event)) = seq s + 1"
  "dequeued (fst (Enqueue t s event)) = dequeued s"
  "lastEventByDest (fst (Enqueue t s event)) =
     AList.update (defineDest (snd (Enqueue t s event))) (snd (Enqueue t s event)) (lastEventByDest s)"
  "ev_ID (snd (Enqueue t s event)) = seq s + 1"
  "ev_State (snd (Enqueue t s event)) = JobStateReady"
  "Attempt (snd (Enqueue t s event)) = 3"
  "Job (snd (Enqueue t s event)) = Job event"
  by (simp_all add: Enqueue_def nextID_def defineDest_def Let_def)

lemma Enqueue_inv:
  assumes inv: "queue_inv s" and nw: "seq s < seq s + 1"
  shows "queue_inv (fst (Enqueue t s event))"
proof -
  have lt: "ev_ID e < seq s + 1" if "e \<in> set (queued s)" for e
    using inv that nw by (auto simp: queue_inv_def intro: le_less_trans)
  have "seq s + 1 \<notin> dequeued s"
    using inv lt by (force simp: queue_inv_def)
  then have new: "event_ok (dequeued s) (snd (Enqueue t s event))"
    by (simp add: event_ok_def Enqueue_simps)
  have "seq s + 1 \<notin> ev_ID ` set (queued s)"
    using lt by force
  then have last: "last_ok (fst (Enqueue t s event))"
    using inv by (auto simp: last_ok_def queue_inv_def Enqueue_simps gm.get_set split: if_splits)
  show ?thesis
    using inv lt new last
    by (auto simp: queue_inv_def Enqueue_simps sorted_wrt_append less_imp_le)
qed

text \<open>Changing one event in place, as \<open>Dequeue\<close> and \<open>Acknowledge\<close> do.\<close>

lemma ev_ID_update:
  "i < length es \<Longrightarrow> ev_ID e = ev_ID (es ! i) \<Longrightarrow> map ev_ID (es[i := e]) = map ev_ID es"
  by (metis list_update_id map_update nth_map)

lemma set_update_distinct:
  "distinct (map ev_ID es) \<Longrightarrow> i < length es \<Longrightarrow>
   set (es[i := e]) = insert e {x \<in> set es. ev_ID x \<noteq> ev_ID (es ! i)}"
proof (induction es arbitrary: i)
  case (Cons x es)
  show ?case
  proof (cases i)
    case 0
    have "{y \<in> set es. ev_ID y \<noteq> ev_ID x} = set es"
      using Cons.prems by (simp add: avoid_image)
    then show ?thesis using 0 by auto
  next
    case (Suc k)
    then have "ev_ID x \<noteq> ev_ID (es ! k)" using Cons.prems by auto
    then show ?thesis using Suc Cons by auto
  qed
qed simp

lemma refresh_last_get:
  "map_of (refresh_last e m) d =
     (if d = defineDest e \<and> (\<exists>l. map_of m d = Some l \<and> ev_ID l = ev_ID e) then Some e else map_of m d)"
  by (auto simp: refresh_last_def gm.get_set split: option.splits)

lemma queue_inv_update:
  assumes inv: "queue_inv s" and i: "i < length (queued s)"
    and e: "ev_ID e = ev_ID (queued s ! i)" "Job e = Job (queued s ! i)"
    and D: "D = dequeued s \<or> D = insert (ev_ID e) (dequeued s)" and ok: "event_ok D e"
  shows "queue_inv (s\<lparr>queued := (queued s)[i := e], dequeued := D,
                      lastEventByDest := refresh_last e (lastEventByDest s)\<rparr>)"
proof -
  let ?es = "(queued s)[i := e]"
  have dest: "defineDest e = defineDest (queued s ! i)" by (simp add: defineDest_def e)
  note ids = ev_ID_update [OF i e(1)]
  note elems = set_update_distinct [OF queue_inv_distinct [OF inv] i, of e]
  have mem: "queued s ! i \<in> set (queued s)" using i by simp
  have oks: "ev_ID x \<le> seq s \<and> event_ok D x" if x: "x \<in> set ?es" for x
  proof (cases "x = e")
    case True
    then show ?thesis using ok e(1) inv mem by (simp add: queue_inv_def)
  next
    case False
    then have "x \<in> set (queued s)" "ev_ID x \<noteq> ev_ID e" using x e(1) by (simp_all add: elems)
    then show ?thesis using inv D by (auto simp: queue_inv_def event_ok_def)
  qed
  have sub: "D \<subseteq> ev_ID ` set ?es"
  proof -
    have "ev_ID ` set ?es = ev_ID ` set (queued s)" by (metis ids list.set_map)
    then show ?thesis using D inv mem e(1) by (auto simp: queue_inv_def)
  qed
  have "l = x" if x: "x \<in> set ?es" "map_of (refresh_last e (lastEventByDest s)) (defineDest x) = Some l"
      "ev_ID l = ev_ID x" for x l
  proof (cases "x = e")
    case True
    then show ?thesis using x by (auto simp: refresh_last_get split: if_splits)
  next
    case False
    then have "x \<in> set (queued s)" "ev_ID x \<noteq> ev_ID e" using x e(1) by (simp_all add: elems)
    then show ?thesis
      using x inv by (auto simp: refresh_last_get queue_inv_def last_ok_def split: if_splits)
  qed
  then have "last_ok (s\<lparr>queued := ?es, dequeued := D, lastEventByDest := refresh_last e (lastEventByDest s)\<rparr>)"
    by (simp add: last_ok_def)
  then show ?thesis using inv ids oks sub by (simp add: queue_inv_def)
qed

lemma event_ok_dequeue: "event_ok deq e \<Longrightarrow> eligible vs ns e \<Longrightarrow>
   event_ok (insert (ev_ID e) deq) (dequeue_event t e)"
  by (auto simp: event_ok_def eligible_def dequeue_event_def)

lemma dequeue_at_inv:
  assumes "queue_inv s" "i < length (queued s)" "eligible vs ns (queued s ! i)"
  shows "queue_inv (dequeue_at t i s)"
proof -
  have "event_ok (dequeued s) (queued s ! i)" using assms by (simp add: queue_inv_def)
  then have "event_ok (insert (ev_ID (queued s ! i)) (dequeued s)) (dequeue_event t (queued s ! i))"
    using assms(3) by (rule event_ok_dequeue)
  then show ?thesis
    using queue_inv_update [OF assms(1,2), of "dequeue_event t (queued s ! i)"
        "insert (ev_ID (queued s ! i)) (dequeued s)"]
    by (simp add: dequeue_at_def dequeue_event_def Let_def)
qed

lemma dequeue_loop_inv: "queue_inv s \<Longrightarrow> queue_inv (fst (dequeue_loop marshal now vs ns cnt i U res s))"
proof (induction marshal now vs ns cnt i U res s rule: dequeue_loop.induct)
  case (1 marshal now vs ns cnt i U res s)
  show ?case
    using 1 dequeue_at_inv [OF 1(4), of i vs ns "now i"]
    by (subst dequeue_loop.simps) (auto simp: Let_def split: option.splits)
qed

lemma Dequeue_inv: "queue_inv s \<Longrightarrow> queue_inv (fst (Dequeue marshal now s vs ns cnt))"
  by (simp add: Dequeue_def dequeue_loop_inv)

lemma queue_remove_simps:
  "queued (queue_remove i s) = take i (queued s) @ drop (Suc i) (queued s)"
  "dequeued (queue_remove i s) = dequeued s - {ev_ID (queued s ! i)}"
  "seq (queue_remove i s) = seq s" "lastEventByDest (queue_remove i s) = lastEventByDest s"
  by (simp_all add: queue_remove_def)

lemma set_queue_remove:
  assumes "distinct (map ev_ID (queued s))" "i < length (queued s)"
  shows "set (queued (queue_remove i s)) = {e \<in> set (queued s). ev_ID e \<noteq> ev_ID (queued s ! i)}"
proof -
  let ?x = "queued s ! i"
  have es: "queued s = take i (queued s) @ ?x # drop (Suc i) (queued s)"
    using assms(2) by (rule id_take_nth_drop)
  have "distinct (map ev_ID (take i (queued s) @ ?x # drop (Suc i) (queued s)))"
    using assms(1) es by simp
  then have "ev_ID ?x \<notin> ev_ID ` (set (take i (queued s)) \<union> set (drop (Suc i) (queued s)))" by auto
  then have "{e \<in> set (take i (queued s) @ ?x # drop (Suc i) (queued s)). ev_ID e \<noteq> ev_ID ?x} =
      set (take i (queued s)) \<union> set (drop (Suc i) (queued s))"
    using avoid_image [of "ev_ID ?x" ev_ID] by auto
  then show ?thesis using es by (simp add: queue_remove_simps)
qed

lemma queue_remove_inv:
  assumes inv: "queue_inv s" and i: "i < length (queued s)"
  shows "queue_inv (queue_remove i s)"
proof -
  note elems = set_queue_remove [OF queue_inv_distinct [OF inv] i]
  have subseq_ok: "sorted_wrt (<) (map ev_ID (queued (queue_remove i s)))"
  proof -
    have "sorted_wrt (<) (map ev_ID (take i (queued s) @ queued s ! i # drop (Suc i) (queued s)))"
      using inv id_take_nth_drop [OF i] by (simp add: queue_inv_def)
    then show ?thesis by (auto simp: queue_remove_simps sorted_wrt_append)
  qed
  have "event_ok (dequeued (queue_remove i s)) e"
    if "e \<in> set (queued (queue_remove i s))" for e
    using that inv unfolding elems by (auto simp: queue_inv_def event_ok_def queue_remove_simps)
  moreover have "dequeued (queue_remove i s) \<subseteq> ev_ID ` set (queued (queue_remove i s))"
    using inv unfolding elems by (auto simp: queue_inv_def queue_remove_simps)
  moreover have "last_ok (queue_remove i s)"
    using inv unfolding queue_inv_def last_ok_def elems by (auto simp: queue_remove_simps)
  moreover have "ev_ID e \<le> seq (queue_remove i s)" if "e \<in> set (queued (queue_remove i s))" for e
    using that inv unfolding elems by (auto simp: queue_inv_def queue_remove_simps)
  ultimately show ?thesis using subseq_ok by (simp add: queue_inv_def)
qed

lemma ack_event_inv:
  assumes "queue_inv s" "i < length (queued s)" "ev_State (queued s ! i) = JobStateInProgress"
    and "state \<in> {JobStateCompleted, JobStateFailed, JobStateDead}"
    and "\<not> (Attempt (queued s ! i) = 0 \<and> state = JobStateFailed)"
  shows "queue_inv (ack_event t state i s)"
proof -
  let ?e = "(queued s ! i)\<lparr>ev_State := state, UpdatedAt := Some t\<rparr>"
  have "event_ok (dequeued s) (queued s ! i)" using assms by (simp add: queue_inv_def)
  then have "event_ok (dequeued s) ?e" using assms by (auto simp: event_ok_def)
  then show ?thesis
    using queue_inv_update [OF assms(1,2), of ?e "dequeued s"] by (simp add: ack_event_def Let_def)
qed

lemma ack_similar_spec:
  "queue_inv s \<Longrightarrow> ack_similar marshal d t j s = (s', r) \<Longrightarrow>
   queue_inv s' \<and> r \<noteq> Some NilDereference \<and>
   take j (queued s') = take j (queued s) \<and> set (queued s') \<subseteq> set (queued s) \<and>
   (\<forall>e. e \<in> set (queued s) - set (queued s') \<longrightarrow>
      e \<in> set (drop j (queued s)) \<and> marshal (Job e) = Some d \<and> CreatedAt e \<le> t)"
proof (induction marshal d t j s rule: ack_similar.induct)
  case (1 marshal d t j s)
  show ?case
  proof (cases "j < length (queued s) \<and> \<not> t < CreatedAt (queued s ! j) \<and> marshal (Job (queued s ! j)) \<noteq> None")
    case False
    then have "s' = s \<and> r \<noteq> Some NilDereference"
      using 1(4) by (subst (asm) ack_similar.simps) (auto split: if_splits option.splits)
    then show ?thesis using 1(3) by simp
  next
    case True
    then obtain y where j: "j < length (queued s)" "\<not> t < CreatedAt (queued s ! j)"
      and y: "marshal (Job (queued s ! j)) = Some y" by auto
    have dj: "drop j (queued s) = queued s ! j # drop (Suc j) (queued s)"
      using j(1) by (simp add: Cons_nth_drop_Suc)
    show ?thesis
    proof (cases "d = y")
      case False
      have r: "ack_similar marshal d t (Suc j) s = (s', r)"
        using 1(4) j y False by (subst (asm) ack_similar.simps) simp
      have "take j (queued s') = take j (queued s)"
        if "take (Suc j) (queued s') = take (Suc j) (queued s)"
        using arg_cong [OF that, of "take j"] by (simp add: min_def)
      then show ?thesis using 1(2) [OF j y False 1(3) r] by (auto simp: dj)
    next
      case True
      let ?s = "queue_remove j s"
      have r: "ack_similar marshal d t (Suc j) ?s = (s', r)"
        using 1(4) j y True by (subst (asm) ack_similar.simps) simp
      have inv: "queue_inv ?s" by (rule queue_remove_inv [OF 1(3) j(1)])
      note IH = 1(1) [OF j y True inv r]
      have "take j (queued s') = take j (queued ?s)"
        using IH by (metis min.absorb1 lessI less_imp_le_nat take_take)
      also have "\<dots> = take j (queued s)"
        using j(1) by (simp add: queue_remove_simps)
      finally have tk: "take j (queued s') = take j (queued s)" .
      have sub: "set (queued ?s) \<subseteq> set (queued s)" "set (drop (Suc j) (queued ?s)) \<subseteq> set (drop j (queued s))"
        using j(1) set_drop_subset_set_drop [of "Suc j" "Suc (Suc j)" "queued s"]
        by (auto simp: queue_remove_simps dj dest: in_set_takeD in_set_dropD)
      have "e \<in> set (drop j (queued s)) \<and> marshal (Job e) = Some d \<and> CreatedAt e \<le> t"
        if e: "e \<in> set (queued s)" "e \<notin> set (queued s')" for e
      proof (cases "e \<in> set (queued ?s)")
        case True
        then show ?thesis using IH e sub(2) by blast
      next
        case False
        then have "e = queued s ! j"
          using e(1) set_queue_remove [OF queue_inv_distinct [OF 1(3)] j(1)] queue_inv_distinct [OF 1(3)] j(1)
          by (auto simp: distinct_map inj_on_def)
        then show ?thesis using j y True by (simp add: dj)
      qed
      then show ?thesis using IH tk sub(1) by blast
    qed
  qed
qed

text \<open>What acknowledging the event \<open>a\<close> does to the queue: it is updated or removed, and an event
  that disappears with it has the same job and had been created before \<open>a\<close> was dequeued.\<close>

definition similar_later :: "marshaller \<Rightarrow> ReplicationEvent \<Rightarrow> ReplicationEvent \<Rightarrow> bool" where
  "similar_later marshal a e \<longleftrightarrow> marshal (Job e) = marshal (Job a) \<and>
     CreatedAt e \<le> the (UpdatedAt a) \<and> ev_ID a < ev_ID e"

definition ack_spec ::
    "marshaller \<Rightarrow> JobState \<Rightarrow> ReplicationEvent \<Rightarrow> memoryReplicationEventQueue \<Rightarrow> memoryReplicationEventQueue \<Rightarrow> bool"
where
  "ack_spec marshal state a s s' \<longleftrightarrow> ev_State a = JobStateInProgress \<and>
     (\<forall>e. e \<in> set (queued s') \<longrightarrow> e \<in> set (queued s) \<and> ev_ID e \<noteq> ev_ID a \<or>
        state = JobStateFailed \<and> (\<exists>t. e = a\<lparr>ev_State := state, UpdatedAt := Some t\<rparr>)) \<and>
     (\<forall>e. e \<in> set (queued s) \<longrightarrow> ev_ID e \<noteq> ev_ID a \<longrightarrow> e \<in> set (queued s') \<or>
        state = JobStateCompleted \<and> similar_later marshal a e) \<and>
     (state = JobStateFailed \<longrightarrow> ev_ID a \<in> ev_ID ` set (queued s'))"

lemma set_ack_event:
  assumes "queue_inv s" "i < length (queued s)"
  shows "set (queued (ack_event t state i s)) =
    insert ((queued s ! i)\<lparr>ev_State := state, UpdatedAt := Some t\<rparr>)
      {x \<in> set (queued s). ev_ID x \<noteq> ev_ID (queued s ! i)}"
  using set_update_distinct [OF queue_inv_distinct [OF assms(1)] assms(2)]
  by (simp add: ack_event_def Let_def)

lemma ack_event_simps:
  "length (queued (ack_event t state i s)) = length (queued s)"
  "i < length (queued s) \<Longrightarrow>
     queued (ack_event t state i s) ! i = (queued s ! i)\<lparr>ev_State := state, UpdatedAt := Some t\<rparr>"
  "drop (Suc i) (queued (ack_event t state i s)) = drop (Suc i) (queued s)"
  by (simp_all add: ack_event_def Let_def)

lemma later_greater:
  assumes "queue_inv s" "i < length (queued s)" "e \<in> set (drop (Suc i) (queued s))"
  shows "ev_ID (queued s ! i) < ev_ID e"
proof -
  have "sorted_wrt (<) (map ev_ID (take i (queued s) @ queued s ! i # drop (Suc i) (queued s)))"
    using assms id_take_nth_drop [OF assms(2)] by (simp add: queue_inv_def)
  then show ?thesis using assms(3) by (auto simp: sorted_wrt_append)
qed

lemma ack_at_inv:
  assumes inv: "queue_inv s" and i: "i < length (queued s)"
    and st: "state \<in> {JobStateCompleted, JobStateFailed, JobStateDead}"
    and r: "ack_at marshal t state i s = (s', r)"
  shows "queue_inv s' \<and> r \<noteq> Some NilDereference"
proof (cases "ev_State (queued s ! i) = JobStateInProgress \<and>
    \<not> (Attempt (queued s ! i) = 0 \<and> state = JobStateFailed)")
  case False
  then show ?thesis using r inv by (auto simp: ack_at_def Let_def split: if_splits)
next
  case True
  let ?s = "ack_event t state i s"
  have inv1: "queue_inv ?s" by (rule ack_event_inv) (use inv i st True in auto)
  have upd: "UpdatedAt (queued s ! i) \<noteq> None"
    using inv i True by (auto simp: queue_inv_def event_ok_def dest!: spec [of _ "queued s ! i"])
  have "queue_inv s2 \<and> i < length (queued s2) \<and> q \<noteq> Some NilDereference"
    if "ack_similar marshal d dt (Suc i) ?s = (s2, q)" for d dt s2 q
    using ack_similar_spec [OF inv1 that] i
    by (metis Suc_leI ack_event_simps(1) length_take lessI min.absorb2 min_less_iff_conj)
  then show ?thesis
    using r True upd queue_remove_inv inv1 i
    by (auto simp: ack_at_def Let_def ack_event_simps split: if_splits option.splits prod.splits)
qed

lemma ack_at_spec:
  assumes inv: "queue_inv s" and i: "i < length (queued s)"
    and st: "state \<in> {JobStateCompleted, JobStateFailed, JobStateDead}"
    and r: "ack_at marshal t state i s = (s', None)"
  shows "ack_spec marshal state (queued s ! i) s s'"
proof -
  let ?a = "queued s ! i"
  let ?s = "ack_event t state i s"
  have ok: "ev_State ?a = JobStateInProgress" "\<not> (Attempt ?a = 0 \<and> state = JobStateFailed)"
    using r by (auto simp: ack_at_def Let_def split: if_splits)
  have inv1: "queue_inv ?s" by (rule ack_event_inv) (use inv i st ok in auto)
  note elems = set_ack_event [OF inv i, of t state]
  have removed: "set (queued (queue_remove i s2)) = {e \<in> set (queued s2). ev_ID e \<noteq> ev_ID ?a}"
    if "queue_inv s2" "i < length (queued s2)" "ev_ID (queued s2 ! i) = ev_ID ?a" for s2
    using set_queue_remove [OF queue_inv_distinct [OF that(1)] that(2)] that(3) by simp
  show ?thesis
  proof (cases "state = JobStateCompleted")
    case False
    then consider "state = JobStateFailed" "s' = ?s" | "state = JobStateDead" "s' = queue_remove i ?s"
      using st r ok by (auto simp: ack_at_def Let_def)
    then show ?thesis
    proof cases
      case 1
      then show ?thesis using ok elems by (auto simp: ack_spec_def)
    next
      case 2
      then have "set (queued s') = {x \<in> set (queued s). ev_ID x \<noteq> ev_ID ?a}"
        using removed [OF inv1] i elems by (auto simp: ack_event_simps)
      then show ?thesis using 2 ok by (auto simp: ack_spec_def)
    qed
  next
    case True
    then obtain d s2 where d: "marshal (Job ?a) = Some d"
      and s2: "ack_similar marshal d (the (UpdatedAt ?a)) (Suc i) ?s = (s2, None)"
      and s': "s' = queue_remove i s2"
      using r ok by (auto simp: ack_at_def Let_def split: option.splits if_splits prod.splits)
    note sim = ack_similar_spec [OF inv1 s2]
    have tk: "take (Suc i) (queued s2) = take (Suc i) (queued ?s)" using sim by simp
    have len: "i < length (queued s2)"
      using arg_cong [OF tk, of length] i by (simp add: ack_event_simps)
    have "queued s2 ! i = queued ?s ! i" by (metis tk lessI nth_take)
    then have eq: "set (queued s') = {e \<in> set (queued s2). ev_ID e \<noteq> ev_ID ?a}"
      unfolding s' using removed [OF _ len] sim i by (simp add: ack_event_simps)
    have gone: "similar_later marshal ?a e"
      if "e \<in> set (queued s)" "ev_ID e \<noteq> ev_ID ?a" "e \<notin> set (queued s2)" for e
    proof -
      have "e \<in> set (queued ?s) - set (queued s2)" using that elems by simp
      then have "e \<in> set (drop (Suc i) (queued s))" "marshal (Job e) = Some d" "CreatedAt e \<le> the (UpdatedAt ?a)"
        using sim by (auto simp: ack_event_simps)
      then show ?thesis using later_greater [OF inv i] d by (simp add: similar_later_def)
    qed
    have "set (queued s2) \<subseteq> set (queued ?s)" using sim by simp
    then have "e \<in> set (queued s)" if "e \<in> set (queued s2)" "ev_ID e \<noteq> ev_ID ?a" for e
      using that elems by auto
    then show ?thesis using True ok gone by (simp add: ack_spec_def eq) blast
  qed
qed

text \<open>The same for a set \<open>R\<close> of acknowledged events.\<close>

definition acks_spec ::
    "marshaller \<Rightarrow> JobState \<Rightarrow> u64 set \<Rightarrow> memoryReplicationEventQueue \<Rightarrow> memoryReplicationEventQueue \<Rightarrow> bool"
where
  "acks_spec marshal state R s s' \<longleftrightarrow>
     (\<forall>i. i \<in> R \<longrightarrow> (\<exists>a. a \<in> set (queued s) \<and> ev_ID a = i \<and> ev_State a = JobStateInProgress)) \<and>
     (\<forall>e. e \<in> set (queued s') \<longrightarrow> e \<in> set (queued s) \<and> ev_ID e \<notin> R \<or>
        state = JobStateFailed \<and> ev_ID e \<in> R \<and>
        (\<exists>a t. a \<in> set (queued s) \<and> e = a\<lparr>ev_State := JobStateFailed, UpdatedAt := Some t\<rparr>)) \<and>
     (\<forall>e. e \<in> set (queued s) \<longrightarrow> ev_ID e \<notin> R \<longrightarrow> e \<in> set (queued s') \<or>
        state = JobStateCompleted \<and>
        (\<exists>a. a \<in> set (queued s) \<and> ev_ID a \<in> R \<and> similar_later marshal a e)) \<and>
     (state = JobStateFailed \<longrightarrow> R \<subseteq> ev_ID ` set (queued s'))"

lemma acks_spec_refl: "acks_spec marshal state {} s s"
  by (simp add: acks_spec_def)

lemma ack_spec_in_progress:
  "ack_spec marshal state a s s1 \<Longrightarrow> state \<noteq> JobStateInProgress \<Longrightarrow> b \<in> set (queued s1) \<Longrightarrow>
   ev_State b = JobStateInProgress \<Longrightarrow> b \<in> set (queued s) \<and> ev_ID b \<noteq> ev_ID a"
  by (auto simp: ack_spec_def)

lemma acks_spec_step:
  assumes ack: "ack_spec marshal state a s s1" and acks: "acks_spec marshal state R s1 s'"
    and a: "a \<in> set (queued s)" and st: "state \<noteq> JobStateInProgress"
  shows "acks_spec marshal state (insert (ev_ID a) R) s s'"
proof -
  have R: "\<exists>b. b \<in> set (queued s) \<and> b \<in> set (queued s1) \<and> ev_ID b = i \<and> ev_State b = JobStateInProgress \<and>
      i \<noteq> ev_ID a" if "i \<in> R" for i
    using acks that ack_spec_in_progress [OF ack st] unfolding acks_spec_def by blast
  have "ev_State a = JobStateInProgress" using ack by (simp add: ack_spec_def)
  then have 1: "\<exists>b. b \<in> set (queued s) \<and> ev_ID b = i \<and> ev_State b = JobStateInProgress"
    if "i \<in> insert (ev_ID a) R" for i using R [of i] a that by blast
  have 2: "e \<in> set (queued s) \<and> ev_ID e \<notin> insert (ev_ID a) R \<or>
      state = JobStateFailed \<and> ev_ID e \<in> insert (ev_ID a) R \<and>
      (\<exists>a t. a \<in> set (queued s) \<and> e = a\<lparr>ev_State := JobStateFailed, UpdatedAt := Some t\<rparr>)"
    if e: "e \<in> set (queued s')" for e
  proof -
    from acks e consider "e \<in> set (queued s1)" "ev_ID e \<notin> R"
      | b t where "state = JobStateFailed" "ev_ID e \<in> R" "b \<in> set (queued s1)"
          "e = b\<lparr>ev_State := JobStateFailed, UpdatedAt := Some t\<rparr>"
      unfolding acks_spec_def by blast
    then show ?thesis
    proof cases
      case 1
      then show ?thesis using ack a unfolding ack_spec_def by fastforce
    next
      case 2
      then have "ev_ID b \<noteq> ev_ID a" using R by auto
      then have "b \<in> set (queued s)" using ack 2(3) unfolding ack_spec_def by fastforce
      then show ?thesis using 2 by blast
    qed
  qed
  have 3: "e \<in> set (queued s') \<or> state = JobStateCompleted \<and>
      (\<exists>b. b \<in> set (queued s) \<and> ev_ID b \<in> insert (ev_ID a) R \<and> similar_later marshal b e)"
    if e: "e \<in> set (queued s)" "ev_ID e \<notin> insert (ev_ID a) R" for e
  proof (cases "e \<in> set (queued s1)")
    case False
    then show ?thesis using ack a e unfolding ack_spec_def by blast
  next
    case True
    then consider "e \<in> set (queued s')"
      | b where "state = JobStateCompleted" "b \<in> set (queued s1)" "ev_ID b \<in> R" "similar_later marshal b e"
      using acks e unfolding acks_spec_def by blast
    then show ?thesis
    proof cases
      case 2
      then have "b \<in> set (queued s)" using ack unfolding ack_spec_def by auto
      then show ?thesis using 2 by blast
    qed simp
  qed
  have 4: "state = JobStateFailed \<longrightarrow> insert (ev_ID a) R \<subseteq> ev_ID ` set (queued s')"
  proof
    assume f: "state = JobStateFailed"
    then obtain x where x: "x \<in> set (queued s1)" "ev_ID x = ev_ID a"
      using ack by (auto simp: ack_spec_def)
    have "ev_ID a \<notin> R" using R by blast
    then have "x \<in> set (queued s')" using acks x f by (auto simp: acks_spec_def)
    then show "insert (ev_ID a) R \<subseteq> ev_ID ` set (queued s')"
      using acks f x(2) by (auto simp: acks_spec_def image_iff intro: bexI [of _ x])
  qed
  show ?thesis unfolding acks_spec_def using 1 2 3 4 by blast
qed

lemma index_of_ID: "index_of i es < length es \<Longrightarrow> ev_ID (es ! index_of i es) = i"
  using nth_length_takeWhile [of "\<lambda>e. ev_ID e \<noteq> i" es] by (simp add: index_of_def)

lemma ack_ids_inv:
  "queue_inv s \<Longrightarrow> state \<in> {JobStateCompleted, JobStateFailed, JobStateDead} \<Longrightarrow>
   ack_ids marshal now state ids res s = (s', r) \<Longrightarrow> queue_inv s' \<and> r \<noteq> Inl NilDereference"
proof (induction ids arbitrary: res s)
  case (Cons i ids)
  have "queue_inv s1 \<and> q \<noteq> Some NilDereference"
    if "index_of i (queued s) < length (queued s)"
      "ack_at marshal (now (length ids)) state (index_of i (queued s)) s = (s1, q)" for s1 q
    using ack_at_inv [OF Cons.prems(1) that(1) Cons.prems(2) that(2)] .
  then show ?case
    using Cons.prems Cons.IH by (auto split: if_splits prod.splits option.splits)
qed auto

lemma ack_ids_spec:
  "queue_inv s \<Longrightarrow> state \<in> {JobStateCompleted, JobStateFailed, JobStateDead} \<Longrightarrow>
   ack_ids marshal now state ids res s = (s', Inr out) \<Longrightarrow>
   \<exists>new. out = res @ new \<and> set new \<subseteq> set ids \<and> acks_spec marshal state (set new) s s'"
proof (induction ids arbitrary: res s)
  case Nil
  then show ?case by (simp add: acks_spec_refl)
next
  case (Cons i ids)
  let ?k = "index_of i (queued s)"
  show ?case
  proof (cases "i \<in> dequeued s \<and> ?k < length (queued s)")
    case False
    then have "ack_ids marshal now state ids res s = (s', Inr out)"
      using Cons.prems(3) by (auto split: if_splits)
    from Cons.IH [OF Cons.prems(1,2) this] show ?thesis by auto
  next
    case True
    then obtain s1 where s1: "ack_at marshal (now (length ids)) state ?k s = (s1, None)"
      and rest: "ack_ids marshal now state ids (res @ [i]) s1 = (s', Inr out)"
      using Cons.prems(3) by (auto split: if_splits prod.splits option.splits)
    have k: "?k < length (queued s)" "ev_ID (queued s ! ?k) = i" using True by (auto intro: index_of_ID)
    have inv1: "queue_inv s1" using ack_at_inv [OF Cons.prems(1) k(1) Cons.prems(2) s1] by simp
    obtain new where new: "out = (res @ [i]) @ new" "set new \<subseteq> set ids"
      "acks_spec marshal state (set new) s1 s'"
      using Cons.IH [OF inv1 Cons.prems(2) rest] by blast
    have "acks_spec marshal state (insert i (set new)) s s'"
      using acks_spec_step [OF ack_at_spec [OF Cons.prems(1) k(1) Cons.prems(2) s1] new(3)]
        k Cons.prems(2) by auto
    then have "out = res @ (i # new) \<and> set (i # new) \<subseteq> set (i # ids) \<and>
        acks_spec marshal state (set (i # new)) s s'"
      using new by auto
    then show ?thesis by blast
  qed
qed

lemma allowToAck_None: "allowToAck state = None \<longleftrightarrow> state \<in> {JobStateCompleted, JobStateFailed, JobStateDead}"
  by (auto simp: allowToAck_def)

lemma Acknowledge_inv:
  "queue_inv s \<Longrightarrow> Acknowledge marshal now s state ids = (s', r) \<Longrightarrow> queue_inv s' \<and> r \<noteq> Inl NilDereference"
  by (auto simp: Acknowledge_def allowToAck_None dest: ack_ids_inv split: if_splits option.splits)
    (auto simp: allowToAck_def split: if_splits)

interpretation mq: invariant_of queue_init queue_step queue_inv
proof unfold_locales
  show "queue_inv s" if "queue_init s" for s using that by (rule queue_inv_init)
  show "queue_inv s'" if "queue_inv s" "queue_step s e s'" for s e s'
    using that(2,1)
    by cases (auto intro: Enqueue_inv Dequeue_inv Acknowledge_inv [THEN conjunct1] prod.collapse [symmetric])
qed

abbreviation queue_reachable :: "memoryReplicationEventQueue \<Rightarrow> bool" where
  "queue_reachable \<equiv> reachable queue_init queue_step"

section \<open>What Dequeue returns\<close>

text \<open>The events at the indices \<open>ks\<close> have been dequeued.\<close>

definition dequeued_at ::
    "(nat \<Rightarrow> nat) \<Rightarrow> nat list \<Rightarrow> ReplicationEvent list \<Rightarrow> ReplicationEvent list" where
  "dequeued_at now ks es =
     map (\<lambda>k. if k \<in> set ks then dequeue_event (now k) (es ! k) else es ! k) [0..<length es]"

text \<open>What the loop still does from index \<open>i\<close> on, with the job data in \<open>U\<close> seen and \<open>n\<close> events dequeued.\<close>

definition dequeue_spec ::
    "marshaller \<Rightarrow> string \<Rightarrow> string \<Rightarrow> int \<Rightarrow> nat \<Rightarrow> string set \<Rightarrow> nat \<Rightarrow> ReplicationEvent list \<Rightarrow> nat list \<Rightarrow> bool"
where
  "dequeue_spec marshal vs ns cnt i U n es ks \<longleftrightarrow>
     sorted_wrt (<) ks \<and> set ks \<subseteq> {i..<length es} \<and>
     (\<forall>k. k \<in> set ks \<longrightarrow> eligible vs ns (es ! k) \<and> marshal (Job (es ! k)) \<notin> insert None (Some ` U)) \<and>
     distinct (map (\<lambda>k. marshal (Job (es ! k))) ks) \<and>
     int (n + length ks) \<le> max 1 cnt \<and>
     (int (n + length ks) < max 1 cnt \<longrightarrow>
        (\<forall>k. i \<le> k \<longrightarrow> k < length es \<longrightarrow> eligible vs ns (es ! k) \<longrightarrow>
           marshal (Job (es ! k)) \<in> Some ` U \<union> (\<lambda>k. marshal (Job (es ! k))) ` set ks))"

lemma dequeue_spec_skip:
  assumes "dequeue_spec marshal vs ns cnt (Suc i) U n es ks"
    and "eligible vs ns (es ! i) \<longrightarrow> marshal (Job (es ! i)) \<in> Some ` U"
  shows "dequeue_spec marshal vs ns cnt i U n es ks"
proof -
  have "marshal (Job (es ! k)) \<in> Some ` U \<union> (\<lambda>k. marshal (Job (es ! k))) ` set ks"
    if "int (n + length ks) < max 1 cnt" "i \<le> k" "k < length es" "eligible vs ns (es ! k)" for k
    using that assms by (cases "k = i") (auto simp: dequeue_spec_def)
  then show ?thesis using assms(1) by (auto simp: dequeue_spec_def)
qed

lemma dequeue_spec_take:
  assumes ks: "dequeue_spec marshal vs ns cnt (Suc i) (insert d U) (Suc n) es' ks"
    and i: "i < length es" "eligible vs ns (es ! i)" "marshal (Job (es ! i)) = Some d" "d \<notin> U"
    and es': "es' = es[i := e]"
  shows "dequeue_spec marshal vs ns cnt i U n es (i # ks)"
proof -
  have same: "es' ! k = es ! k" if "Suc i \<le> k" for k using that es' by simp
  have ks_gt: "Suc i \<le> k \<and> k < length es" if "k \<in> set ks" for k
    using ks that es' by (auto simp: dequeue_spec_def)
  have data: "map (\<lambda>k. marshal (Job (es' ! k))) ks = map (\<lambda>k. marshal (Job (es ! k))) ks"
    using same ks_gt by simp
  have 1: "eligible vs ns (es ! k) \<and> marshal (Job (es ! k)) \<notin> insert None (Some ` insert d U)"
    if "k \<in> set ks" for k
    using ks that same ks_gt unfolding dequeue_spec_def by metis
  have 2: "marshal (Job (es ! k)) \<in> Some ` U \<union> (\<lambda>k. marshal (Job (es ! k))) ` set (i # ks)"
    if "int (n + length (i # ks)) < max 1 cnt" "i \<le> k" "k < length es" "eligible vs ns (es ! k)" for k
  proof (cases "k = i")
    case False
    then have k: "Suc i \<le> k" "k < length es'" "eligible vs ns (es' ! k)" using that es' by auto
    have "int (Suc n + length ks) < max 1 cnt" using that(1) by simp
    then have "marshal (Job (es' ! k)) \<in> Some ` insert d U \<union> set (map (\<lambda>k. marshal (Job (es' ! k))) ks)"
      using ks k unfolding dequeue_spec_def by auto
    then show ?thesis unfolding data using same [OF k(1)] i(3) by auto
  qed (use i in auto)
  have "Some d \<notin> set (map (\<lambda>k. marshal (Job (es ! k))) ks)" using 1 by fastforce
  then have "distinct (map (\<lambda>k. marshal (Job (es ! k))) (i # ks))"
    using ks data i(3) by (simp add: dequeue_spec_def)
  moreover have "sorted_wrt (<) (i # ks)" using ks ks_gt by (auto simp: dequeue_spec_def Suc_le_eq)
  moreover have "int (n + length (i # ks)) \<le> max 1 cnt" using ks by (simp add: dequeue_spec_def)
  ultimately show ?thesis
    unfolding dequeue_spec_def using 1 2 i ks_gt by (simp add: less_imp_le Suc_le_eq) (auto simp: less_imp_le)
qed

lemma dequeued_at_Nil: "dequeued_at now [] es = es"
  by (simp add: dequeued_at_def map_nth)

lemma dequeued_at_Cons:
  assumes "i < length es" "\<forall>k. k \<in> set ks \<longrightarrow> i < k"
  shows "dequeued_at now ks (es[i := dequeue_event (now i) (es ! i)]) = dequeued_at now (i # ks) es"
  using assms by (auto simp: dequeued_at_def nth_list_update)

lemma dequeue_loop_spec:
  "int (length res) < max 1 cnt \<Longrightarrow> dequeue_loop marshal now vs ns cnt i U res s = (s', Inr out) \<Longrightarrow>
   \<exists>ks. dequeue_spec marshal vs ns cnt i U (length res) (queued s) ks \<and>
     out = res @ map (\<lambda>k. dequeue_event (now k) (queued s ! k)) ks \<and>
     queued s' = dequeued_at now ks (queued s)"
proof (induction marshal now vs ns cnt i U res s rule: dequeue_loop.induct)
  case (1 marshal now vs ns cnt i U res s)
  note loop = 1(5) [unfolded dequeue_loop.simps [of marshal now vs ns cnt i U res s]]
  show ?case
  proof (cases "i < length (queued s)")
    case False
    then have "dequeue_spec marshal vs ns cnt i U (length res) (queued s) []"
      using 1(4) by (simp add: dequeue_spec_def)
    then show ?thesis using False loop by (auto simp: dequeued_at_Nil intro: exI [of _ "[]"])
  next
    case i: True
    let ?e = "dequeue_event (now i) (queued s ! i)"
    let ?s = "dequeue_at (now i) i s"
    consider (skip) "\<not> eligible vs ns (queued s ! i)"
      | (dup) d where "eligible vs ns (queued s ! i)" "marshal (Job (queued s ! i)) = Some d" "d \<in> U"
      | (take) d where "eligible vs ns (queued s ! i)" "marshal (Job (queued s ! i)) = Some d" "d \<notin> U"
      using loop i by (auto split: if_splits option.splits)
    then show ?thesis
    proof cases
      case skip
      then have "dequeue_loop marshal now vs ns cnt (Suc i) U res s = (s', Inr out)" using loop i by simp
      from 1(3) [OF i skip 1(4) this] show ?thesis using skip by (blast intro: dequeue_spec_skip)
    next
      case dup
      then have "dequeue_loop marshal now vs ns cnt (Suc i) U res s = (s', Inr out)" using loop i by simp
      from 1(1) [OF i dup 1(4) this] show ?thesis using dup by (force intro: dequeue_spec_skip)
    next
      case take
      have q: "queued ?s = (queued s)[i := ?e]" by (simp add: dequeue_at_def Let_def)
      then have qi: "queued ?s ! i = ?e" using i by simp
      have *: "\<exists>ks. dequeue_spec marshal vs ns cnt (Suc i) (insert d U) (Suc (length res)) (queued ?s) ks \<and>
          out = (res @ [?e]) @ map (\<lambda>k. dequeue_event (now k) (queued ?s ! k)) ks \<and>
          queued s' = dequeued_at now ks (queued ?s)"
      proof (cases "int (length (res @ [?e])) \<ge> cnt")
        case True
        then have "out = res @ [?e]" "s' = ?s" using loop i take qi by (auto simp: Let_def)
        moreover have "dequeue_spec marshal vs ns cnt (Suc i) (insert d U) (Suc (length res)) (queued ?s) []"
          using True 1(4) by (auto simp: dequeue_spec_def)
        ultimately show ?thesis by (auto simp: dequeued_at_Nil intro!: exI [of _ "[]"])
      next
        case False
        have r: "dequeue_loop marshal now vs ns cnt (Suc i) (insert d U) (res @ [queued ?s ! i]) ?s = (s', Inr out)"
          using loop i take False qi by (simp add: Let_def)
        have "int (length (res @ [queued ?s ! i])) < max 1 cnt" using False by simp
        from 1(2) [OF i take refl refl _ this r] False qi show ?thesis by simp
      qed
      then obtain ks where ks: "dequeue_spec marshal vs ns cnt (Suc i) (insert d U) (Suc (length res)) (queued ?s) ks"
        "out = (res @ [?e]) @ map (\<lambda>k. dequeue_event (now k) (queued ?s ! k)) ks"
        "queued s' = dequeued_at now ks (queued ?s)" by blast
      have gt: "\<forall>k. k \<in> set ks \<longrightarrow> i < k" using ks(1) by (auto simp: dequeue_spec_def)
      have "out = res @ map (\<lambda>k. dequeue_event (now k) (queued s ! k)) (i # ks)"
        using ks(2) gt q by auto
      moreover have "queued s' = dequeued_at now (i # ks) (queued s)"
        using ks(3) dequeued_at_Cons [OF i gt] q by simp
      ultimately show ?thesis using dequeue_spec_take [OF ks(1) i take q] by blast
    qed
  qed
qed

section \<open>Properties\<close>


definition demo_job :: "string \<Rightarrow> ReplicationJob" where
  "demo_job path = \<lparr>RepositoryID = 1, ReplicaPath = path, Change = UpdateRepo, RelativePath = path,
     TargetNodeStorage = ''b'', SourceNodeStorage = ''a'', VirtualStorage = ''v'', job_Params = []\<rparr>"

definition demo_event :: "string \<Rightarrow> ReplicationEvent" where
  "demo_event path = \<lparr>ev_ID = 0, ev_State = JobStateReady, Attempt = 0, LockID = [], CreatedAt = 0,
     UpdatedAt = None, Job = demo_job path, Meta = []\<rparr>"

text \<open>Three updates of one repository are queued, then one of another.\<close>

definition demo_queue :: memoryReplicationEventQueue where
  "demo_queue =
     (let enq = (\<lambda>p s. fst (Enqueue 0 s (demo_event p)))
      in enq ''y'' (enq ''x'' (enq ''x'' (enq ''x'' (NewMemoryReplicationEventQueue [])))))"

definition demo_marshal :: marshaller where
  "demo_marshal job = Some (VirtualStorage job @ ''|'' @ TargetNodeStorage job @ ''|'' @ RelativePath job)"

lemmas queue_eval = demo_queue_def demo_event_def demo_job_def NewMemoryReplicationEventQueue_def Enqueue_def
  nextID_def defineDest_def Let_def

lemma reachable_enqueue:
  "queue_reachable s \<Longrightarrow> seq s < seq s + 1 \<Longrightarrow> queue_reachable (fst (Enqueue t s event))"
  by (rule reach_step, assumption, rule step_enqueue)

lemma demo_queue_reachable: "queue_reachable demo_queue"
proof -
  have "queue_init (NewMemoryReplicationEventQueue [])" by (auto simp: queue_init_def)
  then show ?thesis
    unfolding demo_queue_def Let_def
    by (intro reachable_enqueue)
      (auto intro: reach_init simp: Enqueue_simps NewMemoryReplicationEventQueue_def)
qed

lemma demo_queue_queued:
  "map ev_ID (queued demo_queue) = [1, 2, 3, 4]" "length (queued demo_queue) = 4"
  by (simp_all add: queue_eval)


text \<open>C7: \<open>Dequeue\<close> returns, in queue order, events that were ready or failed for the requested storages,
  no two of them with the same job data and no more than asked for (but one at least if there is one,
  even when the count is not positive). Exactly these events are in progress afterwards with one
  attempt less, and when fewer than asked for are returned every eligible event shares its job data
  with a returned one.\<close>

theorem Dequeue_returns:
  assumes "Dequeue marshal now s vs ns cnt = (s', Inr out)"
  shows "\<exists>ks. out = map (\<lambda>k. dequeue_event (now k) (queued s ! k)) ks \<and>
    sorted_wrt (<) ks \<and> (\<forall>k. k \<in> set ks \<longrightarrow> k < length (queued s) \<and> eligible vs ns (queued s ! k)) \<and>
    distinct (map (\<lambda>k. marshal (Job (queued s ! k))) ks) \<and> int (length out) \<le> max 1 cnt \<and>
    length (queued s') = length (queued s) \<and>
    (\<forall>k. k < length (queued s) \<longrightarrow> queued s' ! k =
       (if k \<in> set ks then dequeue_event (now k) (queued s ! k) else queued s ! k)) \<and>
    (int (length out) < max 1 cnt \<longrightarrow>
       (\<forall>e. e \<in> set (queued s) \<longrightarrow> eligible vs ns e \<longrightarrow>
          (\<exists>k. k \<in> set ks \<and> marshal (Job e) = marshal (Job (queued s ! k)))))"
proof -
  obtain ks where ks: "dequeue_spec marshal vs ns cnt 0 {} 0 (queued s) ks"
    and out: "out = map (\<lambda>k. dequeue_event (now k) (queued s ! k)) ks"
    and q: "queued s' = dequeued_at now ks (queued s)"
    using dequeue_loop_spec [of "[]" cnt marshal now vs ns 0 "{}" s s' out] assms
    by (auto simp: Dequeue_def less_max_iff_disj)
  have "\<exists>k. k \<in> set ks \<and> marshal (Job e) = marshal (Job (queued s ! k))"
    if "int (length out) < max 1 cnt" "e \<in> set (queued s)" "eligible vs ns e" for e
    using that ks out by (fastforce simp: dequeue_spec_def in_set_conv_nth)
  moreover have "k < length (queued s) \<and> eligible vs ns (queued s ! k)" if "k \<in> set ks" for k
    using that ks by (auto simp: dequeue_spec_def)
  ultimately show ?thesis
    using ks out q by (auto simp: dequeue_spec_def dequeued_at_def intro!: exI [of _ ks])
qed

definition demo_dequeued :: "memoryReplicationEventQueue \<times> (queue_error, ReplicationEvent list) res" where
  "demo_dequeued = Dequeue demo_marshal (\<lambda>_. 5) demo_queue ''v'' ''b'' 2"

lemmas deq_eval = demo_dequeued_def Dequeue_def dequeue_loop.simps eligible_def demo_marshal_def dequeue_at_def
  dequeue_event_def refresh_last_def queue_eval

lemma demo_dequeued_eval:
  "map ev_ID (projr (snd demo_dequeued)) = [1, 4]" "\<not> isl (snd demo_dequeued)"
  "map ev_State (queued (fst demo_dequeued)) =
     [JobStateInProgress, JobStateReady, JobStateReady, JobStateInProgress]"
  "map ev_ID (queued (fst demo_dequeued)) = [1, 2, 3, 4]"
  "map UpdatedAt (queued (fst demo_dequeued)) = [Some 5, None, None, Some 5]"
  "dequeued (fst demo_dequeued) = {1, 4}"
  by (simp_all add: deq_eval insert_commute)

theorem Dequeue_returns_witness:
  "\<exists>ks. projr (snd demo_dequeued) = map (\<lambda>k. dequeue_event 5 (queued demo_queue ! k)) ks \<and> sorted_wrt (<) ks"
proof -
  have "Dequeue demo_marshal (\<lambda>_. 5) demo_queue ''v'' ''b'' 2 = (fst demo_dequeued, Inr (projr (snd demo_dequeued)))"
    using demo_dequeued_eval(2) by (metis demo_dequeued_def prod.collapse sum.collapse(2))
  from Dequeue_returns [OF this] show ?thesis by blast
qed


lemmas ack_eval = Acknowledge_def allowToAck_def index_of_def ack_at_def ack_event_def ack_similar.simps
  queue_remove_def


text \<open>Acknowledging an event as completed does not remove all similar events: after three queued
  events for the same job of which the first is acknowledged, the second is removed in whatever state
  it is, even in progress, while the third is skipped and stays in the queue.\<close>

theorem similar_event_survives:
  assumes q: "queued s = [a, b, c]" and ids: "ev_ID a \<in> dequeued s"
    and a: "ev_State a = JobStateInProgress" "UpdatedAt a = Some t"
    and same: "marshal (Job a) = Some d" "marshal (Job b) = Some d" "marshal (Job c) = Some d"
    and before: "CreatedAt b \<le> t" "CreatedAt c \<le> t"
  shows "\<exists>s'. Acknowledge marshal now s JobStateCompleted [ev_ID a] = (s', Inr [ev_ID a]) \<and>
    queued s' = [c]"
  using assms by (simp add: ack_eval Let_def)

theorem similar_event_survives_witness:
  "\<exists>s'. Acknowledge demo_marshal (\<lambda>_. 6)
       (\<lparr>seq = 3, queued = [(demo_event ''x'')\<lparr>ev_ID := 1, ev_State := JobStateInProgress, UpdatedAt := Some 5\<rparr>,
          (demo_event ''x'')\<lparr>ev_ID := 2\<rparr>, (demo_event ''x'')\<lparr>ev_ID := 3\<rparr>], dequeued = {1},
         storageNamesByVirtualStorage = [], lastEventByDest = []\<rparr>) JobStateCompleted [1] = (s', Inr [1]) \<and>
    queued s' = [(demo_event ''x'')\<lparr>ev_ID := 3\<rparr>]"
proof -
  let ?a = "(demo_event ''x'')\<lparr>ev_ID := 1, ev_State := JobStateInProgress, UpdatedAt := Some 5\<rparr>"
  let ?b = "(demo_event ''x'')\<lparr>ev_ID := 2\<rparr>"
  let ?c = "(demo_event ''x'')\<lparr>ev_ID := 3\<rparr>"
  let ?s = "\<lparr>seq = 3, queued = [?a, ?b, ?c], dequeued = {1},
              storageNamesByVirtualStorage = [], lastEventByDest = []\<rparr>"
  have "\<exists>s'. Acknowledge demo_marshal (\<lambda>_. 6) ?s JobStateCompleted [ev_ID ?a] = (s', Inr [ev_ID ?a]) \<and>
      queued s' = [?c]"
    by (rule similar_event_survives [where d = "''v|b|x''" and t = 5 and b = ?b])
      (simp_all add: demo_event_def demo_marshal_def demo_job_def)
  then show ?thesis by simp
qed

section \<open>Interceptor\<close>

text \<open>The wrapper for tests: it records arguments and results of every call, and calls an action that
  has been registered instead of the queue. \<open>'q\<close> is the state of the queue it wraps; an action gets the
  queue and may change it.\<close>

record DequeParams =
  dp_VirtualStorage :: string
  dp_NodeStorage :: string
  dp_Count :: int

record AcknowledgeParams =
  ap_State :: JobState
  ap_IDs :: "u64 list"

record 'q ReplicationEventQueueInterceptor =
  innerQueue :: 'q
  onEnqueue :: "('q \<Rightarrow> ReplicationEvent \<Rightarrow> 'q \<times> ReplicationEvent \<times> queue_error option) option"
  onDequeue :: "('q \<Rightarrow> string \<Rightarrow> string \<Rightarrow> int \<Rightarrow> 'q \<times> ReplicationEvent list \<times> queue_error option) option"
  onAcknowledge :: "('q \<Rightarrow> JobState \<Rightarrow> u64 list \<Rightarrow> 'q \<times> u64 list \<times> queue_error option) option"
  ic_enqueue :: "ReplicationEvent list"
  ic_enqueueResult :: "ReplicationEvent list"
  ic_dequeue :: "DequeParams list"
  ic_dequeueResult :: "ReplicationEvent list list"
  ic_acknowledge :: "AcknowledgeParams list"
  ic_acknowledgeResult :: "u64 list list"

definition NewReplicationEventQueueInterceptor :: "'q \<Rightarrow> 'q ReplicationEventQueueInterceptor" where
  "NewReplicationEventQueueInterceptor q =
     \<lparr>innerQueue = q, onEnqueue = None, onDequeue = None, onAcknowledge = None,
      ic_enqueue = [], ic_enqueueResult = [], ic_dequeue = [], ic_dequeueResult = [],
      ic_acknowledge = [], ic_acknowledgeResult = []\<rparr>"

definition OnEnqueue where
  "OnEnqueue action i = i\<lparr>onEnqueue := Some action\<rparr>"

definition OnDequeue where
  "OnDequeue action i = i\<lparr>onDequeue := Some action\<rparr>"

definition OnAcknowledge where
  "OnAcknowledge action i = i\<lparr>onAcknowledge := Some action\<rparr>"

definition ic_Enqueue ::
    "('q \<Rightarrow> ReplicationEvent \<Rightarrow> 'q \<times> ReplicationEvent \<times> queue_error option)
     \<Rightarrow> 'q ReplicationEventQueueInterceptor \<Rightarrow> ReplicationEvent
     \<Rightarrow> 'q ReplicationEventQueueInterceptor \<times> ReplicationEvent \<times> queue_error option" where
  "ic_Enqueue enq i event =
     (let i = i\<lparr>ic_enqueue := ic_enqueue i @ [event]\<rparr>;
          (q, enqEvent, err) = (case onEnqueue i of
             Some action \<Rightarrow> action (innerQueue i) event
           | None \<Rightarrow> enq (innerQueue i) event)
      in (i\<lparr>innerQueue := q, ic_enqueueResult := ic_enqueueResult i @ [enqEvent]\<rparr>, enqEvent, err))"

definition ic_Dequeue ::
    "('q \<Rightarrow> string \<Rightarrow> string \<Rightarrow> int \<Rightarrow> 'q \<times> ReplicationEvent list \<times> queue_error option)
     \<Rightarrow> 'q ReplicationEventQueueInterceptor \<Rightarrow> string \<Rightarrow> string \<Rightarrow> int
     \<Rightarrow> 'q ReplicationEventQueueInterceptor \<times> ReplicationEvent list \<times> queue_error option" where
  "ic_Dequeue deq i vs ns cnt =
     (let i = i\<lparr>ic_dequeue := ic_dequeue i @
                 [\<lparr>dp_VirtualStorage = vs, dp_NodeStorage = ns, dp_Count = cnt\<rparr>]\<rparr>;
          (q, deqEvents, err) = (case onDequeue i of
             Some action \<Rightarrow> action (innerQueue i) vs ns cnt
           | None \<Rightarrow> deq (innerQueue i) vs ns cnt)
      in (i\<lparr>innerQueue := q, ic_dequeueResult := ic_dequeueResult i @ [deqEvents]\<rparr>, deqEvents, err))"

definition ic_Acknowledge ::
    "('q \<Rightarrow> JobState \<Rightarrow> u64 list \<Rightarrow> 'q \<times> u64 list \<times> queue_error option)
     \<Rightarrow> 'q ReplicationEventQueueInterceptor \<Rightarrow> JobState \<Rightarrow> u64 list
     \<Rightarrow> 'q ReplicationEventQueueInterceptor \<times> u64 list \<times> queue_error option" where
  "ic_Acknowledge ack i state ids =
     (let i = i\<lparr>ic_acknowledge := ic_acknowledge i @ [\<lparr>ap_State = state, ap_IDs = ids\<rparr>]\<rparr>;
          (q, ackIDs, err) = (case onAcknowledge i of
             Some action \<Rightarrow> action (innerQueue i) state ids
           | None \<Rightarrow> ack (innerQueue i) state ids)
      in (i\<lparr>innerQueue := q, ic_acknowledgeResult := ic_acknowledgeResult i @ [ackIDs]\<rparr>, ackIDs, err))"

text \<open>The interface \<open>ReplicationEventQueue\<close>: what the replication manager relies on. \<open>events\<close> are the events in
  the queue. The operations return a value and an error as the Go methods do.\<close>

locale event_queue =
  fixes enq :: "'q \<Rightarrow> ReplicationEvent \<Rightarrow> 'q \<times> ReplicationEvent \<times> queue_error option"
    and deq :: "'q \<Rightarrow> string \<Rightarrow> string \<Rightarrow> int \<Rightarrow> 'q \<times> ReplicationEvent list \<times> queue_error option"
    and ack :: "'q \<Rightarrow> JobState \<Rightarrow> u64 list \<Rightarrow> 'q \<times> u64 list \<times> queue_error option"
    and events :: "'q \<Rightarrow> ReplicationEvent list"
    and okq :: "'q \<Rightarrow> bool"
  assumes enq_appends: "okq q \<Longrightarrow> enq q e = (q', e', None) \<Longrightarrow>
      events q' = events q @ [e'] \<and> Job e' = Job e \<and> ev_State e' = JobStateReady"
    and deq_targets: "okq q \<Longrightarrow> deq q vs ns cnt = (q', out, None) \<Longrightarrow> e \<in> set out \<Longrightarrow>
      e \<in> set (events q') \<and> ev_State e = JobStateInProgress \<and>
      VirtualStorage (Job e) = vs \<and> TargetNodeStorage (Job e) = ns"
    and deq_keeps: "okq q \<Longrightarrow> deq q vs ns cnt = (q', out, None) \<Longrightarrow> map Job (events q') = map Job (events q)"
    and ack_subset: "okq q \<Longrightarrow> ack q state ids = (q', acked, None) \<Longrightarrow> set acked \<subseteq> set ids"
begin

lemma dequeued_job_was_queued:
  "okq q \<Longrightarrow> deq q vs ns cnt = (q', out, None) \<Longrightarrow> e \<in> set out \<Longrightarrow> Job e \<in> Job ` set (events q)"
  by (metis deq_keeps deq_targets imageI list.set_map)

lemma enqueued_job_not_lost:
  "okq q \<Longrightarrow> okq q1 \<Longrightarrow> enq q e = (q1, e', None) \<Longrightarrow> deq q1 vs ns cnt = (q2, out, None) \<Longrightarrow>
   Job e \<in> Job ` set (events q2)"
  using enq_appends [of q e q1 e'] deq_keeps [of q1 vs ns cnt q2 out]
  by (metis imageI in_set_conv_decomp list.set_map)

end

definition mem_enq where
  "mem_enq now q e = (let (q', e') = Enqueue now q e in (q', e', None))"

definition mem_deq where
  "mem_deq marshal now q vs ns cnt =
     (case Dequeue marshal now q vs ns cnt of
        (q', Inr out) \<Rightarrow> (q', out, None) | (q', Inl e) \<Rightarrow> (q', [], Some e))"

definition mem_ack where
  "mem_ack marshal now q state ids =
     (case Acknowledge marshal now q state ids of
        (q', Inr out) \<Rightarrow> (q', out, None) | (q', Inl e) \<Rightarrow> (q', [], Some e))"

lemma Job_dequeue_event [simp]: "Job (dequeue_event t e) = Job e"
  by (simp add: dequeue_event_def)

lemma Job_dequeued_at: "map Job (dequeued_at now ks es) = map Job es"
  by (rule nth_equalityI) (auto simp: dequeued_at_def)

lemma Dequeue_Inr:
  assumes "Dequeue marshal now s vs ns cnt = (s', Inr out)"
  obtains ks where "dequeue_spec marshal vs ns cnt 0 {} 0 (queued s) ks"
    "out = map (\<lambda>k. dequeue_event (now k) (queued s ! k)) ks" "queued s' = dequeued_at now ks (queued s)"
  using dequeue_loop_spec [of "[]" cnt marshal now vs ns 0 "{}" s s' out] assms
  by (auto simp: Dequeue_def less_max_iff_disj)

interpretation mqi: event_queue "mem_enq t" "mem_deq marshal now" "mem_ack marshal now" queued queue_inv
proof unfold_locales
  show "queued q' = queued q @ [e'] \<and> Job e' = Job e \<and> ev_State e' = JobStateReady"
    if "mem_enq t q e = (q', e', None)" for q e q' e'
    using that Enqueue_simps [of t q e] by (auto simp: mem_enq_def split: prod.splits)
next
  fix q vs ns cnt q' out
  assume deq: "mem_deq marshal now q vs ns cnt = (q', out, None)"
  then have d: "Dequeue marshal now q vs ns cnt = (q', Inr out)"
    by (auto simp: mem_deq_def split: prod.splits sum.splits)
  obtain ks where ks: "dequeue_spec marshal vs ns cnt 0 {} 0 (queued q) ks"
    "out = map (\<lambda>k. dequeue_event (now k) (queued q ! k)) ks" "queued q' = dequeued_at now ks (queued q)"
    by (rule Dequeue_Inr [OF d])
  show "map Job (queued q') = map Job (queued q)" by (simp add: ks Job_dequeued_at)
  show "e \<in> set (queued q') \<and> ev_State e = JobStateInProgress \<and>
      VirtualStorage (Job e) = vs \<and> TargetNodeStorage (Job e) = ns" if "e \<in> set out" for e
    using that ks by (force simp: dequeue_spec_def dequeued_at_def eligible_def dequeue_event_def)
next
  show "set out \<subseteq> set ids" if "queue_inv q" "mem_ack marshal now q state ids = (q', out, None)" for q state ids q' out
  proof -
    have "Acknowledge marshal now q state ids = (q', Inr out)"
      using that(2) by (auto simp: mem_ack_def split: prod.splits sum.splits)
    then show ?thesis
      using ack_ids_spec [OF that(1), of state marshal now ids "[]" q' out]
      by (auto simp: Acknowledge_def allowToAck_None split: if_splits option.splits)
  qed
qed

text \<open>The interceptor without actions keeps the contract of the queue it wraps.\<close>

definition no_actions :: "'q ReplicationEventQueueInterceptor \<Rightarrow> bool" where
  "no_actions i \<longleftrightarrow> onEnqueue i = None \<and> onDequeue i = None \<and> onAcknowledge i = None"

lemma passive_ic:
  assumes "no_actions i"
  shows "ic_Enqueue enq i e = (i', e', r) \<Longrightarrow> enq (innerQueue i) e = (innerQueue i', e', r) \<and> no_actions i'"
    and "ic_Dequeue deq i vs ns cnt = (i', out, r) \<Longrightarrow>
      deq (innerQueue i) vs ns cnt = (innerQueue i', out, r) \<and> no_actions i'"
    and "ic_Acknowledge ack i state ids = (i', acked, r) \<Longrightarrow>
      ack (innerQueue i) state ids = (innerQueue i', acked, r) \<and> no_actions i'"
  using assms
  by (auto simp: no_actions_def ic_Enqueue_def ic_Dequeue_def ic_Acknowledge_def Let_def split: prod.splits)

context event_queue
begin

lemma intercepted:
  "event_queue (ic_Enqueue enq) (ic_Dequeue deq) (ic_Acknowledge ack)
     (\<lambda>i. events (innerQueue i)) (\<lambda>i. no_actions i \<and> okq (innerQueue i))"
  by unfold_locales
    (use passive_ic enq_appends deq_targets deq_keeps ack_subset in \<open>metis\<close>)+

end

interpretation icq: event_queue "ic_Enqueue (mem_enq t)" "ic_Dequeue (mem_deq marshal now)"
  "ic_Acknowledge (mem_ack marshal now)" "\<lambda>i. queued (innerQueue i)"
  "\<lambda>i. no_actions i \<and> queue_inv (innerQueue i)"
  by (rule mqi.intercepted)

text \<open>A sequence of calls on the queue, or on an interceptor around it, and the results.\<close>

datatype queue_reply =
    EnqReply ReplicationEvent "queue_error option" | DeqReply "ReplicationEvent list" "queue_error option"
  | AckReply "u64 list" "queue_error option"

fun run_queue where
  "run_queue enq deq ack q [] = (q, [])"
| "run_queue enq deq ack q (Enq e # cs) =
     (let (q', e', r) = enq q e; (q'', rs) = run_queue enq deq ack q' cs in (q'', EnqReply e' r # rs))"
| "run_queue enq deq ack q (Deq vs ns cnt # cs) =
     (let (q', es, r) = deq q vs ns cnt; (q'', rs) = run_queue enq deq ack q' cs in (q'', DeqReply es r # rs))"
| "run_queue enq deq ack q (Ack st ids # cs) =
     (let (q', is, r) = ack q st ids; (q'', rs) = run_queue enq deq ack q' cs in (q'', AckReply is r # rs))"

lemma interceptor_logs:
  "ic_enqueue (fst (ic_Enqueue enq i e)) = ic_enqueue i @ [e]"
  "ic_enqueue (fst (ic_Dequeue deq i vs ns cnt)) = ic_enqueue i"
  "ic_enqueue (fst (ic_Acknowledge ack i st ids)) = ic_enqueue i"
  "ic_acknowledge (fst (ic_Enqueue enq i e)) = ic_acknowledge i"
  "ic_acknowledge (fst (ic_Dequeue deq i vs ns cnt)) = ic_acknowledge i"
  "ic_acknowledge (fst (ic_Acknowledge ack i st ids)) = ic_acknowledge i @ [\<lparr>ap_State = st, ap_IDs = ids\<rparr>]"
  by (simp_all add: ic_Enqueue_def ic_Dequeue_def ic_Acknowledge_def Let_def split: prod.splits)

text \<open>An interceptor without actions is invisible: every sequence of calls gives the results the
  wrapped queue gives and leaves the wrapped queue in the same state, for any implementation of the
  queue, and the interceptor has logged the enqueued events and the acknowledgements in order.\<close>

theorem interceptor_transparent:
  assumes "no_actions i" and "run_queue (ic_Enqueue enq) (ic_Dequeue deq) (ic_Acknowledge ack) i cs = (i', rs)"
  shows "run_queue enq deq ack (innerQueue i) cs = (innerQueue i', rs) \<and>
    ic_enqueue i' = ic_enqueue i @ concat (map (\<lambda>c. case c of Enq e \<Rightarrow> [e] | _ \<Rightarrow> []) cs) \<and>
    ic_acknowledge i' = ic_acknowledge i @
      concat (map (\<lambda>c. case c of Ack st ids \<Rightarrow> [\<lparr>ap_State = st, ap_IDs = ids\<rparr>] | _ \<Rightarrow> []) cs)"
  using assms
proof (induction cs arbitrary: i rs)
  case (Cons c cs)
  show ?case
  proof (cases c)
    case (Enq e)
    obtain j e' r where j: "ic_Enqueue enq i e = (j, e', r)" by (cases "ic_Enqueue enq i e")
    then show ?thesis
      using Cons Enq passive_ic(1) [OF Cons.prems(1) j] interceptor_logs(1,4) [of enq i e]
      by (fastforce split: prod.splits)
  next
    case (Deq vs ns cnt)
    obtain j es r where j: "ic_Dequeue deq i vs ns cnt = (j, es, r)" by (cases "ic_Dequeue deq i vs ns cnt")
    then show ?thesis
      using Cons Deq passive_ic(2) [OF Cons.prems(1) j] interceptor_logs(2,5) [of deq i vs ns cnt]
      by (fastforce split: prod.splits)
  next
    case (Ack st ids)
    obtain j js r where j: "ic_Acknowledge ack i st ids = (j, js, r)" by (cases "ic_Acknowledge ack i st ids")
    then show ?thesis
      using Cons Ack passive_ic(3) [OF Cons.prems(1) j] interceptor_logs(3,6) [of ack i st ids]
      by (fastforce split: prod.splits)
  qed
qed simp

theorem interceptor_transparent_witness:
  "\<exists>i' rs. run_queue (ic_Enqueue (mem_enq 0)) (ic_Dequeue (mem_deq demo_marshal id))
      (ic_Acknowledge (mem_ack demo_marshal id)) (NewReplicationEventQueueInterceptor demo_queue)
      [Enq (demo_event ''z''), Deq ''v'' ''b'' 1] = (i', rs) \<and>
    run_queue (mem_enq 0) (mem_deq demo_marshal id) (mem_ack demo_marshal id) demo_queue
      [Enq (demo_event ''z''), Deq ''v'' ''b'' 1] = (innerQueue i', rs)"
proof -
  have "no_actions (NewReplicationEventQueueInterceptor demo_queue)"
    by (simp add: no_actions_def NewReplicationEventQueueInterceptor_def)
  from interceptor_transparent [OF this] show ?thesis
    by (metis NewReplicationEventQueueInterceptor_def ReplicationEventQueueInterceptor.select_convs(1) surj_pair)
qed

end
