(* ===== verification/Coordinator.thy ===== *)
theory Coordinator
  imports TxManager ReplicationQueue
begin

text \<open>
  The part of Praefect's coordinator that ties transactions to replication,
  \<open>internal/praefect/coordinator.go\<close>: registering the transaction of a mutator call, deciding afterwards
  which replicas are up to date, and recording that in the repository store and the replication queue.
  The repository store is a record of operations on a state of any type, and so is the queue's
  \<open>Enqueue\<close>; \<open>status.FromError\<close> of the gRPC library is the argument \<open>FromError\<close>, of which nothing is
  assumed. Logging is left out; the counters of the metric are the map \<open>nodesByState\<close>.
\<close>

section \<open>State\<close>

text \<open>The connection of a node plays no role here.\<close>

record RouterNode =
  Storage :: string

record RepositoryMutatorRoute =
  route_RepositoryID :: int
  route_ReplicaPath :: string
  AdditionalReplicaPath :: string
  Primary :: RouterNode
  Secondaries :: "RouterNode list"
  ReplicationTargets :: "string list"

text \<open>The interface \<open>transactions.Transaction\<close> and the transaction behind it.\<close>

record Transaction =
  tCountSubtransactions :: nat
  tState :: "(tx_error, (string, VoteResult) gomap) res"
  tDidVote :: "string \<Rightarrow> bool"

definition as_Transaction :: "transaction \<Rightarrow> Transaction" where
  "as_Transaction t =
     \<lparr>tCountSubtransactions = CountSubtransactions t, tState = Inr (tx_State t), tDidVote = DidVote t\<rparr>"

text \<open>\<open>errByNode\<close> of \<open>nodeErrors\<close>: an absent node reads as the nil error.\<close>

type_synonym 'err nodeErrors = "(string, 'err) gomap"

section \<open>Registering a transaction\<close>

definition coordinator_voter :: "string \<Rightarrow> u64 \<Rightarrow> Voter" where
  "coordinator_voter name votes = \<lparr>Name = name, Votes = votes, vote = None, result = VoteUndecided\<rparr>"

definition coordinator_voters :: "RouterNode \<Rightarrow> RouterNode list \<Rightarrow> Voter list" where
  "coordinator_voters primary secondaries =
     coordinator_voter (Storage primary) (of_nat (length secondaries) + 1) #
     map (\<lambda>secondary. coordinator_voter (Storage secondary) 1) secondaries"

definition coordinator_threshold :: "RouterNode list \<Rightarrow> u64" where
  "coordinator_threshold secondaries =
     (let secondaryLen = of_nat (length secondaries); threshold = secondaryLen + 1
      in if length secondaries > 1 then threshold + (secondaryLen + 1) div 2 else threshold)"

definition registerTransaction ::
    "Manager \<Rightarrow> RouterNode \<Rightarrow> RouterNode list \<Rightarrow> Manager \<times> (tx_error, nat) res" where
  "registerTransaction mgr primary secondaries =
     RegisterTransaction mgr (coordinator_voters primary secondaries) (coordinator_threshold secondaries)"

section \<open>Which replicas are up to date\<close>

definition routerNodesToStorages :: "RouterNode list \<Rightarrow> string list" where
  "routerNodesToStorages nodes = map Storage nodes"

text \<open>\<open>FromError\<close> gives the code and the message of the status, or \<open>None\<close> where the library reports
  that the error has none; the argument is \<open>None\<close> for the nil error.\<close>

definition equalGrpcError ::
    "('err option \<Rightarrow> (nat \<times> string) option) \<Rightarrow> 'err option \<Rightarrow> 'err option \<Rightarrow> bool" where
  "equalGrpcError FromError err1 err2 =
     (case FromError err1 of
        None \<Rightarrow> False
      | Some status1 \<Rightarrow>
         (case FromError err2 of
            None \<Rightarrow> False
          | Some status2 \<Rightarrow>
              if fst status1 \<noteq> fst status2 then False
              else if snd status1 \<noteq> snd status2 then False
              else True))"

record classification =
  updated :: "string list"
  outdated :: "string list"
  nodesByState :: "(string, string list) gomap"

definition append_state :: "string \<Rightarrow> string list \<Rightarrow> (string, string list) gomap \<Rightarrow> (string, string list) gomap" where
  "append_state reason nodes m =
     AList.update reason ((case map_of m reason of None \<Rightarrow> [] | Some ns \<Rightarrow> ns) @ nodes) m"

definition markOutdated :: "string \<Rightarrow> string list \<Rightarrow> classification \<Rightarrow> classification" where
  "markOutdated reason nodes c =
     (if length nodes \<noteq> 0
      then c\<lparr>outdated := outdated c @ nodes, nodesByState := append_state reason nodes (nodesByState c)\<rparr>
      else c)"

definition markUpdated :: "string \<Rightarrow> classification \<Rightarrow> classification" where
  "markUpdated storage c =
     c\<lparr>updated := updated c @ [storage], nodesByState := append_state ''updated'' [storage] (nodesByState c)\<rparr>"

text \<open>An absent voter reads as the zero value of \<open>VoteResult\<close>.\<close>

definition state_of :: "(string, VoteResult) gomap \<Rightarrow> string \<Rightarrow> VoteResult" where
  "state_of nodeStates node = (case map_of nodeStates node of None \<Rightarrow> VoteUndecided | Some r \<Rightarrow> r)"

fun classify_secondaries ::
    "('err option \<Rightarrow> (nat \<times> string) option) \<Rightarrow> 'err nodeErrors \<Rightarrow> 'err option
     \<Rightarrow> (string, VoteResult) gomap \<Rightarrow> RouterNode list \<Rightarrow> classification \<Rightarrow> classification" where
  "classify_secondaries FromError errByNode primaryErr nodeStates [] c = c"
| "classify_secondaries FromError errByNode primaryErr nodeStates (secondary # rest) c =
     classify_secondaries FromError errByNode primaryErr nodeStates rest
       (if \<not> equalGrpcError FromError (map_of errByNode (Storage secondary)) primaryErr
        then markOutdated ''node-error-status'' [Storage secondary] c
        else if state_of nodeStates (Storage secondary) \<noteq> VoteCommitted
        then markOutdated ''node-not-committed'' [Storage secondary] c
        else markUpdated (Storage secondary) c)"

definition getUpdatedAndOutdatedSecondaries ::
    "('err option \<Rightarrow> (nat \<times> string) option) \<Rightarrow> RepositoryMutatorRoute \<Rightarrow> Transaction \<Rightarrow> 'err nodeErrors
     \<Rightarrow> bool \<times> classification" where
  "getUpdatedAndOutdatedSecondaries FromError route transaction errByNode =
     (let primaryErr = map_of errByNode (Storage (Primary route));
          c0 = \<lparr>updated = [], outdated = [], nodesByState = []\<rparr>
      in if tCountSubtransactions transaction = 0 \<and> primaryErr \<noteq> None then (False, c0)
         else if tCountSubtransactions transaction = 1 \<and> \<not> tDidVote transaction (Storage (Primary route))
         then (False, c0)
         else
           (True,
            let c = markOutdated ''outdated'' (ReplicationTargets route) c0
            in if tCountSubtransactions transaction = 0
               then markOutdated ''no-votes'' (routerNodesToStorages (Secondaries route)) c
               else
                 (case tState transaction of
                    Inl e \<Rightarrow> markOutdated ''missing-tx-state'' (routerNodesToStorages (Secondaries route)) c
                  | Inr nodeStates \<Rightarrow>
                      if state_of nodeStates (Storage (Primary route)) \<noteq> VoteCommitted
                      then markOutdated ''primary-not-committed'' (routerNodesToStorages (Secondaries route)) c
                      else classify_secondaries FromError errByNode primaryErr nodeStates
                             (Secondaries route) c)))"

section \<open>Recording the outcome\<close>

text \<open>The errors of the repository store, of which two are told apart by \<open>errors.Is\<close>.\<close>

datatype store_error = RepositoryNotExistsError | RepositoryExistsError | StoreError string

record 'rs RepositoryStore =
  IncrementGeneration :: "'rs \<Rightarrow> int \<Rightarrow> string \<Rightarrow> string list \<Rightarrow> 'rs \<times> store_error option"
  RenameRepository :: "'rs \<Rightarrow> string \<Rightarrow> string \<Rightarrow> string \<Rightarrow> string \<Rightarrow> 'rs \<times> store_error option"
  CreateRepository :: "'rs \<Rightarrow> int \<Rightarrow> string \<Rightarrow> string \<Rightarrow> string \<Rightarrow> string \<Rightarrow> string list \<Rightarrow> string list
     \<Rightarrow> bool \<Rightarrow> bool \<Rightarrow> 'rs \<times> store_error option"

datatype enqueue_error = ReplicationEventExistsError | EnqueueError string

text \<open>\<open>Enqueue\<close> of the queue; the flag says whether the context of the error group has been canceled.\<close>

type_synonym 'q enqueuer = "bool \<Rightarrow> 'q \<Rightarrow> ReplicationEvent \<Rightarrow> 'q \<times> enqueue_error option"

record coordinator_config =
  electionStrategyPerRepository :: bool
  defaultReplicationFactors :: "(string, int) gomap"

text \<open>What a call of the finalizer is made for. \<open>req_NewRelativePath\<close> is the parameter \<open>RelativePath\<close> of a
  rename, \<open>None\<close> where the assertion that it is a string panics.\<close>

record finalizer_request =
  req_RepositoryID :: int
  req_VirtualStorage :: string
  req_RelativePath :: string
  req_ReplicaPath :: string
  req_Primary :: string
  req_Change :: ChangeType
  req_Params :: Params
  req_NewRelativePath :: "string option"
  req_Meta :: Params

datatype finalizer_error =
    IncrementGenerationFailed store_error | RenameRepositoryFailed store_error
  | CreateRepositoryFailed store_error | EnqueueFailed string | RequestContextError string
  | TypeAssertionPanic

text \<open>The switch on the kind of change: the state of the store, the error that ends the call, and the
  kind of change the jobs are created with.\<close>

definition update_store ::
    "'rs RepositoryStore \<Rightarrow> coordinator_config \<Rightarrow> finalizer_request \<Rightarrow> string list \<Rightarrow> string list \<Rightarrow> 'rs
     \<Rightarrow> 'rs \<times> finalizer_error option \<times> ChangeType" where
  "update_store ops conf req updatedSecondaries outdatedSecondaries rs =
     (case req_Change req of
        UpdateRepo \<Rightarrow>
          (let (rs, err) = IncrementGeneration ops rs (req_RepositoryID req) (req_Primary req) updatedSecondaries
           in (rs, map_option IncrementGenerationFailed err, UpdateRepo))
      | RenameRepo \<Rightarrow>
          (case req_NewRelativePath req of
             None \<Rightarrow> (rs, Some TypeAssertionPanic, RenameRepo)
           | Some newPath \<Rightarrow>
               (let (rs, err) = RenameRepository ops rs (req_VirtualStorage req) (req_RelativePath req)
                      (req_Primary req) newPath
                in (rs, (case err of
                           Some e \<Rightarrow> if e \<noteq> RepositoryNotExistsError then Some (RenameRepositoryFailed e) else None
                         | None \<Rightarrow> None), RenameRepo)))
      | CreateRepo \<Rightarrow>
          (let repositorySpecificPrimariesEnabled = electionStrategyPerRepository conf;
               variableReplicationFactorEnabled = repositorySpecificPrimariesEnabled \<and>
                 get0 (defaultReplicationFactors conf) (req_VirtualStorage req) > 0;
               (rs, err) = CreateRepository ops rs (req_RepositoryID req) (req_VirtualStorage req)
                 (req_RelativePath req) (req_ReplicaPath req) (req_Primary req)
                 updatedSecondaries outdatedSecondaries
                 repositorySpecificPrimariesEnabled variableReplicationFactorEnabled
           in (rs, (case err of
                      Some e \<Rightarrow> if e \<noteq> RepositoryExistsError then Some (CreateRepositoryFailed e) else None
                    | None \<Rightarrow> None), UpdateRepo))
      | change \<Rightarrow> (rs, None, change))"

definition replication_event :: "finalizer_request \<Rightarrow> ChangeType \<Rightarrow> string \<Rightarrow> ReplicationEvent" where
  "replication_event req change secondary =
     \<lparr>ev_ID = 0, ev_State = JobStateReady, Attempt = 0, LockID = '''', CreatedAt = 0, UpdatedAt = None,
      Job = \<lparr>RepositoryID = req_RepositoryID req, ReplicaPath = '''', Change = change,
             RelativePath = req_RelativePath req, TargetNodeStorage = secondary,
             SourceNodeStorage = req_Primary req, VirtualStorage = req_VirtualStorage req,
             job_Params = req_Params req\<rparr>,
      Meta = req_Meta req\<rparr>"

text \<open>The error group: the goroutines of the loop run in any order, which is the order of the list here,
  and the first error is what \<open>Wait\<close> returns.\<close>

fun enqueue_all ::
    "'q enqueuer \<Rightarrow> ReplicationEvent list \<Rightarrow> string option \<Rightarrow> 'q \<Rightarrow> 'q \<times> string option" where
  "enqueue_all enq [] err q = (q, err)"
| "enqueue_all enq (event # events) err q =
     (case enq (err \<noteq> None) q event of
        (q', None) \<Rightarrow> enqueue_all enq events err q'
      | (q', Some ReplicationEventExistsError) \<Rightarrow> enqueue_all enq events err q'
      | (q', Some (EnqueueError msg)) \<Rightarrow>
          enqueue_all enq events (case err of None \<Rightarrow> Some msg | Some e \<Rightarrow> Some e) q')"

text \<open>\<open>order\<close> is the order in which the goroutines run; \<open>ctxErr\<close> is the error of the request's context by
  the time the jobs have been created.\<close>

definition newRequestFinalizer ::
    "'rs RepositoryStore \<Rightarrow> 'q enqueuer \<Rightarrow> coordinator_config \<Rightarrow> finalizer_request
     \<Rightarrow> string list \<Rightarrow> string list \<Rightarrow> (string list \<Rightarrow> string list) \<Rightarrow> string option \<Rightarrow> 'rs \<times> 'q
     \<Rightarrow> ('rs \<times> 'q) \<times> finalizer_error option" where
  "newRequestFinalizer ops enq conf req updatedSecondaries outdatedSecondaries order ctxErr st =
     (case update_store ops conf req updatedSecondaries outdatedSecondaries (fst st) of
        (rs, Some e, _) \<Rightarrow> ((rs, snd st), Some e)
      | (rs, None, change) \<Rightarrow>
         (case enqueue_all enq (map (replication_event req change) (order outdatedSecondaries)) None (snd st) of
            (q, Some msg) \<Rightarrow> ((rs, q), Some (EnqueueFailed msg))
          | (q, None) \<Rightarrow> ((rs, q), map_option RequestContextError ctxErr)))"

definition createTransactionFinalizer ::
    "('err option \<Rightarrow> (nat \<times> string) option) \<Rightarrow> 'rs RepositoryStore \<Rightarrow> 'q enqueuer \<Rightarrow> coordinator_config
     \<Rightarrow> Transaction \<Rightarrow> RepositoryMutatorRoute \<Rightarrow> finalizer_request \<Rightarrow> 'err nodeErrors
     \<Rightarrow> (string list \<Rightarrow> string list) \<Rightarrow> string option \<Rightarrow> 'rs \<times> 'q \<Rightarrow> ('rs \<times> 'q) \<times> finalizer_error option" where
  "createTransactionFinalizer FromError ops enq conf transaction route req errByNode order ctxErr st =
     (let (primaryDirtied, c) = getUpdatedAndOutdatedSecondaries FromError route transaction errByNode
      in if \<not> primaryDirtied then (st, None)
         else newRequestFinalizer ops enq conf
           (req\<lparr>req_RepositoryID := route_RepositoryID route, req_ReplicaPath := route_ReplicaPath route,
                req_Primary := Storage (Primary route)\<rparr>)
           (updated c) (outdated c) order ctxErr st)"

section \<open>Enqueueing in the database\<close>

text \<open>\<open>PostgresReplicationEventQueue.Enqueue\<close>: the rows of \<open>replication_queue\<close> in the order of their ids,
  and the ids of \<open>replication_queue_lock\<close>. The statement inserts nothing if there is a ready event for
  the same change of the same replica. \<open>dbErr\<close> is the error of the query, if it fails.\<close>

record replication_tables =
  replication_queue :: "ReplicationEvent list"
  replication_queue_lock :: "string set"
  next_id :: u64

definition same_change :: "ReplicationJob \<Rightarrow> ReplicationJob \<Rightarrow> bool" where
  "same_change j j' \<longleftrightarrow> VirtualStorage j = VirtualStorage j' \<and> RelativePath j = RelativePath j' \<and>
     TargetNodeStorage j = TargetNodeStorage j' \<and> Change j = Change j'"

definition pg_Enqueue ::
    "nat \<Rightarrow> string option \<Rightarrow> replication_tables \<Rightarrow> ReplicationEvent
     \<Rightarrow> replication_tables \<times> (enqueue_error, ReplicationEvent) res" where
  "pg_Enqueue now dbErr db event =
     (case dbErr of
        Some e \<Rightarrow> (db, Inl (EnqueueError e))
      | None \<Rightarrow>
          (let lock = VirtualStorage (Job event) @ ''|'' @ TargetNodeStorage (Job event) @ ''|'' @
                      RelativePath (Job event);
               db = db\<lparr>replication_queue_lock := insert lock (replication_queue_lock db)\<rparr>
           in if list_ex (\<lambda>q. ev_State q = JobStateReady \<and> same_change (Job q) (Job event))
                (replication_queue db)
              then (db, Inl ReplicationEventExistsError)
              else
                (let row = \<lparr>ev_ID = next_id db, ev_State = JobStateReady, Attempt = 3, LockID = lock,
                            CreatedAt = now, UpdatedAt = None, Job = Job event, Meta = Meta event\<rparr>
                 in (db\<lparr>replication_queue := replication_queue db @ [row], next_id := next_id db + 1\<rparr>,
                     Inr row))))"

section \<open>The voting strategy\<close>

lemma unat_of_nat_small: "n < 2 ^ 61 \<Longrightarrow> unat (of_nat n :: u64) = n"
  by (simp add: unat_of_nat)

lemma unat_succ_small: "n < 2 ^ 61 \<Longrightarrow> unat (of_nat n + 1 :: u64) = n + 1"
  using unat_of_nat_small [of "n"] by (subst unat_add_lem [THEN iffD1]) simp_all

lemma coordinator_threshold_unat:
  assumes "length secondaries < 2 ^ 61"
  shows "unat (coordinator_threshold secondaries) =
    length secondaries + 1 + (if length secondaries > 1 then (length secondaries + 1) div 2 else 0)"
proof -
  let ?n = "length secondaries"
  have half: "unat ((of_nat ?n + 1 :: u64) div 2) = (?n + 1) div 2"
    by (simp add: unat_div_distrib unat_succ_small [OF assms])
  have "unat ((of_nat ?n + 1 :: u64) + (of_nat ?n + 1) div 2) = ?n + 1 + (?n + 1) div 2"
    using assms by (subst unat_add_lem [THEN iffD1]) (simp_all add: half unat_succ_small [OF assms])
  then show ?thesis by (simp add: coordinator_threshold_def Let_def unat_succ_small [OF assms])
qed

lemma coordinator_votes:
  assumes "length secondaries < 2 ^ 61"
  shows "(\<Sum>v\<leftarrow>coordinator_voters primary secondaries. unat (Votes v)) = 2 * length secondaries + 1"
proof -
  have "(\<Sum>v\<leftarrow>map (\<lambda>s. coordinator_voter (Storage s) 1) ss. unat (Votes v)) = length ss" for ss
    by (induction ss) (simp_all add: coordinator_voter_def)
  then show ?thesis
    by (simp add: coordinator_voters_def unat_succ_small [OF assms])
      (simp add: coordinator_voter_def unat_succ_small [OF assms])
qed

lemma wsum_ones:
  "\<forall>(m, z) \<in> set vs. Votes z = 1 \<Longrightarrow>
    wsum (cast_weight v) vs = length (filter (\<lambda>(m, z). vote z = Some v) vs)"
  by (induction vs) (auto simp: cast_weight_def)

text \<open>A quorum needs the primary, and half of the secondaries if there are several.\<close>

lemma quorum_needs_primary:
  assumes n: "length ss < 2 ^ 61" and d: "distinct (Storage p # map Storage ss)"
    and w: "weights sub = map (\<lambda>v. (Name v, Votes v)) (coordinator_voters p ss)"
    and thr: "threshold sub = coordinator_threshold ss" and q: "quorum_for sub v"
  shows "(\<exists>y. is_voter sub (Storage p) y \<and> vote y = Some v) \<and>
    (length ss \<le> 1 \<or> length ss \<le>
       2 * length (filter (\<lambda>(m, z). m \<noteq> Storage p \<and> vote z = Some v) (votersByNode sub)))"
proof -
  obtain y rest where vs: "votersByNode sub = (Storage p, y) # rest" "Votes y = of_nat (length ss) + 1"
    and rest: "map (\<lambda>(n, x). (n, Votes x)) rest = map (\<lambda>s. (Storage s, 1)) ss"
    using w by (auto simp: weights_def coordinator_voters_def coordinator_voter_def comp_def map_eq_Cons_conv)
  have names: "map fst rest = map Storage ss"
    using arg_cong [OF rest, of "map fst"] by (simp add: case_prod_unfold comp_def)
  have ones: "Votes z = 1" if "(m, z) \<in> set rest" for m z
  proof -
    have "(m, Votes z) \<in> set (map (\<lambda>(n, x). (n, Votes x)) rest)" using that by force
    then show ?thesis unfolding rest by auto
  qed
  have ne: "m \<noteq> Storage p" if "(m, z) \<in> set rest" for m z
  proof -
    have "m \<in> set (map fst rest)" using that by force
    then show ?thesis using d unfolding names by (metis distinct.simps(2))
  qed
  have "wsum (cast_weight v) rest = length (filter (\<lambda>(m, z). vote z = Some v) rest)"
    by (rule wsum_ones) (use ones in auto)
  also have "filter (\<lambda>(m, z). vote z = Some v) rest =
      filter (\<lambda>(m, z). m \<noteq> Storage p \<and> vote z = Some v) rest"
    using ne by (intro filter_cong) auto
  finally have sup: "support sub v = cast_weight v y +
      length (filter (\<lambda>(m, z). m \<noteq> Storage p \<and> vote z = Some v) (votersByNode sub))"
    by (simp add: support_def vs(1))
  have le: "length (filter (\<lambda>(m, z). m \<noteq> Storage p \<and> vote z = Some v) (votersByNode sub)) \<le> length ss"
    using arg_cong [OF rest, of length] by (simp add: vs(1)) (metis length_filter_le)
  have thr': "length ss + 1 + (if length ss > 1 then (length ss + 1) div 2 else 0) \<le> support sub v"
    using q unfolding thr coordinator_threshold_unat [OF n] .
  have cw: "cast_weight v y = (if vote y = Some v then length ss + 1 else 0)"
    by (simp add: cast_weight_def vs(2) unat_succ_small [OF n])
  have y: "vote y = Some v"
  proof (rule ccontr)
    assume "vote y \<noteq> Some v"
    with thr' cw sup le show False by simp
  qed
  have "length ss \<le> 1 \<or> (length ss + 1) div 2 \<le>
      length (filter (\<lambda>(m, z). m \<noteq> Storage p \<and> vote z = Some v) (votersByNode sub))"
    using thr' cw sup y by (simp split: if_splits)
  then show ?thesis using y vs(1) by (auto simp del: filter.simps)
qed

text \<open>The voters and the threshold of a transaction never change.\<close>

lemma tx_step_static:
  "tx_step s e s' \<Longrightarrow> tx_voters (tx s') = tx_voters (tx s) \<and> tx_threshold (tx s') = tx_threshold (tx s)"
  by (induction rule: tx_step.induct)
    (auto simp: getOrCreateSubtransaction_def tx_cast_def tx_collect_def tx_cancelNodeVoter_def tx_cancel_def
      tx_stop_def Let_def split: transactionState.splits sum.splits if_splits prod.splits option.splits)

abbreviation reachable_from :: "transaction \<Rightarrow> tx_sys \<Rightarrow> bool" where
  "reachable_from t \<equiv> reachable (\<lambda>s. s = \<lparr>tx = t, calls = []\<rparr>) tx_step"

lemma reachable_from_init:
  assumes "reachable_from t s" "tx_init \<lparr>tx = t, calls = []\<rparr>"
  shows "tx_reachable s \<and> tx_voters (tx s) = tx_voters t \<and> tx_threshold (tx s) = tx_threshold t"
  using assms(1)
proof (induction rule: reachable.induct)
  case (reach_init s)
  then show ?case using assms(2) by (auto intro: reachable.reach_init)
next
  case (reach_step s e s')
  then show ?case using tx_step_static [of s e s'] by (auto intro: reachable.reach_step)
qed

text \<open>A transaction with the voters of a route, in a state its steps can reach.\<close>

definition runs_for :: "RouterNode \<Rightarrow> RouterNode list \<Rightarrow> tx_sys \<Rightarrow> bool" where
  "runs_for primary secondaries s \<longleftrightarrow> tx_reachable s \<and>
     length secondaries < 2 ^ 61 \<and> distinct (Storage primary # map Storage secondaries) \<and>
     tx_voters (tx s) = coordinator_voters primary secondaries \<and>
     tx_threshold (tx s) = coordinator_threshold secondaries"

lemma runs_for_committed:
  assumes r: "runs_for p ss s" and i: "i < length (subtransactions (tx s))"
    and x: "is_voter (subtransactions (tx s) ! i) n x" "result x = VoteCommitted"
  shows "(\<exists>y. is_voter (subtransactions (tx s) ! i) (Storage p) y \<and> vote y = vote x) \<and> vote x \<noteq> None \<and>
    (length ss \<le> 1 \<or> length ss \<le> 2 * length (filter (\<lambda>(m, z). m \<noteq> Storage p \<and> vote z = vote x)
       (votersByNode (subtransactions (tx s) ! i))))"
proof -
  let ?sub = "subtransactions (tx s) ! i"
  have "tx_inv s" using r by (auto simp: runs_for_def intro: txn.reachable_inv)
  then have sub: "sub_inv ?sub" "threshold ?sub = coordinator_threshold ss"
    "weights ?sub = map (\<lambda>v. (Name v, Votes v)) (coordinator_voters p ss)"
    using r i by (auto simp: tx_inv_def subs_ok_def runs_for_def)
  obtain v where v: "vote x = Some v" "quorum_for ?sub v"
    using committed_quorum [OF sub(1) x] by blast
  have "length ss < 2 ^ 61" "distinct (Storage p # map Storage ss)" using r by (auto simp: runs_for_def)
  from quorum_needs_primary [OF this sub(3,2) v(2)] v(1) show ?thesis by auto
qed

lemma registerTransaction_runs:
  assumes inv: "mgr_inv mgr" and nw: "idSequence mgr < idSequence mgr + 1"
    and n: "length ss < 2 ^ 61" and d: "distinct (Storage p # map Storage ss)"
  shows "\<exists>mgr' q. registerTransaction mgr p ss = (mgr', Inr q) \<and> mgr_inv mgr' \<and>
    (\<forall>s. reachable_from (heap mgr' ! q) s \<longrightarrow> runs_for p ss s)"
proof -
  let ?vs = "coordinator_voters p ss" and ?thr = "coordinator_threshold ss"
  let ?t = "\<lparr>tx_id = idSequence mgr + 1, tx_threshold = ?thr, tx_voters = ?vs,
             tx_state = transactionOpen, subtransactions = []\<rparr>"
  have range: "votes_in_range ?vs" using n by (simp add: votes_in_range_def coordinator_votes)
  have "distinct (map Name ?vs)" "?vs \<noteq> []"
    using d by (simp_all add: coordinator_voters_def coordinator_voter_def comp_def)
  then have new: "newTransaction (idSequence mgr + 1) ?vs ?thr = Inr ?t"
    using n by (simp add: newTransaction_cases [OF range] coordinator_votes coordinator_threshold_unat) presburger
  have "list_all unvoted ?vs"
    by (auto simp: coordinator_voters_def coordinator_voter_def unvoted_def list_all_iff)
  then have init: "tx_init \<lparr>tx = ?t, calls = []\<rparr>"
    using new range by (auto simp: tx_init_def)
  obtain mgr' r where r: "registerTransaction mgr p ss = (mgr', r)" by fastforce
  then have "mgr_inv mgr'"
    unfolding registerTransaction_def by (rule RegisterTransaction_inv [OF inv nw])
  moreover have "map_of (transactions mgr) (idSequence mgr + 1) = None"
    using inv nw by (rule fresh_id)
  ultimately show ?thesis
    using r new reachable_from_init [OF _ init] n d
    by (auto simp: registerTransaction_def RegisterTransaction_def Let_def runs_for_def)
qed

section \<open>Classification\<close>

text \<open>Every node the loop sees ends up in exactly one of the two lists.\<close>

lemma markOutdated_simps [simp]:
  "updated (markOutdated reason ns c) = updated c" "outdated (markOutdated reason ns c) = outdated c @ ns"
  by (simp_all add: markOutdated_def)

lemma markUpdated_simps [simp]:
  "updated (markUpdated n c) = updated c @ [n]" "outdated (markUpdated n c) = outdated c"
  by (simp_all add: markUpdated_def)

lemma classify_secondaries_mset:
  "mset (updated (classify_secondaries F es pe st ss c)) + mset (outdated (classify_secondaries F es pe st ss c)) =
   mset (updated c) + mset (outdated c) + mset (map Storage ss)"
  by (induction F es pe st ss c rule: classify_secondaries.induct) auto

lemma classify_secondaries_updated:
  "n \<in> set (updated (classify_secondaries F es pe st ss c)) \<Longrightarrow>
   n \<in> set (updated c) \<or> equalGrpcError F (map_of es n) pe \<and> state_of st n = VoteCommitted"
  by (induction F es pe st ss c rule: classify_secondaries.induct) (auto split: if_splits)

lemma classification_cases:
  assumes "getUpdatedAndOutdatedSecondaries F route t es = (dirty, c)"
  shows "dirty \<longleftrightarrow> \<not> (tCountSubtransactions t = 0 \<and> map_of es (Storage (Primary route)) \<noteq> None) \<and>
      \<not> (tCountSubtransactions t = 1 \<and> \<not> tDidVote t (Storage (Primary route)))"
    "\<not> dirty \<Longrightarrow> updated c = [] \<and> outdated c = []"
    "dirty \<Longrightarrow> mset (updated c) + mset (outdated c) =
       mset (ReplicationTargets route) + mset (map Storage (Secondaries route))"
    "n \<in> set (updated c) \<Longrightarrow> tCountSubtransactions t \<noteq> 0 \<and>
       equalGrpcError F (map_of es n) (map_of es (Storage (Primary route))) \<and>
       (\<exists>st. tState t = Inr st \<and> state_of st (Storage (Primary route)) = VoteCommitted \<and>
          state_of st n = VoteCommitted)"
  using assms
  by (auto simp: getUpdatedAndOutdatedSecondaries_def Let_def classify_secondaries_mset routerNodesToStorages_def
      dest!: classify_secondaries_updated split: if_splits sum.splits)

lemma map_of_fold_update:
  "distinct (map fst xs) \<Longrightarrow>
    map_of (fold (\<lambda>(k, v). AList.update k v) xs m) k = (case map_of xs k of None \<Rightarrow> map_of m k | Some v \<Rightarrow> Some v)"
proof (induction xs arbitrary: m)
  case (Cons p xs)
  have "map_of xs (fst p) = None" using Cons.prems by (simp add: map_of_eq_None_iff)
  then show ?case
    using Cons by (cases p) (auto simp: gm.get_set split: option.splits)
qed simp

lemma state_of_last:
  assumes "tx_inv s" "subtransactions (tx s) \<noteq> []" "state_of (tx_State (tx s)) n = VoteCommitted"
  shows "\<exists>x. is_voter (last (subtransactions (tx s))) n x \<and> result x = VoteCommitted"
proof -
  let ?l = "last (subtransactions (tx s))"
  have "sub_inv ?l" using assms(1,2) by (simp add: tx_inv_def subs_ok_def last_conv_nth)
  then have "distinct (map fst (sub_state ?l))"
    by (simp add: sub_state_def sub_inv_def sub_wf_def wf_map_def case_prod_unfold comp_def)
  then have "map_of (tx_State (tx s)) n = map_of (sub_state ?l) n"
    using assms(2) by (simp add: tx_State_def map_of_fold_update split: option.split)
  then have "map_of (sub_state ?l) n = Some VoteCommitted"
    using assms(3) by (auto simp: state_of_def split: option.splits)
  then show ?thesis by (auto simp: sub_state_def dest!: map_of_SomeD) metis
qed

lemma committed_agree:
  assumes "sub_inv t" "is_voter t n x" "result x = VoteCommitted" "is_voter t m y" "result y = VoteCommitted"
  shows "vote x = vote y"
  using committed_quorum [OF assms(1-3)] committed_quorum [OF assms(1,4,5)] assms(1) quorum_unique [of t]
  by (auto simp: sub_inv_def)

text \<open>A node that committed the last subtransaction committed all of them.\<close>

lemma committed_last_all:
  assumes inv: "tx_inv s" and x: "is_voter (last (subtransactions (tx s))) n x" "result x = VoteCommitted"
    and i: "i < length (subtransactions (tx s))"
  shows "\<exists>y. is_voter (subtransactions (tx s) ! i) n y \<and> result y = VoteCommitted"
proof -
  let ?subs = "subtransactions (tx s)"
  have "?subs \<noteq> []" using i by auto
  then have l: "?subs ! (length ?subs - 1) = last ?subs" "length ?subs - 1 < length ?subs"
    by (simp_all add: last_conv_nth)
  have "sub_inv (last ?subs)" using inv l by (auto simp: tx_inv_def subs_ok_def)
  then have "vote x \<noteq> None" using committed_quorum x by blast
  then have "committed_before ?subs n (length ?subs - 1)"
    using inv l x(1) by (auto simp: tx_inv_def subs_ok_def)
  then show ?thesis
    using i l x by (cases "i = length ?subs - 1") (auto simp: committed_before_def)
qed

section \<open>Jobs for the outdated replicas\<close>

text \<open>What the finalizer relies on: after an \<open>Enqueue\<close> that succeeds, or that reports a similar event, a ready
  event for that change of the replica is in the queue, and enqueueing drops nothing.\<close>

definition covered :: "ReplicationEvent list \<Rightarrow> ReplicationJob \<Rightarrow> bool" where
  "covered es j \<longleftrightarrow> list_ex (\<lambda>e. ev_State e = JobStateReady \<and> same_change (Job e) j) es"

locale outcome_queue =
  fixes enq :: "'q enqueuer" and events :: "'q \<Rightarrow> ReplicationEvent list"
  assumes enq_covers: "enq c q e = (q', r) \<Longrightarrow> r = None \<or> r = Some ReplicationEventExistsError \<Longrightarrow>
      covered (events q') (Job e)"
    and enq_keeps: "enq c q e = (q', r) \<Longrightarrow> set (events q) \<subseteq> set (events q')"
begin

lemma enq_still_covered: "enq c q e = (q', r) \<Longrightarrow> covered (events q) j \<Longrightarrow> covered (events q') j"
  using enq_keeps by (fastforce simp: covered_def list_ex_iff)

lemma enqueue_all_error: "enqueue_all enq es (Some m) q = (q', err) \<Longrightarrow> err = Some m"
  by (induction es arbitrary: q) (auto split: prod.splits option.splits enqueue_error.splits)

lemma enqueue_all_covers:
  "enqueue_all enq es None q = (q', None) \<Longrightarrow> covered (events q) j \<or> j \<in> Job ` set es \<Longrightarrow>
   covered (events q') j"
proof (induction es arbitrary: q)
  case (Cons e es)
  obtain q1 r where r: "enq False q e = (q1, r)" by fastforce
  have ok: "r = None \<or> r = Some ReplicationEventExistsError" "enqueue_all enq es None q1 = (q', None)"
    using Cons.prems(1) r by (auto dest: enqueue_all_error split: option.splits enqueue_error.splits)
  have "covered (events q1) j \<or> j \<in> Job ` set es"
    using Cons.prems(2) enq_covers [OF r ok(1)] enq_still_covered [OF r] by auto
  with ok(2) show ?case by (rule Cons.IH)
qed auto

end

definition mem_enqueuer :: "nat \<Rightarrow> memoryReplicationEventQueue enqueuer" where
  "mem_enqueuer now canceled q e = (fst (Enqueue now q e), None)"

definition pg_enqueuer :: "nat \<Rightarrow> (bool \<Rightarrow> ReplicationEvent \<Rightarrow> string option) \<Rightarrow> replication_tables enqueuer" where
  "pg_enqueuer now dbErr canceled db e =
     (case pg_Enqueue now (dbErr canceled e) db e of (db', Inl err) \<Rightarrow> (db', Some err) | (db', Inr _) \<Rightarrow> (db', None))"

interpretation moq: outcome_queue "mem_enqueuer now" queued
  by unfold_locales (auto simp: mem_enqueuer_def Enqueue_simps covered_def same_change_def)

interpretation poq: outcome_queue "pg_enqueuer now dbErr" replication_queue
  by unfold_locales
    (auto simp: pg_enqueuer_def pg_Enqueue_def Let_def covered_def same_change_def list_ex_iff
      split: option.splits if_splits)

lemma request_finalizer_covers:
  assumes q: "outcome_queue enq events" and ord: "\<And>xs. set (order xs) = set xs"
    and f: "newRequestFinalizer ops enq conf req up out order ctxErr (rs, q0) = ((rs', q'), err)"
      "err = None \<or> (\<exists>e. err = Some (RequestContextError e))"
    and m: "m \<in> set out"
  shows "covered (events q') (Job (replication_event req
     (if req_Change req = CreateRepo then UpdateRepo else req_Change req) m))"
proof -
  obtain rs1 e change where u: "update_store ops conf req up out rs = (rs1, e, change)"
    by (metis prod_cases3)
  have noctx: "e \<noteq> Some (RequestContextError x)" for x
    using u by (auto simp: update_store_def Let_def split: ChangeType.splits option.splits prod.splits if_splits)
  have "e = err" if "e \<noteq> None"
    using u f(1) that by (auto simp: newRequestFinalizer_def)
  then have e: "e = None" using f(2) noctx by (cases e) auto
  then have ch: "change = (if req_Change req = CreateRepo then UpdateRepo else req_Change req)"
    using u by (auto simp: update_store_def Let_def split: ChangeType.splits option.splits prod.splits)
  have "enqueue_all enq (map (replication_event req change) (order out)) None q0 = (q', None)"
    using u e f by (auto simp: newRequestFinalizer_def split: prod.splits option.splits)
  from outcome_queue.enqueue_all_covers [OF q this]
  show ?thesis using m ord by (auto simp: ch)
qed

lemma finalizer_covers:
  assumes q: "outcome_queue enq events" and ord: "\<And>xs. set (order xs) = set xs"
    and c: "getUpdatedAndOutdatedSecondaries F route t es = (True, c)"
    and f: "createTransactionFinalizer F ops enq conf t route req es order ctxErr (rs, q0) = ((rs', q'), err)"
      "err = None \<or> (\<exists>e. err = Some (RequestContextError e))"
    and m: "m \<in> set (outdated c)"
  shows "covered (events q') (Job (replication_event req
     (if req_Change req = CreateRepo then UpdateRepo else req_Change req) m))"
  using request_finalizer_covers [OF q ord _ f(2) m] f(1) c
  by (fastforce simp: createTransactionFinalizer_def covered_def same_change_def replication_event_def)

section \<open>Properties\<close>



text \<open>What the coordinator concludes from a transaction is right. If it takes the primary for clean, no
  node has committed anything. Otherwise every secondary and every replication target is in exactly one
  of the two lists, and a node taken for up to date has committed every subtransaction with the same
  vote as the primary and returned the same status.\<close>

theorem classification_sound:
  assumes r: "runs_for (Primary route) (Secondaries route) s"
    and c: "getUpdatedAndOutdatedSecondaries F route (as_Transaction (tx s)) es = (dirty, c)"
  shows "(\<not> dirty \<longrightarrow> updated c = [] \<and> outdated c = [] \<and>
      (\<forall>i n x. i < length (subtransactions (tx s)) \<longrightarrow> is_voter (subtransactions (tx s) ! i) n x \<longrightarrow>
         result x \<noteq> VoteCommitted)) \<and>
    (dirty \<longrightarrow> mset (updated c) + mset (outdated c) =
       mset (ReplicationTargets route) + mset (map Storage (Secondaries route))) \<and>
    (\<forall>n. n \<in> set (updated c) \<longrightarrow> equalGrpcError F (map_of es n) (map_of es (Storage (Primary route))) \<and>
      (\<forall>i. i < length (subtransactions (tx s)) \<longrightarrow>
         (\<exists>y z. is_voter (subtransactions (tx s) ! i) n y \<and> result y = VoteCommitted \<and>
            is_voter (subtransactions (tx s) ! i) (Storage (Primary route)) z \<and> result z = VoteCommitted \<and>
            vote y = vote z)))"
proof -
  let ?subs = "subtransactions (tx s)" and ?p = "Storage (Primary route)"
  note cases = classification_cases [OF c]
  have inv: "tx_inv s" using r by (auto simp: runs_for_def intro: txn.reachable_inv)
  have clean: "result x \<noteq> VoteCommitted"
    if nd: "\<not> dirty" and i: "i < length ?subs" and v: "is_voter (?subs ! i) n x" for i n x
  proof
    assume x: "result x = VoteCommitted"
    have one: "length ?subs = 1" "\<not> DidVote (tx s) ?p"
      using cases(1) nd i by (auto simp: as_Transaction_def CountSubtransactions_def)
    obtain y where y: "is_voter (?subs ! i) ?p y" "vote y \<noteq> None"
      using runs_for_committed [OF r i v x] by auto
    have sub: "?subs = [?subs ! i]" using one(1) i by (cases ?subs) auto
    have "wf_map (votersByNode (?subs ! i))"
      using inv i by (auto simp: tx_inv_def subs_ok_def sub_inv_def sub_wf_def)
    then have "DidVote (tx s) ?p"
      using y by (subst DidVote_def, subst sub) (simp add: getVote_def wf_map_of_iff [THEN iffD2])
    with one(2) show False by simp
  qed
  have upd: "\<exists>y z. is_voter (?subs ! i) n y \<and> result y = VoteCommitted \<and>
      is_voter (?subs ! i) ?p z \<and> result z = VoteCommitted \<and> vote y = vote z"
    if n: "n \<in> set (updated c)" and i: "i < length ?subs" for n i
  proof -
    have st: "state_of (tx_State (tx s)) ?p = VoteCommitted" "state_of (tx_State (tx s)) n = VoteCommitted"
      "?subs \<noteq> []"
      using cases(4) [OF n] by (auto simp: as_Transaction_def CountSubtransactions_def)
    have all: "\<exists>y. is_voter (?subs ! i) m y \<and> result y = VoteCommitted"
      if "state_of (tx_State (tx s)) m = VoteCommitted" for m
      using state_of_last [OF inv st(3) that] committed_last_all [OF inv _ _ i] by blast
    have "sub_inv (?subs ! i)" using inv i by (auto simp: tx_inv_def subs_ok_def)
    then show ?thesis using all [OF st(1)] all [OF st(2)] committed_agree [of "?subs ! i"] by metis
  qed
  show ?thesis using clean upd cases(2-4) by blast
qed

text \<open>A run with a primary and two secondaries: the primary and the first secondary vote, which commits the
  subtransaction; the other secondary has not voted yet.\<close>

definition demo_route :: RepositoryMutatorRoute where
  "demo_route = \<lparr>route_RepositoryID = 1, route_ReplicaPath = ''r'', AdditionalReplicaPath = '''',
     Primary = \<lparr>Storage = ''a''\<rparr>, Secondaries = [\<lparr>Storage = ''b''\<rparr>, \<lparr>Storage = ''c''\<rparr>],
     ReplicationTargets = [''d'']\<rparr>"

definition demo_coord0 :: tx_sys where
  "demo_coord0 = \<lparr>tx = projr (newTransaction 1 (coordinator_voters (Primary demo_route) (Secondaries demo_route))
     (coordinator_threshold (Secondaries demo_route))), calls = []\<rparr>"

definition demo_coord :: tx_sys where
  "demo_coord = demo_vote (demo_vote demo_coord0 ''a'' ''x'') ''b'' ''x''"

definition demo_status :: "string option \<Rightarrow> (nat \<times> string) option" where
  "demo_status e = (case e of None \<Rightarrow> Some (0, '''') | Some m \<Rightarrow> Some (2, m))"

lemmas coord_eval = demo_coord_def demo_coord0_def demo_route_def coordinator_voters_def coordinator_voter_def
  coordinator_threshold_def tx_eval

lemma demo_coord_static:
  "tx_voters (tx demo_coord) = coordinator_voters (Primary demo_route) (Secondaries demo_route)"
  "tx_threshold (tx demo_coord) = coordinator_threshold (Secondaries demo_route)"
  by (simp_all add: coord_eval)

lemma demo_coord_runs: "runs_for (Primary demo_route) (Secondaries demo_route) demo_coord"
proof -
  let ?vs = "coordinator_voters (Primary demo_route) (Secondaries demo_route)"
  have "newTransaction 1 ?vs (coordinator_threshold (Secondaries demo_route)) = Inr (tx demo_coord0)"
    by (simp add: coord_eval)
  moreover have "list_all unvoted ?vs" "votes_in_range ?vs"
    by (simp_all add: coord_eval unvoted_def votes_in_range_def)
  ultimately have "tx_init demo_coord0" unfolding tx_init_def by (auto simp: demo_coord0_def)
  then have "tx_reachable demo_coord0" by (rule reach_init)
  then have "tx_reachable demo_coord"
    unfolding demo_coord_def by (intro demo_vote_reachable) (simp_all add: coord_eval)
  then show ?thesis by (simp add: runs_for_def demo_coord_static) (simp add: demo_route_def)
qed

lemma demo_coord_classified:
  "getUpdatedAndOutdatedSecondaries demo_status demo_route (as_Transaction (tx demo_coord)) [] =
     (True, \<lparr>updated = [''b''], outdated = [''d'', ''c''],
       nodesByState = [(''outdated'', [''d'']), (''updated'', [''b'']), (''node-not-committed'', [''c''])]\<rparr>)"
  by (simp add: getUpdatedAndOutdatedSecondaries_def as_Transaction_def tx_State_def CountSubtransactions_def
      DidVote_def getVote_def sub_state_def markOutdated_def markUpdated_def append_state_def state_of_def
      equalGrpcError_def demo_status_def coord_eval)

theorem classification_sound_witness:
  "\<exists>y z. is_voter (subtransactions (tx demo_coord) ! 0) ''b'' y \<and> result y = VoteCommitted \<and>
    is_voter (subtransactions (tx demo_coord) ! 0) ''a'' z \<and> result z = VoteCommitted \<and> vote y = vote z"
proof -
  have p: "Storage (Primary demo_route) = ''a''" by (simp add: demo_route_def)
  have "0 < length (subtransactions (tx demo_coord))" by (simp add: coord_eval)
  with classification_sound [OF demo_coord_runs demo_coord_classified] show ?thesis
    unfolding p classification.simps by (metis list.set_intros(1))
qed

text \<open>No replica is left behind. When the finalizer of a transaction that dirtied the primary succeeds,
  or fails only because the request itself was canceled, then every secondary and replication target
  that is not up to date has a ready job in the replication queue for the change, whatever order the
  jobs were enqueued in; a repository creation is replicated as an update.\<close>

theorem finalizer_queues_jobs:
  assumes ord: "\<And>xs. set (order xs) = set xs"
    and c: "getUpdatedAndOutdatedSecondaries F route t es = (True, c)"
    and f: "createTransactionFinalizer F ops (pg_enqueuer now dbErr) conf t route req es order ctxErr (rs, db) =
      ((rs', db'), err)" "err = None \<or> (\<exists>e. err = Some (RequestContextError e))"
    and m: "m \<in> set (ReplicationTargets route) \<union> Storage ` set (Secondaries route)" "m \<notin> set (updated c)"
  shows "\<exists>e. e \<in> set (replication_queue db') \<and> ev_State e = JobStateReady \<and>
    TargetNodeStorage (Job e) = m \<and> VirtualStorage (Job e) = req_VirtualStorage req \<and>
    RelativePath (Job e) = req_RelativePath req \<and>
    Change (Job e) = (if req_Change req = CreateRepo then UpdateRepo else req_Change req)"
proof -
  have "set_mset (mset (updated c) + mset (outdated c)) =
      set_mset (mset (ReplicationTargets route) + mset (map Storage (Secondaries route)))"
    using classification_cases(3) [OF c] by simp
  then have "m \<in> set (outdated c)" using m by auto
  from finalizer_covers [OF poq.outcome_queue_axioms ord c f this] show ?thesis
    by (auto simp: covered_def same_change_def replication_event_def list_ex_iff)
qed

text \<open>A repository store that counts the generations it is asked to increment.\<close>

definition demo_store :: "nat RepositoryStore" where
  "demo_store = \<lparr>IncrementGeneration = (\<lambda>rs _ _ _. (rs + 1, None)),
     RenameRepository = (\<lambda>rs _ _ _ _. (rs, None)),
     CreateRepository = (\<lambda>rs _ _ _ _ _ _ _ _ _. (rs, None))\<rparr>"

definition demo_request :: finalizer_request where
  "demo_request = \<lparr>req_RepositoryID = 1, req_VirtualStorage = ''v'', req_RelativePath = ''p'',
     req_ReplicaPath = ''r'', req_Primary = ''a'', req_Change = UpdateRepo, req_Params = [],
     req_NewRelativePath = None, req_Meta = []\<rparr>"

definition demo_finalized where
  "demo_finalized = createTransactionFinalizer demo_status demo_store (pg_enqueuer 0 (\<lambda>_ _. None))
     \<lparr>electionStrategyPerRepository = True, defaultReplicationFactors = []\<rparr>
     (as_Transaction (tx demo_coord)) demo_route demo_request [] rev None
     (0, \<lparr>replication_queue = [], replication_queue_lock = {}, next_id = 1\<rparr>)"

theorem finalizer_queues_jobs_witness:
  "\<exists>e. e \<in> set (replication_queue (snd (fst demo_finalized))) \<and> TargetNodeStorage (Job e) = ''c''"
proof -
  obtain rs' db' err where f: "demo_finalized = ((rs', db'), err)" by (metis surj_pair)
  then have err: "err = None"
    by (auto simp: demo_finalized_def createTransactionFinalizer_def demo_coord_classified newRequestFinalizer_def
        update_store_def demo_request_def demo_store_def pg_enqueuer_def pg_Enqueue_def Let_def
        split: prod.splits option.splits if_splits)
  have "''c'' \<in> set (ReplicationTargets demo_route) \<union> Storage ` set (Secondaries demo_route)"
    by (simp add: demo_route_def)
  from finalizer_queues_jobs [OF _ demo_coord_classified f [unfolded demo_finalized_def] _ this] err
  show ?thesis unfolding f by auto
qed

end
