(* ===== verification/Router.thy ===== *)
theory Router
  imports Coordinator Strconv
begin

text \<open>
  How Praefect chooses the nodes of a call, \<open>internal/praefect/router.go\<close> and
  \<open>internal/praefect/router_per_repository.go\<close>. The stores in the database, the health checks and the random numbers
  are fields of a record; of each of them the theorems assume what they name. A node is its storage: every connection
  comes from the map of connections, where the storage determines it.
\<close>

section \<open>Data\<close>

datatype router_error =
    ErrVirtualStorageNotExist | NoConnection string string | ErrNoHealthyNodes | ErrNoSuitableNode
  | ErrPrimaryNotHealthy | ErrRepositoryReadOnly | ErrPrimaryUnassigned
  | ErrRepositoryNotFound | RepositoryNotFoundError | ErrRepositoryAlreadyExists
  | RouterError string | RouterWrapped string router_error | RouterStatus nat router_error | SlicePanic

fun router_error_is :: "router_error \<Rightarrow> router_error \<Rightarrow> bool" where
  "router_error_is (RouterWrapped s e) target \<longleftrightarrow> RouterWrapped s e = target \<or> router_error_is e target"
| "router_error_is (RouterStatus c e) target \<longleftrightarrow> RouterStatus c e = target \<or> router_error_is e target"
| "router_error_is e target \<longleftrightarrow> e = target"

record RepositoryAccessorRoute =
  acc_ReplicaPath :: string
  acc_Node :: RouterNode

record RepositoryMaintenanceRoute =
  mnt_RepositoryID :: int
  mnt_ReplicaPath :: string
  mnt_Nodes :: "RouterNode list"

record Replica =
  rep_Storage :: string
  rep_Generation :: int
  rep_Assigned :: bool

record RepositoryMetadata =
  md_RepositoryID :: int
  md_ReplicaPath :: string
  md_Replicas :: "Replica list"

text \<open>The storages of a virtual storage are in the order a loop over the map of its connections visits them.
  \<open>Shuffle n\<close> is the list of swaps of \<open>rand.Shuffle\<close>, and \<open>append_cap n\<close> the capacity of a slice \<open>n\<close> elements have been
  appended to.\<close>

record PerRepositoryRouter =
  conns :: "(string, string list) gomap"
  HealthyNodes :: "(string, string list) gomap"
  GetPrimary :: "string \<Rightarrow> int \<Rightarrow> router_error + string"
  GetHostAssignments :: "string \<Rightarrow> int \<Rightarrow> router_error + string list"
  GetRepositoryID :: "string \<Rightarrow> string \<Rightarrow> router_error + int"
  GetReplicaPath :: "int \<Rightarrow> router_error + string"
  GetConsistentStorages :: "string \<Rightarrow> string \<Rightarrow> router_error + string \<times> string list"
  GetConsistentStoragesByRepositoryID :: "int \<Rightarrow> router_error + string \<times> string list"
  ReserveRepositoryID :: "string \<Rightarrow> string \<Rightarrow> router_error + int"
  GetRepositoryMetadataByPath :: "string \<Rightarrow> string \<Rightarrow> router_error + RepositoryMetadata"
  sha256 :: "string \<Rightarrow> bytes"
  Intn :: "nat \<Rightarrow> nat"
  Shuffle :: "nat \<Rightarrow> (nat \<times> nat) list"
  append_cap :: "nat \<Rightarrow> nat"
  replicationFactors :: "(string, int) gomap"

section \<open>Choosing among healthy nodes\<close>

fun connected_nodes :: "string \<Rightarrow> string list \<Rightarrow> string list \<Rightarrow> router_error + RouterNode list" where
  "connected_nodes virtualStorage connected [] = Inr []"
| "connected_nodes virtualStorage connected (storage # storages) =
     (if storage \<notin> set connected then Inl (NoConnection virtualStorage storage)
      else map_sum (\<lambda>e. e) (\<lambda>ns. \<lparr>Storage = storage\<rparr> # ns) (connected_nodes virtualStorage connected storages))"

definition healthyNodes :: "PerRepositoryRouter \<Rightarrow> string \<Rightarrow> router_error + RouterNode list" where
  "healthyNodes r virtualStorage =
     (case map_of (conns r) virtualStorage of
        None \<Rightarrow> Inl ErrVirtualStorageNotExist
      | Some connected \<Rightarrow>
          (case connected_nodes virtualStorage connected (case map_of (HealthyNodes r) virtualStorage of None \<Rightarrow> [] | Some hs \<Rightarrow> hs) of
             Inl err \<Rightarrow> Inl err
           | Inr ns \<Rightarrow> if length ns = 0 then Inl ErrNoHealthyNodes else Inr ns))"

definition pickRandom :: "PerRepositoryRouter \<Rightarrow> RouterNode list \<Rightarrow> router_error + RouterNode" where
  "pickRandom r ns = (if length ns = 0 then Inl ErrNoSuitableNode else Inr (ns ! Intn r (length ns)))"

definition RouteStorageAccessor :: "PerRepositoryRouter \<Rightarrow> string \<Rightarrow> router_error + RouterNode" where
  "RouteStorageAccessor r virtualStorage =
     (case healthyNodes r virtualStorage of Inl err \<Rightarrow> Inl err | Inr ns \<Rightarrow> pickRandom r ns)"

definition RouteStorageMutator :: "PerRepositoryRouter \<Rightarrow> string \<Rightarrow> router_error + RouterNode \<times> RouterNode list" where
  "RouteStorageMutator r virtualStorage = Inl (RouterError ''RouteStorageMutator is not implemented on PerRepositoryRouter'')"

definition RouteRepositoryAccessor ::
    "PerRepositoryRouter \<Rightarrow> string \<Rightarrow> string \<Rightarrow> bool \<Rightarrow> router_error + RepositoryAccessorRoute" where
  "RouteRepositoryAccessor r virtualStorage relativePath forcePrimary =
     (case healthyNodes r virtualStorage of
        Inl err \<Rightarrow> Inl err
      | Inr healthy \<Rightarrow>
          if forcePrimary then
            (case GetRepositoryID r virtualStorage relativePath of
               Inl err \<Rightarrow> Inl (RouterWrapped ''get repository id'' err)
             | Inr repositoryID \<Rightarrow>
            (case GetPrimary r virtualStorage repositoryID of
               Inl err \<Rightarrow> Inl (RouterWrapped ''get primary'' err)
             | Inr primary \<Rightarrow>
            (case GetConsistentStoragesByRepositoryID r repositoryID of
               Inl err \<Rightarrow> Inl (RouterWrapped ''get replica path'' err)
             | Inr (replicaPath, _) \<Rightarrow>
            (case find (\<lambda>n. Storage n = primary) healthy of
               Some node \<Rightarrow> Inr \<lparr>acc_ReplicaPath = replicaPath, acc_Node = node\<rparr>
             | None \<Rightarrow> Inl ErrPrimaryNotHealthy))))
          else
            (case GetConsistentStorages r virtualStorage relativePath of
               Inl err \<Rightarrow> Inl (RouterWrapped ''consistent storages'' err)
             | Inr (replicaPath, consistentStorages) \<Rightarrow>
            (case pickRandom r (filter (\<lambda>n. Storage n \<in> set consistentStorages) healthy) of
               Inl err \<Rightarrow> Inl err
             | Inr node \<Rightarrow> Inr \<lparr>acc_ReplicaPath = replicaPath, acc_Node = node\<rparr>)))"

section \<open>Mutators\<close>

definition resolveAdditionalReplicaPath :: "PerRepositoryRouter \<Rightarrow> string \<Rightarrow> string \<Rightarrow> router_error + string" where
  "resolveAdditionalReplicaPath r virtualStorage additionalRelativePath =
     (if additionalRelativePath = '''' then Inr ''''
      else case GetRepositoryID r virtualStorage additionalRelativePath of
             Inl err \<Rightarrow> Inl (RouterWrapped ''get additional repository id'' err)
           | Inr additionalRepositoryID \<Rightarrow> GetReplicaPath r additionalRepositoryID)"

text \<open>The loop over the assigned storages. The primary is \<open>None\<close> while it is the zero value.\<close>

fun assign_nodes ::
    "RouterNode list \<Rightarrow> string \<Rightarrow> string list \<Rightarrow> string list \<Rightarrow> RouterNode option \<times> RouterNode list \<times> string list
      \<Rightarrow> RouterNode option \<times> RouterNode list \<times> string list" where
  "assign_nodes healthy primary consistent [] acc = acc"
| "assign_nodes healthy primary consistent (assigned # rest) (p, secondaries, targets) =
     assign_nodes healthy primary consistent rest
       (if assigned = primary then (find (\<lambda>n. Storage n = assigned) healthy, secondaries, targets)
        else case find (\<lambda>n. Storage n = assigned) healthy of
               None \<Rightarrow> (p, secondaries, targets @ [assigned])
             | Some node \<Rightarrow>
                 if Storage node \<notin> set consistent then (p, secondaries, targets @ [assigned])
                 else (p, secondaries @ [node], targets))"

definition RouteRepositoryMutator ::
    "PerRepositoryRouter \<Rightarrow> string \<Rightarrow> string \<Rightarrow> string \<Rightarrow> router_error + RepositoryMutatorRoute" where
  "RouteRepositoryMutator r virtualStorage relativePath additionalRelativePath =
     (case healthyNodes r virtualStorage of
        Inl err \<Rightarrow> Inl err
      | Inr healthy \<Rightarrow>
     (case GetRepositoryID r virtualStorage relativePath of
        Inl err \<Rightarrow> Inl (RouterWrapped ''get repository id'' err)
      | Inr repositoryID \<Rightarrow>
     (case resolveAdditionalReplicaPath r virtualStorage additionalRelativePath of
        Inl err \<Rightarrow> Inl (RouterWrapped ''resolve additional replica path'' err)
      | Inr additionalReplicaPath \<Rightarrow>
     (case GetPrimary r virtualStorage repositoryID of
        Inl err \<Rightarrow> Inl (RouterWrapped ''get primary'' err)
      | Inr primary \<Rightarrow>
          if find (\<lambda>n. Storage n = primary) healthy = None then Inl ErrPrimaryNotHealthy
          else
     (case GetConsistentStoragesByRepositoryID r repositoryID of
        Inl err \<Rightarrow> Inl (RouterWrapped ''consistent storages'' err)
      | Inr (replicaPath, consistentStorages) \<Rightarrow>
          if primary \<notin> set consistentStorages then Inl ErrRepositoryReadOnly
          else
     (case GetHostAssignments r virtualStorage repositoryID of
        Inl err \<Rightarrow> Inl (RouterWrapped ''get host assignments'' err)
      | Inr assignedStorages \<Rightarrow>
     (case assign_nodes healthy primary consistentStorages assignedStorages (None, [], []) of
        (None, _, _) \<Rightarrow> Inl ErrPrimaryUnassigned
      | (Some p, secondaries, targets) \<Rightarrow>
          Inr \<lparr>route_RepositoryID = repositoryID, route_ReplicaPath = replicaPath,
               AdditionalReplicaPath = additionalReplicaPath, Primary = p, Secondaries = secondaries,
               ReplicationTargets = targets\<rparr>)))))))"

section \<open>Creating repositories\<close>

definition poolPathPrefix :: string where
  "poolPathPrefix = ''@cluster/pools/''"

text \<open>\<open>filepath.Join\<close> drops the slash at the end of a directory. A repository ID is a positive \<open>int64\<close>.\<close>

definition trim_slash :: "string \<Rightarrow> string" where
  "trim_slash dir = (if dir \<noteq> [] \<and> last dir = CHR ''/'' then butlast dir else dir)"

definition deriveDiskPath :: "PerRepositoryRouter \<Rightarrow> string \<Rightarrow> int \<Rightarrow> string" where
  "deriveDiskPath r prefixDir repositoryID =
     (let hash = sha256 r (decstr (nat repositoryID)) in
      trim_slash prefixDir @ ''/'' @ EncodeToString [hash ! 0] @ ''/'' @ EncodeToString [hash ! 1] @ ''/'' @ decstr (nat repositoryID))"

definition DeriveReplicaPath :: "PerRepositoryRouter \<Rightarrow> int \<Rightarrow> string" where
  "DeriveReplicaPath r repositoryID = deriveDiskPath r ''@cluster/repositories'' repositoryID"

definition DerivePoolPath :: "PerRepositoryRouter \<Rightarrow> int \<Rightarrow> string" where
  "DerivePoolPath r repositoryID = deriveDiskPath r poolPathPrefix repositoryID"

definition lower_hex :: "char \<Rightarrow> bool" where
  "lower_hex c \<longleftrightarrow> c \<in> set ''0123456789abcdef''"

text \<open>The expression \<open>^@pools/([0-9a-f]{2})/([0-9a-f]{2})/([0-9a-f]{64})\.git$\<close> and the check that the directories are the
  start of the name.\<close>

definition IsRailsPoolRepository :: "string \<Rightarrow> bool" where
  "IsRailsPoolRepository p \<longleftrightarrow>
     length p = 81 \<and> take 7 p = ''@pools/'' \<and> p ! 9 = CHR ''/'' \<and> p ! 12 = CHR ''/'' \<and> drop 77 p = ''.git'' \<and>
     list_all lower_hex (take 2 (drop 7 p)) \<and> list_all lower_hex (take 2 (drop 10 p)) \<and> list_all lower_hex (take 64 (drop 13 p)) \<and>
     take 4 (drop 13 p) = take 2 (drop 7 p) @ take 2 (drop 10 p)"

definition apply_swaps :: "(nat \<times> nat) list \<Rightarrow> 'a list \<Rightarrow> 'a list" where
  "apply_swaps sw xs = foldl (\<lambda>xs (i, j). xs[i := xs ! j, j := xs ! i]) xs sw"

text \<open>Slicing may go beyond the length up to the capacity, where the elements are zero values.\<close>

definition slice_to :: "nat \<Rightarrow> nat \<Rightarrow> RouterNode list \<Rightarrow> RouterNode list option" where
  "slice_to cap n xs = (if n > cap then None else Some (take n (xs @ replicate (cap - length xs) \<lparr>Storage = ''''\<rparr>)))"

definition select_secondaries :: "PerRepositoryRouter \<Rightarrow> int \<Rightarrow> RouterNode list \<Rightarrow> RouterNode list option" where
  "select_secondaries r replicationFactor ns =
     (if replicationFactor > 0
      then slice_to (append_cap r (length ns)) (nat (replicationFactor - 1)) (apply_swaps (Shuffle r (length ns)) ns)
      else Some ns)"

definition RouteRepositoryCreation ::
    "PerRepositoryRouter \<Rightarrow> string \<Rightarrow> string \<Rightarrow> string \<Rightarrow> router_error + RepositoryMutatorRoute" where
  "RouteRepositoryCreation r virtualStorage relativePath additionalRelativePath =
     (case resolveAdditionalReplicaPath r virtualStorage additionalRelativePath of
        Inl err \<Rightarrow> Inl (RouterWrapped ''resolve additional replica path'' err)
      | Inr additionalReplicaPath \<Rightarrow>
     (case healthyNodes r virtualStorage of
        Inl err \<Rightarrow> Inl err
      | Inr healthy \<Rightarrow>
     (case pickRandom r healthy of
        Inl err \<Rightarrow> Inl err
      | Inr primary \<Rightarrow>
     (case ReserveRepositoryID r virtualStorage relativePath of
        Inl err \<Rightarrow> Inl (RouterWrapped ''reserve repository id'' err)
      | Inr repositoryID \<Rightarrow>
          (let replicaPath = (if IsRailsPoolRepository relativePath then DerivePoolPath r repositoryID else DeriveReplicaPath r repositoryID);
               replicationFactor = get0 (replicationFactors r) virtualStorage
           in if replicationFactor = 1 then
                Inr \<lparr>route_RepositoryID = repositoryID, route_ReplicaPath = replicaPath, AdditionalReplicaPath = '''',
                     Primary = primary, Secondaries = [], ReplicationTargets = []\<rparr>
              else
                (let others = filter (\<lambda>n. Storage n \<noteq> Storage primary)
                       (map (\<lambda>s. \<lparr>Storage = s\<rparr>) (case map_of (conns r) virtualStorage of None \<Rightarrow> [] | Some cs \<Rightarrow> cs))
                 in case select_secondaries r replicationFactor others of
                      None \<Rightarrow> Inl SlicePanic
                    | Some secondaryNodes \<Rightarrow>
                        Inr \<lparr>route_RepositoryID = repositoryID, route_ReplicaPath = replicaPath,
                             AdditionalReplicaPath = additionalReplicaPath, Primary = primary,
                             Secondaries = filter (\<lambda>n. n \<in> set healthy) secondaryNodes,
                             ReplicationTargets = map Storage (filter (\<lambda>n. n \<notin> set healthy) secondaryNodes)\<rparr>))))))"

section \<open>Maintenance\<close>

definition RouteRepositoryMaintenance ::
    "PerRepositoryRouter \<Rightarrow> string \<Rightarrow> string \<Rightarrow> router_error + RepositoryMaintenanceRoute" where
  "RouteRepositoryMaintenance r virtualStorage relativePath =
     (case healthyNodes r virtualStorage of
        Inl err \<Rightarrow> Inl err
      | Inr healthy \<Rightarrow>
     (case GetRepositoryMetadataByPath r virtualStorage relativePath of
        Inl err \<Rightarrow> Inl (RouterWrapped ''getting repository metadata'' err)
      | Inr metadata \<Rightarrow>
          (let nodes = List.map_filter (\<lambda>replica.
                 case find (\<lambda>n. Storage n = rep_Storage replica) healthy of
                   None \<Rightarrow> None
                 | Some node \<Rightarrow> if \<not> rep_Assigned replica then None else if rep_Generation replica < 0 then None else Some node)
                 (md_Replicas metadata)
           in if length nodes = 0 then Inl ErrNoHealthyNodes
              else Inr \<lparr>mnt_RepositoryID = md_RepositoryID metadata, mnt_ReplicaPath = md_ReplicaPath metadata, mnt_Nodes = nodes\<rparr>)))"


section \<open>The nodes of a route\<close>

lemma connected_nodes_storages:
  "connected_nodes vs cs hs = Inr ns \<Longrightarrow> map Storage ns = hs \<and> set hs \<subseteq> set cs"
  by (induction hs arbitrary: ns) (auto split: if_splits simp: map_sum_def split: sum.splits)

lemma healthyNodes_storages:
  assumes "healthyNodes r vs = Inr healthy"
  shows "\<exists>cs. map_of (conns r) vs = Some cs \<and> set (map Storage healthy) \<subseteq> set cs \<and> healthy \<noteq> []"
  using assms by (auto simp: healthyNodes_def dest!: connected_nodes_storages split: option.splits sum.splits if_splits)

lemma pickRandom_in:
  assumes "pickRandom r ns = Inr n" "\<And>k. 0 < k \<Longrightarrow> Intn r k < k"
  shows "n \<in> set ns"
  using assms by (auto simp: pickRandom_def split: if_splits)

lemma find_storage: "find (\<lambda>n. Storage n = s) ns = (if s \<in> Storage ` set ns then Some \<lparr>Storage = s\<rparr> else None)"
  by (induction ns) auto

text \<open>A storage that can take part in a write.\<close>

definition serves :: "RouterNode list \<Rightarrow> string list \<Rightarrow> string \<Rightarrow> bool" where
  "serves healthy consistent s \<longleftrightarrow> s \<in> Storage ` set healthy \<and> s \<in> set consistent"

lemma assign_nodes_eq:
  "assign_nodes healthy primary consistent assigned (p, ss, ts) =
    (if primary \<in> set assigned then find (\<lambda>n. Storage n = primary) healthy else p,
     ss @ map (\<lambda>s. \<lparr>Storage = s\<rparr>) (filter (\<lambda>s. s \<noteq> primary \<and> serves healthy consistent s) assigned),
     ts @ filter (\<lambda>s. s \<noteq> primary \<and> \<not> serves healthy consistent s) assigned)"
  by (induction assigned arbitrary: p ss ts) (auto simp: find_storage serves_def)

lemma mset_filter_split: "mset (filter P xs) + mset (filter (\<lambda>x. \<not> P x) xs) = mset xs"
  by (induction xs) auto

lemma mutator_route:
  assumes "RouteRepositoryMutator r vs path add = Inr route"
  obtains healthy consistent assigned where
    "healthyNodes r vs = Inr healthy" "GetRepositoryID r vs path = Inr (route_RepositoryID route)"
    "GetPrimary r vs (route_RepositoryID route) = Inr (Storage (Primary route))"
    "GetConsistentStoragesByRepositoryID r (route_RepositoryID route) = Inr (route_ReplicaPath route, consistent)"
    "GetHostAssignments r vs (route_RepositoryID route) = Inr assigned"
    "serves healthy consistent (Storage (Primary route))" "Storage (Primary route) \<in> set assigned"
    "Secondaries route = map (\<lambda>s. \<lparr>Storage = s\<rparr>) (filter (\<lambda>s. s \<noteq> Storage (Primary route) \<and> serves healthy consistent s) assigned)"
    "ReplicationTargets route = filter (\<lambda>s. s \<noteq> Storage (Primary route) \<and> \<not> serves healthy consistent s) assigned"
    "resolveAdditionalReplicaPath r vs add = Inr (AdditionalReplicaPath route)"
  using assms unfolding RouteRepositoryMutator_def assign_nodes_eq
  by (auto simp: find_storage serves_def split: sum.splits option.splits prod.splits if_splits)

section \<open>Properties\<close>

text \<open>C18: Routing a write. The route of a write to an existing repository goes to its primary, which is healthy, up to date
  and assigned. The other assigned storages are divided: the healthy ones that are up to date take part, all others are
  targets of replication, each once and in the order of the assignments.\<close>

theorem mutator_route_covers:
  assumes "RouteRepositoryMutator r vs path add = Inr route"
  shows "\<exists>healthy consistent assigned. healthyNodes r vs = Inr healthy \<and>
    GetConsistentStoragesByRepositoryID r (route_RepositoryID route) = Inr (route_ReplicaPath route, consistent) \<and>
    GetHostAssignments r vs (route_RepositoryID route) = Inr assigned \<and>
    GetPrimary r vs (route_RepositoryID route) = Inr (Storage (Primary route)) \<and>
    serves healthy consistent (Storage (Primary route)) \<and> Storage (Primary route) \<in> set assigned \<and>
    list_all (serves healthy consistent) (map Storage (Secondaries route)) \<and>
    list_all (\<lambda>s. \<not> serves healthy consistent s) (ReplicationTargets route) \<and>
    mset (map Storage (Secondaries route)) + mset (ReplicationTargets route) = mset (filter (\<lambda>s. s \<noteq> Storage (Primary route)) assigned)"
proof -
  obtain healthy consistent assigned where m:
    "healthyNodes r vs = Inr healthy" "GetPrimary r vs (route_RepositoryID route) = Inr (Storage (Primary route))"
    "GetConsistentStoragesByRepositoryID r (route_RepositoryID route) = Inr (route_ReplicaPath route, consistent)"
    "GetHostAssignments r vs (route_RepositoryID route) = Inr assigned"
    "serves healthy consistent (Storage (Primary route))" "Storage (Primary route) \<in> set assigned"
    "Secondaries route = map (\<lambda>s. \<lparr>Storage = s\<rparr>) (filter (\<lambda>s. s \<noteq> Storage (Primary route) \<and> serves healthy consistent s) assigned)"
    "ReplicationTargets route = filter (\<lambda>s. s \<noteq> Storage (Primary route) \<and> \<not> serves healthy consistent s) assigned"
    by (rule mutator_route [OF assms]) (rule that)
  let ?others = "filter (\<lambda>s. s \<noteq> Storage (Primary route)) assigned"
  have "mset (filter (serves healthy consistent) ?others) + mset (filter (\<lambda>s. \<not> serves healthy consistent s) ?others) = mset ?others"
    by (rule mset_filter_split)
  then have "mset (map Storage (Secondaries route)) + mset (ReplicationTargets route) = mset ?others"
    unfolding m(7,8) by (simp add: comp_def)
  then show ?thesis using m by (auto simp: list_all_iff)
qed


lemma apply_swaps_mset:
  "list_all (\<lambda>(i, j). i < length xs \<and> j < length xs) sw \<Longrightarrow> mset (apply_swaps sw xs) = mset xs"
proof (induction sw arbitrary: xs)
  case (Cons x sw)
  obtain i j where x: "x = (i, j)" by (cases x)
  have "mset (xs[i := xs ! j, j := xs ! i]) = mset xs" using Cons.prems by (intro mset_swap) (auto simp: x)
  then show ?case using Cons.IH [of "xs[i := xs ! j, j := xs ! i]"] Cons.prems by (simp add: apply_swaps_def x)
qed (simp add: apply_swaps_def)

text \<open>What is relied on of the random numbers and of slices.\<close>

definition random_ok :: "PerRepositoryRouter \<Rightarrow> bool" where
  "random_ok r \<longleftrightarrow> (\<forall>k > 0. Intn r k < k) \<and> (\<forall>n. list_all (\<lambda>(i, j). i < n \<and> j < n) (Shuffle r n)) \<and> (\<forall>n. n \<le> append_cap r n)"

lemma select_secondaries_ok:
  assumes "random_ok r" "k \<noteq> 1" "k \<le> int (length ns) + 1" "distinct ns"
  shows "\<exists>xs. select_secondaries r k ns = Some xs \<and> distinct xs \<and> set xs \<subseteq> set ns \<and>
    int (length xs) = (if k > 0 then k - 1 else int (length ns))"
proof (cases "k > 0")
  case True
  let ?ys = "apply_swaps (Shuffle r (length ns)) ns"
  have y: "mset ?ys = mset ns" using assms(1) by (intro apply_swaps_mset) (simp add: random_ok_def)
  then have ys: "distinct ?ys" "set ?ys = set ns" "length ?ys = length ns"
    using assms(4) by (metis mset_eq_imp_distinct_iff, metis mset_eq_setD, metis mset_eq_length)
  have cap: "length ns \<le> append_cap r (length ns)" using assms(1) by (simp add: random_ok_def)
  have n: "nat (k - 1) \<le> length ns" using assms(3) by simp
  then have "select_secondaries r k ns = Some (take (nat (k - 1)) ?ys)"
    using True cap ys(3) by (simp add: select_secondaries_def slice_to_def)
  then show ?thesis using True ys n set_take_subset [of "nat (k - 1)" ?ys] by auto
qed (use assms in \<open>simp add: select_secondaries_def\<close>)

lemma node_eq: "Storage n = Storage m \<longleftrightarrow> n = (m :: RouterNode)"
  by (cases n, cases m) simp

lemma split_by_health:
  fixes p :: RouterNode
  assumes "distinct (p # xs)"
  shows "distinct (Storage p # map Storage (filter (\<lambda>n. n \<in> set hs) xs) @ map Storage (filter (\<lambda>n. n \<notin> set hs) xs)) \<and>
    length (filter (\<lambda>n. n \<in> set hs) xs) + length (map Storage (filter (\<lambda>n. n \<notin> set hs) xs)) = length xs \<and>
    set (map Storage (filter (\<lambda>n. n \<notin> set hs) xs)) \<inter> Storage ` set hs = {}"
proof -
  have "inj (Storage :: RouterNode \<Rightarrow> string)" by (rule injI) (simp add: node_eq)
  then show ?thesis
    using assms by (auto simp: distinct_map node_eq sum_length_filter_compl inj_on_def)
qed

text \<open>Routing the creation of a repository. With a replication factor the configuration accepts, the router never
  fails once the lookups have succeeded. It chooses as many different storages as the factor says, or all of them if
  none is set; a healthy one is the primary, the other healthy ones take part and the rest are replicated to. With
  a factor of one the path of an additional repository is lost.\<close>

theorem creation_route_selects:
  assumes "random_ok r" "map_of (conns r) vs = Some cs" "distinct cs" "get0 (replicationFactors r) vs \<le> int (length cs)"
    and "healthyNodes r vs = Inr healthy" "resolveAdditionalReplicaPath r vs add = Inr addPath" "ReserveRepositoryID r vs path = Inr i"
  shows "\<exists>route. RouteRepositoryCreation r vs path add = Inr route \<and>
    distinct (Storage (Primary route) # map Storage (Secondaries route) @ ReplicationTargets route) \<and>
    set (Storage (Primary route) # map Storage (Secondaries route) @ ReplicationTargets route) \<subseteq> set cs \<and>
    int (1 + length (Secondaries route) + length (ReplicationTargets route)) =
      (if get0 (replicationFactors r) vs > 0 then get0 (replicationFactors r) vs else int (length cs)) \<and>
    set (Primary route # Secondaries route) \<subseteq> set healthy \<and> set (ReplicationTargets route) \<inter> Storage ` set healthy = {} \<and>
    AdditionalReplicaPath route = (if get0 (replicationFactors r) vs = 1 then '''' else addPath)"
proof -
  let ?k = "get0 (replicationFactors r) vs"
  obtain primary where p: "pickRandom r healthy = Inr primary" "primary \<in> set healthy"
    using healthyNodes_storages [OF assms(5)] pickRandom_in [of r healthy] assms(1)
    by (auto simp: pickRandom_def random_ok_def)
  then have pc: "Storage primary \<in> set cs" using healthyNodes_storages [OF assms(5)] assms(2) by auto
  show ?thesis
  proof (cases "?k = 1")
    case True
    then show ?thesis using assms(5-7) p pc by (simp add: RouteRepositoryCreation_def Let_def)
  next
    case False
    let ?others = "filter (\<lambda>n. Storage n \<noteq> Storage primary) (map (\<lambda>s. \<lparr>Storage = s\<rparr>) cs)"
    have others: "map Storage ?others = filter (\<lambda>s. s \<noteq> Storage primary) cs" by (simp add: filter_map comp_def)
    then have d: "distinct (map Storage ?others)" "Storage primary \<notin> set (map Storage ?others)" "set (map Storage ?others) \<subseteq> set cs"
      using assms(3) by (simp_all del: filter_map)
    have "filter (\<lambda>s. s \<noteq> Storage primary) cs = remove1 (Storage primary) cs"
      using distinct_remove1_removeAll [OF assms(3)] by (simp add: removeAll_filter_not_eq eq_commute)
    then have "length (map Storage ?others) = length cs - 1" using pc unfolding others by (simp add: length_remove1)
    then have len: "int (length ?others) + 1 = int (length cs)" using pc by (cases cs) auto
    obtain xs where xs: "select_secondaries r ?k ?others = Some xs" "distinct xs" "set xs \<subseteq> set ?others"
      "int (length xs) = (if ?k > 0 then ?k - 1 else int (length ?others))"
      using select_secondaries_ok [OF assms(1) False, of ?others] len assms(4) d(1) [unfolded distinct_map] by auto
    let ?route = "\<lparr>route_RepositoryID = i, route_ReplicaPath = (if IsRailsPoolRepository path then DerivePoolPath r i else DeriveReplicaPath r i),
        AdditionalReplicaPath = addPath, Primary = primary, Secondaries = filter (\<lambda>n. n \<in> set healthy) xs,
        ReplicationTargets = map Storage (filter (\<lambda>n. n \<notin> set healthy) xs)\<rparr>"
    have "RouteRepositoryCreation r vs path add = Inr ?route"
      using assms(2,5-7) p(1) xs(1) False by (simp add: RouteRepositoryCreation_def Let_def)
    moreover have "distinct (primary # xs)" "Storage ` set xs \<subseteq> set cs" using xs(2,3) by auto
    ultimately show ?thesis
      using split_by_health [of primary xs healthy] p(2) pc xs(4) len False
      by (intro exI [of _ ?route]) (auto simp: image_subset_iff)
  qed
qed


section \<open>A virtual storage of three nodes\<close>

text \<open>One of the nodes is down, and the replication factor is one.\<close>

definition demo_router :: PerRepositoryRouter where
  "demo_router =
     \<lparr>conns = [(''v'', [''a'', ''b'', ''c''])], HealthyNodes = [(''v'', [''a'', ''b''])], GetPrimary = (\<lambda>_ _. Inr ''a''),
      GetHostAssignments = (\<lambda>_ _. Inr [''a'', ''b'', ''c'']), GetRepositoryID = (\<lambda>_ _. Inr 1), GetReplicaPath = (\<lambda>_. Inr ''r''),
      GetConsistentStorages = (\<lambda>_ _. Inr (''r'', [''a'', ''b''])), GetConsistentStoragesByRepositoryID = (\<lambda>_. Inr (''r'', [''a'', ''b''])),
      ReserveRepositoryID = (\<lambda>_ _. Inr 2),
      GetRepositoryMetadataByPath = (\<lambda>_ _. Inr \<lparr>md_RepositoryID = 1, md_ReplicaPath = ''r'', md_Replicas = []\<rparr>),
      sha256 = (\<lambda>_. replicate 32 CHR 0x2A), Intn = (\<lambda>_. 0), Shuffle = (\<lambda>_. []), append_cap = (\<lambda>n. n),
      replicationFactors = [(''v'', 1)]\<rparr>"

lemma demo_healthy: "healthyNodes demo_router ''v'' = Inr [\<lparr>Storage = ''a''\<rparr>, \<lparr>Storage = ''b''\<rparr>]"
  by (simp add: healthyNodes_def demo_router_def)

lemma demo_mutator_route:
  "RouteRepositoryMutator demo_router ''v'' ''p'' [] =
    Inr \<lparr>route_RepositoryID = 1, route_ReplicaPath = ''r'', AdditionalReplicaPath = [], Primary = \<lparr>Storage = ''a''\<rparr>,
      Secondaries = [\<lparr>Storage = ''b''\<rparr>], ReplicationTargets = [''c'']\<rparr>"
  unfolding RouteRepositoryMutator_def demo_healthy
  by (simp add: demo_router_def resolveAdditionalReplicaPath_def)

theorem mutator_route_covers_witness:
  "\<exists>route. RouteRepositoryMutator demo_router ''v'' ''p'' [] = Inr route \<and>
     mset (map Storage (Secondaries route)) + mset (ReplicationTargets route) = {#''b'', ''c''#}"
  using mutator_route_covers [OF demo_mutator_route] demo_mutator_route by (auto simp: demo_router_def)

theorem creation_route_selects_witness:
  "\<exists>route. RouteRepositoryCreation demo_router ''v'' ''new'' ''pool'' = Inr route \<and>
     Storage (Primary route) \<in> {''a'', ''b'', ''c''} \<and> resolveAdditionalReplicaPath demo_router ''v'' ''pool'' = Inr ''r'' \<and>
     AdditionalReplicaPath route = []"
proof -
  have add: "resolveAdditionalReplicaPath demo_router ''v'' ''pool'' = Inr ''r''"
    by (simp add: resolveAdditionalReplicaPath_def demo_router_def)
  have facts: "random_ok demo_router" "map_of (conns demo_router) ''v'' = Some [''a'', ''b'', ''c'']" "distinct [''a'', ''b'', ''c'']"
    "get0 (replicationFactors demo_router) ''v'' = 1" "ReserveRepositoryID demo_router ''v'' ''new'' = Inr 2"
    by (simp_all add: demo_router_def random_ok_def get0_def)
  from creation_route_selects [OF facts(1-3) _ demo_healthy add facts(5)] facts(4) add show ?thesis by auto
qed

end
