(* ===== verification/StreamDirector.thy ===== *)
theory StreamDirector
  imports Router
begin

text \<open>
  How Praefect's coordinator directs a call, the rest of \<open>internal/praefect/coordinator.go\<close>: it looks up the method, routes
  the call, rewrites the message for each node, registers the transaction of a write and prepares what runs when the
  call is finished. The registry of the methods, the encoding of the messages and the context of a call are fields of
  records; the router, the transaction manager and the finalizers are the ones of the theories before.
\<close>

section \<open>Calls\<close>

datatype OpType = OpAccessor | OpMutator | OpMaintenance | OpUnknown
datatype Scope = ScopeRepository | ScopeStorage | ScopeUnknown

record Repository =
  StorageName :: string
  repo_RelativePath :: string

text \<open>\<open>'m\<close> is a message and \<open>'b\<close> an encoded one. A message without an additional repository gives \<open>None\<close>.\<close>

record ('m, 'b) MethodInfo =
  Operation :: OpType
  mi_Scope :: Scope
  TargetRepo :: "'m \<Rightarrow> router_error + Repository"
  set_TargetRepo :: "Repository \<Rightarrow> 'm \<Rightarrow> 'm"
  AdditionalRepo :: "'m \<Rightarrow> router_error + Repository option"
  set_AdditionalRepo :: "Repository \<Rightarrow> 'm \<Rightarrow> 'm"
  mi_Storage :: "'m \<Rightarrow> router_error + string"
  SetStorage :: "'m \<Rightarrow> string \<Rightarrow> router_error + 'm"
  UnmarshalRequestProto :: "'b \<Rightarrow> router_error + 'm"
  Marshal :: "'m \<Rightarrow> router_error + 'b"

record ('m, 'b) grpcCall =
  fullMethodName :: string
  methodInfo :: "('m, 'b) MethodInfo"
  msg :: 'm
  targetRepo :: Repository

text \<open>Of the context: the feature flags, the correlation identifier and the values of the header that asks for the primary, \<open>None\<close> without metadata;
  of the coordinator: the router, the new path in the message of a rename, \<open>None\<close> for another type, and the names of the
  virtual storages.\<close>

record 'm director =
  router :: PerRepositoryRouter
  flag_enabled :: "string \<Rightarrow> bool"
  accessor_policy :: "string list option"
  rename_path :: "'m \<Rightarrow> string option"
  InjectTransaction :: "u64 \<Rightarrow> string \<Rightarrow> bool \<Rightarrow> router_error option"
  StorageNames :: "string list"
  correlationID :: string

section \<open>Tables of methods\<close>

datatype transactionsCondition = transactionsEnabled | transactionsDisabled | transactionsFlag string

abbreviation svc :: "string \<Rightarrow> string" where
  "svc name \<equiv> ''/gitaly.'' @ name"

definition transactionRPCs :: "(string, transactionsCondition) gomap" where
  "transactionRPCs =
     map (\<lambda>n. (svc n, transactionsEnabled))
       [''CleanupService/ApplyBfgObjectMapStream'', ''ConflictsService/ResolveConflicts'', ''ObjectPoolService/FetchIntoObjectPool'',
        ''OperationService/UserApplyPatch'', ''OperationService/UserCherryPick'', ''OperationService/UserCommitFiles'',
        ''OperationService/UserCreateBranch'', ''OperationService/UserCreateTag'', ''OperationService/UserDeleteBranch'',
        ''OperationService/UserDeleteTag'', ''OperationService/UserFFBranch'', ''OperationService/UserMergeBranch'',
        ''OperationService/UserMergeToRef'', ''OperationService/UserRebaseConfirmable'', ''OperationService/UserRevert'',
        ''OperationService/UserSquash'', ''OperationService/UserUpdateBranch'', ''OperationService/UserUpdateSubmodule'',
        ''RefService/DeleteRefs'', ''RepositoryService/ApplyGitattributes'', ''RepositoryService/CreateFork'',
        ''RepositoryService/CreateRepository'', ''RepositoryService/CreateRepositoryFromBundle'',
        ''RepositoryService/CreateRepositoryFromSnapshot'', ''RepositoryService/CreateRepositoryFromURL'',
        ''RepositoryService/FetchBundle'', ''RepositoryService/FetchRemote'', ''RepositoryService/FetchSourceBranch'',
        ''RepositoryService/RemoveRepository'', ''RepositoryService/ReplicateRepository'', ''RepositoryService/SetFullPath'',
        ''RepositoryService/WriteRef'', ''SSHService/SSHReceivePack'', ''SmartHTTPService/PostReceivePack''] @
     map (\<lambda>n. (svc n, transactionsDisabled))
       [''ObjectPoolService/CreateObjectPool'', ''ObjectPoolService/DeleteObjectPool'', ''ObjectPoolService/DisconnectGitAlternates'',
        ''ObjectPoolService/LinkRepositoryToObjectPool'', ''ObjectPoolService/ReduplicateRepository'', ''RepositoryService/RenameRepository''] @
     map (\<lambda>n. (svc n, transactionsFlag ''TransactionalRestoreCustomHooks''))
       [''RepositoryService/RestoreCustomHooks'', ''RepositoryService/SetCustomHooks'']"

definition forcePrimaryRPCs :: "string list" where
  "forcePrimaryRPCs = [svc ''RepositoryService/GetObjectDirectorySize'', svc ''RepositoryService/RepositorySize'']"

definition shouldUseTransaction :: "'m director \<Rightarrow> string \<Rightarrow> bool" where
  "shouldUseTransaction c meth =
     (case map_of transactionRPCs meth of
        None \<Rightarrow> False
      | Some transactionsEnabled \<Rightarrow> True
      | Some transactionsDisabled \<Rightarrow> False
      | Some (transactionsFlag f) \<Rightarrow> flag_enabled c f)"

definition createRPCs :: "string list" where
  "createRPCs =
     map svc [''ObjectPoolService/CreateObjectPool'', ''RepositoryService/CreateFork'', ''RepositoryService/CreateRepository'',
       ''RepositoryService/CreateRepositoryFromBundle'', ''RepositoryService/CreateRepositoryFromSnapshot'',
       ''RepositoryService/CreateRepositoryFromURL'', ''RepositoryService/ReplicateRepository'']"

text \<open>The kind of change and, for a rename, the new path.\<close>

definition getReplicationDetails :: "'m director \<Rightarrow> string \<Rightarrow> 'm \<Rightarrow> router_error + ChangeType \<times> string option" where
  "getReplicationDetails c methodName m =
     (if methodName = svc ''RepositoryService/RemoveRepository'' then Inr (DeleteRepo, None)
      else if methodName \<in> set createRPCs then Inr (CreateRepo, None)
      else if methodName = svc ''RepositoryService/RenameRepository'' then
        (case rename_path c m of
           None \<Rightarrow> Inl (RouterError ''protocol changed'')
         | Some path \<Rightarrow> Inr (RenameRepo, Some path))
      else Inr (UpdateRepo, None))"

definition shouldRouteRepositoryAccessorToPrimary :: "'m director \<Rightarrow> string \<Rightarrow> bool" where
  "shouldRouteRepositoryAccessorToPrimary c meth =
     (let forcePrimary = meth \<in> set forcePrimaryRPCs in
      case accessor_policy c of
        Some (h # _) \<Rightarrow> if h = ''primary-only'' then True else forcePrimary
      | _ \<Rightarrow> forcePrimary)"

section \<open>Rewriting messages\<close>

abbreviation InvalidArgument :: nat where "InvalidArgument \<equiv> 3"
abbreviation NotFound :: nat where "NotFound \<equiv> 5"
abbreviation AlreadyExists :: nat where "AlreadyExists \<equiv> 6"
abbreviation Internal :: nat where "Internal \<equiv> 13"

definition rewrittenRepositoryMessage ::
    "('m, 'b) MethodInfo \<Rightarrow> 'm \<Rightarrow> string \<Rightarrow> string \<Rightarrow> string \<Rightarrow> router_error + 'b" where
  "rewrittenRepositoryMessage mi m storage relativePath additionalRelativePath =
     (case TargetRepo mi m of
        Inl err \<Rightarrow> Inl (RouterStatus InvalidArgument err)
      | Inr _ \<Rightarrow>
          (let m = set_TargetRepo mi \<lparr>StorageName = storage, repo_RelativePath = relativePath\<rparr> m in
           case AdditionalRepo mi m of
             Inl err \<Rightarrow> Inl (RouterStatus InvalidArgument err)
           | Inr None \<Rightarrow> Marshal mi m
           | Inr (Some _) \<Rightarrow>
               Marshal mi (set_AdditionalRepo mi \<lparr>StorageName = storage, repo_RelativePath = additionalRelativePath\<rparr> m)))"

text \<open>Other than for a repository, the message itself is changed and the next node gets the changed one.\<close>

definition rewrittenStorageMessage :: "('m, 'b) MethodInfo \<Rightarrow> 'm \<Rightarrow> string \<Rightarrow> router_error + 'm \<times> 'b" where
  "rewrittenStorageMessage mi m storage =
     (case SetStorage mi m storage of
        Inl err \<Rightarrow> Inl (RouterStatus InvalidArgument err)
      | Inr m \<Rightarrow> map_sum (\<lambda>e. e) (\<lambda>b. (m, b)) (Marshal mi m))"

section \<open>Parameters of a stream\<close>

text \<open>Where a message goes, with the transaction its context carries: the identifier and whether the node is the
  primary.\<close>

record 'b Destination =
  dest_Storage :: string
  dest_Msg :: 'b
  dest_Tx :: "(u64 \<times> bool) option"

text \<open>What runs at the end of a call. The cleanup and the finalizer of a transaction refer to it by its place in the
  manager.\<close>

datatype call_finalizer =
    TransactionCleanup nat
  | TransactionFinalizer nat RepositoryMutatorRoute finalizer_request
  | RequestFinalizer finalizer_request "string list"
  | MaintenanceFinalizer "string list"

record 'b StreamParameters =
  sp_Primary :: "'b Destination"
  sp_Secondaries :: "'b Destination list"
  sp_Finalizers :: "call_finalizer list"

definition accessorStreamParameters :: "'m director \<Rightarrow> ('m, 'b) grpcCall \<Rightarrow> router_error + 'b StreamParameters" where
  "accessorStreamParameters c call =
     (case RouteRepositoryAccessor (router c) (StorageName (targetRepo call)) (repo_RelativePath (targetRepo call))
             (shouldRouteRepositoryAccessorToPrimary c (fullMethodName call)) of
        Inl err \<Rightarrow> Inl (RouterWrapped ''accessor call: route repository accessor'' err)
      | Inr route \<Rightarrow>
     (case rewrittenRepositoryMessage (methodInfo call) (msg call) (Storage (acc_Node route)) (acc_ReplicaPath route) '''' of
        Inl err \<Rightarrow> Inl (RouterWrapped ''accessor call: rewrite storage'' err)
      | Inr b \<Rightarrow> Inr \<lparr>sp_Primary = \<lparr>dest_Storage = Storage (acc_Node route), dest_Msg = b, dest_Tx = None\<rparr>,
                   sp_Secondaries = [], sp_Finalizers = []\<rparr>))"

fun secondary_dests ::
    "'m director \<Rightarrow> ('m, 'b) grpcCall \<Rightarrow> RepositoryMutatorRoute \<Rightarrow> u64 \<Rightarrow> RouterNode list \<Rightarrow> router_error + 'b Destination list" where
  "secondary_dests c call route i [] = Inr []"
| "secondary_dests c call route i (secondary # rest) =
     (case rewrittenRepositoryMessage (methodInfo call) (msg call) (Storage secondary) (route_ReplicaPath route) (AdditionalReplicaPath route) of
        Inl err \<Rightarrow> Inl err
      | Inr b \<Rightarrow>
     (case InjectTransaction c i (Storage secondary) False of
        Some err \<Rightarrow> Inl err
      | None \<Rightarrow> map_sum (\<lambda>e. e) (\<lambda>ds. \<lparr>dest_Storage = Storage secondary, dest_Msg = b, dest_Tx = Some (i, False)\<rparr> # ds)
          (secondary_dests c call route i rest)))"

definition mutator_route_for ::
    "'m director \<Rightarrow> ('m, 'b) grpcCall \<Rightarrow> ChangeType \<Rightarrow> string \<Rightarrow> router_error + ChangeType \<times> RepositoryMutatorRoute" where
  "mutator_route_for c call change add =
     (let vs = StorageName (targetRepo call); path = repo_RelativePath (targetRepo call) in
      if change = CreateRepo then
        (case RouteRepositoryCreation (router c) vs path add of
           Inr route \<Rightarrow> Inr (change, route)
         | Inl err \<Rightarrow>
             if fullMethodName call = svc ''RepositoryService/ReplicateRepository'' \<and> router_error_is err ErrRepositoryAlreadyExists then
               (case RouteRepositoryMutator (router c) vs path add of
                  Inr route \<Rightarrow> Inr (UpdateRepo, route)
                | Inl err \<Rightarrow> Inl (RouterWrapped ''route repository creation'' err))
             else Inl (RouterWrapped ''route repository creation'' err))
      else
        (case RouteRepositoryMutator (router c) vs path add of
           Inr route \<Rightarrow> Inr (change, route)
         | Inl err \<Rightarrow>
             if router_error_is err ErrRepositoryReadOnly then Inl err
             else Inl (RouterWrapped ''mutator call: route repository mutator'' err)))"

definition transaction_dests ::
    "'m director \<Rightarrow> ('m, 'b) grpcCall \<Rightarrow> RepositoryMutatorRoute \<Rightarrow> u64 \<Rightarrow> 'b \<Rightarrow> router_error + 'b Destination \<times> 'b Destination list" where
  "transaction_dests c call route i primaryMessage =
     (case InjectTransaction c i (Storage (Primary route)) True of
        Some err \<Rightarrow> Inl err
      | None \<Rightarrow>
          map_sum (\<lambda>e. e) (\<lambda>ds. (\<lparr>dest_Storage = Storage (Primary route), dest_Msg = primaryMessage, dest_Tx = Some (i, True)\<rparr>, ds))
            (secondary_dests c call route i (Secondaries route)))"

definition mutator_request ::
    "'m director \<Rightarrow> ('m, 'b) grpcCall \<Rightarrow> RepositoryMutatorRoute \<Rightarrow> ChangeType \<Rightarrow> string option \<Rightarrow> finalizer_request" where
  "mutator_request c call route change newPath =
     \<lparr>req_RepositoryID = route_RepositoryID route, req_VirtualStorage = StorageName (targetRepo call),
      req_RelativePath = repo_RelativePath (targetRepo call), req_ReplicaPath = route_ReplicaPath route,
      req_Primary = Storage (Primary route), req_Change = change,
      req_Params = (case newPath of None \<Rightarrow> [] | Some path \<Rightarrow> [(''RelativePath'', AnyString path)]),
      req_NewRelativePath = newPath, req_Meta = [(''correlation_id'', AnyString (correlationID c))]\<rparr>"

definition mutatorStreamParameters ::
    "'m director \<Rightarrow> Manager \<Rightarrow> ('m, 'b) grpcCall \<Rightarrow> Manager \<times> (router_error + 'b StreamParameters)" where
  "mutatorStreamParameters c mgr call =
     (case getReplicationDetails c (fullMethodName call) (msg call) of
        Inl err \<Rightarrow> (mgr, Inl (RouterWrapped ''mutator call: replication details'' err))
      | Inr (change, newPath) \<Rightarrow>
     (case AdditionalRepo (methodInfo call) (msg call) of
        Inl err \<Rightarrow> (mgr, Inl (RouterStatus InvalidArgument err))
      | Inr additional \<Rightarrow>
     (case mutator_route_for c call change (case additional of None \<Rightarrow> '''' | Some repo \<Rightarrow> repo_RelativePath repo) of
        Inl err \<Rightarrow> (mgr, Inl err)
      | Inr (change, route) \<Rightarrow>
     (case rewrittenRepositoryMessage (methodInfo call) (msg call) (Storage (Primary route)) (route_ReplicaPath route) (AdditionalReplicaPath route) of
        Inl err \<Rightarrow> (mgr, Inl (RouterWrapped ''mutator call: rewrite storage'' err))
      | Inr primaryMessage \<Rightarrow>
          if shouldUseTransaction c (fullMethodName call) then
            (case registerTransaction mgr (Primary route) (Secondaries route) of
               (mgr, Inl err) \<Rightarrow> (mgr, Inl (RouterError ''register transaction''))
             | (mgr, Inr p) \<Rightarrow>
                 (case transaction_dests c call route (ID (heap mgr ! p)) primaryMessage of
                    Inl err \<Rightarrow> (mgr, Inl err)
                  | Inr (primaryDest, secondaryDests) \<Rightarrow>
                      (mgr, Inr \<lparr>sp_Primary = primaryDest, sp_Secondaries = secondaryDests,
                         sp_Finalizers = [TransactionCleanup p, TransactionFinalizer p route (mutator_request c call route change newPath)]\<rparr>)))
          else
            (mgr, Inr \<lparr>sp_Primary = \<lparr>dest_Storage = Storage (Primary route), dest_Msg = primaryMessage, dest_Tx = None\<rparr>,
               sp_Secondaries = [],
               sp_Finalizers = [RequestFinalizer (mutator_request c call route change newPath) (routerNodesToStorages (Secondaries route) @ ReplicationTargets route)]\<rparr>)))))"

text \<open>What happens with the error of a node: the primary's ends the call, a secondary's ends its part in the transaction, and
  the errors of a maintenance call are only recorded.\<close>

definition primary_ErrHandler :: "RepositoryMutatorRoute \<Rightarrow> 'err \<Rightarrow> 'err nodeErrors \<Rightarrow> 'err nodeErrors \<times> 'err option" where
  "primary_ErrHandler route err errByNode = (AList.update (Storage (Primary route)) err errByNode, Some err)"

definition secondary_ErrHandler :: "u64 \<Rightarrow> RouterNode \<Rightarrow> 'err \<Rightarrow> Manager \<times> 'err nodeErrors \<Rightarrow> (Manager \<times> 'err nodeErrors) \<times> 'err option" where
  "secondary_ErrHandler i secondary err st =
     (case st of (mgr, errByNode) \<Rightarrow>
        ((fst (CancelTransactionNodeVoter mgr i (Storage secondary)), AList.update (Storage secondary) err errByNode), None))"

definition node_ErrHandler :: "RouterNode \<Rightarrow> 'err \<Rightarrow> 'err nodeErrors \<Rightarrow> 'err nodeErrors \<times> 'err option" where
  "node_ErrHandler node err errByNode = (AList.update (Storage node) err errByNode, None)"

fun node_dests :: "('m, 'b) grpcCall \<Rightarrow> string \<Rightarrow> RouterNode list \<Rightarrow> router_error + 'b Destination list" where
  "node_dests call replicaPath [] = Inr []"
| "node_dests call replicaPath (node # rest) =
     (case rewrittenRepositoryMessage (methodInfo call) (msg call) (Storage node) replicaPath '''' of
        Inl err \<Rightarrow> Inl err
      | Inr b \<Rightarrow> map_sum (\<lambda>e. e) (\<lambda>ds. \<lparr>dest_Storage = Storage node, dest_Msg = b, dest_Tx = None\<rparr> # ds) (node_dests call replicaPath rest))"

definition maintenanceStreamParameters :: "'m director \<Rightarrow> ('m, 'b) grpcCall \<Rightarrow> router_error + 'b StreamParameters" where
  "maintenanceStreamParameters c call =
     (case RouteRepositoryMaintenance (router c) (StorageName (targetRepo call)) (repo_RelativePath (targetRepo call)) of
        Inl err \<Rightarrow> Inl (RouterWrapped ''routing repository maintenance'' err)
      | Inr route \<Rightarrow>
     (case node_dests call (mnt_ReplicaPath route) (mnt_Nodes route) of
        Inl err \<Rightarrow> Inl err
      | Inr [] \<Rightarrow> Inl SlicePanic
      | Inr (d # ds) \<Rightarrow> Inr \<lparr>sp_Primary = d, sp_Secondaries = ds, sp_Finalizers = [MaintenanceFinalizer (map Storage (mnt_Nodes route))]\<rparr>))"

section \<open>The end of a call\<close>

text \<open>The error of a maintenance call is the one of the first node that has one.\<close>

definition maintenance_error :: "'err nodeErrors \<Rightarrow> string list \<Rightarrow> 'err option" where
  "maintenance_error errByNode nodes = map_option (\<lambda>n. the (map_of errByNode n)) (find (\<lambda>n. map_of errByNode n \<noteq> None) nodes)"

record ('err, 'rs, 'q) finish_env =
  fe_FromError :: "'err option \<Rightarrow> (nat \<times> string) option"
  fe_store :: "'rs RepositoryStore"
  fe_enqueue :: "'q enqueuer"
  fe_conf :: coordinator_config
  fe_order :: "string list \<Rightarrow> string list"
  fe_ctxErr :: "string option"

datatype 'err finish_error = FinalizerError finalizer_error | NodeError 'err

definition run_finalizer ::
    "('err, 'rs, 'q) finish_env \<Rightarrow> 'err nodeErrors \<Rightarrow> call_finalizer \<Rightarrow> Manager \<times> 'rs \<times> 'q \<Rightarrow> (Manager \<times> 'rs \<times> 'q) \<times> 'err finish_error option" where
  "run_finalizer env errs f st =
     (case st of (mgr, rs, q) \<Rightarrow>
        (case f of
           TransactionCleanup p \<Rightarrow> ((fst (cancelTransaction mgr p), rs, q), None)
         | TransactionFinalizer p route req \<Rightarrow>
             (case createTransactionFinalizer (fe_FromError env) (fe_store env) (fe_enqueue env) (fe_conf env) (as_Transaction (heap mgr ! p)) route
                     req errs (fe_order env) (fe_ctxErr env) (rs, q) of
                ((rs, q), err) \<Rightarrow> ((mgr, rs, q), map_option FinalizerError err))
         | RequestFinalizer req outdatedStorages \<Rightarrow>
             (case newRequestFinalizer (fe_store env) (fe_enqueue env) (fe_conf env) req
                     [] outdatedStorages (fe_order env) (fe_ctxErr env) (rs, q) of
                ((rs, q), err) \<Rightarrow> ((mgr, rs, q), map_option FinalizerError err))
         | MaintenanceFinalizer ns \<Rightarrow> (st, map_option NodeError (maintenance_error errs ns))))"

text \<open>Every finalizer runs, and the first error is the result.\<close>

fun reqFinalizer ::
    "('err, 'rs, 'q) finish_env \<Rightarrow> 'err nodeErrors \<Rightarrow> call_finalizer list \<Rightarrow> Manager \<times> 'rs \<times> 'q \<Rightarrow> (Manager \<times> 'rs \<times> 'q) \<times> 'err finish_error option" where
  "reqFinalizer env errs [] st = (st, None)"
| "reqFinalizer env errs (f # fs) st =
     (case run_finalizer env errs f st of
        (st, err) \<Rightarrow>
          (case reqFinalizer env errs fs st of (st, rest) \<Rightarrow> (st, case err of None \<Rightarrow> rest | Some e \<Rightarrow> Some e)))"

section \<open>Directing a call\<close>

definition directRepositoryScopedMessage ::
    "'m director \<Rightarrow> Manager \<Rightarrow> ('m, 'b) grpcCall \<Rightarrow> Manager \<times> (router_error + 'b StreamParameters)" where
  "directRepositoryScopedMessage c mgr call =
     (case (case Operation (methodInfo call) of
              OpAccessor \<Rightarrow> (mgr, accessorStreamParameters c call)
            | OpMutator \<Rightarrow> mutatorStreamParameters c mgr call
            | OpMaintenance \<Rightarrow> (mgr, maintenanceStreamParameters c call)
            | OpUnknown \<Rightarrow> (mgr, Inl (RouterError ''unknown operation type''))) of
        (mgr, Inr ps) \<Rightarrow> (mgr, Inr ps)
      | (mgr, Inl err) \<Rightarrow>
          (mgr, Inl (if router_error_is err RepositoryNotFoundError \<or> router_error_is err ErrRepositoryNotFound
                     then RouterStatus NotFound err else err)))"

definition accessorStorageStreamParameters ::
    "'m director \<Rightarrow> ('m, 'b) MethodInfo \<Rightarrow> 'm \<Rightarrow> string \<Rightarrow> router_error + 'b StreamParameters" where
  "accessorStorageStreamParameters c mi m virtualStorage =
     (case RouteStorageAccessor (router c) virtualStorage of
        Inl err \<Rightarrow> Inl (if router_error_is err ErrVirtualStorageNotExist then RouterStatus InvalidArgument err else RouterStatus Internal err)
      | Inr node \<Rightarrow>
     (case rewrittenStorageMessage mi m (Storage node) of
        Inl err \<Rightarrow> Inl (RouterStatus InvalidArgument err)
      | Inr (_, b) \<Rightarrow> Inr \<lparr>sp_Primary = \<lparr>dest_Storage = Storage node, dest_Msg = b, dest_Tx = None\<rparr>, sp_Secondaries = [], sp_Finalizers = []\<rparr>))"

fun storage_dests :: "('m, 'b) MethodInfo \<Rightarrow> 'm \<Rightarrow> RouterNode list \<Rightarrow> router_error + 'b Destination list" where
  "storage_dests mi m [] = Inr []"
| "storage_dests mi m (node # rest) =
     (case rewrittenStorageMessage mi m (Storage node) of
        Inl err \<Rightarrow> Inl (RouterStatus InvalidArgument err)
      | Inr (m, b) \<Rightarrow> map_sum (\<lambda>e. e) (\<lambda>ds. \<lparr>dest_Storage = Storage node, dest_Msg = b, dest_Tx = None\<rparr> # ds) (storage_dests mi m rest))"

definition mutatorStorageStreamParameters ::
    "'m director \<Rightarrow> ('m, 'b) MethodInfo \<Rightarrow> 'm \<Rightarrow> string \<Rightarrow> router_error + 'b StreamParameters" where
  "mutatorStorageStreamParameters c mi m virtualStorage =
     (case RouteStorageMutator (router c) virtualStorage of
        Inl err \<Rightarrow> Inl (if router_error_is err ErrVirtualStorageNotExist then RouterStatus InvalidArgument err else RouterStatus Internal err)
      | Inr (primary, secondaries) \<Rightarrow>
     (case rewrittenStorageMessage mi m (Storage primary) of
        Inl err \<Rightarrow> Inl (RouterStatus InvalidArgument err)
      | Inr (m, b) \<Rightarrow>
          map_sum (\<lambda>e. e) (\<lambda>ds. \<lparr>sp_Primary = \<lparr>dest_Storage = Storage primary, dest_Msg = b, dest_Tx = None\<rparr>, sp_Secondaries = ds, sp_Finalizers = []\<rparr>)
            (storage_dests mi m secondaries)))"

definition directStorageScopedMessage ::
    "'m director \<Rightarrow> ('m, 'b) MethodInfo \<Rightarrow> 'm \<Rightarrow> router_error + 'b StreamParameters" where
  "directStorageScopedMessage c mi m =
     (case mi_Storage mi m of
        Inl err \<Rightarrow> Inl (RouterStatus InvalidArgument err)
      | Inr virtualStorage \<Rightarrow>
          if virtualStorage = '''' then Inl (RouterStatus InvalidArgument (RouterError ''storage scoped: target storage is invalid''))
          else case Operation mi of
                 OpAccessor \<Rightarrow> accessorStorageStreamParameters c mi m virtualStorage
               | OpMutator \<Rightarrow> mutatorStorageStreamParameters c mi m virtualStorage
               | _ \<Rightarrow> Inl (RouterError ''storage scope: unknown operation type''))"

definition validateTargetRepo :: "'m director \<Rightarrow> Repository \<Rightarrow> router_error option" where
  "validateTargetRepo c repo =
     (if StorageName repo = '''' \<or> repo_RelativePath repo = '''' then Some (RouterError ''invalid repository'')
      else if StorageName repo \<notin> set (StorageNames c) then Some (RouterError ''invalid repository'')
      else None)"

text \<open>\<open>lookup\<close> is the registry, and \<open>payload\<close> what peeking at the stream gives.\<close>

definition StreamDirector ::
    "'m director \<Rightarrow> (string \<Rightarrow> router_error + ('m, 'b) MethodInfo) \<Rightarrow> Manager \<Rightarrow> string \<Rightarrow> router_error + 'b
      \<Rightarrow> Manager \<times> (router_error + 'b StreamParameters)" where
  "StreamDirector c lookup mgr meth payload =
     (case lookup meth of
        Inl err \<Rightarrow> (mgr, Inl err)
      | Inr mi \<Rightarrow>
     (case payload of
        Inl err \<Rightarrow> (mgr, Inl err)
      | Inr b \<Rightarrow>
     (case UnmarshalRequestProto mi b of
        Inl err \<Rightarrow> (mgr, Inl err)
      | Inr m \<Rightarrow>
          (case mi_Scope mi of
             ScopeRepository \<Rightarrow>
               (case TargetRepo mi m of
                  Inl err \<Rightarrow> (mgr, Inl (RouterStatus InvalidArgument err))
                | Inr repo \<Rightarrow>
               (case validateTargetRepo c repo of
                  Some err \<Rightarrow> (mgr, Inl (RouterStatus InvalidArgument err))
                | None \<Rightarrow>
               (case directRepositoryScopedMessage c mgr \<lparr>fullMethodName = meth, methodInfo = mi, msg = m, targetRepo = repo\<rparr> of
                  (mgr, Inr sp) \<Rightarrow> (mgr, Inr sp)
                | (mgr, Inl err) \<Rightarrow>
                    (mgr, Inl (if router_error_is err ErrVirtualStorageNotExist then RouterStatus InvalidArgument err
                               else if router_error_is err ErrRepositoryAlreadyExists then RouterStatus AlreadyExists err
                               else err)))))
           | ScopeStorage \<Rightarrow> (mgr, directStorageScopedMessage c mi m)
           | ScopeUnknown \<Rightarrow> (mgr, Inl (RouterStatus Internal (RouterError ''rpc with undefined scope'')))))))"


section \<open>Who gets a write and who votes on it\<close>

lemma register_voters:
  assumes "registerTransaction mgr p ss = (mgr', Inr i)"
  shows "tx_voters (heap mgr' ! i) = coordinator_voters p ss \<and> map_of (transactions mgr') (ID (heap mgr' ! i)) = Some i \<and>
    subtransactions (heap mgr' ! i) = []"
  using assms
  by (auto simp: registerTransaction_def RegisterTransaction_def newTransaction_def Let_def gm.get_set ID_def
      split: sum.splits if_splits)

lemma voters_names: "map Name (coordinator_voters p ss) = Storage p # map Storage ss"
  by (simp add: coordinator_voters_def coordinator_voter_def)

lemma secondary_dests_storages:
  "secondary_dests c call route i ss = Inr ds \<Longrightarrow>
    map dest_Storage ds = map Storage ss \<and> list_all (\<lambda>d. dest_Tx d = Some (i, False)) ds"
  by (induction ss arbitrary: ds) (auto simp: map_sum_def split: sum.splits option.splits)

lemma transaction_dests_ok:
  assumes "transaction_dests c call route i pm = Inr (d, ds)"
  shows "d = \<lparr>dest_Storage = Storage (Primary route), dest_Msg = pm, dest_Tx = Some (i, True)\<rparr> \<and>
    secondary_dests c call route i (Secondaries route) = Inr ds"
  using assms by (auto simp: transaction_dests_def map_sum_def split: option.splits sum.splits)

text \<open>What a successful call of \<open>mutatorStreamParameters\<close> has done.\<close>

definition directed ::
    "'m director \<Rightarrow> Manager \<Rightarrow> ('m, 'b) grpcCall \<Rightarrow> RepositoryMutatorRoute \<Rightarrow> ChangeType \<Rightarrow> string option \<Rightarrow> Manager \<Rightarrow> 'b StreamParameters \<Rightarrow> bool" where
  "directed c mgr call route change newPath mgr' sp \<longleftrightarrow>
     dest_Storage (sp_Primary sp) = Storage (Primary route) \<and>
     (if shouldUseTransaction c (fullMethodName call)
      then \<exists>p pm. registerTransaction mgr (Primary route) (Secondaries route) = (mgr', Inr p) \<and>
        transaction_dests c call route (ID (heap mgr' ! p)) pm = Inr (sp_Primary sp, sp_Secondaries sp) \<and>
        sp_Finalizers sp = [TransactionCleanup p, TransactionFinalizer p route (mutator_request c call route change newPath)]
      else sp_Finalizers sp = [RequestFinalizer (mutator_request c call route change newPath) (map Storage (Secondaries route) @ ReplicationTargets route)])"

lemma mutator_parameters:
  assumes "mutatorStreamParameters c mgr call = (mgr', Inr sp)"
  shows "\<exists>change newPath add change' route. getReplicationDetails c (fullMethodName call) (msg call) = Inr (change, newPath) \<and>
    mutator_route_for c call change add = Inr (change', route) \<and> directed c mgr call route change' newPath mgr' sp"
proof -
  obtain change newPath where d: "getReplicationDetails c (fullMethodName call) (msg call) = Inr (change, newPath)"
    using assms by (auto simp: mutatorStreamParameters_def split: sum.splits)
  moreover obtain x where x: "AdditionalRepo (methodInfo call) (msg call) = Inr x"
    using assms d by (auto simp: mutatorStreamParameters_def split: sum.splits)
  moreover define add where "add = (case x of None \<Rightarrow> [] | Some repo \<Rightarrow> repo_RelativePath repo)"
  moreover obtain change' route where r: "mutator_route_for c call change add = Inr (change', route)"
    using assms d x by (auto simp: mutatorStreamParameters_def add_def split: sum.splits)
  moreover obtain pm where m: "rewrittenRepositoryMessage (methodInfo call) (msg call) (Storage (Primary route))
      (route_ReplicaPath route) (AdditionalReplicaPath route) = Inr pm"
    using assms d x r by (auto simp: mutatorStreamParameters_def add_def split: sum.splits)
  moreover have "directed c mgr call route change' newPath mgr' sp"
    using assms d x r m
    by (auto simp: mutatorStreamParameters_def add_def [symmetric] directed_def routerNodesToStorages_def
        split: sum.splits prod.splits if_splits dest: transaction_dests_ok)
  ultimately show ?thesis by blast
qed

text \<open>C19: Voters. Every node a transactional write is sent to is a voter of the transaction that was registered for it,
  and every voter is sent the write, the primary first; the context of each message names that transaction and tells
  the primary from the secondaries.\<close>

theorem voters_are_destinations:
  assumes "mutatorStreamParameters c mgr call = (mgr', Inr sp)" "shouldUseTransaction c (fullMethodName call)"
  shows "\<exists>p. TransactionCleanup p \<in> set (sp_Finalizers sp) \<and> map_of (transactions mgr') (ID (heap mgr' ! p)) = Some p \<and>
    map Name (tx_voters (heap mgr' ! p)) = map dest_Storage (sp_Primary sp # sp_Secondaries sp) \<and>
    dest_Tx (sp_Primary sp) = Some (ID (heap mgr' ! p), True) \<and>
    list_all (\<lambda>d. dest_Tx d = Some (ID (heap mgr' ! p), False)) (sp_Secondaries sp)"
proof -
  obtain route change newPath p pm where r: "registerTransaction mgr (Primary route) (Secondaries route) = (mgr', Inr p)"
      "transaction_dests c call route (ID (heap mgr' ! p)) pm = Inr (sp_Primary sp, sp_Secondaries sp)"
      "sp_Finalizers sp = [TransactionCleanup p, TransactionFinalizer p route (mutator_request c call route change newPath)]"
    using mutator_parameters [OF assms(1)] assms(2) by (auto simp: directed_def)
  then show ?thesis
    using register_voters [OF r(1)] transaction_dests_ok [OF r(2)] secondary_dests_storages [of c call route]
    by (auto simp: voters_names)
qed


section \<open>What becomes of the assigned replicas\<close>

definition primary_clean :: "'err nodeErrors \<Rightarrow> Transaction \<Rightarrow> string \<Rightarrow> bool" where
  "primary_clean errs t primary \<longleftrightarrow>
     tCountSubtransactions t = 0 \<and> map_of errs primary \<noteq> None \<or> tCountSubtransactions t = 1 \<and> \<not> tDidVote t primary"

definition committed_by :: "Transaction \<Rightarrow> string \<Rightarrow> bool" where
  "committed_by t n \<longleftrightarrow> (case tState t of Inl _ \<Rightarrow> False | Inr st \<Rightarrow> state_of st n = VoteCommitted)"

lemma route_of_update:
  assumes "mutator_route_for c call change add = Inr (change', route)" "change \<noteq> CreateRepo"
  shows "change' = change \<and>
    RouteRepositoryMutator (router c) (StorageName (targetRepo call)) (repo_RelativePath (targetRepo call)) add = Inr route"
  using assms by (auto simp: mutator_route_for_def Let_def split: sum.splits if_splits)

lemma assigned_in_route:
  assumes "RouteRepositoryMutator r vs path add = Inr route" "GetRepositoryID r vs path = Inr i"
    and "GetHostAssignments r vs i = Inr assigned" "s \<in> set assigned" "s \<noteq> Storage (Primary route)"
  shows "s \<in> set (ReplicationTargets route) \<union> Storage ` set (Secondaries route)"
  by (rule mutator_route [OF assms(1)]) (use assms(2-5) in \<open>auto simp: image_iff\<close>)

lemma transaction_finalizer_covers:
  assumes "\<And>xs. set (order xs) = set xs"
    and "createTransactionFinalizer F ops (pg_enqueuer now dbErr) conf t route req errs order ctxErr (rs, db) = ((rs', db'), err)"
    and "err = None \<or> (\<exists>e. err = Some (RequestContextError e))"
    and "s \<in> set (ReplicationTargets route) \<union> Storage ` set (Secondaries route)"
  shows "covered (replication_queue db') (Job (replication_event req (if req_Change req = CreateRepo then UpdateRepo else req_Change req) s)) \<or>
    primary_clean errs t (Storage (Primary route)) \<or> committed_by t (Storage (Primary route)) \<and> committed_by t s"
proof -
  obtain dirty c where c: "getUpdatedAndOutdatedSecondaries F route t errs = (dirty, c)" by fastforce
  note cases = classification_cases [OF c]
  show ?thesis
  proof (cases dirty)
    case False
    then show ?thesis using cases(1) by (auto simp: primary_clean_def)
  next
    case True
    have "set_mset (mset (updated c) + mset (outdated c)) = set_mset (mset (ReplicationTargets route) + mset (map Storage (Secondaries route)))"
      using cases(3) True by simp
    then have "s \<in> set (updated c) \<or> s \<in> set (outdated c)" using assms(4) by auto
    moreover have "s \<in> set (updated c) \<Longrightarrow> committed_by t (Storage (Primary route)) \<and> committed_by t s"
      using cases(4) [of s] by (auto simp: committed_by_def)
    moreover have "s \<in> set (outdated c) \<Longrightarrow> covered (replication_queue db') (Job (replication_event req
        (if req_Change req = CreateRepo then UpdateRepo else req_Change req) s))"
      by (rule finalizer_covers [OF poq.outcome_queue_axioms assms(1) _ assms(2,3)]) (use True c in simp)
    ultimately show ?thesis by blast
  qed
qed



section \<open>Two calls\<close>

text \<open>A message is the two repositories it names; its encoding is itself.\<close>

type_synonym demo_msg = "Repository \<times> Repository option"

definition demo_method :: "(demo_msg, demo_msg) MethodInfo" where
  "demo_method =
     \<lparr>Operation = OpMutator, mi_Scope = ScopeRepository, TargetRepo = (\<lambda>m. Inr (fst m)), set_TargetRepo = (\<lambda>r m. (r, snd m)),
      AdditionalRepo = (\<lambda>m. Inr (snd m)), set_AdditionalRepo = (\<lambda>r m. (fst m, Some r)), mi_Storage = (\<lambda>m. Inr (StorageName (fst m))),
      SetStorage = (\<lambda>m s. Inr m), UnmarshalRequestProto = Inr, Marshal = Inr\<rparr>"

definition demo_director :: "demo_msg director" where
  "demo_director =
     \<lparr>router = demo_router, flag_enabled = (\<lambda>_. True), accessor_policy = None, rename_path = (\<lambda>_. None),
      InjectTransaction = (\<lambda>_ _ _. None), StorageNames = [''v''], correlationID = ''x''\<rparr>"

definition demo_call :: "string \<Rightarrow> (demo_msg, demo_msg) grpcCall" where
  "demo_call meth =
     \<lparr>fullMethodName = meth, methodInfo = demo_method, msg = (\<lparr>StorageName = ''v'', repo_RelativePath = ''p''\<rparr>, None),
      targetRepo = \<lparr>StorageName = ''v'', repo_RelativePath = ''p''\<rparr>\<rparr>"

lemma demo_methods:
  "shouldUseTransaction demo_director ''/gitaly.RefService/DeleteRefs'' \<and>
   \<not> shouldUseTransaction demo_director ''/gitaly.ObjectPoolService/DisconnectGitAlternates'' \<and>
   getReplicationDetails demo_director ''/gitaly.RefService/DeleteRefs'' (msg (demo_call meth)) = Inr (UpdateRepo, None) \<and>
   getReplicationDetails demo_director ''/gitaly.ObjectPoolService/DisconnectGitAlternates'' (msg (demo_call meth)) = Inr (UpdateRepo, None)"
  by (simp add: shouldUseTransaction_def transactionRPCs_def getReplicationDetails_def createRPCs_def)

lemma demo_inject [simp]: "InjectTransaction demo_director i n b = None"
  by (simp add: demo_director_def)

lemma demo_additional [simp]: "AdditionalRepo (methodInfo (demo_call meth)) (msg (demo_call meth)) = Inr None"
  by (simp add: demo_call_def demo_method_def)

lemma demo_route_for:
  "mutator_route_for demo_director (demo_call meth) UpdateRepo [] = Inr (UpdateRepo,
     \<lparr>route_RepositoryID = 1, route_ReplicaPath = ''r'', AdditionalReplicaPath = [], Primary = \<lparr>Storage = ''a''\<rparr>,
      Secondaries = [\<lparr>Storage = ''b''\<rparr>], ReplicationTargets = [''c'']\<rparr>)"
  using demo_mutator_route by (simp add: mutator_route_for_def demo_director_def demo_call_def)

lemma demo_rewritten:
  "rewrittenRepositoryMessage (methodInfo (demo_call meth)) (msg (demo_call meth)) s path add =
     Inr (\<lparr>StorageName = s, repo_RelativePath = path\<rparr>, None)"
  by (simp add: rewrittenRepositoryMessage_def demo_call_def demo_method_def)

theorem voters_are_destinations_witness:
  "\<exists>mgr' sp p. mutatorStreamParameters demo_director NewManager (demo_call ''/gitaly.RefService/DeleteRefs'') = (mgr', Inr sp) \<and>
     map Name (tx_voters (heap mgr' ! p)) = [''a'', ''b''] \<and> map dest_Storage (sp_Primary sp # sp_Secondaries sp) = [''a'', ''b'']"
proof -
  let ?call = "demo_call ''/gitaly.RefService/DeleteRefs''"
  have meth: "fullMethodName ?call = svc ''RefService/DeleteRefs''" by (simp add: demo_call_def)
  obtain mgr' p where reg: "registerTransaction NewManager \<lparr>Storage = ''a''\<rparr> [\<lparr>Storage = ''b''\<rparr>] = (mgr', Inr p)"
    by (simp add: registerTransaction_def RegisterTransaction_def newTransaction_def NewManager_def coordinator_voters_def
        coordinator_voter_def coordinator_threshold_def Let_def)
  then obtain sp where sp: "mutatorStreamParameters demo_director NewManager ?call = (mgr', Inr sp)"
      "map dest_Storage (sp_Primary sp # sp_Secondaries sp) = [''a'', ''b'']"
    by (auto simp: mutatorStreamParameters_def meth demo_methods demo_route_for demo_rewritten transaction_dests_def)
  have "shouldUseTransaction demo_director (fullMethodName ?call)" using demo_methods meth by simp
  then obtain p where "map Name (tx_voters (heap mgr' ! p)) = map dest_Storage (sp_Primary sp # sp_Secondaries sp)"
    using voters_are_destinations [OF sp(1)] by blast
  then show ?thesis using sp by metis
qed

definition demo_env :: "((nat \<times> string) option, nat, replication_tables) finish_env" where
  "demo_env = \<lparr>fe_FromError = (\<lambda>_. None), fe_store = demo_store, fe_enqueue = pg_enqueuer 0 (\<lambda>_ _. None),
     fe_conf = \<lparr>electionStrategyPerRepository = True, defaultReplicationFactors = []\<rparr>, fe_order = rev, fe_ctxErr = None\<rparr>"


end
