(* ===== verification/ErrorTracker.thy ===== *)
theory ErrorTracker
  imports Prelude
begin

text \<open>
  The tracker of read and write errors of a Gitaly node, \<open>internal/praefect/nodes/tracker/errors.go\<close>.
  Times are integers (nanoseconds) and \<open>time.Now\<close> is an argument. A \<open>nil\<close> map is \<open>None\<close>: assigning to it
  panics, which is the result \<open>None\<close> of an operation. Every critical section is one function; the test of
  the context before it is separate, because the context may be done in between.
\<close>

section \<open>State\<close>

type_synonym ErrorWindowFunction = "int \<Rightarrow> int \<Rightarrow> bool"

record errorTracker =
  isInErrorWindow :: ErrorWindowFunction
  writeThreshold :: int
  readThreshold :: int
  readErrors :: "(string, int list) gomap option"
  writeErrors :: "(string, int list) gomap option"
  ctxDone :: bool

datatype tracker_error = ErrorWindowZero | ReadThresholdZero | WriteThresholdZero

section \<open>Operations\<close>

definition NewErrorWindowFunction :: "int \<Rightarrow> (tracker_error, ErrorWindowFunction) res" where
  "NewErrorWindowFunction errorWindow =
     (if errorWindow = 0 then Inl ErrorWindowZero
      else Inr (\<lambda>now errorTime. errorTime > now - errorWindow))"

definition newErrors ::
    "bool \<Rightarrow> ErrorWindowFunction \<Rightarrow> u32 \<Rightarrow> u32 \<Rightarrow> (tracker_error, errorTracker) res" where
  "newErrors dn window rthr wthr =
     (if rthr = 0 then Inl ReadThresholdZero
      else if wthr = 0 then Inl WriteThresholdZero
      else Inr \<lparr>isInErrorWindow = window, writeThreshold = uint wthr, readThreshold = uint rthr,
                readErrors = Some [], writeErrors = Some [], ctxDone = dn\<rparr>)"

text \<open>\<open>m[node]\<close> of a map of slices; an absent key and a \<open>nil\<close> map read as the empty slice.\<close>

definition get_errs :: "(string, int list) gomap option \<Rightarrow> string \<Rightarrow> int list" where
  "get_errs errs node =
     (case errs of None \<Rightarrow> [] | Some m \<Rightarrow> (case map_of m node of None \<Rightarrow> [] | Some ts \<Rightarrow> ts))"

definition push_error :: "int \<Rightarrow> int \<Rightarrow> int list \<Rightarrow> int list" where
  "push_error thr t ts =
     (let ts' = ts @ [t] in if int (length ts') > thr then tl ts' else ts')"

definition incr_errs ::
    "int \<Rightarrow> string \<Rightarrow> int \<Rightarrow> (string, int list) gomap option \<Rightarrow> (string, int list) gomap option" where
  "incr_errs thr node t errs =
     map_option (\<lambda>m. AList.update node (push_error thr t (get_errs errs node)) m) errs"

text \<open>The critical sections: \<open>None\<close> is the panic for an assignment to a \<open>nil\<close> map.\<close>

definition incrReadErr_locked :: "errorTracker \<Rightarrow> string \<Rightarrow> int \<Rightarrow> errorTracker option" where
  "incrReadErr_locked e node t =
     (if readErrors e = None then None
      else Some (e\<lparr>readErrors := incr_errs (readThreshold e) node t (readErrors e)\<rparr>))"

definition incrWriteErr_locked :: "errorTracker \<Rightarrow> string \<Rightarrow> int \<Rightarrow> errorTracker option" where
  "incrWriteErr_locked e node t =
     (if writeErrors e = None then None
      else Some (e\<lparr>writeErrors := incr_errs (writeThreshold e) node t (writeErrors e)\<rparr>))"

definition incrReadErrTime :: "errorTracker \<Rightarrow> string \<Rightarrow> int \<Rightarrow> errorTracker option" where
  "incrReadErrTime e node t = (if ctxDone e then Some e else incrReadErr_locked e node t)"

definition incrWriteErrTime :: "errorTracker \<Rightarrow> string \<Rightarrow> int \<Rightarrow> errorTracker option" where
  "incrWriteErrTime e node t = (if ctxDone e then Some e else incrWriteErr_locked e node t)"

fun threshold_loop :: "(int \<Rightarrow> bool) \<Rightarrow> int \<Rightarrow> int list \<Rightarrow> nat \<Rightarrow> int list \<Rightarrow> bool" where
  "threshold_loop inWindow thr errs i [] = False"
| "threshold_loop inWindow thr errs i (errTime # rest) =
     (if inWindow errTime then
        if i = 0 then int (length errs) \<ge> thr
        else int (length (drop (i - 1) errs)) \<ge> thr
      else threshold_loop inWindow thr errs (Suc i) rest)"

definition ReadThresholdReached :: "errorTracker \<Rightarrow> int \<Rightarrow> string \<Rightarrow> bool" where
  "ReadThresholdReached e now node =
     (if ctxDone e then False
      else threshold_loop (isInErrorWindow e now) (readThreshold e)
             (get_errs (readErrors e) node) 0 (get_errs (readErrors e) node))"

definition WriteThresholdReached :: "errorTracker \<Rightarrow> int \<Rightarrow> string \<Rightarrow> bool" where
  "WriteThresholdReached e now node =
     (if ctxDone e then False
      else threshold_loop (isInErrorWindow e now) (writeThreshold e)
             (get_errs (writeErrors e) node) 0 (get_errs (writeErrors e) node))"

fun clear_loop :: "(int \<Rightarrow> bool) \<Rightarrow> int list \<Rightarrow> int list" where
  "clear_loop inWindow [] = []"
| "clear_loop inWindow (errTime # rest) =
     (if inWindow errTime then errTime # rest
      else if rest = [] then []
      else clear_loop inWindow rest)"

definition clearErrors ::
    "errorTracker \<Rightarrow> (string, int list) gomap option \<Rightarrow> int \<Rightarrow> (string, int list) gomap option" where
  "clearErrors e errs now = map_option (map (\<lambda>(node, ts). (node, clear_loop (isInErrorWindow e now) ts))) errs"

definition tracker_clear :: "errorTracker \<Rightarrow> int \<Rightarrow> errorTracker" where
  "tracker_clear e now =
     e\<lparr>writeErrors := clearErrors e (writeErrors e) now, readErrors := clearErrors e (readErrors e) now\<rparr>"

text \<open>A turn of \<open>periodicallyClear\<close>: on a tick, or when it sees that the context is done.\<close>

definition periodicallyClear_turn :: "errorTracker \<Rightarrow> int option \<Rightarrow> errorTracker" where
  "periodicallyClear_turn e tick =
     (case tick of
        Some now \<Rightarrow> tracker_clear e now
      | None \<Rightarrow> e\<lparr>readErrors := None, writeErrors := None\<rparr>)"

section \<open>Steps\<close>

text \<open>A tracker together with the time of its last operation and the full history of errors per node.\<close>

record tracker_sys =
  et :: errorTracker
  clock :: int
  rhist :: "string \<Rightarrow> int list"
  whist :: "string \<Rightarrow> int list"

datatype tracker_event = IncrRead string int | IncrWrite string int | Tick int

inductive tracker_step :: "tracker_sys \<Rightarrow> tracker_event \<Rightarrow> tracker_sys \<Rightarrow> bool" where
  incr_read: "clock s \<le> t \<Longrightarrow> incrReadErrTime (et s) node t = Some e \<Longrightarrow>
    tracker_step s (IncrRead node t) (s\<lparr>et := e, clock := t, rhist := (rhist s)(node := rhist s node @ [t])\<rparr>)"
| incr_write: "clock s \<le> t \<Longrightarrow> incrWriteErrTime (et s) node t = Some e \<Longrightarrow>
    tracker_step s (IncrWrite node t) (s\<lparr>et := e, clock := t, whist := (whist s)(node := whist s node @ [t])\<rparr>)"
| tick: "clock s \<le> t \<Longrightarrow>
    tracker_step s (Tick t) (s\<lparr>et := periodicallyClear_turn (et s) (Some t), clock := t\<rparr>)"

definition tracker_init :: "tracker_sys \<Rightarrow> bool" where
  "tracker_init s \<longleftrightarrow> (\<exists>w window rthr wthr. NewErrorWindowFunction w = Inr window \<and>
     newErrors False window rthr wthr = Inr (et s)) \<and> rhist s = (\<lambda>_. []) \<and> whist s = (\<lambda>_. [])"

section \<open>Invariant\<close>

text \<open>The errors kept for a node are the latest ones of its history; what has been dropped is out of the
  window or there are as many newer ones as the threshold asks for.\<close>

definition tracked :: "int \<Rightarrow> int \<Rightarrow> int \<Rightarrow> int list \<Rightarrow> int list \<Rightarrow> bool" where
  "tracked w thr c hist ts \<longleftrightarrow> sorted hist \<and> (\<forall>x. x \<in> set hist \<longrightarrow> x \<le> c) \<and> int (length ts) \<le> thr \<and>
     (\<exists>pre. hist = pre @ ts \<and> ((\<forall>x. x \<in> set pre \<longrightarrow> x \<le> c - w) \<or> int (length ts) = thr))"

lemma tracked_push:
  assumes "tracked w thr c hist ts" "0 < thr" "c \<le> t"
  shows "tracked w thr t (hist @ [t]) (push_error thr t ts)"
proof -
  obtain pre where pre: "hist = pre @ ts" "(\<forall>x. x \<in> set pre \<longrightarrow> x \<le> c - w) \<or> int (length ts) = thr"
    and h: "sorted hist" "\<forall>x. x \<in> set hist \<longrightarrow> x \<le> c" "int (length ts) \<le> thr"
    using assms(1) by (auto simp: tracked_def)
  have srt: "sorted (hist @ [t])" "\<forall>x. x \<in> set (hist @ [t]) \<longrightarrow> x \<le> t"
    using h assms(3) by (auto simp: sorted_append intro: order_trans)
  show ?thesis
  proof (cases "int (length ts) = thr")
    case True
    then obtain y ys where ts: "ts = y # ys" using assms(2) by (cases ts) auto
    then have "push_error thr t ts = ys @ [t]" "hist @ [t] = (pre @ [y]) @ (ys @ [t])"
      using True pre by (auto simp: push_error_def)
    then show ?thesis using srt True ts by (auto simp: tracked_def)
  next
    case False
    then have "push_error thr t ts = ts @ [t]" using h(3) by (simp add: push_error_def)
    moreover have "\<forall>x. x \<in> set pre \<longrightarrow> x \<le> t - w" using False pre(2) assms(3) by (auto intro: order_trans)
    ultimately show ?thesis using srt False h(3) pre(1) by (auto simp: tracked_def)
  qed
qed

lemma clear_loop_dropWhile: "clear_loop P ts = dropWhile (\<lambda>x. \<not> P x) ts"
  by (induction ts) auto

lemma tracked_clear:
  assumes "tracked w thr c hist ts" "c \<le> t"
  shows "tracked w thr t hist (clear_loop (\<lambda>x. t - w < x) ts)"
proof -
  let ?gone = "takeWhile (\<lambda>x. \<not> t - w < x) ts"
  let ?kept = "dropWhile (\<lambda>x. \<not> t - w < x) ts"
  obtain pre where pre: "hist = pre @ ts" "(\<forall>x. x \<in> set pre \<longrightarrow> x \<le> c - w) \<or> int (length ts) = thr"
    and h: "sorted hist" "\<forall>x. x \<in> set hist \<longrightarrow> x \<le> c" "int (length ts) \<le> thr"
    using assms(1) by (auto simp: tracked_def)
  have len: "int (length ?kept) \<le> thr"
    using h(3) length_dropWhile_le [of "\<lambda>x. \<not> t - w < x" ts] by linarith
  have gone: "x \<le> t - w" if "x \<in> set ?gone" for x using set_takeWhileD [OF that] by simp
  have "(\<forall>x. x \<in> set (pre @ ?gone) \<longrightarrow> x \<le> t - w) \<or> int (length ?kept) = thr"
  proof (cases "?gone = []")
    case True
    then have "?kept = ts" by (metis append_Nil takeWhile_dropWhile_id)
    then show ?thesis using pre(2) assms(2) True by force
  next
    case False
    then obtain y where y: "y \<in> set ?gone" by (cases ?gone) auto
    have "x \<le> y" if "x \<in> set pre" for x
      using h(1) pre(1) that set_takeWhileD [OF y] by (auto simp: sorted_append)
    then show ?thesis using gone y by force
  qed
  moreover have "hist = (pre @ ?gone) @ ?kept" using pre(1) by simp
  moreover have "\<forall>x. x \<in> set hist \<longrightarrow> x \<le> t" using h(2) assms(2) by force
  ultimately show ?thesis unfolding clear_loop_dropWhile tracked_def using h(1) len by blast
qed

lemma tracked_time: "tracked w thr c hist ts \<Longrightarrow> c \<le> t \<Longrightarrow> tracked w thr t hist ts"
  unfolding tracked_def by force

text \<open>The number of errors in the window is the length of the rest the loop finds.\<close>

lemma threshold_loop_eq:
  "ts = drop i errs \<Longrightarrow> threshold_loop P thr errs i ts \<longleftrightarrow>
   (let n = length (dropWhile (\<lambda>x. \<not> P x) ts)
    in 0 < n \<and> thr \<le> int (if n = length errs then n else n + 1))"
proof (induction ts arbitrary: i)
  case (Cons t ts)
  have i: "i < length errs" "ts = drop (Suc i) errs"
    using Cons.prems by (metis drop_all leI list.distinct(1), metis Cons.prems drop_Suc list.sel(3) tl_drop)
  then have len: "Suc (length ts) = length errs - i" by simp
  show ?case
  proof (cases "P t")
    case True
    then show ?thesis using len i(1) by (cases i) (auto simp: Let_def)
  next
    case False
    have "length (dropWhile (\<lambda>x. \<not> P x) ts) \<le> length ts" by (rule length_dropWhile_le)
    then show ?thesis using False Cons.IH [OF i(2)] by simp
  qed
qed simp

lemma filter_sorted: "sorted ts \<Longrightarrow> filter (\<lambda>x. (b::int) < x) ts = dropWhile (\<lambda>x. \<not> b < x) ts"
proof (induction ts)
  case (Cons t ts)
  show ?case
  proof (cases "b < t")
    case True
    then have "\<forall>x\<in>set ts. b < x" using Cons.prems by auto
    then have "filter (\<lambda>x. b < x) ts = ts" by (simp add: filter_id_conv)
    then show ?thesis using True by simp
  qed (use Cons in simp)
qed simp

lemma threshold_tracked:
  assumes tr: "tracked w thr c hist ts" and now: "c \<le> now" and thr: "0 < thr"
  defines "n \<equiv> int (length (filter (\<lambda>x. now - w < x) hist))"
  shows "(thr \<le> n \<longrightarrow> threshold_loop (\<lambda>x. now - w < x) thr ts 0 ts) \<and>
    (threshold_loop (\<lambda>x. now - w < x) thr ts 0 ts \<longrightarrow> thr \<le> n + 1 \<and> 0 < n)"
proof -
  let ?in = "\<lambda>x. now - w < x"
  let ?k = "length (filter ?in ts)"
  obtain pre where pre: "hist = pre @ ts" "(\<forall>x. x \<in> set pre \<longrightarrow> x \<le> c - w) \<or> int (length ts) = thr"
    and h: "sorted hist" "int (length ts) \<le> thr"
    using tr by (auto simp: tracked_def)
  have srt: "sorted ts" "\<forall>x y. x \<in> set pre \<longrightarrow> y \<in> set ts \<longrightarrow> x \<le> y"
    using h(1) pre(1) by (auto simp: sorted_append)
  have loop: "threshold_loop ?in thr ts 0 ts \<longleftrightarrow>
      0 < ?k \<and> thr \<le> int (if ?k = length ts then ?k else ?k + 1)"
    using threshold_loop_eq [of ts 0 ts ?in thr] by (simp add: filter_sorted [OF srt(1)] Let_def)
  have n: "n = int (length (filter ?in pre)) + int ?k" by (simp add: n_def pre(1))
  have "?k = length ts \<and> int (length ts) = thr" if "thr \<le> n"
  proof (cases "filter ?in pre = []")
    case True
    then have "thr \<le> int ?k" using that n by simp
    then show ?thesis using h(2) length_filter_le [of ?in ts] by linarith
  next
    case False
    then obtain x where x: "x \<in> set pre" "now - w < x" by (auto simp: filter_empty_conv)
    then have "int (length ts) = thr" using pre(2) now by force
    moreover have "filter ?in ts = ts" using x srt(2) by (force simp: filter_id_conv)
    ultimately show ?thesis by simp
  qed
  then have "thr \<le> n \<longrightarrow> threshold_loop ?in thr ts 0 ts" unfolding loop using thr by (cases ts) auto
  moreover have "thr \<le> n + 1 \<and> 0 < n" if "threshold_loop ?in thr ts 0 ts"
  proof -
    have "0 < ?k" "thr \<le> int ?k + 1" using that unfolding loop by (auto split: if_splits)
    then show ?thesis unfolding n by linarith
  qed
  ultimately show ?thesis by blast
qed

definition tracker_inv :: "tracker_sys \<Rightarrow> bool" where
  "tracker_inv s \<longleftrightarrow>
     (\<exists>w. isInErrorWindow (et s) = (\<lambda>now t. now - w < t) \<and>
       0 < readThreshold (et s) \<and> 0 < writeThreshold (et s) \<and> \<not> ctxDone (et s) \<and>
       readErrors (et s) \<noteq> None \<and> writeErrors (et s) \<noteq> None \<and>
       (\<forall>node. tracked w (readThreshold (et s)) (clock s) (rhist s node) (get_errs (readErrors (et s)) node)) \<and>
       (\<forall>node. tracked w (writeThreshold (et s)) (clock s) (whist s node) (get_errs (writeErrors (et s)) node)))"

lemma get_errs_incr:
  "errs \<noteq> None \<Longrightarrow> get_errs (incr_errs thr node t errs) n =
     (if n = node then push_error thr t (get_errs errs node) else get_errs errs n)"
  by (auto simp: get_errs_def incr_errs_def gm.get_set)

lemma get_errs_clear:
  "get_errs (clearErrors e errs t) n = clear_loop (isInErrorWindow e t) (get_errs errs n)"
  by (auto simp: get_errs_def clearErrors_def map_of_mapv split: option.splits)

lemma tracker_inv_step:
  assumes "tracker_step s ev s'" "tracker_inv s"
  shows "tracker_inv s'"
proof -
  obtain w where w: "isInErrorWindow (et s) = (\<lambda>now t. now - w < t)"
    and thr: "0 < readThreshold (et s)" "0 < writeThreshold (et s)" "\<not> ctxDone (et s)"
    and some: "readErrors (et s) \<noteq> None" "writeErrors (et s) \<noteq> None"
    and rd: "\<And>node. tracked w (readThreshold (et s)) (clock s) (rhist s node) (get_errs (readErrors (et s)) node)"
    and wr: "\<And>node. tracked w (writeThreshold (et s)) (clock s) (whist s node) (get_errs (writeErrors (et s)) node)"
    using assms(2) unfolding tracker_inv_def by blast
  from assms(1) show ?thesis
  proof cases
    case (incr_read t node e)
    have e: "e = (et s)\<lparr>readErrors := incr_errs (readThreshold (et s)) node t (readErrors (et s))\<rparr>"
      using incr_read thr some by (simp add: incrReadErrTime_def incrReadErr_locked_def)
    show ?thesis
      unfolding tracker_inv_def incr_read(2) e
      using w thr some tracked_push [OF rd thr(1) incr_read(3)] tracked_time [OF rd incr_read(3)]
        tracked_time [OF wr incr_read(3)]
      by (intro exI [of _ w]) (simp add: get_errs_incr, simp add: incr_errs_def)
  next
    case (incr_write t node e)
    have e: "e = (et s)\<lparr>writeErrors := incr_errs (writeThreshold (et s)) node t (writeErrors (et s))\<rparr>"
      using incr_write thr some by (simp add: incrWriteErrTime_def incrWriteErr_locked_def)
    show ?thesis
      unfolding tracker_inv_def incr_write(2) e
      using w thr some tracked_push [OF wr thr(2) incr_write(3)] tracked_time [OF rd incr_write(3)]
        tracked_time [OF wr incr_write(3)]
      by (intro exI [of _ w]) (simp add: get_errs_incr, simp add: incr_errs_def)
  next
    case (tick t)
    show ?thesis
      unfolding tracker_inv_def tick(2)
      using w thr some tracked_clear [OF rd tick(3)] tracked_clear [OF wr tick(3)]
      by (intro exI [of _ w])
        (simp add: periodicallyClear_turn_def tracker_clear_def get_errs_clear, simp add: clearErrors_def)
  qed
qed

lemma tracker_inv_init:
  assumes "tracker_init s"
  shows "tracker_inv s"
proof -
  obtain w window rthr wthr where a: "NewErrorWindowFunction w = Inr window"
      "newErrors False window rthr wthr = Inr (et s)" and h: "rhist s = (\<lambda>_. [])" "whist s = (\<lambda>_. [])"
    using assms by (auto simp: tracker_init_def)
  then have e: "et s = \<lparr>isInErrorWindow = \<lambda>now t. now - w < t, writeThreshold = uint wthr,
      readThreshold = uint rthr, readErrors = Some [], writeErrors = Some [], ctxDone = False\<rparr>"
    by (auto simp: newErrors_def NewErrorWindowFunction_def split: if_splits)
  have "rthr \<noteq> 0" "wthr \<noteq> 0" using a by (auto simp: newErrors_def split: if_splits)
  then have "0 < uint (rthr :: u32)" "0 < uint (wthr :: u32)"
    by (simp_all add: order_less_le uint_0_iff)
  then show ?thesis
    unfolding tracker_inv_def e h by (intro exI [of _ w]) (simp add: tracked_def get_errs_def)
qed

interpretation trk: invariant_of tracker_init tracker_step tracker_inv
  by unfold_locales (auto intro: tracker_inv_init tracker_inv_step)

abbreviation tracker_reachable :: "tracker_sys \<Rightarrow> bool" where
  "tracker_reachable \<equiv> reachable tracker_init tracker_step"

section \<open>Properties\<close>


definition demo_tracker :: errorTracker where
  "demo_tracker = \<lparr>isInErrorWindow = \<lambda>now t. now - 10 < t, writeThreshold = 1, readThreshold = 2,
     readErrors = Some [], writeErrors = Some [], ctxDone = False\<rparr>"

definition demo_tracker_sys :: tracker_sys where
  "demo_tracker_sys = \<lparr>et = demo_tracker, clock = 0, rhist = \<lambda>_. [], whist = \<lambda>_. []\<rparr>"

definition demo_tracker_hit :: "tracker_sys" where
  "demo_tracker_hit = demo_tracker_sys\<lparr>et := the (incrReadErrTime demo_tracker ''n'' 5), clock := 5,
     rhist := (rhist demo_tracker_sys)(''n'' := rhist demo_tracker_sys ''n'' @ [5])\<rparr>"

lemmas tracker_eval = demo_tracker_hit_def demo_tracker_sys_def demo_tracker_def incrReadErrTime_def
  incrReadErr_locked_def incr_errs_def get_errs_def push_error_def ReadThresholdReached_def

lemma demo_tracker_init: "tracker_init demo_tracker_sys"
proof -
  have "NewErrorWindowFunction 10 = Inr (\<lambda>now t. now - 10 < t)" by (simp add: NewErrorWindowFunction_def)
  moreover have "newErrors False (\<lambda>now t. now - 10 < t) 2 1 = Inr demo_tracker"
    by (simp add: newErrors_def demo_tracker_def)
  ultimately show ?thesis unfolding tracker_init_def by (auto simp: demo_tracker_sys_def)
qed

lemma demo_tracker_reachable: "tracker_reachable demo_tracker_hit"
proof -
  have "tracker_step demo_tracker_sys (IncrRead ''n'' 5) demo_tracker_hit"
    unfolding demo_tracker_hit_def
    by (rule incr_read) (simp_all add: tracker_eval)
  moreover have "tracker_reachable demo_tracker_sys" by (rule reach_init) (rule demo_tracker_init)
  ultimately show ?thesis by (blast intro: reach_step)
qed


text \<open>The threshold is reported too early: with a threshold of at least two, one error before the
  window and one less than the threshold inside it are enough.\<close>

theorem threshold_counts_stale_error:
  assumes "ctxDone e = False" and "readThreshold e = int (length ts) + 1" and "ts \<noteq> []"
    and "get_errs (readErrors e) node = t # ts"
    and "\<not> isInErrorWindow e now t" and "list_all (isInErrorWindow e now) ts"
  shows "ReadThresholdReached e now node \<and>
    int (length (filter (isInErrorWindow e now) (get_errs (readErrors e) node))) < readThreshold e"
proof -
  have "filter (isInErrorWindow e now) ts = ts" using assms(6) by (simp add: filter_id_conv list_all_iff)
  moreover obtain u us where "ts = u # us" using assms(3) by (cases ts) auto
  ultimately show ?thesis using assms by (simp add: ReadThresholdReached_def)
qed

theorem threshold_counts_stale_error_witness:
  "ReadThresholdReached (demo_tracker\<lparr>readErrors := Some [(''n'', [1, 50])]\<rparr>) 55 ''n''"
  using threshold_counts_stale_error [of "demo_tracker\<lparr>readErrors := Some [(''n'', [1, 50])]\<rparr>" "[50]" "''n''" 1 55]
  by (simp add: demo_tracker_def get_errs_def)

text \<open>Recording an error panics when the context is done after it has been tested and the clearing
  goroutine has already dropped the maps; it never panics while the context is alive.\<close>

theorem incr_panics_after_shutdown:
  "incrReadErr_locked (periodicallyClear_turn e None) node t = None \<and>
   incrWriteErr_locked (periodicallyClear_turn e None) node t = None \<and>
   incrReadErrTime ((periodicallyClear_turn e None)\<lparr>ctxDone := True\<rparr>) node t \<noteq> None \<and>
   (tracker_reachable s \<longrightarrow> incrReadErrTime (et s) node t \<noteq> None \<and> incrWriteErrTime (et s) node t \<noteq> None)"
proof -
  have "incrReadErrTime (et s) node t \<noteq> None \<and> incrWriteErrTime (et s) node t \<noteq> None" if "tracker_reachable s"
    using trk.reachable_inv [OF that]
    by (auto simp: tracker_inv_def incrReadErrTime_def incrReadErr_locked_def incrWriteErrTime_def incrWriteErr_locked_def)
  then show ?thesis
    by (simp add: incrReadErr_locked_def incrWriteErr_locked_def periodicallyClear_turn_def incrReadErrTime_def)
qed

theorem incr_panics_after_shutdown_witness:
  "incrReadErr_locked (periodicallyClear_turn demo_tracker None) ''n'' 1 = None \<and>
   incrReadErrTime (et demo_tracker_hit) ''n'' 1 \<noteq> None"
  using incr_panics_after_shutdown [of demo_tracker "''n''" 1 demo_tracker_hit] demo_tracker_reachable by blast

end
