(* ===== verification/ConcurrencyLimiter.thy ===== *)
theory ConcurrencyLimiter
  imports Prelude
begin

text \<open>
  The per-key concurrency limiter of Gitaly's RPCs,
  \<open>internal/middleware/limithandler/concurrency_limiter.go\<close>. A \<open>*keyedConcurrencyLimiter\<close> is an index
  into the list of allocated limiters, since a call keeps the pointer between looking it up and dropping
  it. A buffered channel of tokens is its length and its capacity: sending blocks when it is full,
  receiving when it is empty, and \<open>None\<close> is the result of an operation that blocks. The step relation
  \<open>limit_step\<close> runs any number of concurrent calls of \<open>Limit\<close>, interleaved at every channel operation
  and every critical section.
\<close>

section \<open>State\<close>

record token_chan =
  ch_len :: nat
  ch_cap :: int

record keyedConcurrencyLimiter =
  refcount :: int
  concurrencyTokens :: token_chan
  queueTokens :: "token_chan option"

record ConcurrencyLimiter =
  maxConcurrencyLimit :: int
  maxQueueLength :: int
  limitsByKey :: "(string, nat) gomap"
  limiters :: "keyedConcurrencyLimiter list"

datatype limit_error = ErrMaxQueueTime | ErrMaxQueueSize | CtxErr

datatype limit_panic = SemaphoreMissing | BadRefcount int

section \<open>Operations\<close>

definition chan_send :: "token_chan \<Rightarrow> token_chan option" where
  "chan_send ch = (if int (ch_len ch) < ch_cap ch then Some (ch\<lparr>ch_len := ch_len ch + 1\<rparr>) else None)"

definition chan_recv :: "token_chan \<Rightarrow> token_chan option" where
  "chan_recv ch = (if 0 < ch_len ch then Some (ch\<lparr>ch_len := ch_len ch - 1\<rparr>) else None)"

text \<open>The three parts of \<open>acquire\<close>: entering the queue, getting the concurrency token, and giving up.\<close>

definition acquire_queue :: "keyedConcurrencyLimiter \<Rightarrow> (limit_error, keyedConcurrencyLimiter) res" where
  "acquire_queue sem =
     (case queueTokens sem of
        None \<Rightarrow> Inr sem
      | Some q \<Rightarrow> (case chan_send q of
                     None \<Rightarrow> Inl ErrMaxQueueSize
                   | Some q' \<Rightarrow> Inr (sem\<lparr>queueTokens := Some q'\<rparr>)))"

definition acquire_token :: "keyedConcurrencyLimiter \<Rightarrow> keyedConcurrencyLimiter option" where
  "acquire_token sem =
     (case chan_send (concurrencyTokens sem) of
        None \<Rightarrow> None
      | Some ch \<Rightarrow> Some (sem\<lparr>concurrencyTokens := ch\<rparr>))"

definition acquire_give_up :: "keyedConcurrencyLimiter \<Rightarrow> keyedConcurrencyLimiter option" where
  "acquire_give_up sem =
     (case queueTokens sem of
        None \<Rightarrow> Some sem
      | Some q \<Rightarrow> map_option (\<lambda>q'. sem\<lparr>queueTokens := Some q'\<rparr>) (chan_recv q))"

text \<open>The two receive operations of \<open>release\<close>.\<close>

definition release_queue :: "keyedConcurrencyLimiter \<Rightarrow> keyedConcurrencyLimiter option" where
  "release_queue sem =
     (case queueTokens sem of
        None \<Rightarrow> Some sem
      | Some q \<Rightarrow> map_option (\<lambda>q'. sem\<lparr>queueTokens := Some q'\<rparr>) (chan_recv q))"

definition release_token :: "keyedConcurrencyLimiter \<Rightarrow> keyedConcurrencyLimiter option" where
  "release_token sem =
     map_option (\<lambda>ch. sem\<lparr>concurrencyTokens := ch\<rparr>) (chan_recv (concurrencyTokens sem))"

definition NewConcurrencyLimiter :: "int \<Rightarrow> int \<Rightarrow> ConcurrencyLimiter" where
  "NewConcurrencyLimiter maxConc maxQueue =
     \<lparr>maxConcurrencyLimit = maxConc, maxQueueLength = maxQueue, limitsByKey = [], limiters = []\<rparr>"

definition newKeyedLimiter :: "ConcurrencyLimiter \<Rightarrow> keyedConcurrencyLimiter" where
  "newKeyedLimiter c =
     \<lparr>refcount = 0,
      concurrencyTokens = \<lparr>ch_len = 0, ch_cap = maxConcurrencyLimit c\<rparr>,
      queueTokens = (if maxQueueLength c > 0
                     then Some \<lparr>ch_len = 0, ch_cap = maxConcurrencyLimit c + maxQueueLength c\<rparr> else None)\<rparr>"

definition incref :: "nat \<Rightarrow> ConcurrencyLimiter \<Rightarrow> ConcurrencyLimiter" where
  "incref p c = c\<lparr>limiters := (limiters c)[p := (limiters c ! p)\<lparr>refcount := refcount (limiters c ! p) + 1\<rparr>]\<rparr>"

definition getConcurrencyLimit :: "ConcurrencyLimiter \<Rightarrow> string \<Rightarrow> ConcurrencyLimiter \<times> nat" where
  "getConcurrencyLimit c limitingKey =
     (case map_of (limitsByKey c) limitingKey of
        None \<Rightarrow>
          (let p = length (limiters c);
               c' = c\<lparr>limiters := limiters c @ [newKeyedLimiter c],
                      limitsByKey := AList.update limitingKey p (limitsByKey c)\<rparr>
           in (incref p c', p))
      | Some p \<Rightarrow> (incref p c, p))"

definition putConcurrencyLimit ::
    "ConcurrencyLimiter \<Rightarrow> string \<Rightarrow> (limit_panic, ConcurrencyLimiter) res" where
  "putConcurrencyLimit c limitingKey =
     (case map_of (limitsByKey c) limitingKey of
        None \<Rightarrow> Inl SemaphoreMissing
      | Some p \<Rightarrow>
          (let ref = limiters c ! p in
           if refcount ref \<le> 0 then Inl (BadRefcount (refcount ref))
           else
             (let c' = c\<lparr>limiters := (limiters c)[p := ref\<lparr>refcount := refcount ref - 1\<rparr>]\<rparr>
              in if refcount ref - 1 = 0
                 then Inr (c'\<lparr>limitsByKey := AList.delete limitingKey (limitsByKey c')\<rparr>)
                 else Inr c')))"

definition countSemaphores :: "ConcurrencyLimiter \<Rightarrow> nat" where
  "countSemaphores c = length (limitsByKey c)"

section \<open>Concurrent calls of Limit\<close>

text \<open>Where a call of \<open>Limit\<close> stands, once it has looked up its limiter: before the queue, in the queue,
  running the limited function, in the middle of \<open>release\<close>, or returning with only
  \<open>putConcurrencyLimit\<close> left to do.\<close>

datatype phase = Entering | Queued | Running | Releasing | Returning "limit_error option"

record lcall =
  ckey :: string
  cptr :: nat
  cphase :: phase

record limit_sys =
  lim :: ConcurrencyLimiter
  lcalls :: "lcall multiset"

definition set_sem :: "nat \<Rightarrow> keyedConcurrencyLimiter \<Rightarrow> ConcurrencyLimiter \<Rightarrow> ConcurrencyLimiter" where
  "set_sem p sem c = c\<lparr>limiters := (limiters c)[p := sem]\<rparr>"

datatype limit_event =
    LStart string | LEnqueue lcall | LReject lcall | LAdmit lcall | LGiveUp lcall limit_error
  | LFinish lcall | LRelease lcall | LPut lcall

inductive limit_step :: "limit_sys \<Rightarrow> limit_event \<Rightarrow> limit_sys \<Rightarrow> bool" where
  start: "0 < maxConcurrencyLimit (lim s) \<Longrightarrow> getConcurrencyLimit (lim s) k = (c', p) \<Longrightarrow>
    limit_step s (LStart k)
      (s\<lparr>lim := c', lcalls := add_mset \<lparr>ckey = k, cptr = p, cphase = Entering\<rparr> (lcalls s)\<rparr>)"
| enqueue: "lcalls s = add_mset c M \<Longrightarrow> cphase c = Entering \<Longrightarrow>
    acquire_queue (limiters (lim s) ! cptr c) = Inr sem \<Longrightarrow>
    limit_step s (LEnqueue c)
      (s\<lparr>lim := set_sem (cptr c) sem (lim s), lcalls := add_mset (c\<lparr>cphase := Queued\<rparr>) M\<rparr>)"
| reject: "lcalls s = add_mset c M \<Longrightarrow> cphase c = Entering \<Longrightarrow>
    acquire_queue (limiters (lim s) ! cptr c) = Inl e \<Longrightarrow>
    limit_step s (LReject c) (s\<lparr>lcalls := add_mset (c\<lparr>cphase := Returning (Some e)\<rparr>) M\<rparr>)"
| admit: "lcalls s = add_mset c M \<Longrightarrow> cphase c = Queued \<Longrightarrow>
    acquire_token (limiters (lim s) ! cptr c) = Some sem \<Longrightarrow>
    limit_step s (LAdmit c)
      (s\<lparr>lim := set_sem (cptr c) sem (lim s), lcalls := add_mset (c\<lparr>cphase := Running\<rparr>) M\<rparr>)"
| give_up: "lcalls s = add_mset c M \<Longrightarrow> cphase c = Queued \<Longrightarrow> e \<in> {ErrMaxQueueTime, CtxErr} \<Longrightarrow>
    acquire_give_up (limiters (lim s) ! cptr c) = Some sem \<Longrightarrow>
    limit_step s (LGiveUp c e)
      (s\<lparr>lim := set_sem (cptr c) sem (lim s), lcalls := add_mset (c\<lparr>cphase := Returning (Some e)\<rparr>) M\<rparr>)"
| finish: "lcalls s = add_mset c M \<Longrightarrow> cphase c = Running \<Longrightarrow>
    release_queue (limiters (lim s) ! cptr c) = Some sem \<Longrightarrow>
    limit_step s (LFinish c)
      (s\<lparr>lim := set_sem (cptr c) sem (lim s), lcalls := add_mset (c\<lparr>cphase := Releasing\<rparr>) M\<rparr>)"
| released: "lcalls s = add_mset c M \<Longrightarrow> cphase c = Releasing \<Longrightarrow>
    release_token (limiters (lim s) ! cptr c) = Some sem \<Longrightarrow>
    limit_step s (LRelease c)
      (s\<lparr>lim := set_sem (cptr c) sem (lim s), lcalls := add_mset (c\<lparr>cphase := Returning None\<rparr>) M\<rparr>)"
| put: "lcalls s = add_mset c M \<Longrightarrow> cphase c = Returning r \<Longrightarrow>
    putConcurrencyLimit (lim s) (ckey c) = Inr c' \<Longrightarrow>
    limit_step s (LPut c) (s\<lparr>lim := c', lcalls := M\<rparr>)"

definition limit_init :: "limit_sys \<Rightarrow> bool" where
  "limit_init s \<longleftrightarrow> (\<exists>maxConc maxQueue. lim s = NewConcurrencyLimiter maxConc maxQueue) \<and> lcalls s = {#}"

section \<open>Invariant\<close>

definition ncalls :: "(phase \<Rightarrow> bool) \<Rightarrow> string \<Rightarrow> lcall multiset \<Rightarrow> nat" where
  "ncalls P k M = size (filter_mset (\<lambda>c. ckey c = k \<and> P (cphase c)) M)"

definition holds_token :: "phase \<Rightarrow> bool" where
  "holds_token ph \<longleftrightarrow> ph = Running \<or> ph = Releasing"

definition holds_queue :: "phase \<Rightarrow> bool" where
  "holds_queue ph \<longleftrightarrow> ph = Queued \<or> ph = Running"

lemma ncalls_simps [simp]:
  "ncalls P k {#} = 0"
  "ncalls P k (add_mset c M) = (if ckey c = k \<and> P (cphase c) then Suc (ncalls P k M) else ncalls P k M)"
  by (simp_all add: ncalls_def)

lemma holds_simps [simp]:
  "holds_token Running" "holds_token Releasing" "\<not> holds_token Entering" "\<not> holds_token Queued"
  "\<not> holds_token (Returning r)" "holds_queue Queued" "holds_queue Running" "\<not> holds_queue Entering"
  "\<not> holds_queue Releasing" "\<not> holds_queue (Returning r)"
  by (simp_all add: holds_token_def holds_queue_def)

text \<open>The counters of a limiter agree with the calls for its key.\<close>

definition sem_ok :: "ConcurrencyLimiter \<Rightarrow> string \<Rightarrow> lcall multiset \<Rightarrow> keyedConcurrencyLimiter \<Rightarrow> bool" where
  "sem_ok c k M sem \<longleftrightarrow>
     refcount sem = int (ncalls (\<lambda>_. True) k M) \<and>
     concurrencyTokens sem = \<lparr>ch_len = ncalls holds_token k M, ch_cap = maxConcurrencyLimit c\<rparr> \<and>
     int (ncalls holds_token k M) \<le> maxConcurrencyLimit c \<and>
     queueTokens sem =
       (if maxQueueLength c > 0
        then Some \<lparr>ch_len = ncalls holds_queue k M, ch_cap = maxConcurrencyLimit c + maxQueueLength c\<rparr>
        else None) \<and>
     (maxQueueLength c > 0 \<longrightarrow> int (ncalls holds_queue k M) \<le> maxConcurrencyLimit c + maxQueueLength c)"

definition lim_inv :: "limit_sys \<Rightarrow> bool" where
  "lim_inv s \<longleftrightarrow> wf_map (limitsByKey (lim s)) \<and>
     (\<forall>k p. map_of (limitsByKey (lim s)) k = Some p \<longrightarrow> p < length (limiters (lim s)) \<and>
        sem_ok (lim s) k (lcalls s) (limiters (lim s) ! p) \<and> 0 < ncalls (\<lambda>_. True) k (lcalls s)) \<and>
     (\<forall>k k' p. map_of (limitsByKey (lim s)) k = Some p \<longrightarrow> map_of (limitsByKey (lim s)) k' = Some p \<longrightarrow> k = k') \<and>
     (\<forall>c. c \<in># lcalls s \<longrightarrow> map_of (limitsByKey (lim s)) (ckey c) = Some (cptr c))"

lemma set_sem_simps [simp]:
  "limitsByKey (set_sem p sem c) = limitsByKey c" "limiters (set_sem p sem c) = (limiters c)[p := sem]"
  "maxConcurrencyLimit (set_sem p sem c) = maxConcurrencyLimit c"
  "maxQueueLength (set_sem p sem c) = maxQueueLength c"
  by (simp_all add: set_sem_def)

lemma sem_ok_cong:
  "(\<And>P. ncalls P k M = ncalls P k M') \<Longrightarrow> maxConcurrencyLimit c = maxConcurrencyLimit c' \<Longrightarrow>
   maxQueueLength c = maxQueueLength c' \<Longrightarrow> sem_ok c k M sem = sem_ok c' k M' sem"
  by (simp add: sem_ok_def)

lemma lim_inv_entry:
  "lim_inv s \<Longrightarrow> map_of (limitsByKey (lim s)) k = Some p \<Longrightarrow> p < length (limiters (lim s)) \<and>
   sem_ok (lim s) k (lcalls s) (limiters (lim s) ! p) \<and> 0 < ncalls (\<lambda>_. True) k (lcalls s)"
  by (simp add: lim_inv_def)

text \<open>An operation changes the limiter of one key only.\<close>

lemma lim_inv_key:
  assumes inv: "lim_inv s"
    and L: "map_of (limitsByKey l) = (map_of (limitsByKey (lim s)))(k \<mapsto> p)" "wf_map (limitsByKey l)"
    and fresh: "\<And>k'. k' \<noteq> k \<Longrightarrow> map_of (limitsByKey (lim s)) k' \<noteq> Some p"
    and params: "maxConcurrencyLimit l = maxConcurrencyLimit (lim s)" "maxQueueLength l = maxQueueLength (lim s)"
    and len: "length (limiters (lim s)) \<le> length (limiters l)" "p < length (limiters l)"
    and same: "\<And>q. q \<noteq> p \<Longrightarrow> q < length (limiters (lim s)) \<Longrightarrow> limiters l ! q = limiters (lim s) ! q"
    and ok: "sem_ok (lim s) k M (limiters l ! p)" "0 < ncalls (\<lambda>_. True) k M"
    and other: "\<And>P k'. k' \<noteq> k \<Longrightarrow> ncalls P k' M = ncalls P k' (lcalls s)"
    and calls: "\<And>c. c \<in># M \<Longrightarrow> c \<in># lcalls s \<and> ckey c \<noteq> k \<or> ckey c = k \<and> cptr c = p"
  shows "lim_inv (s\<lparr>lim := l, lcalls := M\<rparr>)"
proof -
  have "q < length (limiters l) \<and> sem_ok l k' M (limiters l ! q) \<and> 0 < ncalls (\<lambda>_. True) k' M"
    if q: "map_of (limitsByKey l) k' = Some q" for k' q
  proof (cases "k' = k")
    case True
    then have "q = p" using q L(1) by simp
    then show ?thesis using True len(2) ok sem_ok_cong [of k M M l "lim s"] params by simp
  next
    case False
    then have q': "map_of (limitsByKey (lim s)) k' = Some q" using q L(1) by simp
    then have "q \<noteq> p" using fresh [OF False] by blast
    then show ?thesis
      using lim_inv_entry [OF inv q'] len(1) same other [OF False] params
        sem_ok_cong [of k' M "lcalls s" l "lim s"] by (metis order_less_le_trans)
  qed
  moreover have "k1 = k2" if "map_of (limitsByKey l) k1 = Some q" "map_of (limitsByKey l) k2 = Some q" for k1 k2 q
    using that inv fresh by (auto simp: L(1) lim_inv_def split: if_splits)
  moreover have "map_of (limitsByKey l) (ckey c) = Some (cptr c)" if "c \<in># M" for c
    using calls [OF that] inv by (auto simp: L(1) lim_inv_def)
  ultimately show ?thesis using L(2) by (simp add: lim_inv_def)
qed

lemma lim_inv_unique:
  "lim_inv s \<Longrightarrow> map_of (limitsByKey (lim s)) k = Some p \<Longrightarrow> k' \<noteq> k \<Longrightarrow> map_of (limitsByKey (lim s)) k' \<noteq> Some p"
  unfolding lim_inv_def by blast

lemma lim_inv_ptr: "lim_inv s \<Longrightarrow> c \<in># lcalls s \<Longrightarrow> map_of (limitsByKey (lim s)) (ckey c) = Some (cptr c)"
  by (simp add: lim_inv_def)

lemma lim_inv_phase:
  assumes inv: "lim_inv s" and c: "lcalls s = add_mset c M"
    and ok: "sem_ok (lim s) (ckey c) (add_mset (c\<lparr>cphase := ph\<rparr>) M) sem"
  shows "lim_inv (s\<lparr>lim := set_sem (cptr c) sem (lim s), lcalls := add_mset (c\<lparr>cphase := ph\<rparr>) M\<rparr>)"
proof -
  have p: "map_of (limitsByKey (lim s)) (ckey c) = Some (cptr c)" using lim_inv_ptr [OF inv] c by simp
  note e = lim_inv_entry [OF inv p]
  have calls: "x \<in># lcalls s \<and> ckey x \<noteq> ckey c \<or> ckey x = ckey c \<and> cptr x = cptr c"
    if "x \<in># add_mset (c\<lparr>cphase := ph\<rparr>) M" for x
    using that lim_inv_ptr [OF inv, of x] p c by auto
  show ?thesis
    by (rule lim_inv_key [where k = "ckey c" and p = "cptr c"])
      (use inv p e ok calls c lim_inv_unique [OF inv p] in \<open>auto simp: lim_inv_def [of s]\<close>)
qed

lemma lim_inv_sem:
  assumes "lim_inv s" "lcalls s = add_mset c M"
  shows "sem_ok (lim s) (ckey c) (add_mset c M) (limiters (lim s) ! cptr c)"
    "map_of (limitsByKey (lim s)) (ckey c) = Some (cptr c)" "cptr c < length (limiters (lim s))"
  using assms by (auto simp: lim_inv_def)

lemma enqueue_ok:
  assumes "sem_ok l (ckey c) (add_mset c M) sem" "cphase c = Entering" "acquire_queue sem = Inr sem'"
  shows "sem_ok l (ckey c) (add_mset (c\<lparr>cphase := Queued\<rparr>) M) sem'"
  using assms by (auto simp: sem_ok_def acquire_queue_def chan_send_def split: if_splits option.splits)

lemma reject_ok:
  assumes "sem_ok l (ckey c) (add_mset c M) sem" "cphase c = Entering"
  shows "sem_ok l (ckey c) (add_mset (c\<lparr>cphase := Returning r\<rparr>) M) sem"
  using assms by (auto simp: sem_ok_def)

lemma admit_ok:
  assumes "sem_ok l (ckey c) (add_mset c M) sem" "cphase c = Queued" "acquire_token sem = Some sem'"
  shows "sem_ok l (ckey c) (add_mset (c\<lparr>cphase := Running\<rparr>) M) sem'"
  using assms by (auto simp: sem_ok_def acquire_token_def chan_send_def split: if_splits option.splits)

lemma give_up_ok:
  assumes "sem_ok l (ckey c) (add_mset c M) sem" "cphase c = Queued" "acquire_give_up sem = Some sem'"
  shows "sem_ok l (ckey c) (add_mset (c\<lparr>cphase := Returning r\<rparr>) M) sem'"
  using assms by (auto simp: sem_ok_def acquire_give_up_def chan_recv_def split: if_splits)

lemma finish_ok:
  assumes "sem_ok l (ckey c) (add_mset c M) sem" "cphase c = Running" "release_queue sem = Some sem'"
  shows "sem_ok l (ckey c) (add_mset (c\<lparr>cphase := Releasing\<rparr>) M) sem'"
  using assms by (auto simp: sem_ok_def release_queue_def chan_recv_def split: if_splits)

lemma released_ok:
  assumes "sem_ok l (ckey c) (add_mset c M) sem" "cphase c = Releasing" "release_token sem = Some sem'"
  shows "sem_ok l (ckey c) (add_mset (c\<lparr>cphase := Returning r\<rparr>) M) sem'"
  using assms by (auto simp: sem_ok_def release_token_def chan_recv_def split: if_splits)

lemma incref_simps [simp]:
  "limitsByKey (incref p c) = limitsByKey c" "maxConcurrencyLimit (incref p c) = maxConcurrencyLimit c"
  "maxQueueLength (incref p c) = maxQueueLength c"
  "limiters (incref p c) = (limiters c)[p := (limiters c ! p)\<lparr>refcount := refcount (limiters c ! p) + 1\<rparr>]"
  by (simp_all add: incref_def)

lemma start_ok:
  assumes "sem_ok l k M sem" "cphase c = Entering" "ckey c = k"
  shows "sem_ok l k (add_mset c M) (sem\<lparr>refcount := refcount sem + 1\<rparr>)"
  using assms by (auto simp: sem_ok_def)

lemma ncalls_zero:
  "lim_inv s \<Longrightarrow> map_of (limitsByKey (lim s)) k = None \<Longrightarrow> ncalls P k (lcalls s) = 0"
  by (auto simp: lim_inv_def ncalls_def filter_mset_eq_conv)

lemma lim_inv_start:
  assumes inv: "lim_inv s" and pos: "0 < maxConcurrencyLimit (lim s)"
    and g: "getConcurrencyLimit (lim s) k = (l, p)"
  shows "lim_inv (s\<lparr>lim := l, lcalls := add_mset \<lparr>ckey = k, cptr = p, cphase = Entering\<rparr> (lcalls s)\<rparr>)"
proof (cases "map_of (limitsByKey (lim s)) k")
  case None
  let ?l = "(lim s)\<lparr>limiters := limiters (lim s) @ [newKeyedLimiter (lim s)],
      limitsByKey := AList.update k p (limitsByKey (lim s))\<rparr>"
  have p: "p = length (limiters (lim s))" "l = incref p ?l"
    using g None by (auto simp: getConcurrencyLimit_def Let_def)
  have zero: "ncalls P k (lcalls s) = 0" for P by (rule ncalls_zero [OF inv None])
  have new: "sem_ok (lim s) k (lcalls s) (newKeyedLimiter (lim s))"
    using pos by (auto simp: sem_ok_def newKeyedLimiter_def zero)
  have ok: "sem_ok (lim s) k (add_mset \<lparr>ckey = k, cptr = p, cphase = Entering\<rparr> (lcalls s)) (limiters l ! p)"
    using start_ok [OF new, of "\<lparr>ckey = k, cptr = p, cphase = Entering\<rparr>"] p by simp
  have "map_of (limitsByKey (lim s)) k' \<noteq> Some p" for k'
    using lim_inv_entry [OF inv, of k' p] p(1) by auto
  moreover have "map_of (limitsByKey (lim s)) (ckey c) = Some (cptr c)" if "c \<in># lcalls s" for c
    using lim_inv_ptr [OF inv that] .
  ultimately show ?thesis
    by (intro lim_inv_key [where k = k and p = p])
      (use inv ok None p in \<open>auto simp: gm.get_set gm.invar_set nth_append lim_inv_def [of s]\<close>)
next
  case (Some q)
  then have p: "p = q" "l = incref q (lim s)" using g by (auto simp: getConcurrencyLimit_def)
  note e = lim_inv_entry [OF inv Some]
  have ok: "sem_ok (lim s) k (add_mset \<lparr>ckey = k, cptr = p, cphase = Entering\<rparr> (lcalls s)) (limiters l ! p)"
    using start_ok [of "lim s" k "lcalls s" _ "\<lparr>ckey = k, cptr = p, cphase = Entering\<rparr>"] e p by simp
  have calls: "c \<in># lcalls s \<and> ckey c \<noteq> k \<or> ckey c = k \<and> cptr c = p"
    if "c \<in># add_mset \<lparr>ckey = k, cptr = p, cphase = Entering\<rparr> (lcalls s)" for c
    using that lim_inv_ptr [OF inv, of c] Some p by auto
  show ?thesis
  proof (rule lim_inv_key [OF inv _ _ lim_inv_unique [OF inv Some, folded p(1)] _ _ _ _ _ ok])
    show "map_of (limitsByKey l) = (map_of (limitsByKey (lim s)))(k \<mapsto> p)"
      using Some p by (simp add: fun_upd_idem)
    show "wf_map (limitsByKey l)" using inv p by (simp add: lim_inv_def)
  qed (use p e calls in simp_all)
qed

lemma lim_inv_put:
  assumes inv: "lim_inv s" and c: "lcalls s = add_mset c M" "cphase c = Returning r"
    and l: "putConcurrencyLimit (lim s) (ckey c) = Inr l"
  shows "lim_inv (s\<lparr>lim := l, lcalls := M\<rparr>)"
proof -
  let ?k = "ckey c"
  let ?p = "cptr c"
  let ?sem = "limiters (lim s) ! ?p"
  let ?l = "set_sem ?p (?sem\<lparr>refcount := refcount ?sem - 1\<rparr>) (lim s)"
  have p: "map_of (limitsByKey (lim s)) ?k = Some ?p" using lim_inv_ptr [OF inv] c by simp
  note e = lim_inv_entry [OF inv p]
  have ref: "refcount ?sem = int (ncalls (\<lambda>_. True) ?k M) + 1" using e c by (simp add: sem_ok_def)
  have ok: "sem_ok (lim s) ?k M (?sem\<lparr>refcount := refcount ?sem - 1\<rparr>)"
    using e c by (auto simp: sem_ok_def)
  have calls: "x \<in># lcalls s" if "x \<in># M" for x using that c by simp
  show ?thesis
  proof (cases "ncalls (\<lambda>_. True) ?k M = 0")
    case False
    then have l': "l = ?l" using l p ref by (simp add: putConcurrencyLimit_def Let_def set_sem_def)
    have "x \<in># lcalls s \<and> ckey x \<noteq> ?k \<or> ckey x = ?k \<and> cptr x = ?p" if "x \<in># M" for x
      using lim_inv_ptr [OF inv calls [OF that]] calls [OF that] p by auto
    moreover have "map_of (limitsByKey l) = (map_of (limitsByKey (lim s)))(?k \<mapsto> ?p)" "wf_map (limitsByKey l)"
      using p l' inv by (simp_all add: fun_upd_idem lim_inv_def)
    ultimately show ?thesis
      using False ok e l' c by (intro lim_inv_key [OF inv _ _ lim_inv_unique [OF inv p]]) (simp_all, blast+)
  next
    case True
    then have l': "l = ?l\<lparr>limitsByKey := AList.delete ?k (limitsByKey (lim s))\<rparr>"
      using l p ref by (simp add: putConcurrencyLimit_def Let_def set_sem_def)
    have gone: "ckey x \<noteq> ?k" if "x \<in># M" for x
      using True that by (auto simp: ncalls_def)
    have "q < length (limiters l) \<and> sem_ok l k M (limiters l ! q) \<and> 0 < ncalls (\<lambda>_. True) k M"
      if q: "map_of (limitsByKey l) k = Some q" for k q
    proof -
      have k: "k \<noteq> ?k" "map_of (limitsByKey (lim s)) k = Some q"
        using q by (auto simp: l' gm.get_del split: if_splits)
      then have "q \<noteq> ?p" using lim_inv_unique [OF inv p] by blast
      moreover have n: "ncalls P k M = ncalls P k (lcalls s)" for P using c k(1) by simp
      ultimately show ?thesis
        using lim_inv_entry [OF inv k(2)] sem_ok_cong [OF n, of l "lim s"] n by (simp add: l')
    qed
    moreover have "map_of (limitsByKey l) (ckey x) = Some (cptr x)" if "x \<in># M" for x
      using gone [OF that] lim_inv_ptr [OF inv calls [OF that]] by (simp add: l' gm.get_del)
    moreover have "wf_map (limitsByKey l)" using inv by (simp add: l' gm.invar_del lim_inv_def)
    moreover have "k = k'" if "map_of (limitsByKey l) k = Some q" "map_of (limitsByKey l) k' = Some q" for k k' q
      using that lim_inv_unique [OF inv] by (auto simp: l' gm.get_del split: if_splits)
    ultimately show ?thesis by (simp add: lim_inv_def)
  qed
qed

lemma lim_inv_step:
  assumes "limit_step s ev s'" "lim_inv s"
  shows "lim_inv s'"
  using assms(1)
proof cases
  case (start k c' p)
  then show ?thesis using lim_inv_start [OF assms(2)] by simp
next
  case (reject c M e)
  have "lim_inv (s\<lparr>lim := set_sem (cptr c) (limiters (lim s) ! cptr c) (lim s),
      lcalls := add_mset (c\<lparr>cphase := Returning (Some e)\<rparr>) M\<rparr>)"
    using reject lim_inv_sem [OF assms(2)] by (intro lim_inv_phase [OF assms(2)] reject_ok) auto
  then show ?thesis using reject by (simp add: set_sem_def)
next
  case (enqueue c M sem)
  show ?thesis
    unfolding enqueue(2)
    by (rule lim_inv_phase [OF assms(2) enqueue(3)], rule enqueue_ok [OF lim_inv_sem(1) [OF assms(2) enqueue(3)]])
      (rule enqueue(4), rule enqueue(5))
next
  case (admit c M sem)
  show ?thesis
    unfolding admit(2)
    by (rule lim_inv_phase [OF assms(2) admit(3)], rule admit_ok [OF lim_inv_sem(1) [OF assms(2) admit(3)]])
      (rule admit(4), rule admit(5))
next
  case (give_up c M e sem)
  show ?thesis
    unfolding give_up(2)
    by (rule lim_inv_phase [OF assms(2) give_up(3)], rule give_up_ok [OF lim_inv_sem(1) [OF assms(2) give_up(3)]])
      (rule give_up(4), rule give_up(6))
next
  case (finish c M sem)
  show ?thesis
    unfolding finish(2)
    by (rule lim_inv_phase [OF assms(2) finish(3)], rule finish_ok [OF lim_inv_sem(1) [OF assms(2) finish(3)]])
      (rule finish(4), rule finish(5))
next
  case (released c M sem)
  show ?thesis
    unfolding released(2)
    by (rule lim_inv_phase [OF assms(2) released(3)], rule released_ok [OF lim_inv_sem(1) [OF assms(2) released(3)]])
      (rule released(4), rule released(5))
next
  case (put c M r c')
  show ?thesis unfolding put(2) by (rule lim_inv_put [OF assms(2) put(3,4,5)])
qed

interpretation lms: invariant_of limit_init limit_step lim_inv
proof unfold_locales
  show "lim_inv s" if "limit_init s" for s
    using that by (auto simp: limit_init_def lim_inv_def NewConcurrencyLimiter_def)
qed (rule lim_inv_step)

abbreviation limit_reachable :: "limit_sys \<Rightarrow> bool" where
  "limit_reachable \<equiv> reachable limit_init limit_step"

section \<open>Properties\<close>

lemma ncalls_mono: "(\<And>ph. P ph \<Longrightarrow> Q ph) \<Longrightarrow> ncalls P k M \<le> ncalls Q k M"
  by (induction M) auto


text \<open>A run with a limit of one call and a queue of one: a call enters, is queued and runs.\<close>

definition demo_call :: "phase \<Rightarrow> lcall" where
  "demo_call ph = \<lparr>ckey = ''k'', cptr = 0, cphase = ph\<rparr>"

definition demo_limit :: "nat \<Rightarrow> nat \<Rightarrow> phase \<Rightarrow> limit_sys" where
  "demo_limit tokens queue ph =
     \<lparr>lim = \<lparr>maxConcurrencyLimit = 1, maxQueueLength = 1, limitsByKey = [(''k'', 0)],
        limiters = [\<lparr>refcount = 1, concurrencyTokens = \<lparr>ch_len = tokens, ch_cap = 1\<rparr>,
                     queueTokens = Some \<lparr>ch_len = queue, ch_cap = 2\<rparr>\<rparr>]\<rparr>,
      lcalls = {#demo_call ph#}\<rparr>"

lemmas limit_eval = demo_limit_def demo_call_def getConcurrencyLimit_def incref_def newKeyedLimiter_def
  acquire_queue_def acquire_token_def chan_send_def set_sem_def NewConcurrencyLimiter_def

lemma demo_limit_start: "limit_reachable (demo_limit 0 0 Entering)"
proof -
  let ?s = "\<lparr>lim = NewConcurrencyLimiter 1 1, lcalls = {#}\<rparr>"
  have "limit_init ?s" by (auto simp: limit_init_def)
  then have "limit_reachable ?s" by (rule reach_init)
  moreover have "limit_step ?s (LStart ''k'')
      (?s\<lparr>lim := lim (demo_limit 0 0 Entering),
          lcalls := add_mset \<lparr>ckey = ''k'', cptr = 0, cphase = Entering\<rparr> (lcalls ?s)\<rparr>)"
    by (rule start) (simp_all add: limit_eval Let_def)
  ultimately show ?thesis
    by (auto simp: demo_limit_def demo_call_def dest: reach_step)
qed

lemma demo_limit_queued: "limit_reachable (demo_limit 0 1 Queued)"
proof -
  have "limit_step (demo_limit 0 0 Entering) (LEnqueue (demo_call Entering))
      (demo_limit 0 0 Entering\<lparr>lim := set_sem (cptr (demo_call Entering))
          (limiters (lim (demo_limit 0 1 Queued)) ! 0) (lim (demo_limit 0 0 Entering)),
        lcalls := add_mset (demo_call Entering\<lparr>cphase := Queued\<rparr>) {#}\<rparr>)"
    by (rule enqueue) (simp_all add: limit_eval)
  with demo_limit_start show ?thesis by (auto simp: limit_eval dest: reach_step)
qed

lemma demo_limit_running: "limit_reachable (demo_limit 1 1 Running)"
proof -
  have "limit_step (demo_limit 0 1 Queued) (LAdmit (demo_call Queued))
      (demo_limit 0 1 Queued\<lparr>lim := set_sem (cptr (demo_call Queued))
          (limiters (lim (demo_limit 1 1 Running)) ! 0) (lim (demo_limit 0 1 Queued)),
        lcalls := add_mset (demo_call Queued\<lparr>cphase := Running\<rparr>) {#}\<rparr>)"
    by (rule admit) (simp_all add: limit_eval)
  with demo_limit_queued show ?thesis by (auto simp: limit_eval dest: reach_step)
qed


text \<open>C11: The bookkeeping never goes wrong, in any reachable state: a call that returns finds its limiter
  with a positive reference count, so that neither panic of \<open>putConcurrencyLimit\<close> can occur, and the
  receive operations of \<open>release\<close> and of a call that leaves the queue never block.\<close>

theorem no_panic_no_block:
  assumes r: "limit_reachable s" and c: "c \<in># lcalls s"
  shows "(\<exists>l. putConcurrencyLimit (lim s) (ckey c) = Inr l) \<and>
    (cphase c = Queued \<longrightarrow> acquire_give_up (limiters (lim s) ! cptr c) \<noteq> None) \<and>
    (cphase c = Running \<longrightarrow> release_queue (limiters (lim s) ! cptr c) \<noteq> None) \<and>
    (cphase c = Releasing \<longrightarrow> release_token (limiters (lim s) ! cptr c) \<noteq> None)"
proof -
  obtain M where M: "lcalls s = add_mset c M" using c by (metis mset_add)
  note ok = lim_inv_sem [OF lms.reachable_inv [OF r] M]
  show ?thesis
    using ok
    by (auto simp: sem_ok_def putConcurrencyLimit_def Let_def acquire_give_up_def release_queue_def
        release_token_def chan_recv_def split: if_splits)
qed

theorem no_panic_no_block_witness:
  "release_queue (limiters (lim (demo_limit 1 1 Running)) ! 0) \<noteq> None"
  using no_panic_no_block [OF demo_limit_running, of "demo_call Running"]
  by (simp add: demo_limit_def demo_call_def)

text \<open>Limiters are kept exactly for the keys with a call in flight, so that their number does not
  grow with the keys ever used.\<close>

theorem limiters_evicted:
  assumes "limit_reachable s"
  shows "fst ` set (limitsByKey (lim s)) = ckey ` set_mset (lcalls s) \<and>
    countSemaphores (lim s) = card (ckey ` set_mset (lcalls s))"
proof -
  have inv: "lim_inv s" using assms by (rule lms.reachable_inv)
  have "k \<in> fst ` set (limitsByKey (lim s)) \<longleftrightarrow> k \<in> ckey ` set_mset (lcalls s)" for k
  proof
    assume "k \<in> fst ` set (limitsByKey (lim s))"
    then obtain p where "map_of (limitsByKey (lim s)) k = Some p"
      by (metis domD dom_map_of_conv_image_fst)
    then have "0 < ncalls (\<lambda>_. True) k (lcalls s)" using lim_inv_entry [OF inv] by blast
    then obtain c where "c \<in># lcalls s" "ckey c = k"
      by (auto simp: ncalls_def nonempty_has_size [symmetric])
    then show "k \<in> ckey ` set_mset (lcalls s)" by blast
  next
    assume "k \<in> ckey ` set_mset (lcalls s)"
    then show "k \<in> fst ` set (limitsByKey (lim s))"
      using lim_inv_ptr [OF inv] by (metis imageE dom_map_of_conv_image_fst domI)
  qed
  then have eq: "fst ` set (limitsByKey (lim s)) = ckey ` set_mset (lcalls s)" by blast
  have "distinct (map fst (limitsByKey (lim s)))" using inv by (simp add: lim_inv_def wf_map_def)
  then have "length (limitsByKey (lim s)) = card (fst ` set (limitsByKey (lim s)))"
    by (metis distinct_card length_map list.set_map)
  then show ?thesis using eq by (simp add: countSemaphores_def)
qed

theorem limiters_evicted_witness:
  "countSemaphores (lim (demo_limit 1 1 Running)) = 1"
  using limiters_evicted [OF demo_limit_running] by (simp add: demo_limit_def demo_call_def)

text \<open>A call is rejected at the queue only when the queue is full, and a queued call gets its token as
  soon as fewer than \<open>maxConcurrencyLimit\<close> calls hold one.\<close>

theorem queue_admission:
  assumes r: "limit_reachable s" and c: "c \<in># lcalls s"
  shows "(cphase c = Entering \<longrightarrow>
      (acquire_queue (limiters (lim s) ! cptr c) = Inl ErrMaxQueueSize \<longleftrightarrow>
         0 < maxQueueLength (lim s) \<and>
         int (ncalls holds_queue (ckey c) (lcalls s)) = maxConcurrencyLimit (lim s) + maxQueueLength (lim s))) \<and>
    (acquire_token (limiters (lim s) ! cptr c) \<noteq> None \<longleftrightarrow>
       int (ncalls holds_token (ckey c) (lcalls s)) < maxConcurrencyLimit (lim s))"
proof -
  have "sem_ok (lim s) (ckey c) (lcalls s) (limiters (lim s) ! cptr c)"
    using lim_inv_entry [OF lms.reachable_inv [OF r] lim_inv_ptr [OF lms.reachable_inv [OF r] c]] by simp
  then show ?thesis
    by (auto simp: sem_ok_def acquire_queue_def acquire_token_def chan_send_def)
qed

theorem queue_admission_witness:
  "acquire_token (limiters (lim (demo_limit 0 1 Queued)) ! 0) \<noteq> None"
  using queue_admission [OF demo_limit_queued, of "demo_call Queued"]
  by (simp add: demo_limit_def demo_call_def)

end
