(* ===== verification/Pktline.thy ===== *)
theory Pktline
  imports Strconv
begin

text \<open>
  Git's pkt-line framing, \<open>internal/git/pktline/pktline.go\<close>. An \<open>io.Writer\<close> is a state \<open>'w\<close> with a write
  function, which is an argument; \<open>buf_write\<close> is the one of \<open>bytes.Buffer\<close>. \<open>scan\<close> is the loop of
  \<open>bufio.Scanner\<close> with the splitter of this file: the reader hands out its data in chunks of any size, and
  the end of input is only seen when the chunks are used up. The scanner's buffer is as large as the
  largest packet, so that it never runs full before the splitter finds a packet.
\<close>

section \<open>State\<close>

definition MaxPktSize :: nat where
  "MaxPktSize = 65520"

definition MaxSidebandData :: nat where
  "MaxSidebandData = MaxPktSize - 5"

datatype pkt_error =
    PacketTooSmall | FlushHasNoPayload | ParsingHeader num_error | LengthMismatch nat nat
  | StringTooLarge nat | IncompletePrefix bytes | DecodeLength num_error | InvalidLength int
  | UnexpectedEOF | NotSideband bytes

type_synonym ('w, 'e) writer = "'w \<Rightarrow> bytes \<Rightarrow> 'w \<times> 'e option"

definition buf_write :: "(bytes, 'e) writer" where
  "buf_write w bs = (w @ bs, None)"

section \<open>Packets\<close>

definition PktDone :: bytes where
  "PktDone = ''0009done'' @ [CHR 0x0A]"

definition PktDelim :: bytes where
  "PktDelim = ''0001''"

definition PktFlush :: bytes where
  "PktFlush = ''0000''"

definition IsFlush :: "bytes \<Rightarrow> bool" where
  "IsFlush pkt \<longleftrightarrow> pkt = PktFlush"

text \<open>\<open>Data\<close> panics on a packet of fewer than four bytes.\<close>

definition Data :: "bytes \<Rightarrow> bytes option" where
  "Data pkt = (if length pkt < 4 then None else Some (drop 4 pkt))"

definition Payload :: "bytes \<Rightarrow> (pkt_error, bytes) res" where
  "Payload pkt =
     (if length pkt < 4 then Inl PacketTooSmall
      else if IsFlush pkt then Inl FlushHasNoPayload
      else case ParseUint16 (take 4 pkt) 16 of
             Inl e \<Rightarrow> Inl (ParsingHeader e)
           | Inr len \<Rightarrow>
               if length pkt \<noteq> len then Inl (LengthMismatch (length pkt) len)
               else Inr (drop 4 pkt))"

section \<open>Writing\<close>

definition WriteString :: "('w, 'e) writer \<Rightarrow> 'w \<Rightarrow> string \<Rightarrow> 'w \<times> nat \<times> (pkt_error + 'e) option" where
  "WriteString write w str =
     (let pktLen = length str + 4 in
      if pktLen > MaxPktSize then (w, 0, Some (Inl (StringTooLarge (length str))))
      else let (w', err) = write w (hex04 pktLen @ str) in (w', length str, map_option Inr err))"

definition WriteFlush :: "('w, 'e) writer \<Rightarrow> 'w \<Rightarrow> 'w \<times> 'e option" where
  "WriteFlush write w = write w PktFlush"

definition WriteDelim :: "('w, 'e) writer \<Rightarrow> 'w \<Rightarrow> 'w \<times> 'e option" where
  "WriteDelim write w = write w PktDelim"

text \<open>\<open>SidebandWriter\<close> assembles a packet in an array of \<open>MaxPktSize\<close> bytes and writes a prefix of it that it
  has just filled; what is left of earlier packets in the array is never written, so the packet is
  built directly here. The result is the number of bytes accepted and the writer's error.\<close>

function writeBand :: "('w, 'e) writer \<Rightarrow> 'w \<Rightarrow> char \<Rightarrow> bytes \<Rightarrow> 'w \<times> nat \<times> 'e option" where
  "writeBand write w band d =
     (if d = [] then (w, 0, None)
      else
        (let headerSize = 5;
             chunkSize = min (MaxPktSize - headerSize) (length d);
             header = chunkSize + headerSize
         in case write w (hex04 header @ band # take chunkSize d) of
              (w', Some err) \<Rightarrow> (w', 0, Some err)
            | (w', None) \<Rightarrow>
                (let (w'', n, err) = writeBand write w' band (drop chunkSize d)
                 in (w'', chunkSize + n, err))))"
  by pat_completeness auto
termination
  by (relation "measure (\<lambda>(write, w, band, d). length d)") (auto simp: MaxPktSize_def)

declare writeBand.simps [simp del]

section \<open>Scanning\<close>

text \<open>\<open>Inr None\<close> asks for more data.\<close>

definition pktLineSplitter :: "bytes \<Rightarrow> bool \<Rightarrow> (pkt_error, (nat \<times> bytes) option) res" where
  "pktLineSplitter d atEOF =
     (if length d < 4 then
        if atEOF \<and> length d > 0 then Inl (IncompletePrefix d) else Inr None
      else case ParseInt16 (take 4 d) of
        Inl e \<Rightarrow> Inl (DecodeLength e)
      | Inr pktLength \<Rightarrow>
          if pktLength < 0 \<or> pktLength > int MaxPktSize then Inl (InvalidLength pktLength)
          else if pktLength < 4 then Inr (Some (4, take 4 d))
          else if length d < nat pktLength then
            if atEOF then Inl UnexpectedEOF else Inr None
          else Inr (Some (nat pktLength, take (nat pktLength) d)))"

lemma pktLineSplitter_token:
  "pktLineSplitter d eof = Inr (Some (adv, tok)) \<Longrightarrow> 4 \<le> adv \<and> adv \<le> length d \<and> tok = take adv d"
  by (auto simp: pktLineSplitter_def split: if_splits sum.splits)

function scan :: "bytes \<Rightarrow> bytes list \<Rightarrow> bool \<Rightarrow> bytes list \<times> pkt_error option" where
  "scan d chunks eof =
     (case pktLineSplitter d eof of
        Inl e \<Rightarrow> ([], Some e)
      | Inr (Some (adv, tok)) \<Rightarrow> (let (toks, e) = scan (drop adv d) chunks eof in (tok # toks, e))
      | Inr None \<Rightarrow>
          if eof then ([], None)
          else (case chunks of
                  [] \<Rightarrow> scan d [] True
                | c # cs \<Rightarrow> scan (d @ c) cs eof))"
  by pat_completeness auto
termination
  by (relation "measure (\<lambda>(d, cs, eof). length d + length (concat cs) + length cs + (if eof then 0 else 1))")
    (auto dest: pktLineSplitter_token)

declare scan.simps [simp del]

definition NewScanner :: "bytes list \<Rightarrow> bytes list \<times> pkt_error option" where
  "NewScanner chunks = scan [] chunks False"

text \<open>The packets up to the first one that is empty or that the callback rejects.\<close>

fun each_packet ::
    "('s \<Rightarrow> char \<Rightarrow> bytes \<Rightarrow> 's \<times> 'e option) \<Rightarrow> 's \<Rightarrow> bytes list \<Rightarrow> pkt_error option
     \<Rightarrow> 's \<times> (pkt_error + 'e) option" where
  "each_packet fn st [] err = (st, map_option Inl err)"
| "each_packet fn st (pkt # pkts) err =
     (case drop 4 pkt of
        [] \<Rightarrow> (st, Some (Inl (NotSideband pkt)))
      | band # d \<Rightarrow>
         (case fn st band d of
            (st', Some e) \<Rightarrow> (st', Some (Inr e))
          | (st', None) \<Rightarrow> each_packet fn st' pkts err))"

definition EachSidebandPacket ::
    "bytes list \<Rightarrow> ('s \<Rightarrow> char \<Rightarrow> bytes \<Rightarrow> 's \<times> 'e option) \<Rightarrow> 's \<Rightarrow> 's \<times> (pkt_error + 'e) option" where
  "EachSidebandPacket chunks fn st = (let (pkts, err) = NewScanner chunks in each_packet fn st pkts err)"

section \<open>Splitting does not depend on the chunks\<close>

lemma pktLineSplitter_more:
  "pktLineSplitter d False = Inr (Some (adv, tok)) \<Longrightarrow> pktLineSplitter (d @ x) eof = Inr (Some (adv, tok))"
  by (auto simp: pktLineSplitter_def split: if_splits sum.splits)

lemma pktLineSplitter_error:
  "pktLineSplitter d False = Inl e \<Longrightarrow> pktLineSplitter (d @ x) eof = Inl e"
  by (auto simp: pktLineSplitter_def split: if_splits sum.splits)

lemma scan_chunks: "scan d chunks eof = scan (d @ concat (if eof then [] else chunks)) [] True"
proof (induction d chunks eof rule: scan.induct)
  case (1 d chunks eof)
  show ?case
  proof (cases eof)
    case True
    have "scan (drop adv d) chunks eof = scan (drop adv d) [] eof"
      if "pktLineSplitter d eof = Inr (Some (adv, tok))" for adv tok
      using 1(3) [OF that refl refl] True by simp
    then show ?thesis
      using True by (subst (1 2) scan.simps) (simp split: sum.split option.split prod.split)
  next
    case False
    let ?all = "d @ concat chunks"
    show ?thesis
    proof (cases "pktLineSplitter d eof")
      case (Inl e)
      then show ?thesis
        using False pktLineSplitter_error [of d e "concat chunks" True]
        by (subst (1 2) scan.simps) simp
    next
      case (Inr r)
      show ?thesis
      proof (cases r)
        case None
        show ?thesis
        proof (cases chunks)
          case Nil
          then show ?thesis using Inr None False by (subst scan.simps) simp
        next
          case (Cons c cs)
          then show ?thesis using Inr None False 1(2) [OF Inr None _ Cons] by (subst scan.simps) simp
        qed
      next
        case (Some p)
        obtain adv tok where p: "p = (adv, tok)" by (cases p)
        have tok: "pktLineSplitter d False = Inr (Some (adv, tok))" using Inr Some p False by simp
        have "adv \<le> length d" using pktLineSplitter_token [OF tok] by simp
        then have "drop adv ?all = drop adv d @ concat chunks" by simp
        then show ?thesis
          using 1(3) [OF Inr Some p [symmetric]] False pktLineSplitter_more [OF tok, of "concat chunks" True] tok
          by (subst (1 2) scan.simps) simp
      qed
    qed
  qed
qed

section \<open>Round trips\<close>

lemma take_hex04 [simp]: "n < 65536 \<Longrightarrow> take 4 (hex04 n @ xs) = hex04 n"
  by simp

lemma splitter_packet:
  assumes "4 \<le> n" "n \<le> MaxPktSize" "length body = n - 4"
  shows "pktLineSplitter (hex04 n @ body @ rest) eof = Inr (Some (n, hex04 n @ body))"
proof -
  have n: "n < 65536" using assms(2) by (simp add: MaxPktSize_def)
  then show ?thesis
    using assms ParseInt16_hex04 [OF n] by (simp add: pktLineSplitter_def)
qed

lemma scan_packet:
  assumes "4 \<le> n" "n \<le> MaxPktSize" "length body = n - 4"
  shows "scan (hex04 n @ body @ rest) [] True =
    (let (toks, e) = scan rest [] True in ((hex04 n @ body) # toks, e))"
proof -
  have "n < 65536" using assms(2) by (simp add: MaxPktSize_def)
  then have "drop n (hex04 n @ body @ rest) = rest" using assms by simp
  then show ?thesis
    by (subst scan.simps) (simp add: splitter_packet [OF assms])
qed

lemma scan_end: "scan [] [] True = ([], None)"
  by (subst scan.simps) (simp add: pktLineSplitter_def)

definition packet :: "string \<Rightarrow> bytes" where
  "packet str = hex04 (length str + 4) @ str"

lemma scan_packets:
  "list_all (\<lambda>str. length str + 4 \<le> MaxPktSize) strs \<Longrightarrow>
   scan (concat (map packet strs)) [] True = (map packet strs, None)"
proof (induction strs)
  case (Cons str strs)
  then show ?case using scan_packet [of "length str + 4" str] by (simp add: packet_def)
qed (simp add: scan_end)

lemma WriteString_buf:
  "length str + 4 \<le> MaxPktSize \<Longrightarrow> WriteString buf_write w str = (w @ packet str, length str, None)"
  by (simp add: WriteString_def buf_write_def packet_def Let_def)

lemma packet_not_flush: "length str + 4 < 65536 \<Longrightarrow> packet str \<noteq> PktFlush"
proof
  assume len: "length str + 4 < 65536" and eq: "packet str = PktFlush"
  have "length (packet str) = 4" by (simp add: eq PktFlush_def)
  then have "str = []" using len by (simp add: packet_def)
  then have "packet str = ''0004''" by (simp add: packet_def hex04_def hexstr.simps hexdigit_def numeral_3_eq_3)
  then show False using eq by (simp add: PktFlush_def)
qed

lemma Payload_packet:
  assumes "length str + 4 \<le> MaxPktSize"
  shows "Payload (packet str) = Inr str"
proof -
  have n: "length str + 4 < 65536" using assms by (simp add: MaxPktSize_def)
  have len: "length (packet str) = length str + 4" "take 4 (packet str) = hex04 (length str + 4)"
      "drop 4 (packet str) = str"
    using n by (simp_all add: packet_def)
  show ?thesis
    using packet_not_flush [OF n] ParseUint16_hex04 [OF n] len by (simp add: Payload_def IsFlush_def)
qed

text \<open>Writing strings one after the other.\<close>

fun write_all :: "bytes \<Rightarrow> string list \<Rightarrow> bytes" where
  "write_all w [] = w"
| "write_all w (str # strs) = write_all (fst (WriteString (buf_write :: (bytes, unit) writer) w str)) strs"

lemma write_all_packets:
  "list_all (\<lambda>str. length str + 4 \<le> MaxPktSize) strs \<Longrightarrow> write_all w strs = w @ concat (map packet strs)"
  by (induction strs arbitrary: w) (simp_all add: WriteString_buf)

section \<open>Properties\<close>

text \<open>C12: What is written with \<open>WriteString\<close> is read back: when the strings fit into packets, the scanner
  returns one packet per string without an error, and \<open>Payload\<close> of each packet is the string, however the
  reader cuts the stream into chunks.\<close>

theorem pktline_roundtrip:
  assumes "list_all (\<lambda>str. length str + 4 \<le> MaxPktSize) strs" and "concat chunks = write_all [] strs"
  shows "\<exists>pkts. NewScanner chunks = (pkts, None) \<and> map Payload pkts = map Inr strs"
proof -
  have "NewScanner chunks = (map packet strs, None)"
    using scan_chunks [of "[]" chunks False] assms scan_packets [OF assms(1)] write_all_packets [OF assms(1)]
    by (simp add: NewScanner_def)
  moreover have "map Payload (map packet strs) = map Inr strs"
    using assms(1) by (simp add: list_all_iff Payload_packet)
  ultimately show ?thesis by blast
qed

theorem pktline_roundtrip_witness:
  "\<exists>pkts. NewScanner [''000'', ''9hello0'', ''004''] = (pkts, None) \<and> map Payload pkts = [Inr ''hello'', Inr []]"
proof -
  have "concat [''000'', ''9hello0'', ''004''] = write_all [] [''hello'', []]"
    by (simp add: WriteString_def buf_write_def MaxPktSize_def hex04_def hexstr.simps hexdigit_def numeral_3_eq_3)
  from pktline_roundtrip [OF _ this] show ?thesis by (simp add: MaxPktSize_def)
qed

lemma scan_lossless: "scan d [] True = (toks, None) \<Longrightarrow> concat toks = d"
proof (induction d "[] :: bytes list" True arbitrary: toks rule: scan.induct)
  case (1 d)
  note eq = 1(4)
  show ?case
  proof (cases "pktLineSplitter d True")
    case (Inr r)
    show ?thesis
    proof (cases r)
      case None
      then have "d = []" using Inr by (auto simp: pktLineSplitter_def split: if_splits sum.splits)
      then show ?thesis using eq Inr None by (subst (asm) scan.simps) simp
    next
      case (Some p)
      obtain adv tok where p: "p = (adv, tok)" by (cases p)
      obtain rest where rest: "scan (drop adv d) [] True = (rest, None)" "toks = tok # rest"
        using eq Inr Some p by (subst (asm) scan.simps) (auto split: prod.splits)
      have "tok = take adv d" using pktLineSplitter_token [of d True adv tok] Inr Some p by simp
      then show ?thesis using 1(3) [OF Inr Some p [symmetric] rest(1)] rest(2) by simp
    qed
  qed (use eq in \<open>subst (asm) scan.simps, simp\<close>)
qed

text \<open>C13: Scanning does not depend on how the reader cuts the stream into chunks, and a stream that is
  scanned without an error is the concatenation of its packets: no byte is lost or repeated.\<close>

theorem scan_chunk_independent:
  "NewScanner chunks = NewScanner [concat chunks] \<and>
   (snd (NewScanner chunks) = None \<longrightarrow> concat (fst (NewScanner chunks)) = concat chunks)"
proof -
  have eq: "NewScanner cs = scan (concat cs) [] True" for cs
    using scan_chunks [of "[]" cs False] by (simp add: NewScanner_def)
  have "concat (fst (NewScanner chunks)) = concat chunks" if "snd (NewScanner chunks) = None"
    using that scan_lossless [of "concat chunks" "fst (NewScanner chunks)"] by (metis eq prod.collapse)
  then show ?thesis by (simp add: eq)
qed

theorem scan_chunk_independent_witness:
  "NewScanner [''00'', ''0600'', ''0000''] = NewScanner [''000600000'' @ ''0''] \<and>
   concat (fst (NewScanner [''00'', ''0600'', ''0000''])) = ''0006000000''"
proof -
  have "snd (NewScanner [''0006000000'']) = None"
    by (simp add: NewScanner_def scan.simps pktLineSplitter_def ParseInt16_def ParseUint16_def hexval_def MaxPktSize_def)
  then show ?thesis using scan_chunk_independent [of "[''00'', ''0600'', ''0000'']"] by auto
qed

section \<open>Sidebands\<close>

text \<open>A callback that collects the data of every band.\<close>

definition collect_band :: "(char \<Rightarrow> bytes) \<Rightarrow> char \<Rightarrow> bytes \<Rightarrow> (char \<Rightarrow> bytes) \<times> unit option" where
  "collect_band st band d = (st(band := st band @ d), None)"

fun write_bands :: "bytes \<Rightarrow> (char \<times> bytes) list \<Rightarrow> bytes" where
  "write_bands w [] = w"
| "write_bands w ((band, d) # ws) =
     write_bands (fst (writeBand (buf_write :: (bytes, unit) writer) w band d)) ws"

text \<open>Demultiplexing the stream that is left to read.\<close>

definition demux :: "(char \<Rightarrow> bytes) \<Rightarrow> bytes \<Rightarrow> (char \<Rightarrow> bytes) \<times> (pkt_error + unit) option" where
  "demux st d = (let (pkts, err) = scan d [] True in each_packet collect_band st pkts err)"

lemma demux_packet:
  assumes "d \<noteq> []" "length d \<le> MaxSidebandData"
  shows "demux st (hex04 (length d + 5) @ (band # d) @ rest) = demux (st(band := st band @ d)) rest"
proof -
  have n: "length d + 5 \<le> MaxPktSize" using assms(2) by (simp add: MaxSidebandData_def MaxPktSize_def)
  then have "length (hex04 (length d + 5)) = 4" by (simp add: MaxPktSize_def)
  then have drop4: "drop 4 (hex04 (length d + 5) @ band # d) = band # d" by simp
  show ?thesis
    using scan_packet [of "length d + 5" "band # d" rest] n drop4
    by (simp add: demux_def collect_band_def split: prod.split)
qed

lemma writeBand_buf:
  "\<exists>out. writeBand buf_write w band d = (w @ out, length d, (None :: unit option)) \<and>
     (\<forall>st rest. demux st (out @ rest) = demux (st(band := st band @ d)) rest)"
proof (induction d arbitrary: w rule: length_induct)
  case (1 d)
  show ?case
  proof (cases "d = []")
    case True
    then show ?thesis by (subst writeBand.simps) (auto intro!: exI [of _ "[]"])
  next
    case False
    let ?n = "min (MaxPktSize - 5) (length d)"
    let ?pkt = "hex04 (?n + 5) @ band # take ?n d"
    have n: "0 < ?n" "length (take ?n d) = ?n" "?n \<le> MaxSidebandData"
      using False by (simp_all add: MaxPktSize_def MaxSidebandData_def)
    have "length (drop ?n d) < length d" using n(1) False by (simp add: MaxPktSize_def)
    then obtain out where out: "writeBand buf_write (w @ ?pkt) band (drop ?n d) =
        ((w @ ?pkt) @ out, length (drop ?n d), (None :: unit option))"
      and rest: "\<And>st rest. demux st (out @ rest) = demux (st(band := st band @ drop ?n d)) rest"
      using 1 by meson
    have "writeBand buf_write w band d = (w @ (?pkt @ out), length d, (None :: unit option))"
      using False out by (subst writeBand.simps) (simp add: buf_write_def Let_def)
    moreover have "demux st ((?pkt @ out) @ r) = demux (st(band := st band @ d)) r" for st r
    proof -
      have "demux st (?pkt @ (out @ r)) = demux (st(band := st band @ take ?n d)) (out @ r)"
        using demux_packet [of "take ?n d" st band "out @ r"] n by (metis append.assoc append_Cons length_greater_0_conv)
      also have "\<dots> = demux (st(band := st band @ d)) r"
        unfolding rest by (simp add: append.assoc [symmetric] del: append.assoc)
      finally show ?thesis by simp
    qed
    ultimately show ?thesis by blast
  qed
qed

lemma write_bands_demux:
  "\<exists>out. write_bands w ws = w @ out \<and>
     (\<forall>st rest. demux st (out @ rest) = demux (\<lambda>b. st b @ concat [d. (b', d) \<leftarrow> ws, b' = b]) rest)"
proof (induction ws arbitrary: w)
  case Nil
  then show ?case by simp
next
  case (Cons x ws)
  obtain band d where x: "x = (band, d)" by (cases x)
  obtain out1 where out1: "writeBand buf_write w band d = (w @ out1, length d, (None :: unit option))"
    "\<And>st rest. demux st (out1 @ rest) = demux (st(band := st band @ d)) rest"
    using writeBand_buf [of w band d] by blast
  obtain out2 where out2: "write_bands (w @ out1) ws = (w @ out1) @ out2"
    "\<And>st rest. demux st (out2 @ rest) = demux (\<lambda>b. st b @ concat [d. (b', d) \<leftarrow> ws, b' = b]) rest"
    using Cons [of "w @ out1"] by blast
  have "demux st ((out1 @ out2) @ rest) = demux (\<lambda>b. st b @ concat [d. (b', d) \<leftarrow> x # ws, b' = b]) rest" for st rest
  proof -
    have "(\<lambda>b. (st(band := st band @ d)) b @ concat [d. (b', d) \<leftarrow> ws, b' = b]) =
        (\<lambda>b. st b @ concat [d. (b', d) \<leftarrow> x # ws, b' = b])"
      by (auto simp: x)
    then show ?thesis by (simp add: out1(2) out2(2))
  qed
  then show ?case using out1 out2 x by (intro exI [of _ "out1 @ out2"]) simp
qed

text \<open>Multiplexing over sidebands loses nothing: after any sequence of writes to any bands, reading the
  stream, in whatever chunks, hands every band exactly the bytes written to it in their order, with no
  error. A write accepts all its data however long it is.\<close>

theorem sideband_roundtrip:
  assumes "concat chunks = write_bands [] ws"
  shows "EachSidebandPacket chunks collect_band (\<lambda>_. []) = (\<lambda>b. concat [d. (b', d) \<leftarrow> ws, b' = b], None) \<and>
    fst (snd (writeBand (buf_write :: (bytes, unit) writer) w band d)) = length d"
proof -
  obtain out where out: "write_bands [] ws = out"
    "\<And>st rest. demux st (out @ rest) = demux (\<lambda>b. st b @ concat [d. (b', d) \<leftarrow> ws, b' = b]) rest"
    using write_bands_demux [of "[]" ws] by auto
  have "EachSidebandPacket chunks collect_band (\<lambda>_. []) = demux (\<lambda>_. []) (out @ [])"
    using scan_chunks [of "[]" chunks False] assms out(1)
    by (simp add: EachSidebandPacket_def NewScanner_def demux_def)
  also have "\<dots> = (\<lambda>b. concat [d. (b', d) \<leftarrow> ws, b' = b], None)"
    unfolding out(2) by (simp add: demux_def scan_end)
  finally show ?thesis using writeBand_buf [of w band d] by auto
qed

definition demo_writes :: "(char \<times> bytes) list" where
  "demo_writes = [(CHR 0x01, ''hello''), (CHR 0x02, ''progress''), (CHR 0x01, ''!'')]"

theorem sideband_roundtrip_witness:
  "EachSidebandPacket [write_bands [] demo_writes] collect_band (\<lambda>_. []) =
     (\<lambda>b. concat [d. (b', d) \<leftarrow> demo_writes, b' = b], None) \<and>
   concat [d. (b', d) \<leftarrow> demo_writes, b' = CHR 0x01] = ''hello!''"
proof
  show "EachSidebandPacket [write_bands [] demo_writes] collect_band (\<lambda>_. []) =
      (\<lambda>b. concat [d. (b', d) \<leftarrow> demo_writes, b' = b], None)"
    by (rule sideband_roundtrip [THEN conjunct1]) simp
qed (simp add: demo_writes_def)

end
