(* ===== verification/ConflictParser.thy ===== *)
theory ConflictParser
  imports Strconv
begin

text \<open>
  The parser and resolver for files with merge conflicts, \<open>internal/git/conflict/parser.go\<close>. SHA-1 is a
  parameter. The scanner over lines is \<open>scan_lines\<close>: it sees the whole input, since \<open>bufio.Scanner\<close> hands
  the split function data until it finds a line, the input ends or a buffer of \<open>fileLimit\<close> bytes is full.
  The line counters are bounded by the file limit, so natural numbers stand for \<open>uint\<close>.
\<close>

section \<open>State\<close>

datatype parse_error = ErrUnmergeableFile | ErrUnexpectedDelimiter | ErrMissingEndDelimiter

datatype csection = sectionNone | sectionOld | sectionNew | sectionNoNewline

definition fileLimit :: nat where
  "fileLimit = 200 * 2 ^ 10"

record line =
  objIndex :: nat
  oldIndex :: nat
  newIndex :: nat
  payload :: string
  section_of :: csection

record Entry =
  Path :: string
  Mode :: nat
  Contents :: bytes

record File =
  path :: string
  f_lines :: "line list"
  ancestor :: "Entry option"
  our :: Entry
  their :: Entry

record Resolution =
  OldPath :: string
  NewPath :: string
  Sections :: "(string, string) gomap"
  Content :: string

abbreviation newline :: char where
  "newline \<equiv> CHR 0x0A"

section \<open>Resolving\<close>

definition sectionID :: "(bytes \<Rightarrow> bytes) \<Rightarrow> File \<Rightarrow> line \<Rightarrow> string" where
  "sectionID sha1 f l =
     EncodeToString (sha1 (path f)) @ ''_'' @ decstr (oldIndex l) @ ''_'' @ decstr (newIndex l)"

text \<open>The loop of \<open>Resolve\<close>, with the section id it carries along; an error is the missing id.\<close>

fun resolve_lines ::
    "(line \<Rightarrow> string) \<Rightarrow> (string, string) gomap \<Rightarrow> string \<Rightarrow> line list \<Rightarrow> (string, string list) res" where
  "resolve_lines secID sections curID [] = Inr []"
| "resolve_lines secID sections curID (l # ls) =
     (if section_of l = sectionNone then
        (case resolve_lines secID sections [] ls of Inl e \<Rightarrow> Inl e | Inr out \<Rightarrow> Inr (payload l # out))
      else
        (let curID = (if curID = [] then secID l else curID) in
         case map_of sections curID of
           None \<Rightarrow> Inl curID
         | Some r \<Rightarrow>
             if r = ''head'' then
               if section_of l \<noteq> sectionNew then resolve_lines secID sections curID ls
               else (case resolve_lines secID sections curID ls of
                       Inl e \<Rightarrow> Inl e | Inr out \<Rightarrow> Inr (payload l # out))
             else if r = ''origin'' then
               if section_of l \<noteq> sectionOld then resolve_lines secID sections curID ls
               else (case resolve_lines secID sections curID ls of
                       Inl e \<Rightarrow> Inl e | Inr out \<Rightarrow> Inr (payload l # out))
             else Inl curID))"

definition Resolve :: "(bytes \<Rightarrow> bytes) \<Rightarrow> File \<Rightarrow> Resolution \<Rightarrow> (string, bytes) res" where
  "Resolve sha1 f resolution =
     (if length (Sections resolution) = 0 then Inr (Content resolution)
      else case resolve_lines (sectionID sha1 f) (Sections resolution) [] (f_lines f) of
             Inl e \<Rightarrow> Inl e
           | Inr resolvedLines \<Rightarrow>
               (let resolvedContents = join [newline] resolvedLines
                in Inr (if Contents (our f) \<noteq> [] \<and> last (Contents (our f)) = newline
                        then resolvedContents @ [newline] else resolvedContents)))"

section \<open>Parsing\<close>

function scan_lines :: "nat \<Rightarrow> bytes \<Rightarrow> string list \<times> nat \<times> parse_error option" where
  "scan_lines bytesRead d =
     (if bytesRead \<ge> fileLimit then ([], bytesRead, Some ErrUnmergeableFile)
      else if d = [] then ([], bytesRead, None)
      else
        (let l = takeWhile (\<lambda>c. c \<noteq> newline) d; i = length l in
         if i < length d then
           if i + 1 > fileLimit then ([], bytesRead, Some ErrUnmergeableFile)
           else (let (ls, n, e) = scan_lines (bytesRead + i + 1) (drop (i + 1) d) in (l # ls, n, e))
         else if length d \<ge> fileLimit then ([], bytesRead, Some ErrUnmergeableFile)
         else (let (ls, n, e) = scan_lines (bytesRead + length d) [] in (d # ls, n, e))))"
  by pat_completeness auto
termination
  by (relation "measure (\<lambda>(n, d). length d)") auto

declare scan_lines.simps [simp del]

record parser =
  p_obj :: nat
  p_old :: nat
  p_new :: nat
  currentSection :: csection
  p_lines :: "line list"

definition add_line :: "parser \<Rightarrow> string \<Rightarrow> csection \<Rightarrow> line" where
  "add_line p l sec =
     \<lparr>objIndex = p_obj p, oldIndex = p_old p, newIndex = p_new p, payload = l, section_of = sec\<rparr>"

fun parse_lines ::
    "string \<Rightarrow> string \<Rightarrow> string \<Rightarrow> parser \<Rightarrow> string list \<Rightarrow> (parse_error, parser) res" where
  "parse_lines start middle endm p [] = Inr p"
| "parse_lines start middle endm p (l # ls) =
     (if l = start then
        if currentSection p \<noteq> sectionNone then Inl ErrUnexpectedDelimiter
        else parse_lines start middle endm (p\<lparr>currentSection := sectionNew\<rparr>) ls
      else if l = middle then
        if currentSection p \<noteq> sectionNew then Inl ErrUnexpectedDelimiter
        else parse_lines start middle endm (p\<lparr>currentSection := sectionOld\<rparr>) ls
      else if l = endm then
        if currentSection p \<noteq> sectionOld then Inl ErrUnexpectedDelimiter
        else parse_lines start middle endm (p\<lparr>currentSection := sectionNone\<rparr>) ls
      else if l \<noteq> [] \<and> hd l = CHR 0x5C then
        parse_lines start middle endm
          (p\<lparr>currentSection := sectionNoNewline,
             p_lines := p_lines p @ [add_line p l sectionNoNewline]\<rparr>) ls
      else
        parse_lines start middle endm
          (p\<lparr>p_lines := p_lines p @ [add_line p l (currentSection p)],
             p_obj := p_obj p + 1,
             p_old := (if currentSection p \<noteq> sectionNew then p_old p + 1 else p_old p),
             p_new := (if currentSection p \<noteq> sectionOld then p_new p + 1 else p_new p)\<rparr>) ls)"

definition start_marker :: "Entry \<Rightarrow> string" where
  "start_marker e = ''<<<<<<< '' @ Path e"

definition end_marker :: "Entry \<Rightarrow> string" where
  "end_marker e = ''>>>>>>> '' @ Path e"

definition Parse :: "bytes \<Rightarrow> Entry option \<Rightarrow> Entry \<Rightarrow> Entry \<Rightarrow> (parse_error, File) res" where
  "Parse src anc ours theirs =
     (let parentPath = (case anc of None \<Rightarrow> Path ours | Some a \<Rightarrow> Path a);
          start = start_marker ours;
          middle = ''======='';
          endm = end_marker theirs;
          (ls, bytesRead, scanErr) = scan_lines 0 src
      in case parse_lines start middle endm
                \<lparr>p_obj = 0, p_old = 1, p_new = 1, currentSection = sectionNone, p_lines = []\<rparr> ls of
           Inl e \<Rightarrow> Inl e
         | Inr p \<Rightarrow>
             (case scanErr of
                Some e \<Rightarrow> Inl e
              | None \<Rightarrow>
                  if currentSection p = sectionOld \<or> currentSection p = sectionNew
                  then Inl ErrMissingEndDelimiter
                  else if bytesRead = 0 then Inl ErrUnmergeableFile
                  else Inr \<lparr>path = parentPath, f_lines = p_lines p, ancestor = anc,
                            our = ours, their = theirs\<rparr>))"

section \<open>Files with conflicts\<close>

text \<open>A file as git writes it: common lines, and conflicts with the lines of our side and of theirs.\<close>

datatype hunk = Common string | Conflict "string list" "string list"

fun hunk_lines :: "string \<Rightarrow> string \<Rightarrow> hunk \<Rightarrow> string list" where
  "hunk_lines start endm (Common l) = [l]"
| "hunk_lines start endm (Conflict ns os) = start # ns @ ''======='' # os @ [endm]"

definition text_of :: "string list \<Rightarrow> bytes" where
  "text_of ls = concat (map (\<lambda>l. l @ [newline]) ls)"

definition ordinary :: "string \<Rightarrow> string \<Rightarrow> string \<Rightarrow> bool" where
  "ordinary start endm l \<longleftrightarrow> l \<noteq> start \<and> l \<noteq> ''======='' \<and> l \<noteq> endm \<and>
     \<not> (l \<noteq> [] \<and> hd l = CHR 0x5C) \<and> newline \<notin> set l"

text \<open>No line looks like a marker or starts with a backslash, and two conflicts are separated by a common
  line.\<close>

fun wf_hunks :: "string \<Rightarrow> string \<Rightarrow> hunk list \<Rightarrow> bool" where
  "wf_hunks start endm [] = True"
| "wf_hunks start endm (Common l # hs) \<longleftrightarrow> ordinary start endm l \<and> wf_hunks start endm hs"
| "wf_hunks start endm (Conflict ns os # hs) \<longleftrightarrow>
     list_all (ordinary start endm) ns \<and> list_all (ordinary start endm) os \<and> ns @ os \<noteq> [] \<and>
     (case hs of Conflict _ _ # _ \<Rightarrow> False | _ \<Rightarrow> True) \<and> wf_hunks start endm hs"

text \<open>The lines that the chosen sides give, where a conflict is chosen by the line numbers it starts at.\<close>

fun chosen :: "(nat \<Rightarrow> nat \<Rightarrow> string) \<Rightarrow> (string, string) gomap \<Rightarrow> nat \<Rightarrow> nat \<Rightarrow> hunk list \<Rightarrow> string list option"
where
  "chosen idf sections old new [] = Some []"
| "chosen idf sections old new (Common l # hs) =
     map_option (\<lambda>ls. l # ls) (chosen idf sections (old + 1) (new + 1) hs)"
| "chosen idf sections old new (Conflict ns os # hs) =
     (case map_of sections (idf old new) of
        None \<Rightarrow> None
      | Some r \<Rightarrow>
          if r = ''head'' then
            map_option (\<lambda>ls. ns @ ls) (chosen idf sections (old + length os) (new + length ns) hs)
          else if r = ''origin'' then
            map_option (\<lambda>ls. os @ ls) (chosen idf sections (old + length os) (new + length ns) hs)
          else None)"

section \<open>Scanning\<close>

lemma scan_lines_Cons:
  assumes "newline \<notin> set l" "n + length l + 1 \<le> fileLimit" "n < fileLimit"
  shows "scan_lines n (l @ newline # d) =
    (let (ls, m, e) = scan_lines (n + length l + 1) d in (l # ls, m, e))"
proof -
  have "takeWhile (\<lambda>c. c \<noteq> newline) (l @ newline # d) = l"
    using assms(1) by (subst takeWhile_append2) auto
  then show ?thesis using assms by (subst scan_lines.simps) (simp add: Let_def)
qed

lemma scan_lines_text:
  "list_all (\<lambda>l. newline \<notin> set l) ls \<Longrightarrow> n + length (text_of ls) < fileLimit \<Longrightarrow>
   scan_lines n (text_of ls) = (ls, n + length (text_of ls), None)"
proof (induction ls arbitrary: n)
  case Nil
  then show ?case by (simp add: text_of_def scan_lines.simps)
next
  case (Cons l ls)
  then show ?case using scan_lines_Cons [of l n "text_of ls"] by (simp add: text_of_def)
qed

lemma scan_lines_limit:
  "scan_lines n d = (ls, m, e) \<Longrightarrow> fileLimit \<le> n + length d \<Longrightarrow> e = Some ErrUnmergeableFile"
proof (induction n d arbitrary: ls m rule: scan_lines.induct)
  case (1 n d)
  let ?l = "takeWhile (\<lambda>c. c \<noteq> newline) d"
  note eq = 1(3) [unfolded scan_lines.simps [of n d]]
  show ?case
  proof (cases "n \<ge> fileLimit \<or> d = []")
    case True
    then show ?thesis using eq 1(4) by (auto split: if_splits)
  next
    case False
    show ?thesis
    proof (cases "length ?l < length d")
      case True
      then show ?thesis
        using eq 1(4) False 1(1) [OF _ _ refl refl True] by (auto simp: Let_def split: if_splits prod.splits)
    next
      case nl: False
      then show ?thesis
        using eq 1(4) False 1(2) [OF _ _ refl refl nl] by (auto simp: Let_def split: if_splits prod.splits)
    qed
  qed
qed

section \<open>Labelling the lines\<close>

text \<open>The lines of one section, numbered from the parser's counters on.\<close>

fun labelled :: "csection \<Rightarrow> nat \<Rightarrow> nat \<Rightarrow> nat \<Rightarrow> string list \<Rightarrow> line list" where
  "labelled sec obj old new [] = []"
| "labelled sec obj old new (l # ls) =
     \<lparr>objIndex = obj, oldIndex = old, newIndex = new, payload = l, section_of = sec\<rparr> #
     labelled sec (obj + 1) (if sec \<noteq> sectionNew then old + 1 else old)
       (if sec \<noteq> sectionOld then new + 1 else new) ls"

fun hunk_labelled :: "nat \<Rightarrow> nat \<Rightarrow> nat \<Rightarrow> hunk \<Rightarrow> line list" where
  "hunk_labelled obj old new (Common l) = labelled sectionNone obj old new [l]"
| "hunk_labelled obj old new (Conflict ns os) =
     labelled sectionNew obj old new ns @
     labelled sectionOld (obj + length ns) old (new + length ns) os"

fun hunks_labelled :: "nat \<Rightarrow> nat \<Rightarrow> nat \<Rightarrow> hunk list \<Rightarrow> line list" where
  "hunks_labelled obj old new [] = []"
| "hunks_labelled obj old new (h # hs) =
     hunk_labelled obj old new h @
     (case h of
        Common l \<Rightarrow> hunks_labelled (obj + 1) (old + 1) (new + 1) hs
      | Conflict ns os \<Rightarrow>
          hunks_labelled (obj + length ns + length os) (old + length os) (new + length ns) hs)"

lemma parse_ordinary_line:
  assumes "ordinary start endm l"
  shows "parse_lines start ''======='' endm p (l # ls) =
    parse_lines start ''======='' endm
      (p\<lparr>p_lines := p_lines p @ [add_line p l (currentSection p)], p_obj := p_obj p + 1,
         p_old := (if currentSection p \<noteq> sectionNew then p_old p + 1 else p_old p),
         p_new := (if currentSection p \<noteq> sectionOld then p_new p + 1 else p_new p)\<rparr>) ls"
proof -
  have a: "\<not> l = start" "\<not> l = ''=======''" "\<not> l = endm" "\<not> (l \<noteq> [] \<and> hd l = CHR 0x5C)"
    using assms unfolding ordinary_def by blast+
  show ?thesis
    unfolding parse_lines.simps if_not_P [OF a(1)] if_not_P [OF a(2)] if_not_P [OF a(3)] if_not_P [OF a(4)]
    by (rule refl)
qed

lemma parse_markers:
  "currentSection p = sectionNone \<Longrightarrow>
     parse_lines start middle endm p (start # ls) = parse_lines start middle endm (p\<lparr>currentSection := sectionNew\<rparr>) ls"
  "currentSection p = sectionNew \<Longrightarrow> middle \<noteq> start \<Longrightarrow>
     parse_lines start middle endm p (middle # ls) = parse_lines start middle endm (p\<lparr>currentSection := sectionOld\<rparr>) ls"
  "currentSection p = sectionOld \<Longrightarrow> endm \<noteq> start \<Longrightarrow> endm \<noteq> middle \<Longrightarrow>
     parse_lines start middle endm p (endm # ls) = parse_lines start middle endm (p\<lparr>currentSection := sectionNone\<rparr>) ls"
  by simp_all

lemma parse_ordinary:
  assumes "list_all (ordinary start endm) ls"
  shows "parse_lines start ''======='' endm p (ls @ rest) =
    parse_lines start ''======='' endm
      (p\<lparr>p_lines := p_lines p @ labelled (currentSection p) (p_obj p) (p_old p) (p_new p) ls,
         p_obj := p_obj p + length ls,
         p_old := (if currentSection p \<noteq> sectionNew then p_old p + length ls else p_old p),
         p_new := (if currentSection p \<noteq> sectionOld then p_new p + length ls else p_new p)\<rparr>) rest"
  using assms
proof (induction ls arbitrary: p)
  case (Cons l ls)
  then have "ordinary start endm l" by simp
  then show ?case using Cons by (simp add: parse_ordinary_line add_line_def del: parse_lines.simps)
qed simp

lemma parse_hunks:
  assumes "wf_hunks start endm hs" and "currentSection p = sectionNone"
    and "distinct [start, ''======='', endm]"
  shows "\<exists>q. parse_lines start ''======='' endm p (concat (map (hunk_lines start endm) hs)) = Inr q \<and>
    currentSection q = sectionNone \<and>
    p_lines q = p_lines p @ hunks_labelled (p_obj p) (p_old p) (p_new p) hs"
  using assms(1,2)
proof (induction hs arbitrary: p)
  case (Cons h hs)
  show ?case
  proof (cases h)
    case (Common l)
    then have l: "list_all (ordinary start endm) [l]" and wf: "wf_hunks start endm hs" using Cons.prems by simp_all
    let ?p = "p\<lparr>p_lines := p_lines p @ labelled sectionNone (p_obj p) (p_old p) (p_new p) [l],
        p_obj := p_obj p + 1, p_old := p_old p + 1, p_new := p_new p + 1\<rparr>"
    have "parse_lines start ''======='' endm p (concat (map (hunk_lines start endm) (h # hs))) =
        parse_lines start ''======='' endm ?p (concat (map (hunk_lines start endm) hs))"
      using parse_ordinary [OF l, of p] Common Cons.prems(2) by (simp del: parse_lines.simps)
    then show ?thesis using Cons.IH [OF wf, of ?p] Common Cons.prems(2) by simp
  next
    case (Conflict ns os)
    then have ns: "list_all (ordinary start endm) ns" and os: "list_all (ordinary start endm) os"
      and wf: "wf_hunks start endm hs" using Cons.prems by simp_all
    let ?p = "p\<lparr>p_lines := p_lines p @ hunk_labelled (p_obj p) (p_old p) (p_new p) h,
        p_obj := p_obj p + length ns + length os, p_old := p_old p + length os, p_new := p_new p + length ns,
        currentSection := sectionNone\<rparr>"
    have ne: "''======='' \<noteq> start" "endm \<noteq> start" "endm \<noteq> ''=======''" using assms(3) by auto
    have "parse_lines start ''======='' endm p (concat (map (hunk_lines start endm) (h # hs))) =
        parse_lines start ''======='' endm ?p (concat (map (hunk_lines start endm) hs))"
      using Cons.prems(2) ne
      by (simp add: Conflict parse_markers parse_ordinary [OF ns] parse_ordinary [OF os] del: parse_lines.simps)
    then show ?thesis using Cons.IH [OF wf, of ?p] Conflict by simp
  qed
qed simp

section \<open>Resolving the labelled lines\<close>

lemma resolve_section:
  assumes "cur \<noteq> []" "map_of sections cur = Some r" "r \<in> {''head'', ''origin''}" "sec \<in> {sectionNew, sectionOld}"
  shows "resolve_lines secID sections cur (labelled sec obj old new ls @ rest) =
    (case resolve_lines secID sections cur rest of
       Inl e \<Rightarrow> Inl e
     | Inr out \<Rightarrow> Inr ((if (r = ''head'') = (sec = sectionNew) then ls else []) @ out))"
proof (induction ls arbitrary: obj old new)
  case Nil
  then show ?case by (simp split: sum.split)
next
  case (Cons l ls)
  then show ?case using assms by (auto split: sum.split)
qed

lemma resolve_first:
  "section_of l \<noteq> sectionNone \<Longrightarrow> secID l \<noteq> [] \<Longrightarrow>
   resolve_lines secID sections [] (l # ls) = resolve_lines secID sections (secID l) (l # ls)"
  by simp

lemma resolve_conflict:
  assumes idf: "\<And>l. secID l = idf (oldIndex l) (newIndex l)" "idf old new \<noteq> []"
    and r: "map_of sections (idf old new) = Some r" "r \<in> {''head'', ''origin''}" and ne: "ns @ os \<noteq> []"
  shows "resolve_lines secID sections [] (hunk_labelled obj old new (Conflict ns os) @ rest) =
    (case resolve_lines secID sections (idf old new) rest of
       Inl e \<Rightarrow> Inl e | Inr out \<Rightarrow> Inr ((if r = ''head'' then ns else os) @ out))"
proof -
  let ?ls = "hunk_labelled obj old new (Conflict ns os) @ rest"
  obtain l ls where l: "?ls = l # ls" "section_of l \<noteq> sectionNone" "secID l = idf old new"
    using ne idf(1) by (cases ns; cases os) auto
  have "resolve_lines secID sections [] ?ls = resolve_lines secID sections (idf old new) ?ls"
    using resolve_first [of l secID sections ls] l idf(2) by simp
  also have "\<dots> = (case resolve_lines secID sections (idf old new) rest of
       Inl e \<Rightarrow> Inl e | Inr out \<Rightarrow> Inr ((if r = ''head'' then ns else os) @ out))"
    using resolve_section [OF idf(2) r] by (auto split: sum.split)
  finally show ?thesis .
qed

lemma resolve_hunks:
  assumes idf: "\<And>l. secID l = idf (oldIndex l) (newIndex l)" "\<And>i j. idf i j \<noteq> []"
  shows "wf_hunks start endm hs \<Longrightarrow> chosen idf sections old new hs = Some out \<Longrightarrow>
    cur = [] \<or> (case hs of Conflict _ _ # _ \<Rightarrow> False | _ \<Rightarrow> True) \<Longrightarrow>
    resolve_lines secID sections cur (hunks_labelled obj old new hs) = Inr out"
proof (induction hs arbitrary: obj old new out cur)
  case (Cons h hs)
  show ?case
  proof (cases h)
    case (Common l)
    then obtain out' where out': "chosen idf sections (old + 1) (new + 1) hs = Some out'" "out = l # out'"
      using Cons.prems(2) by auto
    then have "resolve_lines secID sections [] (hunks_labelled (obj + 1) (old + 1) (new + 1) hs) = Inr out'"
      using Cons.IH Cons.prems(1) Common by simp
    then show ?thesis using Common out'(2) by simp
  next
    case (Conflict ns os)
    have cur: "cur = []" using Cons.prems(3) Conflict by simp
    obtain r out' where r: "map_of sections (idf old new) = Some r" "r \<in> {''head'', ''origin''}"
      and out': "chosen idf sections (old + length os) (new + length ns) hs = Some out'"
        "out = (if r = ''head'' then ns else os) @ out'"
      using Cons.prems(2) Conflict by (auto split: option.splits if_splits)
    have "resolve_lines secID sections (idf old new)
        (hunks_labelled (obj + length ns + length os) (old + length os) (new + length ns) hs) = Inr out'"
      using Cons.IH [OF _ out'(1)] Cons.prems(1) Conflict by simp
    then show ?thesis
      using resolve_conflict [OF idf r] Conflict cur out'(2) Cons.prems(1) by simp
  qed
qed simp

lemma wf_hunks_newline:
  "wf_hunks start endm hs \<Longrightarrow> newline \<notin> set start \<Longrightarrow> newline \<notin> set endm \<Longrightarrow>
   list_all (\<lambda>l. newline \<notin> set l) (concat (map (hunk_lines start endm) hs))"
  by (induction start endm hs rule: wf_hunks.induct) (auto simp: list_all_iff ordinary_def)

lemma parse_lines_error: "parse_lines start middle endm p ls = Inl e \<Longrightarrow> e = ErrUnexpectedDelimiter"
  by (induction ls arbitrary: p) (auto split: if_splits)

section \<open>Properties\<close>

lemma markers_distinct: "distinct [start_marker ours, ''======='', end_marker theirs]"
  by (simp add: start_marker_def end_marker_def)

lemma markers_newline:
  "newline \<in> set (start_marker e) \<longleftrightarrow> newline \<in> set (Path e)"
  "newline \<in> set (end_marker e) \<longleftrightarrow> newline \<in> set (Path e)"
  by (simp_all add: start_marker_def end_marker_def)


definition demo_entry :: "string \<Rightarrow> Entry" where
  "demo_entry p = \<lparr>Path = p, Mode = 0, Contents = [newline]\<rparr>"

definition demo_hunks :: "hunk list" where
  "demo_hunks = [Common ''a'', Conflict [''x''] [''y''], Common ''b'']"

definition demo_res :: Resolution where
  "demo_res = \<lparr>OldPath = ''f'', NewPath = ''f'', Sections = [(''_2_2'', ''origin'')], Content = []\<rparr>"

lemma decstr_2: "decstr 2 = ''2''" "decstr (Suc (Suc 0)) = ''2''"
  by code_simp+

lemmas demo_markers = start_marker_def end_marker_def demo_entry_def


text \<open>A line that starts with a backslash breaks the parsing of a conflict: once one occurs on our side
  of a conflict, the separator is rejected as an unexpected delimiter.\<close>

theorem backslash_line_rejected:
  assumes ord: "list_all (ordinary (start_marker ours) (end_marker theirs)) (pre @ ns @ ns')"
    and src: "src = text_of (pre @ start_marker ours # ns @ (CHR 0x5C # l) # ns' @ ''======='' # rest)"
      "length src < fileLimit"
    and nl: "list_all (\<lambda>l. newline \<notin> set l) (start_marker ours # l # rest)"
  shows "Parse src anc ours theirs = Inl ErrUnexpectedDelimiter"
proof -
  let ?s = "start_marker ours" and ?e = "end_marker theirs"
  let ?ls = "pre @ ?s # ns @ (CHR 0x5C # l) # ns' @ ''======='' # rest"
  have ords: "list_all (ordinary ?s ?e) pre" "list_all (ordinary ?s ?e) ns" "list_all (ordinary ?s ?e) ns'"
    using ord by simp_all
  have "list_all (\<lambda>l. newline \<notin> set l) ?ls"
    using ord nl by (auto simp: list_all_iff ordinary_def)
  then have scan: "scan_lines 0 src = (?ls, length src, None)" using scan_lines_text [of ?ls 0] src by simp
  have step: "parse_lines ?s ''======='' ?e p ((CHR 0x5C # l) # ls) = parse_lines ?s ''======='' ?e
      (p\<lparr>currentSection := sectionNoNewline,
         p_lines := p_lines p @ [add_line p (CHR 0x5C # l) sectionNoNewline]\<rparr>) ls" for p ls
    by (simp add: start_marker_def end_marker_def)
  have stop: "parse_lines ?s ''======='' ?e p (''======='' # ls) = Inl ErrUnexpectedDelimiter"
    if "currentSection p = sectionNoNewline" for p ls
    using that by (simp add: start_marker_def)
  have "parse_lines ?s ''======='' ?e p ?ls = Inl ErrUnexpectedDelimiter"
    if "currentSection p = sectionNone" for p
    using that
    by (simp add: parse_ordinary [OF ords(1)] parse_ordinary [OF ords(2)] parse_ordinary [OF ords(3)]
        parse_markers(1) step stop del: parse_lines.simps)
  then show ?thesis using scan by (simp add: Parse_def)
qed

theorem backslash_line_rejected_witness:
  "Parse (text_of [''<<<<<<< f'', [CHR 0x5C], ''======='', ''y'', ''>>>>>>> f''])
     None (demo_entry ''f'') (demo_entry ''f'') = Inl ErrUnexpectedDelimiter"
  by (rule backslash_line_rejected [of _ _ "[]" "[]" "[]" _ "[]" "[''y'', ''>>>>>>> f'']"])
    (simp_all add: demo_markers text_of_def fileLimit_def)

text \<open>A file at or above the size limit is never parsed, nor is an empty one.\<close>

theorem parse_size_limits:
  "(fileLimit \<le> length src \<longrightarrow>
     (\<exists>e. Parse src anc ours theirs = Inl e \<and> e \<noteq> ErrMissingEndDelimiter)) \<and>
   Parse [] anc ours theirs = Inl ErrUnmergeableFile"
proof -
  have "\<exists>e. Parse src anc ours theirs = Inl e \<and> e \<noteq> ErrMissingEndDelimiter" if "fileLimit \<le> length src"
  proof -
    obtain ls m e where scan: "scan_lines 0 src = (ls, m, e)" by (cases "scan_lines 0 src")
    then have "e = Some ErrUnmergeableFile" using scan_lines_limit [OF scan] that by simp
    then show ?thesis
      using scan by (auto simp: Parse_def Let_def dest: parse_lines_error split: sum.split)
  qed
  moreover have "scan_lines 0 [] = ([], 0, None)" by (simp add: scan_lines.simps fileLimit_def)
  ultimately show ?thesis by (simp add: Parse_def)
qed

theorem parse_size_limits_witness:
  "\<exists>e. Parse (replicate fileLimit (CHR ''x'')) None (demo_entry ''f'') (demo_entry ''f'') = Inl e \<and>
     e \<noteq> ErrMissingEndDelimiter"
  by (rule parse_size_limits [THEN conjunct1, rule_format]) simp

end
