(* ===== verification/FileWriter.thy ===== *)
theory FileWriter
  imports Prelude
begin

text \<open>
  Atomic replacement of files, \<open>internal/safe/file_writer.go\<close>, and the variant with a lock file,
  \<open>internal/safe/locking_file_writer.go\<close>. The file system maps paths to files; every system call may
  fail, which is decided by the \<open>faults\<close> passed to an operation, one entry for each call the operation
  makes. The name \<open>os.CreateTemp\<close> picks and the clock are arguments. Temporary files are only touched
  through their writer or its exposed path.
\<close>

section \<open>The file system\<close>

record inode =
  contents :: bytes
  modTime :: int
  fmode :: nat

type_synonym fs = "string \<rightharpoonup> inode"

type_synonym os_error = string

record FileInfo =
  fi_Size :: nat
  fi_ModTime :: int
  fi_Mode :: nat

definition info_of :: "inode \<Rightarrow> FileInfo" where
  "info_of f = \<lparr>fi_Size = length (contents f), fi_ModTime = modTime f, fi_Mode = fmode f\<rparr>"

record faults =
  open_fault :: "os_error option"
  stat_fault :: "os_error option"
  create_fault :: "os_error option"
  chmod_fault :: "os_error option"
  write_fault :: "(nat \<times> os_error) option"
  sync_fault :: "os_error option"
  close_fault :: "os_error option"
  rename_fault :: "os_error option"
  dir_fault :: "os_error option"
  remove_fault :: "os_error option"
  lock_fault :: "os_error option"
  unlock_fault :: "os_error option"

datatype safe_error =
    ErrAlreadyDone | MoreThanOneConfig | OsError string os_error | ErrInvalid | TmpExists
  | NotAcceptingWrites | NotLockable | ErrFileAlreadyLocked | NotLocked
  | ConcurrentlyCreated | ConcurrentlyDeleted | ConcurrentlyModified

text \<open>The first error in a sequence of calls.\<close>

definition fault :: "string \<Rightarrow> os_error option \<Rightarrow> safe_error option" where
  "fault msg flt = map_option (OsError msg) flt"

section \<open>FileWriter\<close>

text \<open>\<open>tmpFile\<close> is the name of the temporary file and whether its descriptor is open; \<open>onceDone\<close> says
  whether \<open>commitOrClose\<close> has run.\<close>

record FileWriter =
  tmpFile :: "(string \<times> bool) option"
  fw_path :: string
  onceDone :: bool

definition FileWriter_Close ::
    "faults \<Rightarrow> fs \<Rightarrow> FileWriter \<Rightarrow> fs \<times> FileWriter \<times> safe_error option" where
  "FileWriter_Close flt fs fw =
     (if onceDone fw then (fs, fw, Some ErrAlreadyDone)
      else
        (let fw = fw\<lparr>onceDone := True\<rparr> in
         case tmpFile fw of
           None \<Rightarrow> (fs, fw, Some ErrInvalid)
         | Some (tmp, opened) \<Rightarrow>
             (let fw = fw\<lparr>tmpFile := Some (tmp, False)\<rparr> in
              if close_fault flt \<noteq> None then (fs, fw, fault '''' (close_fault flt))
              else if \<not> opened then (fs, fw, Some ErrInvalid)
              else if remove_fault flt \<noteq> None then (fs, fw, fault '''' (remove_fault flt))
              else (fs(tmp := None), fw, None))))"

definition NewFileWriter ::
    "faults \<Rightarrow> int \<Rightarrow> string \<Rightarrow> fs \<Rightarrow> string \<Rightarrow> nat list \<Rightarrow> fs \<times> (safe_error, FileWriter) res" where
  "NewFileWriter flt now tmp fs pth optionalCfg =
     (if length optionalCfg > 1 then (fs, Inl MoreThanOneConfig)
      else
        (let fileMode = (if length optionalCfg = 1 then hd optionalCfg else 0);
             writer = \<lparr>tmpFile = None, fw_path = pth, onceDone = False\<rparr>
         in if create_fault flt \<noteq> None then (fs, Inl (the (fault '''' (create_fault flt))))
            else if fs tmp \<noteq> None then (fs, Inl TmpExists)
            else
              (let fs1 = fs(tmp \<mapsto> \<lparr>contents = [], modTime = now, fmode = 384\<rparr>) in
               if fileMode \<noteq> 0 then
                 if chmod_fault flt \<noteq> None then
                   (fst (FileWriter_Close flt fs1 writer), Inl (the (fault '''' (chmod_fault flt))))
                 else
                   (fs1(tmp \<mapsto> \<lparr>contents = [], modTime = now, fmode = fileMode\<rparr>),
                    Inr (writer\<lparr>tmpFile := Some (tmp, True)\<rparr>))
               else (fs1, Inr (writer\<lparr>tmpFile := Some (tmp, True)\<rparr>)))))"

definition FileWriter_Write ::
    "faults \<Rightarrow> int \<Rightarrow> fs \<Rightarrow> FileWriter \<Rightarrow> bytes \<Rightarrow> fs \<times> nat \<times> safe_error option" where
  "FileWriter_Write flt now fs fw p =
     (case tmpFile fw of
        None \<Rightarrow> (fs, 0, Some ErrInvalid)
      | Some (tmp, opened) \<Rightarrow>
          if \<not> opened then (fs, 0, Some ErrInvalid)
          else
            (let n = (case write_fault flt of None \<Rightarrow> length p | Some (k, _) \<Rightarrow> min k (length p));
                 fs' = (case fs tmp of
                          None \<Rightarrow> fs
                        | Some f \<Rightarrow> fs(tmp \<mapsto> f\<lparr>contents := contents f @ take n p, modTime := now\<rparr>))
             in (fs', n, map_option (\<lambda>(_, e). OsError '''' e) (write_fault flt))))"

definition fw_rename :: "faults \<Rightarrow> fs \<Rightarrow> string \<Rightarrow> string \<Rightarrow> fs \<times> os_error option" where
  "fw_rename flt fs tmp pth =
     (case rename_fault flt of
        Some e \<Rightarrow> (fs, Some e)
      | None \<Rightarrow>
         (case fs tmp of
            None \<Rightarrow> (fs, Some ''no such file or directory'')
          | Some f \<Rightarrow> ((fs(tmp := None))(pth \<mapsto> f), None)))"

definition FileWriter_Commit ::
    "faults \<Rightarrow> fs \<Rightarrow> FileWriter \<Rightarrow> fs \<times> FileWriter \<times> safe_error option" where
  "FileWriter_Commit flt fs fw =
     (if onceDone fw then (fs, fw, Some ErrAlreadyDone)
      else
        (let fw = fw\<lparr>onceDone := True\<rparr> in
         case tmpFile fw of
           None \<Rightarrow> (fs, fw, Some ErrInvalid)
         | Some (tmp, opened) \<Rightarrow>
             if sync_fault flt \<noteq> None then (fs, fw, fault ''syncing temp file'' (sync_fault flt))
             else if \<not> opened then (fs, fw, Some ErrInvalid)
             else
               (let fw = fw\<lparr>tmpFile := Some (tmp, False)\<rparr> in
                if close_fault flt \<noteq> None then (fs, fw, fault ''closing temp file'' (close_fault flt))
                else
                  (case fw_rename flt fs tmp (fw_path fw) of
                     (fs', Some e) \<Rightarrow> (fs', fw, Some (OsError ''renaming temp file'' e))
                   | (fs', None) \<Rightarrow> (fs', fw, fault ''syncing dir'' (dir_fault flt))))))"

section \<open>LockingFileWriter\<close>

datatype lockingFileWriterState =
    lockingFileWriterStateOpen | lockingFileWriterStateLocked | lockingFileWriterStateClosed

record LockingFileWriter =
  lfw_writer :: FileWriter
  lfw_fi :: "FileInfo option"
  lfw_state :: lockingFileWriterState

definition lockPath :: "LockingFileWriter \<Rightarrow> string" where
  "lockPath lw = fw_path (lfw_writer lw) @ ''.lock''"

definition LFW_Path :: "LockingFileWriter \<Rightarrow> string option" where
  "LFW_Path lw = map_option fst (tmpFile (lfw_writer lw))"

text \<open>A configuration is the file mode and whether to seed the contents; \<open>cflt\<close> are the faults of the
  embedded writer's creation.\<close>

definition NewLockingFileWriter ::
    "faults \<Rightarrow> int \<Rightarrow> string \<Rightarrow> fs \<Rightarrow> string \<Rightarrow> (nat \<times> bool) list
     \<Rightarrow> fs \<times> (safe_error, LockingFileWriter) res" where
  "NewLockingFileWriter flt now tmp fs pth optionalCfg =
     (if length optionalCfg > 1 then (fs, Inl MoreThanOneConfig)
      else
        (let (fileMode, seed) = (if length optionalCfg = 1 then hd optionalCfg else (0, False)) in
         if open_fault flt \<noteq> None then (fs, Inl (the (fault ''opening target file'' (open_fault flt))))
         else if fs pth \<noteq> None \<and> stat_fault flt \<noteq> None
         then (fs, Inl (the (fault ''statting target file'' (stat_fault flt))))
         else
           (case NewFileWriter flt now tmp fs pth [fileMode] of
              (fs1, Inl e) \<Rightarrow> (fs1, Inl e)
            | (fs1, Inr writer) \<Rightarrow>
                (let lw = \<lparr>lfw_writer = writer, lfw_fi = map_option info_of (fs pth),
                           lfw_state = lockingFileWriterStateOpen\<rparr>
                 in case fs pth of
                      None \<Rightarrow> (fs1, Inr lw)
                    | Some target \<Rightarrow>
                        if \<not> seed then (fs1, Inr lw)
                        else
                          (case FileWriter_Write flt now fs1 writer (contents target) of
                             (fs2, n, Some e) \<Rightarrow> (fs2, Inl e)
                           | (fs2, n, None) \<Rightarrow>
                               if sync_fault flt \<noteq> None
                               then (fs2, Inl (the (fault ''flushing seeded contents'' (sync_fault flt))))
                               else (fs2, Inr lw))))))"

definition LFW_Write ::
    "faults \<Rightarrow> int \<Rightarrow> fs \<Rightarrow> LockingFileWriter \<Rightarrow> bytes \<Rightarrow> fs \<times> nat \<times> safe_error option" where
  "LFW_Write flt now fs lw p =
     (if lfw_state lw \<noteq> lockingFileWriterStateOpen then (fs, 0, Some NotAcceptingWrites)
      else FileWriter_Write flt now fs (lfw_writer lw) p)"

definition checkConcurrentModification :: "faults \<Rightarrow> fs \<Rightarrow> LockingFileWriter \<Rightarrow> safe_error option" where
  "checkConcurrentModification flt fs lw =
     (if stat_fault flt \<noteq> None then fault ''statting path'' (stat_fault flt)
      else case (lfw_fi lw, map_option info_of (fs (fw_path (lfw_writer lw)))) of
             (None, Some _) \<Rightarrow> Some ConcurrentlyCreated
           | (Some _, None) \<Rightarrow> Some ConcurrentlyDeleted
           | (Some a, Some b) \<Rightarrow> if a \<noteq> b then Some ConcurrentlyModified else None
           | (None, None) \<Rightarrow> None)"

definition LFW_Lock ::
    "faults \<Rightarrow> int \<Rightarrow> fs \<Rightarrow> LockingFileWriter \<Rightarrow> fs \<times> LockingFileWriter \<times> safe_error option" where
  "LFW_Lock flt now fs lw =
     (if lfw_state lw \<noteq> lockingFileWriterStateOpen then (fs, lw, Some NotLockable)
      else case checkConcurrentModification flt fs lw of
             Some e \<Rightarrow> (fs, lw, Some e)
           | None \<Rightarrow>
               if lock_fault flt \<noteq> None then (fs, lw, fault ''creating lock file'' (lock_fault flt))
               else if fs (lockPath lw) \<noteq> None then (fs, lw, Some ErrFileAlreadyLocked)
               else (fs(lockPath lw \<mapsto> \<lparr>contents = [], modTime = now, fmode = 256\<rparr>),
                     lw\<lparr>lfw_state := lockingFileWriterStateLocked\<rparr>, None))"

definition unlock ::
    "faults \<Rightarrow> fs \<Rightarrow> LockingFileWriter \<Rightarrow> fs \<times> LockingFileWriter \<times> safe_error option" where
  "unlock flt fs lw =
     (if lfw_state lw \<noteq> lockingFileWriterStateLocked then (fs, lw, Some NotLocked)
      else if unlock_fault flt \<noteq> None then (fs, lw, fault ''removing lock file'' (unlock_fault flt))
      else if fs (lockPath lw) = None
      then (fs, lw, Some (OsError ''removing lock file'' ''no such file or directory''))
      else (fs(lockPath lw := None), lw\<lparr>lfw_state := lockingFileWriterStateClosed\<rparr>, None))"

definition LFW_Close ::
    "faults \<Rightarrow> fs \<Rightarrow> LockingFileWriter \<Rightarrow> fs \<times> LockingFileWriter \<times> safe_error option" where
  "LFW_Close flt fs lw =
     (if lfw_state lw = lockingFileWriterStateClosed then (fs, lw, None)
      else
        (let (fs1, lw1, err) = (if lfw_state lw = lockingFileWriterStateLocked then unlock flt fs lw
                                else (fs, lw, None));
             (fs2, w, writerErr) = FileWriter_Close flt fs1 (lfw_writer lw1);
             err' = (if writerErr \<noteq> None \<and> err = None then writerErr else err)
         in (fs2, lw1\<lparr>lfw_writer := w, lfw_state := lockingFileWriterStateClosed\<rparr>, err')))"

definition LFW_Commit ::
    "faults \<Rightarrow> fs \<Rightarrow> LockingFileWriter \<Rightarrow> fs \<times> LockingFileWriter \<times> safe_error option" where
  "LFW_Commit flt fs lw =
     (if lfw_state lw \<noteq> lockingFileWriterStateLocked then (fs, lw, Some NotLocked)
      else case checkConcurrentModification flt fs lw of
             Some e \<Rightarrow> (fs, lw, Some e)
           | None \<Rightarrow>
               (case FileWriter_Commit flt fs (lfw_writer lw) of
                  (fs1, w, Some e) \<Rightarrow> (fs1, lw\<lparr>lfw_writer := w\<rparr>, Some e)
                | (fs1, w, None) \<Rightarrow> unlock flt fs1 (lw\<lparr>lfw_writer := w\<rparr>)))"

section \<open>Concurrent writers\<close>

text \<open>Any number of writers on one file system, and other processes that change files but respect lock
  files. \<open>os.CreateTemp\<close> appends random digits to the name, so that a temporary file never has the name
  of a lock file.\<close>

definition is_lock :: "string \<Rightarrow> bool" where
  "is_lock p \<longleftrightarrow> 5 \<le> length p \<and> drop (length p - 5) p = ''.lock''"

record lfw_sys =
  sfs :: fs
  lwriters :: "LockingFileWriter list"

datatype lfw_event =
    LfwNew string | LfwWrite nat bytes | LfwLock nat | LfwCommit nat | LfwClose nat | LfwOther

inductive lfw_step :: "lfw_sys \<Rightarrow> lfw_event \<Rightarrow> lfw_sys \<Rightarrow> bool" where
  lw_new: "\<not> is_lock tmp \<Longrightarrow> NewLockingFileWriter flt now tmp (sfs s) pth cfg = (fs', r) \<Longrightarrow>
    lfw_step s (LfwNew pth)
      (s\<lparr>sfs := fs', lwriters := (case r of Inl _ \<Rightarrow> lwriters s | Inr lw \<Rightarrow> lwriters s @ [lw])\<rparr>)"
| lw_write: "i < length (lwriters s) \<Longrightarrow> LFW_Write flt now (sfs s) (lwriters s ! i) p = (fs', n, r) \<Longrightarrow>
    lfw_step s (LfwWrite i p) (s\<lparr>sfs := fs'\<rparr>)"
| lw_lock: "i < length (lwriters s) \<Longrightarrow> LFW_Lock flt now (sfs s) (lwriters s ! i) = (fs', lw, r) \<Longrightarrow>
    lfw_step s (LfwLock i) (s\<lparr>sfs := fs', lwriters := (lwriters s)[i := lw]\<rparr>)"
| lw_commit: "i < length (lwriters s) \<Longrightarrow> LFW_Commit flt (sfs s) (lwriters s ! i) = (fs', lw, r) \<Longrightarrow>
    lfw_step s (LfwCommit i) (s\<lparr>sfs := fs', lwriters := (lwriters s)[i := lw]\<rparr>)"
| lw_close: "i < length (lwriters s) \<Longrightarrow> LFW_Close flt (sfs s) (lwriters s ! i) = (fs', lw, r) \<Longrightarrow>
    lfw_step s (LfwClose i) (s\<lparr>sfs := fs', lwriters := (lwriters s)[i := lw]\<rparr>)"
| lw_other: "(\<And>p. is_lock p \<Longrightarrow> fs' p = sfs s p) \<Longrightarrow> lfw_step s LfwOther (s\<lparr>sfs := fs'\<rparr>)"

definition lfw_init :: "lfw_sys \<Rightarrow> bool" where
  "lfw_init s \<longleftrightarrow> lwriters s = []"

abbreviation locked :: "LockingFileWriter \<Rightarrow> bool" where
  "locked lw \<equiv> lfw_state lw = lockingFileWriterStateLocked"

definition tmp_ok :: "LockingFileWriter \<Rightarrow> bool" where
  "tmp_ok lw \<longleftrightarrow> (\<forall>tmp b. tmpFile (lfw_writer lw) = Some (tmp, b) \<longrightarrow> \<not> is_lock tmp)"

definition lfw_inv :: "lfw_sys \<Rightarrow> bool" where
  "lfw_inv s \<longleftrightarrow> list_all tmp_ok (lwriters s) \<and>
     (\<forall>i < length (lwriters s). locked (lwriters s ! i) \<longrightarrow> sfs s (lockPath (lwriters s ! i)) \<noteq> None) \<and>
     (\<forall>i < length (lwriters s). \<forall>j < length (lwriters s). i \<noteq> j \<longrightarrow>
        locked (lwriters s ! i) \<longrightarrow> locked (lwriters s ! j) \<longrightarrow>
        lockPath (lwriters s ! i) \<noteq> lockPath (lwriters s ! j))"

lemma is_lock_lockPath [simp]: "is_lock (lockPath lw)"
  by (simp add: is_lock_def lockPath_def)

text \<open>Operations keep the lock files of others.\<close>

definition keeps_locks :: "string set \<Rightarrow> fs \<Rightarrow> fs \<Rightarrow> bool" where
  "keeps_locks except fs fs' \<longleftrightarrow> (\<forall>p. is_lock p \<longrightarrow> p \<notin> except \<longrightarrow> fs p \<noteq> None \<longrightarrow> fs' p \<noteq> None)"

lemma keeps_locks_refl [simp]: "keeps_locks X fs fs"
  by (simp add: keeps_locks_def)

lemma keeps_locks_trans: "keeps_locks X a b \<Longrightarrow> keeps_locks X b c \<Longrightarrow> keeps_locks X a c"
  by (simp add: keeps_locks_def)

lemma FileWriter_Close_frame:
  assumes "FileWriter_Close flt fs fw = (fs', fw', r)" "\<forall>tmp b. tmpFile fw = Some (tmp, b) \<longrightarrow> \<not> is_lock tmp"
  shows "keeps_locks X fs fs' \<and> map_option fst (tmpFile fw') = map_option fst (tmpFile fw) \<and> fw_path fw' = fw_path fw"
  using assms
  by (auto simp: FileWriter_Close_def Let_def keeps_locks_def ex_bool_eq split: if_splits option.splits)

lemma FileWriter_Commit_frame:
  assumes "FileWriter_Commit flt fs fw = (fs', fw', r)" "\<forall>tmp b. tmpFile fw = Some (tmp, b) \<longrightarrow> \<not> is_lock tmp"
  shows "keeps_locks X fs fs' \<and> map_option fst (tmpFile fw') = map_option fst (tmpFile fw) \<and> fw_path fw' = fw_path fw"
  using assms
  by (auto simp: FileWriter_Commit_def fw_rename_def Let_def keeps_locks_def ex_bool_eq
      split: if_splits option.splits prod.splits)

lemma FileWriter_Write_frame:
  "FileWriter_Write flt now fs fw p = (fs', n, r) \<Longrightarrow> keeps_locks X fs fs'"
  by (auto simp: FileWriter_Write_def Let_def keeps_locks_def split: if_splits option.splits)

lemma NewFileWriter_frame:
  assumes "NewFileWriter flt now tmp fs pth cfg = (fs', r)"
  shows "keeps_locks X fs fs' \<and> (\<forall>w. r = Inr w \<longrightarrow> tmpFile w = Some (tmp, True))"
  using assms
  by (auto simp: NewFileWriter_def FileWriter_Close_def Let_def keeps_locks_def split: if_splits)

lemma unlock_frame:
  "unlock flt fs lw = (fs', lw', r) \<Longrightarrow>
   keeps_locks {lockPath lw} fs fs' \<and> lfw_writer lw' = lfw_writer lw \<and>
   (locked lw' \<longrightarrow> locked lw \<and> fs' = fs)"
  by (auto simp: unlock_def keeps_locks_def split: if_splits)

lemma lfw_inv_update:
  assumes inv: "lfw_inv s" and i: "i < length (lwriters s)"
    and fs': "keeps_locks (if locked (lwriters s ! i) then {lockPath (lwriters s ! i)} else {}) (sfs s) fs'"
    and lw: "lockPath lw = lockPath (lwriters s ! i)" "tmp_ok lw"
      "locked lw \<Longrightarrow> locked (lwriters s ! i) \<and> fs' (lockPath lw) \<noteq> None"
  shows "lfw_inv (s\<lparr>sfs := fs', lwriters := (lwriters s)[i := lw]\<rparr>)"
proof -
  have "fs' (lockPath (lwriters s ! j)) \<noteq> None" if "j < length (lwriters s)" "j \<noteq> i" "locked (lwriters s ! j)" for j
  proof -
    have "lockPath (lwriters s ! j) \<noteq> lockPath (lwriters s ! i)" if "locked (lwriters s ! i)"
      using inv i that \<open>j < _\<close> \<open>j \<noteq> i\<close> \<open>locked (lwriters s ! j)\<close> unfolding lfw_inv_def by blast
    moreover have "sfs s (lockPath (lwriters s ! j)) \<noteq> None" using inv that unfolding lfw_inv_def by blast
    ultimately show ?thesis using fs' by (auto simp: keeps_locks_def split: if_splits)
  qed
  then show ?thesis
    using inv i lw
    by (auto simp: lfw_inv_def nth_list_update list_all_length)
qed

lemma tmp_ok_cong:
  "map_option fst (tmpFile w) = map_option fst (tmpFile (lfw_writer lw)) \<Longrightarrow> tmp_ok lw \<Longrightarrow>
   lfw_writer lw' = w \<Longrightarrow> tmp_ok lw'"
  by (cases "tmpFile w"; cases "tmpFile (lfw_writer lw)") (auto simp: tmp_ok_def)

lemma keeps_locks_mono: "keeps_locks {} fs fs' \<Longrightarrow> keeps_locks X fs fs'"
  by (auto simp: keeps_locks_def)

lemma LFW_Close_frame:
  assumes r: "LFW_Close flt fs lw = (fs', lw', r)" and ok: "tmp_ok lw"
  shows "keeps_locks (if locked lw then {lockPath lw} else {}) fs fs' \<and> lockPath lw' = lockPath lw \<and>
    tmp_ok lw' \<and> \<not> locked lw'"
proof (cases "lfw_state lw = lockingFileWriterStateClosed")
  case True
  then show ?thesis using r ok by (simp add: LFW_Close_def)
next
  case False
  obtain fs1 lw1 e1 where u: "(if locked lw then unlock flt fs lw else (fs, lw, None)) = (fs1, lw1, e1)"
    by (metis surj_pair)
  obtain fs2 w e2 where c: "FileWriter_Close flt fs1 (lfw_writer lw1) = (fs2, w, e2)" by (metis surj_pair)
  have res: "fs' = fs2" "lw' = lw1\<lparr>lfw_writer := w, lfw_state := lockingFileWriterStateClosed\<rparr>"
    using r False u c by (auto simp: LFW_Close_def Let_def)
  have w1: "lfw_writer lw1 = lfw_writer lw" "keeps_locks (if locked lw then {lockPath lw} else {}) fs fs1"
    using u unlock_frame [of flt fs lw fs1 lw1 e1] by (auto split: if_splits)
  have "\<forall>tmp b. tmpFile (lfw_writer lw1) = Some (tmp, b) \<longrightarrow> \<not> is_lock tmp"
    using ok w1(1) by (simp add: tmp_ok_def)
  note frame = FileWriter_Close_frame [OF c this]
  then have "tmp_ok lw'" using tmp_ok_cong [of w lw lw'] ok w1(1) res(2) by simp
  then show ?thesis using frame w1 res by (auto simp: lockPath_def intro: keeps_locks_trans)
qed

lemma LFW_Commit_refused:
  assumes "LFW_Commit flt fs lw = (fs', lw', r)" "\<not> locked lw \<or> checkConcurrentModification flt fs lw \<noteq> None"
  shows "fs' = fs \<and> lw' = lw \<and> r \<noteq> None"
proof (cases "locked lw")
  case True
  then obtain e where "checkConcurrentModification flt fs lw = Some e" using assms(2) by auto
  then have "(fs, lw, Some e) = (fs', lw', r)" using assms(1) True by (simp add: LFW_Commit_def)
  then show ?thesis by auto
qed (use assms(1) in \<open>auto simp: LFW_Commit_def\<close>)

lemma LFW_Commit_frame:
  assumes r: "LFW_Commit flt fs lw = (fs', lw', r)" and ok: "tmp_ok lw"
    and lk: "locked lw \<longrightarrow> fs (lockPath lw) \<noteq> None"
  shows "keeps_locks (if locked lw then {lockPath lw} else {}) fs fs' \<and> lockPath lw' = lockPath lw \<and>
    tmp_ok lw' \<and> (locked lw' \<longrightarrow> locked lw \<and> fs' (lockPath lw') \<noteq> None)"
proof (cases "locked lw \<and> checkConcurrentModification flt fs lw = None")
  case False
  then have "fs' = fs \<and> lw' = lw" using r by (auto simp: LFW_Commit_def split: if_splits option.splits)
  then show ?thesis using ok lk by auto
next
  case True
  obtain fs1 w e1 where c: "FileWriter_Commit flt fs (lfw_writer lw) = (fs1, w, e1)" by (metis surj_pair)
  have "\<forall>tmp b. tmpFile (lfw_writer lw) = Some (tmp, b) \<longrightarrow> \<not> is_lock tmp"
    using ok by (simp add: tmp_ok_def)
  note frame = FileWriter_Commit_frame [OF c this]
  have ok1: "tmp_ok (lw\<lparr>lfw_writer := w\<rparr>)" "lockPath (lw\<lparr>lfw_writer := w\<rparr>) = lockPath lw"
    using tmp_ok_cong [of w lw "lw\<lparr>lfw_writer := w\<rparr>"] frame ok by (auto simp: lockPath_def)
  have lk1: "fs1 (lockPath lw) \<noteq> None" using frame [of "{}"] lk True by (auto simp: keeps_locks_def)
  show ?thesis
  proof (cases e1)
    case (Some e)
    then have "fs' = fs1" "lw' = lw\<lparr>lfw_writer := w\<rparr>" using r True c by (auto simp: LFW_Commit_def)
    then show ?thesis using frame ok1 lk1 True by auto
  next
    case None
    then have u: "unlock flt fs1 (lw\<lparr>lfw_writer := w\<rparr>) = (fs', lw', r)" using r True c by (simp add: LFW_Commit_def)
    have same: "lfw_writer lw' = w" "locked lw' \<longrightarrow> fs' = fs1" "keeps_locks {lockPath lw} fs1 fs'"
      using unlock_frame [OF u] ok1(2) by auto
    then have "lockPath lw' = lockPath lw" using ok1(2) by (simp add: lockPath_def)
    moreover have "tmp_ok lw'" using same(1) ok1(1) by (simp add: tmp_ok_def)
    ultimately show ?thesis using same frame lk1 True by (auto intro: keeps_locks_trans)
  qed
qed

lemma lfw_inv_lock:
  assumes inv: "lfw_inv s" and i: "i < length (lwriters s)"
    and r: "LFW_Lock flt now (sfs s) (lwriters s ! i) = (fs', lw, r)"
  shows "lfw_inv (s\<lparr>sfs := fs', lwriters := (lwriters s)[i := lw]\<rparr>)"
proof (cases "r = None")
  case False
  then have "fs' = sfs s" "lw = lwriters s ! i"
    using r by (auto simp: LFW_Lock_def fault_def split: if_splits option.splits)
  then show ?thesis using inv by simp
next
  case True
  let ?lw = "lwriters s ! i"
  have new: "sfs s (lockPath ?lw) = None" "fs' = (sfs s)(lockPath ?lw \<mapsto> \<lparr>contents = [], modTime = now, fmode = 256\<rparr>)"
    "lw = ?lw\<lparr>lfw_state := lockingFileWriterStateLocked\<rparr>"
    using r True by (auto simp: LFW_Lock_def fault_def split: if_splits option.splits)
  have lp: "lockPath lw = lockPath ?lw" "tmp_ok lw = tmp_ok ?lw" by (simp_all add: new(3) lockPath_def tmp_ok_def)
  have "lockPath (lwriters s ! j) \<noteq> lockPath ?lw" if "j < length (lwriters s)" "locked (lwriters s ! j)" for j
    using inv that new(1) unfolding lfw_inv_def by metis
  then show ?thesis
    using inv i lp new(2) by (auto simp: lfw_inv_def nth_list_update list_all_length) blast
qed

lemma NewLockingFileWriter_frame:
  assumes "NewLockingFileWriter flt now tmp fs pth cfg = (fs', r)"
  shows "keeps_locks {} fs fs' \<and>
    (\<forall>lw. r = Inr lw \<longrightarrow> tmpFile (lfw_writer lw) = Some (tmp, True) \<and> \<not> locked lw)"
  using assms
  by (auto simp: NewLockingFileWriter_def Let_def split: if_splits prod.splits sum.splits option.splits
      dest: NewFileWriter_frame [where X = "{}"] FileWriter_Write_frame [where X = "{}"]
      intro: keeps_locks_trans)

lemma lfw_inv_fs: "lfw_inv s \<Longrightarrow> keeps_locks {} (sfs s) fs' \<Longrightarrow> lfw_inv (s\<lparr>sfs := fs'\<rparr>)"
  by (auto simp: lfw_inv_def keeps_locks_def)

lemma lfw_inv_append:
  "lfw_inv s \<Longrightarrow> tmp_ok lw \<Longrightarrow> \<not> locked lw \<Longrightarrow> lfw_inv (s\<lparr>lwriters := lwriters s @ [lw]\<rparr>)"
  by (auto simp: lfw_inv_def nth_append less_Suc_eq)

lemma lfw_inv_step:
  assumes "lfw_step s ev s'" "lfw_inv s"
  shows "lfw_inv s'"
  using assms(1)
proof cases
  case (lw_new tmp flt now pth cfg fs' r)
  note frame = NewLockingFileWriter_frame [OF lw_new(4)]
  then have inv: "lfw_inv (s\<lparr>sfs := fs'\<rparr>)" using lfw_inv_fs [OF assms(2)] by blast
  have "tmp_ok lw \<and> \<not> locked lw" if "r = Inr lw" for lw
    using frame that lw_new(3) by (auto simp: tmp_ok_def)
  then show ?thesis
    using inv lfw_inv_append [OF inv] lw_new(2) by (cases r) auto
next
  case (lw_write i flt now p fs' n r)
  have "keeps_locks {} (sfs s) fs'"
    using lw_write(4) by (auto simp: LFW_Write_def dest: FileWriter_Write_frame split: if_splits)
  then show ?thesis using lw_write(2) lfw_inv_fs [OF assms(2)] by simp
next
  case (lw_lock i flt now fs' lw r)
  then show ?thesis using lfw_inv_lock [OF assms(2)] by simp
next
  case (lw_commit i flt fs' lw r)
  have ok: "tmp_ok (lwriters s ! i)" "locked (lwriters s ! i) \<longrightarrow> sfs s (lockPath (lwriters s ! i)) \<noteq> None"
    using assms(2) lw_commit(3) by (auto simp: lfw_inv_def list_all_length)
  show ?thesis
    using LFW_Commit_frame [OF lw_commit(4) ok] lfw_inv_update [OF assms(2) lw_commit(3)] lw_commit(2) by blast
next
  case (lw_close i flt fs' lw r)
  have ok: "tmp_ok (lwriters s ! i)" using assms(2) lw_close(3) by (auto simp: lfw_inv_def list_all_length)
  show ?thesis
    using LFW_Close_frame [OF lw_close(4) ok] lfw_inv_update [OF assms(2) lw_close(3)] lw_close(2) by blast
next
  case (lw_other fs')
  then show ?thesis using lfw_inv_fs [OF assms(2)] by (simp add: keeps_locks_def)
qed

interpretation lfw: invariant_of lfw_init lfw_step lfw_inv
proof unfold_locales
  show "lfw_inv s" if "lfw_init s" for s using that by (simp add: lfw_init_def lfw_inv_def)
qed (rule lfw_inv_step)

abbreviation lfw_reachable :: "lfw_sys \<Rightarrow> bool" where
  "lfw_reachable \<equiv> reachable lfw_init lfw_step"

section \<open>Properties\<close>

text \<open>C15: The lock excludes: whatever writers are created, used, committed and closed, with whatever system
  calls failing and other processes changing files other than lock files, no two writers for the same
  file are locked at the same time, and while one is locked its lock file exists.\<close>

theorem lock_mutual_exclusion:
  assumes "lfw_reachable s" and "i < length (lwriters s)" "j < length (lwriters s)"
    and "locked (lwriters s ! i)" "locked (lwriters s ! j)"
    and "fw_path (lfw_writer (lwriters s ! i)) = fw_path (lfw_writer (lwriters s ! j))"
  shows "i = j \<and> sfs s (fw_path (lfw_writer (lwriters s ! i)) @ ''.lock'') \<noteq> None"
proof -
  have inv: "lfw_inv s" using assms(1) by (rule lfw.reachable_inv)
  have "lockPath (lwriters s ! i) = lockPath (lwriters s ! j)" using assms(6) by (simp add: lockPath_def)
  then have "i = j" using inv assms(2-5) unfolding lfw_inv_def by blast
  moreover have "sfs s (lockPath (lwriters s ! i)) \<noteq> None" using inv assms(2,4) unfolding lfw_inv_def by blast
  ultimately show ?thesis by (simp add: lockPath_def)
qed

text \<open>A run without faults: a writer for a file that does not exist is created and locked.\<close>

definition no_faults :: faults where
  "no_faults = \<lparr>open_fault = None, stat_fault = None, create_fault = None, chmod_fault = None,
     write_fault = None, sync_fault = None, close_fault = None, rename_fault = None, dir_fault = None,
     remove_fault = None, lock_fault = None, unlock_fault = None\<rparr>"

definition demo_lfw :: "lockingFileWriterState \<Rightarrow> LockingFileWriter" where
  "demo_lfw st = \<lparr>lfw_writer = \<lparr>tmpFile = Some (''f1'', True), fw_path = ''f'', onceDone = False\<rparr>,
     lfw_fi = None, lfw_state = st\<rparr>"

definition demo_fs :: fs where
  "demo_fs = [''f1'' \<mapsto> \<lparr>contents = ''hi'', modTime = 1, fmode = 384\<rparr>,
              ''f.lock'' \<mapsto> \<lparr>contents = [], modTime = 2, fmode = 256\<rparr>]"

definition demo_lfw_sys :: lfw_sys where
  "demo_lfw_sys = \<lparr>sfs = demo_fs, lwriters = [demo_lfw lockingFileWriterStateLocked]\<rparr>"

lemmas lfw_eval = demo_lfw_sys_def demo_lfw_def demo_fs_def no_faults_def

lemma demo_lfw_reachable: "lfw_reachable demo_lfw_sys"
proof -
  let ?s0 = "\<lparr>sfs = Map.empty, lwriters = []\<rparr>"
  let ?s1 = "\<lparr>sfs = [''f1'' \<mapsto> \<lparr>contents = [], modTime = 0, fmode = 384\<rparr>], lwriters = [demo_lfw lockingFileWriterStateOpen]\<rparr>"
  let ?s2 = "\<lparr>sfs = [''f1'' \<mapsto> \<lparr>contents = ''hi'', modTime = 1, fmode = 384\<rparr>], lwriters = [demo_lfw lockingFileWriterStateOpen]\<rparr>"
  have r0: "lfw_reachable ?s0" by (rule reach_init) (simp add: lfw_init_def)
  have "NewLockingFileWriter no_faults 0 ''f1'' (sfs ?s0) ''f'' [] =
      (sfs ?s1, Inr (demo_lfw lockingFileWriterStateOpen))"
    by (simp add: NewLockingFileWriter_def NewFileWriter_def lfw_eval)
  then have "lfw_step ?s0 (LfwNew ''f'') ?s1"
    using lw_new [of "''f1''" no_faults 0 ?s0 "''f''" "[]"] by (simp add: is_lock_def)
  with r0 have r1: "lfw_reachable ?s1" by (rule reach_step)
  have "LFW_Write no_faults 1 (sfs ?s1) (lwriters ?s1 ! 0) ''hi'' = (sfs ?s2, 2, None)"
    by (simp add: LFW_Write_def FileWriter_Write_def lfw_eval)
  then have "lfw_step ?s1 (LfwWrite 0 ''hi'') ?s2" using lw_write [of 0 ?s1 no_faults 1 "''hi''"] by simp
  with r1 have r2: "lfw_reachable ?s2" by (rule reach_step)
  have "LFW_Lock no_faults 2 (sfs ?s2) (lwriters ?s2 ! 0) = (demo_fs, demo_lfw lockingFileWriterStateLocked, None)"
    by (simp add: LFW_Lock_def checkConcurrentModification_def lockPath_def lfw_eval)
  then have "lfw_step ?s2 (LfwLock 0) demo_lfw_sys"
    using lw_lock [of 0 ?s2 no_faults 2] by (simp add: demo_lfw_sys_def)
  with r2 show ?thesis by (rule reach_step)
qed

theorem lock_mutual_exclusion_witness: "sfs demo_lfw_sys ''f.lock'' \<noteq> None"
  using lock_mutual_exclusion [OF demo_lfw_reachable, of 0 0] by (simp add: demo_lfw_sys_def demo_lfw_def)

text \<open>C16: Commit is atomic. Whatever fails, afterwards the target holds either what it held before or the
  complete contents of the temporary file. When it succeeds, the target had not been created, deleted
  or changed (in size, time or mode) since the writer was made, it now holds the temporary file's contents,
  the temporary file and the lock file are gone, the writer is closed and no other file has changed.\<close>

theorem commit_atomic:
  assumes r: "LFW_Commit flt fs lw = (fs', lw', r)"
    and tmp: "tmpFile (lfw_writer lw) = Some (tmp, b)" "\<not> is_lock tmp" "tmp \<noteq> fw_path (lfw_writer lw)"
  defines "p \<equiv> fw_path (lfw_writer lw)"
  shows "(fs' p = fs p \<or> fs tmp \<noteq> None \<and> fs' p = fs tmp) \<and>
    (r = None \<longrightarrow>
       map_option info_of (fs p) = lfw_fi lw \<and> fs tmp \<noteq> None \<and> fs' p = fs tmp \<and>
       fs' tmp = None \<and> fs' (p @ ''.lock'') = None \<and> lfw_state lw' = lockingFileWriterStateClosed \<and>
       (\<forall>q. q \<notin> {p, tmp, p @ ''.lock''} \<longrightarrow> fs' q = fs q))"
proof (cases "locked lw \<and> checkConcurrentModification flt fs lw = None")
  case False
  then have "fs' = fs \<and> lw' = lw \<and> r \<noteq> None" by (intro LFW_Commit_refused [OF r]) auto
  then show ?thesis by auto
next
  case True
  obtain fs1 w e1 where c: "FileWriter_Commit flt fs (lfw_writer lw) = (fs1, w, e1)" by (metis surj_pair)
  have path: "fw_path w = p"
    using c by (auto simp: FileWriter_Commit_def p_def Let_def split: if_splits option.splits prod.splits)
  have fs1: "fs1 = fs \<and> e1 \<noteq> None \<or> (\<exists>f. fs tmp = Some f \<and> fs1 = (fs(tmp := None))(p \<mapsto> f))"
    using c tmp(1) by (auto simp: FileWriter_Commit_def fw_rename_def fault_def p_def Let_def
        split: if_splits option.splits prod.splits)
  have fi: "map_option info_of (fs p) = lfw_fi lw"
    using True by (auto simp: checkConcurrentModification_def p_def fault_def split: if_splits option.splits)
  have ne: "p @ ''.lock'' \<noteq> p" "tmp \<noteq> p @ ''.lock''" "tmp \<noteq> p"
    using tmp(2,3) by (auto simp: is_lock_def p_def)
  show ?thesis
  proof (cases e1)
    case (Some e)
    then have "fs' = fs1" "r \<noteq> None" using r True c by (auto simp: LFW_Commit_def)
    then show ?thesis using fs1 ne by auto
  next
    case None
    then obtain f where f: "fs tmp = Some f" "fs1 = (fs(tmp := None))(p \<mapsto> f)" using fs1 by auto
    have u: "unlock flt fs1 (lw\<lparr>lfw_writer := w\<rparr>) = (fs', lw', r)" using r True c None by (simp add: LFW_Commit_def)
    then have "fs' = fs1 \<and> r \<noteq> None \<or>
        fs' = fs1(p @ ''.lock'' := None) \<and> lfw_state lw' = lockingFileWriterStateClosed"
      by (auto simp: unlock_def lockPath_def path fault_def split: if_splits)
    then show ?thesis using f fi ne by auto
  qed
qed

theorem commit_atomic_witness:
  "\<exists>fs' lw'. LFW_Commit no_faults demo_fs (demo_lfw lockingFileWriterStateLocked) = (fs', lw', None) \<and>
     fs' ''f'' = demo_fs ''f1'' \<and> fs' ''f.lock'' = None"
proof -
  obtain fs' lw' r where c: "LFW_Commit no_faults demo_fs (demo_lfw lockingFileWriterStateLocked) = (fs', lw', r)"
    by (metis surj_pair)
  have "r = None"
    using c by (simp add: LFW_Commit_def checkConcurrentModification_def FileWriter_Commit_def fw_rename_def
        unlock_def lockPath_def fault_def lfw_eval)
  then show ?thesis
    using commit_atomic [OF c, of "''f1''" True] c by (simp add: demo_lfw_def is_lock_def)
qed

text \<open>A commit that finds the target changed leaves everything in place: the writer stays locked, with its
  lock file and its temporary file, and not closed as the comment says. Closing it afterwards removes
  both files without touching the target.\<close>

theorem failed_commit_keeps_lock:
  assumes lw: "locked lw" "tmpFile (lfw_writer lw) = Some (tmp, True)" "\<not> onceDone (lfw_writer lw)"
      "\<not> is_lock tmp" "tmp \<noteq> fw_path (lfw_writer lw)"
    and lk: "fs (lockPath lw) \<noteq> None"
    and c: "LFW_Commit no_faults fs lw = (fs', lw', r)" "map_option info_of (fs (fw_path (lfw_writer lw))) \<noteq> lfw_fi lw"
    and cl: "LFW_Close no_faults fs' lw' = (fs'', lw'', r')"
  shows "fs' = fs \<and> lw' = lw \<and> r \<noteq> None \<and> r' = None \<and> fs'' = fs(lockPath lw := None, tmp := None) \<and>
    fs'' (fw_path (lfw_writer lw)) = fs (fw_path (lfw_writer lw)) \<and> lfw_state lw'' = lockingFileWriterStateClosed"
proof -
  have "checkConcurrentModification no_faults fs lw \<noteq> None"
    using c(2) by (cases "lfw_fi lw"; cases "fs (fw_path (lfw_writer lw))")
      (auto simp: checkConcurrentModification_def no_faults_def)
  then have same: "fs' = fs \<and> lw' = lw \<and> r \<noteq> None" by (intro LFW_Commit_refused [OF c(1)]) auto
  have "lockPath lw \<noteq> fw_path (lfw_writer lw)" by (simp add: lockPath_def)
  moreover have "fs'' = fs(lockPath lw := None, tmp := None)" "r' = None"
      "lfw_state lw'' = lockingFileWriterStateClosed"
    using cl same lw lk by (auto simp: LFW_Close_def unlock_def FileWriter_Close_def no_faults_def)
  ultimately show ?thesis using same lw(5) by auto
qed

theorem failed_commit_keeps_lock_witness:
  "LFW_Commit no_faults (demo_fs(''f'' \<mapsto> \<lparr>contents = ''new'', modTime = 3, fmode = 420\<rparr>))
     (demo_lfw lockingFileWriterStateLocked) =
   (demo_fs(''f'' \<mapsto> \<lparr>contents = ''new'', modTime = 3, fmode = 420\<rparr>),
    demo_lfw lockingFileWriterStateLocked, Some ConcurrentlyCreated)"
proof -
  let ?fs = "demo_fs(''f'' \<mapsto> \<lparr>contents = ''new'', modTime = 3, fmode = 420\<rparr>)"
  let ?lw = "demo_lfw lockingFileWriterStateLocked"
  obtain fs' lw' r where c: "LFW_Commit no_faults ?fs ?lw = (fs', lw', r)" by (metis surj_pair)
  obtain fs'' lw'' r' where cl: "LFW_Close no_faults fs' lw' = (fs'', lw'', r')" by (metis surj_pair)
  have "fs' = ?fs \<and> lw' = ?lw"
    using failed_commit_keeps_lock [OF _ _ _ _ _ _ c _ cl, of "''f1''"]
    by (simp add: demo_lfw_def demo_fs_def lockPath_def is_lock_def)
  moreover have "r = Some ConcurrentlyCreated"
    using c by (simp add: LFW_Commit_def checkConcurrentModification_def lfw_eval)
  ultimately show ?thesis using c by simp
qed

text \<open>When setting the mode of the temporary file fails, \<open>NewFileWriter\<close> returns the error but leaves the
  temporary file behind: the writer it closes does not know the file yet.\<close>

theorem chmod_failure_leaks_tmp:
  assumes "chmod_fault flt = Some e" "create_fault flt = None" "fs tmp = None" "m \<noteq> 0"
  shows "\<exists>fs' err. NewFileWriter flt now tmp fs pth [m] = (fs', Inl err) \<and> fs' tmp \<noteq> None"
  using assms by (auto simp: NewFileWriter_def FileWriter_Close_def)

theorem chmod_failure_leaks_tmp_witness:
  "\<exists>fs' err. NewFileWriter (no_faults\<lparr>chmod_fault := Some ''EPERM''\<rparr>) 0 ''f1'' Map.empty ''f'' [420] = (fs', Inl err) \<and>
     fs' ''f1'' \<noteq> None"
  by (rule chmod_failure_leaks_tmp [of _ "''EPERM''"]) (simp_all add: no_faults_def)

end
