(* ===== verification/LogWriter.thy ===== *)
theory LogWriter
  imports Prelude "HOL-Library.Sublist"
begin

text \<open>
  What the writers of a job log in gitlab-runner share, \<open>helpers/trace/\<close>: the interface \<open>io.WriteCloser\<close> a
  writer passes its output to, slices, and the functions of the package \<open>bytes\<close>. A writer is a function on
  its state, so that writers can be stacked.
\<close>

section \<open>Definitions\<close>

text \<open>An error of the underlying writer, or a subslice or an index out of range.\<close>

datatype write_error = WriteError string | LogLimitExceeded | IndexPanic

type_synonym 's write_fn = "'s \<Rightarrow> bytes \<Rightarrow> 's \<times> nat \<times> write_error option"
type_synonym 's close_fn = "'s \<Rightarrow> 's \<times> write_error option"

definition subslice :: "'a list \<Rightarrow> nat \<Rightarrow> nat \<Rightarrow> 'a list" where
  "subslice p i j = drop i (take j p)"

definition IndexByte :: "bytes \<Rightarrow> char \<Rightarrow> nat option" where
  "IndexByte b c = (if c \<in> set b then Some (length (takeWhile (\<lambda>x. x \<noteq> c) b)) else None)"

definition BytesHasPrefix :: "bytes \<Rightarrow> bytes \<Rightarrow> bool" where
  "BytesHasPrefix s p \<longleftrightarrow> take (length p) s = p"

definition mask_bytes :: bytes where
  "mask_bytes = ''[MASKED]''"

text \<open>A writer that keeps what it is given.\<close>

definition collect :: "bytes write_fn" where
  "collect st p = (st @ p, length p, None)"

definition collect_close :: "bytes close_fn" where
  "collect_close st = (st, None)"

section \<open>Interface\<close>

text \<open>A writer that accepts everything: \<open>content\<close> is what has been written to it.\<close>

locale byte_sink =
  fixes next_Write :: "'s write_fn" and next_Close :: "'s close_fn" and content :: "'s \<Rightarrow> bytes"
  assumes write_appends: "next_Write st p = (st', n, e) \<Longrightarrow> e = None \<and> content st' = content st @ p"
    and close_keeps: "next_Close st = (st', e) \<Longrightarrow> e = None \<and> content st' = content st"
begin

lemma write_obtain:
  obtains st' n where "next_Write st p = (st', n, None)" "content st' = content st @ p"
  using write_appends [of st p] by (metis surj_pair)

end

text \<open>A property of the state of a writer that every write and closing it preserve, whether they succeed or not.\<close>

locale write_invariant =
  fixes next_Write :: "'s write_fn" and next_Close :: "'s close_fn" and I :: "'s \<Rightarrow> bool"
  assumes write_keeps: "next_Write st p = (st', n, e) \<Longrightarrow> I st \<Longrightarrow> I st'"
    and closing_keeps: "next_Close st = (st', e) \<Longrightarrow> I st \<Longrightarrow> I st'"

interpretation snk: byte_sink collect collect_close id
  by unfold_locales (auto simp: collect_def collect_close_def)

section \<open>Lemmas\<close>

lemma subslice_same [simp]: "subslice p i i = []"
  by (simp add: subslice_def)

lemma subslice_append: "i \<le> j \<Longrightarrow> j \<le> k \<Longrightarrow> subslice p i j @ subslice p j k = subslice p i k"
proof -
  assume "i \<le> j" "j \<le> k"
  then have "subslice p i k = drop i (take j (take k p) @ drop j (take k p))"
    by (simp only: subslice_def append_take_drop_id)
  also have "\<dots> = drop i (take j p) @ drop j (take k p)"
    using \<open>i \<le> j\<close> \<open>j \<le> k\<close> by (cases "j \<le> length p") (simp_all add: min_def)
  finally show ?thesis by (simp add: subslice_def)
qed

lemma subslice_length: "subslice p i (length p) = drop i p"
  by (simp add: subslice_def)

lemma drop_subslice: "i \<le> j \<Longrightarrow> drop i p = subslice p i j @ drop j p"
proof -
  assume "i \<le> j"
  have "drop i p = drop i (take j p @ drop j p)" by simp
  also have "\<dots> = drop i (take j p) @ drop (i - length (take j p)) (drop j p)" by (rule drop_append)
  also have "\<dots> = subslice p i j @ drop j p"
    using \<open>i \<le> j\<close> by (cases "j \<le> length p") (simp_all add: subslice_def)
  finally show ?thesis .
qed

lemma consumed: "q \<noteq> [] \<Longrightarrow> n < k \<Longrightarrow> k - (n + i + length q) < k - n"
  by (cases q) auto

lemma IndexByte_None: "IndexByte b c = None \<longleftrightarrow> c \<notin> set b"
  by (simp add: IndexByte_def)

lemma IndexByte_Some:
  assumes "IndexByte b c = Some i"
  shows "i < length b" "b ! i = c" "c \<notin> set (take i b)"
proof -
  have i: "i = length (takeWhile (\<lambda>x. x \<noteq> c) b)" "c \<in> set b"
    using assms by (auto simp: IndexByte_def split: if_splits)
  then have ex: "\<exists>x \<in> set b. \<not> x \<noteq> c" by auto
  have "takeWhile (\<lambda>x. x \<noteq> c) b \<noteq> b" using ex unfolding takeWhile_eq_all_conv by blast
  then have "length (takeWhile (\<lambda>x. x \<noteq> c) b) \<noteq> length b" by (metis takeWhile_eq_take take_all_iff le_refl)
  then show "i < length b" unfolding i(1) by (simp add: le_neq_implies_less length_takeWhile_le)
  then show "b ! i = c" unfolding i(1) by (metis (mono_tags) nth_length_takeWhile)
  show "c \<notin> set (take i b)" unfolding i(1) takeWhile_eq_take [symmetric] by (auto dest: set_takeWhileD)
qed

lemma HasPrefix_append:
  assumes "BytesHasPrefix s (take (min (length p) (length s)) p)" "length p \<le> length s"
  shows "s = p @ drop (length p) s"
  using assms by (simp add: BytesHasPrefix_def min_def) (metis append_take_drop_id)

section \<open>Scanning for a phrase\<close>

text \<open>What the writers that look for a phrase compute for a whole text: a byte at which the phrase does not start
  is passed on. What happens at an occurrence is left open.\<close>

lemma mismatch_not_prefix:
  assumes "\<not> BytesHasPrefix r (take (min (length ph - k) (length r)) (drop k ph))" "k \<le> length ph"
  shows "\<not> prefix ph (take k ph @ r @ y)"
proof
  assume "prefix ph (take k ph @ r @ y)"
  then obtain z where "take k ph @ r @ y = ph @ z" by (auto simp: prefix_def)
  also have "ph @ z = take k ph @ drop k ph @ z" by simp
  finally have eq: "r @ y = drop k ph @ z" by (simp del: append_take_drop_id)
  let ?m = "min (length ph - k) (length r)"
  have "take ?m r = take ?m (r @ y)" by simp
  also have "\<dots> = take ?m (drop k ph)" unfolding eq by simp
  finally show False using assms by (simp add: BytesHasPrefix_def min_def split: if_splits)
qed

lemma match_splits:
  assumes "BytesHasPrefix (drop n p) (take mn (drop k ph))" "mn \<le> length ph - k" "mn \<le> length p - n"
  shows "take k ph @ drop n p = take (k + mn) ph @ drop (n + mn) p"
proof -
  have "take mn (drop n p) = take mn (drop k ph)"
    using assms by (simp add: BytesHasPrefix_def min_def split: if_splits)
  then have "drop n p = take mn (drop k ph) @ drop (n + mn) p"
    by (metis append_take_drop_id drop_drop add.commute)
  then show ?thesis by (simp add: take_add)
qed

lemma subslice_Suc: "i \<le> n \<Longrightarrow> n < length p \<Longrightarrow> subslice p i (Suc n) = subslice p i n @ [p ! n]"
  by (simp add: subslice_def take_Suc_conv_app_nth)

locale scanner =
  fixes scan :: "bytes \<Rightarrow> bytes \<Rightarrow> bytes"
  assumes scan_Nil: "scan ph [] = []"
    and scan_pass: "\<not> prefix ph (c # s) \<Longrightarrow> scan ph (c # s) = c # scan ph s"
begin

lemma scan_skip: "ph \<noteq> [] \<Longrightarrow> hd ph \<notin> set r \<Longrightarrow> scan ph (r @ s) = r @ scan ph s"
proof (induction r)
  case (Cons c r)
  then have "\<not> prefix ph (c # r @ s)" by (cases ph) auto
  with Cons show ?case by (simp add: scan_pass)
qed simp

lemma scan_short: "length s < length ph \<Longrightarrow> scan ph s = s"
proof (induction s)
  case (Cons c s)
  then have "\<not> prefix ph (c # s)" by (auto dest: prefix_length_le)
  with Cons show ?case by (simp add: scan_pass)
qed (simp add: scan_Nil)

text \<open>A mismatch after a partial match: the bytes held back are passed on.\<close>

lemma scan_mismatch:
  assumes "hd ph \<notin> set (tl ph)" "\<not> prefix ph (take k ph @ s)" "0 < k" "k < length ph"
  shows "scan ph (take k ph @ s) = take k ph @ scan ph s"
proof -
  obtain c cs where ph: "ph = c # cs" using assms(4) by (cases ph) auto
  obtain j where k: "k = Suc j" using assms(3) by (cases k) auto
  have "c \<notin> set (take j cs)" using assms(1) ph by (auto dest: in_set_takeD)
  then have "scan ph (take j cs @ s) = take j cs @ scan ph s"
    by (intro scan_skip) (simp_all add: ph)
  moreover have "scan ph (c # take j cs @ s) = c # scan ph (take j cs @ s)"
    using assms(2) by (intro scan_pass) (simp add: ph k)
  ultimately show ?thesis by (simp add: ph k)
qed

text \<open>Where a loop continues: it skips to the first byte that can start the phrase.\<close>

lemma skip_to:
  assumes "(if k = 0 then IndexByte (drop n p) (hd ph) else Some 0) = Some off" "ph \<noteq> []" "sent \<le> n" "n < length p"
  shows "n + off < length p"
    "subslice p sent n @ scan ph (take k ph @ drop n p @ y) =
     subslice p sent (n + off) @ scan ph (take k ph @ drop (n + off) p @ y)"
proof -
  show "n + off < length p"
    using assms(1,4) by (auto split: if_splits dest!: IndexByte_Some(1))
  show "subslice p sent n @ scan ph (take k ph @ drop n p @ y) =
     subslice p sent (n + off) @ scan ph (take k ph @ drop (n + off) p @ y)"
  proof (cases "k = 0")
    case True
    then have "hd ph \<notin> set (take off (drop n p))" using assms(1) by (auto dest: IndexByte_Some(3))
    moreover have "take off (drop n p) = subslice p n (n + off)" by (simp add: subslice_def drop_take)
    moreover have "drop n p = subslice p n (n + off) @ drop (n + off) p" by (rule drop_subslice) simp
    ultimately have "scan ph (drop n p @ y) = subslice p n (n + off) @ scan ph (drop (n + off) p @ y)"
      using scan_skip [OF assms(2)] by (metis append.assoc)
    then show ?thesis using True assms(3) subslice_append [of sent n "n + off" p] by simp
  qed (use assms(1) in simp)
qed

text \<open>The turns of a loop over the bytes \<open>p\<close> at index \<open>n\<close>, of which \<open>sent\<close> are passed on and of whose phrase the
  first \<open>k\<close> bytes are held back: the byte that starts the phrase does not occur; a part of the phrase matches;
  it does not match after a partial match; it does not match at its start.\<close>

lemma turn_nohead:
  assumes "ph \<noteq> []" "hd ph \<notin> set (drop n p)" "sent \<le> n" "n \<le> length p"
  shows "subslice p sent n @ scan ph (drop n p @ y) = subslice p sent (length p) @ scan ph y"
proof -
  have "scan ph (drop n p @ y) = drop n p @ scan ph y" by (rule scan_skip [OF assms(1,2)])
  moreover have "subslice p sent n @ drop n p = subslice p sent (length p)"
    using subslice_append [of sent n "length p" p] assms(3,4) by (simp add: subslice_length)
  ultimately show ?thesis by (metis append.assoc)
qed

lemma turn_matched:
  assumes "(if k = 0 then IndexByte (drop n p) (hd ph) else Some 0) = Some off" "ph \<noteq> []" "sent \<le> n" "n < length p"
    and "mn = min (length ph - k) (length p - (n + off))" "k < length ph"
    and "BytesHasPrefix (drop (n + off) p) (take mn (drop k ph))"
  shows "n + off < length p" "0 < mn" "mn \<le> length ph - k" "mn \<le> length p - (n + off)"
    and "k + mn \<noteq> length ph \<Longrightarrow> n + off + mn = length p"
    and "subslice p sent n @ scan ph (take k ph @ drop n p @ y) =
      subslice p sent (n + off) @ scan ph (take (k + mn) ph @ drop (n + off + mn) p @ y)"
proof -
  show off: "n + off < length p" by (rule skip_to(1) [OF assms(1-4)])
  then show mn: "0 < mn" "mn \<le> length ph - k" "mn \<le> length p - (n + off)" using assms(5,6) by auto
  show "k + mn \<noteq> length ph \<Longrightarrow> n + off + mn = length p"
    using assms(5,6) off by (auto simp: min_def split: if_splits)
  have eq: "take k ph @ drop (n + off) p @ y = take (k + mn) ph @ drop (n + off + mn) p @ y"
    using match_splits [OF assms(7) mn(2,3)] by (metis append.assoc)
  show "subslice p sent n @ scan ph (take k ph @ drop n p @ y) =
      subslice p sent (n + off) @ scan ph (take (k + mn) ph @ drop (n + off + mn) p @ y)"
    unfolding eq [symmetric] by (rule skip_to(2) [OF assms(1-4)])
qed

lemma turn_held:
  assumes "hd ph \<notin> set (tl ph)" "0 < k" "k < length ph" "n < length p"
    and "\<not> BytesHasPrefix (drop n p) (take (min (length ph - k) (length p - n)) (drop k ph))"
  shows "scan ph (take k ph @ drop n p @ y) = take k ph @
    (if hd ph = p ! n then scan ph (take 1 ph @ drop (n + 1) p @ y) else p ! n # scan ph (drop (n + 1) p @ y))"
proof -
  have ne: "ph \<noteq> []" using assms(3) by auto
  have dn: "drop n p @ y = p ! n # drop (n + 1) p @ y" using assms(4) by (simp add: Cons_nth_drop_Suc)
  have "\<not> prefix ph (take k ph @ drop n p @ y)"
    using mismatch_not_prefix [of "drop n p" ph k y] assms(3,5) by simp
  then have "scan ph (take k ph @ drop n p @ y) = take k ph @ scan ph (drop n p @ y)"
    by (rule scan_mismatch [OF assms(1) _ assms(2,3)])
  moreover have "scan ph (take 1 ph @ drop (n + 1) p @ y) = scan ph (drop n p @ y)" if "hd ph = p ! n"
    unfolding dn using that ne by (cases ph) auto
  moreover have "scan ph (drop n p @ y) = p ! n # scan ph (drop (n + 1) p @ y)" if "hd ph \<noteq> p ! n"
    unfolding dn by (rule scan_pass) (use that ne in \<open>cases ph; auto\<close>)
  ultimately show ?thesis by auto
qed

lemma turn_passed:
  assumes "IndexByte (drop n p) (hd ph) = Some off" "ph \<noteq> []" "sent \<le> n" "n < length p"
    and "\<not> BytesHasPrefix (drop (n + off) p) (take (min (length ph) (length p - (n + off))) ph)"
  shows "n + off < length p"
    and "subslice p sent n @ scan ph (drop n p @ y) = subslice p sent (n + off + 1) @ scan ph (drop (n + off + 1) p @ y)"
proof -
  show off: "n + off < length p" by (rule skip_to(1) [of 0]) (use assms(1-4) in auto)
  have eq: "subslice p sent n @ scan ph (drop n p @ y) = subslice p sent (n + off) @ scan ph (drop (n + off) p @ y)"
    using skip_to(2) [of 0 n p ph off sent y] assms(1-4) by simp
  have dn: "drop (n + off) p @ y = p ! (n + off) # drop (n + off + 1) p @ y"
    using off by (simp add: Cons_nth_drop_Suc)
  have "\<not> prefix ph (drop (n + off) p @ y)"
    using mismatch_not_prefix [of "drop (n + off) p" ph 0 y] assms(5) by simp
  then have "scan ph (drop (n + off) p @ y) = p ! (n + off) # scan ph (drop (n + off + 1) p @ y)"
    unfolding dn by (rule scan_pass)
  then show "subslice p sent n @ scan ph (drop n p @ y) = subslice p sent (n + off + 1) @ scan ph (drop (n + off + 1) p @ y)"
    using eq subslice_Suc [of sent "n + off" p] off assms(3) by simp
qed

end

section \<open>Stacks of writers\<close>

text \<open>The writers of a stack, the one that is written to first, and the writer below them. \<open>one\<close> is \<open>Write\<close> of one
  writer for the next one, \<open>cls\<close> its \<open>Close\<close>. The number of writers is fixed when the stack is built.\<close>

type_synonym ('m, 's) stack = "'m list \<times> 's"
type_synonym ('m, 's) one_write =
  "('m, 's) stack write_fn \<Rightarrow> 'm \<Rightarrow> ('m, 's) stack \<Rightarrow> bytes \<Rightarrow> 'm \<times> ('m, 's) stack \<times> nat \<times> write_error option"
type_synonym ('m, 's) one_close =
  "('m, 's) stack write_fn \<Rightarrow> ('m, 's) stack close_fn \<Rightarrow> 'm \<Rightarrow> ('m, 's) stack \<Rightarrow> ('m, 's) stack \<times> write_error option"

record ('m, 's) WriterStack =
  depth :: nat
  stack :: "('m, 's) stack"

primrec stack_Write :: "('m, 's) one_write \<Rightarrow> 's write_fn \<Rightarrow> nat \<Rightarrow> ('m, 's) stack write_fn" where
  "stack_Write one w 0 = (\<lambda>(ms, st) p. case w st p of (st, n, err) \<Rightarrow> ((ms, st), n, err))"
| "stack_Write one w (Suc k) = (\<lambda>(ms, st) p.
     case one (stack_Write one w k) (hd ms) (tl ms, st) p of
       (m, (ms, st), n, err) \<Rightarrow> ((m # ms, st), n, err))"

primrec stack_Close ::
    "('m, 's) one_write \<Rightarrow> ('m, 's) one_close \<Rightarrow> 's write_fn \<Rightarrow> 's close_fn \<Rightarrow> nat \<Rightarrow> ('m, 's) stack close_fn" where
  "stack_Close one cls w c 0 = (\<lambda>(ms, st). case c st of (st, err) \<Rightarrow> ((ms, st), err))"
| "stack_Close one cls w c (Suc k) = (\<lambda>(ms, st).
     case cls (stack_Write one w k) (stack_Close one cls w c k) (hd ms) (tl ms, st) of
       ((ms', st), err) \<Rightarrow> ((hd ms # ms', st), err))"

definition Stack_Write :: "('m, 's) one_write \<Rightarrow> 's write_fn \<Rightarrow> ('m, 's) WriterStack write_fn" where
  "Stack_Write one w m p =
     (case stack_Write one w (depth m) (stack m) p of (st, n, err) \<Rightarrow> (m\<lparr>stack := st\<rparr>, n, err))"

definition Stack_Close ::
    "('m, 's) one_write \<Rightarrow> ('m, 's) one_close \<Rightarrow> 's write_fn \<Rightarrow> 's close_fn \<Rightarrow> ('m, 's) WriterStack close_fn" where
  "Stack_Close one cls w c m =
     (case stack_Close one cls w c (depth m) (stack m) of (st, err) \<Rightarrow> (m\<lparr>stack := st\<rparr>, err))"

text \<open>What a stack of writers leaves in the log after a sequence of writes and closing it.\<close>

definition stack_output ::
    "('m, bytes) one_write \<Rightarrow> ('m, bytes) one_close \<Rightarrow> ('m, bytes) WriterStack \<Rightarrow> bytes list \<Rightarrow> bytes" where
  "stack_output one cls m chunks =
     snd (stack (fst (Stack_Close one cls collect collect_close
       (foldl (\<lambda>m p. fst (Stack_Write one collect m p)) m chunks))))"

lemma single_foldl:
  assumes "foldl (\<lambda>(m, st) p. case one (stack_Write one w 0) m st p of (m, st, _) \<Rightarrow> (m, st)) (m, st) chunks = (m', st')"
  shows "foldl (\<lambda>m p. fst (Stack_Write one w m p)) \<lparr>depth = 1, stack = (m # fst st, snd st)\<rparr> chunks =
    \<lparr>depth = 1, stack = (m' # fst st', snd st')\<rparr>"
  using assms
proof (induction chunks arbitrary: m st)
  case (Cons p ps)
  obtain m1 st1 n e where w: "one (stack_Write one w 0) m st p = (m1, st1, n, e)" by (metis prod_cases4)
  have "Stack_Write one w \<lparr>depth = 1, stack = (m # fst st, snd st)\<rparr> p =
      (\<lparr>depth = 1, stack = (m1 # fst st1, snd st1)\<rparr>, n, e)"
    using w by (simp add: Stack_Write_def case_prod_unfold)
  with Cons w show ?case by simp
qed simp

lemma stack_output_single:
  assumes "foldl (\<lambda>(m, st) p. case one (stack_Write one collect 0) m st p of (m, st, _) \<Rightarrow> (m, st)) (m, ([], [])) chunks =
      (m', st')"
    and "cls (stack_Write one collect 0) (stack_Close one cls collect collect_close 0) m' st' = (st2, e)"
  shows "stack_output one cls \<lparr>depth = 1, stack = ([m], [])\<rparr> chunks = snd st2"
  using single_foldl [where one = one and w = collect, OF assms(1)] assms(2) by (simp add: stack_output_def Stack_Close_def case_prod_unfold)

text \<open>The bottom of a stack.\<close>

interpretation stk: byte_sink "stack_Write one collect 0" "stack_Close one cls collect collect_close 0" snd
  by unfold_locales (auto simp: collect_def collect_close_def)

end
