(* ===== verification/Masker.thy ===== *)
theory Masker
  imports LogWriter
begin

text \<open>
  Masking of secrets in the job log, \<open>helpers/trace/internal/masker/masker.go\<close> of gitlab-runner. Each phrase
  has a writer of its own that replaces it by a mask, also when it is cut by the boundaries of the writes;
  the writers are stacked. A writer takes the function of the next one as an argument. The specification
  is \<open>mask_all\<close>, which replaces the leftmost occurrences in the whole text.
\<close>

section \<open>State\<close>

record masker =
  phrase :: bytes
  matching :: nat

section \<open>Operations\<close>

text \<open>The loop of \<open>masker.Write\<close> over the bytes \<open>p\<close> from index \<open>n\<close>, with the write after it. When the phrase is
  complete the code calls \<open>Write\<close> of the same writer with the mask, which passes it on at once.\<close>

function masker_loop ::
    "'s write_fn \<Rightarrow> bytes \<Rightarrow> nat \<Rightarrow> nat \<Rightarrow> masker \<Rightarrow> 's \<Rightarrow> masker \<times> 's \<times> nat \<times> write_error option" where
  "masker_loop next_Write p n sent m st =
     (if n < length p then
        if phrase m = [] \<or> length (phrase m) < matching m then (m, st, n, Some IndexPanic)
        else
          (case (if matching m = 0 then IndexByte (drop n p) (hd (phrase m)) else Some 0) of
             None \<Rightarrow>
               (case next_Write st (subslice p sent (length p)) of (st, _, err) \<Rightarrow> (m, st, length p, err))
           | Some off \<Rightarrow>
               (let n = n + off;
                    min = min (length (phrase m) - matching m) (length p - n)
                in if BytesHasPrefix (drop n p) (take min (drop (matching m) (phrase m))) then
                     (case next_Write st (subslice p sent n) of
                        (st, _, Some err) \<Rightarrow> (m, st, n, Some err)
                      | (st, _, None) \<Rightarrow>
                          (let k = matching m + min; n = n + min
                           in if k = length (phrase m) then
                                (case next_Write st mask_bytes of
                                   (st, _, Some err) \<Rightarrow> (m\<lparr>matching := k\<rparr>, st, n, Some err)
                                 | (st, _, None) \<Rightarrow> masker_loop next_Write p n n (m\<lparr>matching := 0\<rparr>) st)
                              else masker_loop next_Write p n n (m\<lparr>matching := k\<rparr>) st))
                   else if matching m > 0 then
                     (case next_Write st (take (matching m) (phrase m)) of
                        (st, _, Some err) \<Rightarrow> (m, st, n, Some err)
                      | (st, _, None) \<Rightarrow>
                          if hd (phrase m) = p ! n
                          then masker_loop next_Write p (n + 1) (sent + 1) (m\<lparr>matching := 1\<rparr>) st
                          else masker_loop next_Write p (n + 1) sent (m\<lparr>matching := 0\<rparr>) st)
                   else masker_loop next_Write p (n + 1) sent (m\<lparr>matching := 0\<rparr>) st))
      else
        (case next_Write st (subslice p sent n) of (st, _, err) \<Rightarrow> (m, st, n, err)))"
  by pat_completeness auto
termination
  by (relation "measure (\<lambda>(w, p, n, sent, m, st).
      2 * (length p - n) + (if length (phrase m) \<le> matching m then 1 else 0))")
    (auto simp: min_def split: if_splits dest: IndexByte_Some(1) intro: consumed)

declare masker_loop.simps [simp del]

definition masker_Write ::
    "'s write_fn \<Rightarrow> masker \<Rightarrow> 's \<Rightarrow> bytes \<Rightarrow> masker \<times> 's \<times> nat \<times> write_error option" where
  "masker_Write next_Write m st p =
     (if p = [] then (m, st, 0, None)
      else if p = mask_bytes then (case next_Write st p of (st, n, err) \<Rightarrow> (m, st, n, err))
      else masker_loop next_Write p 0 0 m st)"

definition masker_Close :: "'s write_fn \<Rightarrow> 's close_fn \<Rightarrow> masker \<Rightarrow> 's \<Rightarrow> 's \<times> write_error option" where
  "masker_Close next_Write next_Close m st =
     (let (st, _, werr) =
            (if matching m = length (phrase m) then next_Write st mask_bytes
             else next_Write st (take (matching m) (phrase m)));
          (st, err) = next_Close st
      in (st, if err = None then werr else err))"

type_synonym 's Masker = "(masker, 's) WriterStack"

text \<open>The loop of \<open>New\<close> over the phrases, which \<open>sort.Slice\<close> has ordered by their length; the order among
  phrases of the same length is not determined, so the sorted list is the argument.\<close>

fun new_maskers :: "string list \<Rightarrow> string set \<Rightarrow> masker list \<Rightarrow> masker list" where
  "new_maskers [] unique ms = ms"
| "new_maskers (p # ps) unique ms =
     (if p = [] then new_maskers ps unique ms
      else if p \<in> unique then new_maskers ps unique ms
      else new_maskers ps (insert p unique) (\<lparr>phrase = p, matching = 0\<rparr> # ms))"

definition New :: "'s \<Rightarrow> string list \<Rightarrow> 's Masker" where
  "New w sorted_phrases =
     (let ms = new_maskers sorted_phrases {} [] in \<lparr>depth = length ms, stack = (ms, w)\<rparr>)"

definition Masker_Write :: "'s write_fn \<Rightarrow> 's Masker write_fn" where
  "Masker_Write = Stack_Write masker_Write"

definition Masker_Close :: "'s write_fn \<Rightarrow> 's close_fn \<Rightarrow> 's Masker close_fn" where
  "Masker_Close = Stack_Close masker_Write masker_Close"

section \<open>Specification\<close>

function mask_all :: "bytes \<Rightarrow> bytes \<Rightarrow> bytes" where
  "mask_all ph s =
     (case s of
        [] \<Rightarrow> []
      | c # cs \<Rightarrow>
          if ph \<noteq> [] \<and> prefix ph s then mask_bytes @ mask_all ph (drop (length ph) s)
          else c # mask_all ph cs)"
  by pat_completeness auto
termination
  by (relation "measure (length \<circ> snd)") auto

declare mask_all.simps [simp del]

lemma mask_all_Nil [simp]: "mask_all ph [] = []"
  by (simp add: mask_all.simps)

lemma mask_all_match: "ph \<noteq> [] \<Longrightarrow> mask_all ph (ph @ s) = mask_bytes @ mask_all ph s"
proof -
  assume "ph \<noteq> []"
  then obtain c cs where "ph @ s = c # cs" by (cases ph) auto
  moreover have "prefix ph (ph @ s)" "drop (length ph) (ph @ s) = s" by simp_all
  ultimately show ?thesis using \<open>ph \<noteq> []\<close> by (subst mask_all.simps) (simp del: append_eq_Cons_conv)
qed

lemma mask_all_pass: "\<not> prefix ph (c # s) \<Longrightarrow> mask_all ph (c # s) = c # mask_all ph s"
  by (subst mask_all.simps) simp

interpretation msk: scanner mask_all
  by unfold_locales (simp_all add: mask_all_pass)

section \<open>A single writer\<close>

context byte_sink
begin

lemma masker_loop_end:
  "\<not> n < length p \<Longrightarrow> masker_loop next_Write p n sent m st = (m', st', n', e) \<Longrightarrow>
    e = None \<and> n' = n \<and> m' = m \<and> content st' = content st @ subslice p sent n"
  by (subst (asm) masker_loop.simps) (auto dest: write_appends split: prod.splits)

text \<open>One turn of the loop, by what it finds.\<close>

lemma masker_loop_turn:
  assumes "n < length p" "phrase m \<noteq> []" "matching m < length (phrase m)"
    "masker_loop next_Write p n sent m st = (m', st', n', e)"
  obtains (nohead) st1 where "matching m = 0" "hd (phrase m) \<notin> set (drop n p)"
      "content st1 = content st @ subslice p sent (length p)" "m' = m" "st' = st1" "n' = length p" "e = None"
  | (matched) off mn st1 where
      "(if matching m = 0 then IndexByte (drop n p) (hd (phrase m)) else Some 0) = Some off"
      "mn = min (length (phrase m) - matching m) (length p - (n + off))"
      "BytesHasPrefix (drop (n + off) p) (take mn (drop (matching m) (phrase m)))"
      "content st1 = content st @ subslice p sent (n + off) @
         (if matching m + mn = length (phrase m) then mask_bytes else [])"
      "masker_loop next_Write p (n + off + mn) (n + off + mn)
         (m\<lparr>matching := if matching m + mn = length (phrase m) then 0 else matching m + mn\<rparr>) st1 = (m', st', n', e)"
  | (held) mn st1 where "0 < matching m" "mn = min (length (phrase m) - matching m) (length p - n)"
      "\<not> BytesHasPrefix (drop n p) (take mn (drop (matching m) (phrase m)))"
      "content st1 = content st @ take (matching m) (phrase m)"
      "masker_loop next_Write p (n + 1) (if hd (phrase m) = p ! n then sent + 1 else sent)
         (m\<lparr>matching := if hd (phrase m) = p ! n then 1 else 0\<rparr>) st1 = (m', st', n', e)"
  | (passed) off mn where "matching m = 0" "IndexByte (drop n p) (hd (phrase m)) = Some off"
      "mn = min (length (phrase m)) (length p - (n + off))"
      "\<not> BytesHasPrefix (drop (n + off) p) (take mn (phrase m))"
      "masker_loop next_Write p (n + off + 1) sent (m\<lparr>matching := 0\<rparr>) st = (m', st', n', e)"
proof -
  note eq = assms(4) [unfolded masker_loop.simps [of next_Write p n sent m st]]
  let ?ix = "if matching m = 0 then IndexByte (drop n p) (hd (phrase m)) else Some 0"
  show thesis
  proof (cases ?ix)
    case None
    obtain st1 i where st1: "next_Write st (subslice p sent (length p)) = (st1, i, None)"
      "content st1 = content st @ subslice p sent (length p)" by (rule write_obtain)
    show thesis
      by (rule nohead [of st1]) (use eq None assms(1-3) st1 in \<open>auto simp: IndexByte_None split: if_splits\<close>)
  next
    case (Some off)
    let ?n = "n + off"
    let ?mn = "min (length (phrase m) - matching m) (length p - ?n)"
    show thesis
    proof (cases "BytesHasPrefix (drop ?n p) (take ?mn (drop (matching m) (phrase m)))")
      case True
      obtain st1 i where st1: "next_Write st (subslice p sent ?n) = (st1, i, None)"
        "content st1 = content st @ subslice p sent ?n" by (rule write_obtain)
      obtain st2 j where st2: "next_Write st1 mask_bytes = (st2, j, None)" "content st2 = content st1 @ mask_bytes"
        by (rule write_obtain)
      show thesis
        by (rule matched [of off ?mn "if matching m + ?mn = length (phrase m) then st2 else st1"])
          (use eq Some True assms(1-3) st1 st2 in \<open>auto simp: Let_def split: if_splits\<close>)
    next
      case False
      obtain st1 i where st1: "next_Write st (take (matching m) (phrase m)) = (st1, i, None)"
        "content st1 = content st @ take (matching m) (phrase m)" by (rule write_obtain)
      show thesis
      proof (cases "matching m = 0")
        case True
        show thesis
          by (rule passed [of off ?mn]) (use eq Some False True assms(1-3) in \<open>auto simp: Let_def\<close>)
      next
        case nz: False
        then have "off = 0" using Some by simp
        show thesis
          by (rule held [of ?mn st1])
            (use eq Some False nz \<open>off = 0\<close> assms(1-3) st1 in \<open>auto simp: Let_def\<close>)
      qed
    qed
  qed
qed

lemma masker_loop_spec:
  assumes "masker_loop next_Write p n sent m st = (m', st', n', e)" and ph: "phrase m = ph" "ph \<noteq> []"
    and "matching m < length ph" "sent \<le> n" "n \<le> length p"
    "matching m = 0 \<or> hd ph \<notin> set (tl ph)" "0 < matching m \<Longrightarrow> sent = n"
  shows "e = None \<and> n' = length p \<and> phrase m' = ph \<and> matching m' < length ph \<and>
    (\<forall>y. content st @ subslice p sent n @ mask_all ph (take (matching m) ph @ drop n p @ y) =
       content st' @ mask_all ph (take (matching m') ph @ y))"
  using assms(1) ph(1) assms(4-8)
proof (induction "length p - n" arbitrary: n sent m st rule: less_induct)
  case less
  note run = less.prems(1) and k = less.prems(3) and m = less.prems(2)
  show ?case
  proof (cases "n < length p")
    case False
    then have n: "n = length p" using less.prems(5) by simp
    from masker_loop_end [OF False run] show ?thesis using n k m by simp
  next
    case True
    have k': "matching m < length (phrase m)" "phrase m \<noteq> []" using k m ph(2) by auto
    show ?thesis
    proof (rule masker_loop_turn [OF True k'(2,1) run], goal_cases)
      case (1 st1)
      then show ?thesis using msk.turn_nohead [OF ph(2) _ less.prems(4,5)] k m by simp
    next
      case (2 off mn st1)
      let ?n = "n + off"
      note T = msk.turn_matched [OF 2(1) [unfolded m] ph(2) less.prems(4) True 2(2) [unfolded m] k 2(3) [unfolded m]]
      show ?thesis
      proof (cases "matching m + mn = length ph")
        case full: True
        then have "mask_all ph (take (matching m + mn) ph @ z) = mask_bytes @ mask_all ph z" for z
          using mask_all_match [OF ph(2)] by simp
        then show ?thesis
          using less.hyps [of "?n + mn" "?n + mn" "m\<lparr>matching := 0\<rparr>" st1] 2(4,5) full T m ph(2) by simp
      next
        case part: False
        then have "e = None \<and> n' = length p \<and> m' = m\<lparr>matching := matching m + mn\<rparr> \<and> content st' = content st1"
          using masker_loop_end [OF _ 2(5)] T(5) m by simp
        then show ?thesis using part T 2(4) m k by simp
      qed
    next
      case (3 mn st1)
      have nt: "hd ph \<notin> set (tl ph)" "sent = n" using less.prems(6,7) 3(1) by auto
      note T = msk.turn_held [OF nt(1) 3(1) k True 3(3) [unfolded 3(2) m]]
      show ?thesis
        using less.hyps [of "n + 1" "n + 1" "m\<lparr>matching := 1\<rparr>" st1] less.hyps [of "n + 1" n "m\<lparr>matching := 0\<rparr>" st1]
          3(1,4,5) nt m k True T ph(2) subslice_Suc [of n n p]
        by (cases "hd ph = p ! n") auto
    next
      case (4 off mn)
      note T = msk.turn_passed [OF 4(2) [unfolded m] ph(2) less.prems(4) True 4(4) [unfolded 4(3) m]]
      show ?thesis
        using less.hyps [of "n + off + 1" sent "m\<lparr>matching := 0\<rparr>" st] 4(1,5) T m ph(2) less.prems(4) by simp
    qed
  qed
qed

lemma masker_Write_spec:
  assumes "masker_Write next_Write m st p = (m', st', n', e)" "phrase m = ph" "ph \<noteq> []" "matching m < length ph"
    "p \<noteq> mask_bytes" "matching m = 0 \<or> hd ph \<notin> set (tl ph)"
  shows "e = None \<and> n' = length p \<and> phrase m' = ph \<and> matching m' < length ph \<and>
    (\<forall>y. content st @ mask_all ph (take (matching m) ph @ p @ y) =
       content st' @ mask_all ph (take (matching m') ph @ y))"
proof (cases "p = []")
  case True
  then show ?thesis using assms by (auto simp: masker_Write_def)
next
  case False
  then have "masker_loop next_Write p 0 0 m st = (m', st', n', e)" using assms(1,5) by (simp add: masker_Write_def)
  from masker_loop_spec [OF this assms(2-4)] assms(6) show ?thesis by simp
qed

lemma masker_Close_spec:
  assumes "matching m < length (phrase m)" "masker_Close next_Write next_Close m st = (st', e)"
  shows "e = None \<and> content st' = content st @ take (matching m) (phrase m)"
proof -
  obtain st1 i where st1: "next_Write st (take (matching m) (phrase m)) = (st1, i, None)"
    "content st1 = content st @ take (matching m) (phrase m)" by (rule write_obtain)
  with assms show ?thesis by (auto simp: masker_Close_def dest: close_keeps split: prod.splits)
qed

text \<open>Any number of writes.\<close>

lemma masker_writes_spec:
  assumes "phrase m = ph" "ph \<noteq> []" "matching m < length ph" "mask_bytes \<notin> set chunks"
    "matching m = 0 \<and> length chunks \<le> 1 \<or> hd ph \<notin> set (tl ph)"
    "foldl (\<lambda>(m, st) p. case masker_Write next_Write m st p of (m, st, _) \<Rightarrow> (m, st)) (m, st) chunks = (m', st')"
  shows "phrase m' = ph \<and> matching m' < length ph \<and>
    content st @ mask_all ph (take (matching m) ph @ concat chunks) = content st' @ take (matching m') ph"
  using assms
proof (induction chunks arbitrary: m st)
  case Nil
  then show ?case by (simp add: msk.scan_short)
next
  case (Cons p ps)
  obtain m1 st1 n1 e1 where w: "masker_Write next_Write m st p = (m1, st1, n1, e1)" by (metis prod_cases4)
  have s: "phrase m1 = ph" "matching m1 < length ph"
    "\<And>y. content st @ mask_all ph (take (matching m) ph @ p @ y) = content st1 @ mask_all ph (take (matching m1) ph @ y)"
    using masker_Write_spec [OF w] Cons.prems(1-5) by auto
  have rest: "foldl (\<lambda>(m, st) p. case masker_Write next_Write m st p of (m, st, _) \<Rightarrow> (m, st)) (m1, st1) ps = (m', st')"
    using Cons.prems(6) w by simp
  show ?case
  proof (cases "ps = []")
    case True
    then show ?thesis using rest s s(3) [of "[]"] by (simp add: msk.scan_short)
  next
    case False
    then have "hd ph \<notin> set (tl ph)" using Cons.prems(5) by (cases ps) auto
    then show ?thesis using Cons.IH [OF s(1) Cons.prems(2) s(2) _ _ rest] Cons.prems(4) s(3) by simp
  qed
qed

end

section \<open>Properties\<close>

text \<open>What ends up in the log: the output of a stack of maskers for the sorted phrases after a sequence of
  writes and closing it.\<close>

definition masked_output :: "string list \<Rightarrow> bytes list \<Rightarrow> bytes" where
  "masked_output phrases chunks =
     snd (stack (fst (Masker_Close collect collect_close
       (foldl (\<lambda>m p. fst (Masker_Write collect m p)) (New [] phrases) chunks))))"

lemma masked_output_single:
  assumes ph: "ph \<noteq> []"
    and f: "foldl (\<lambda>(m, st) p. case masker_Write (stack_Write masker_Write collect 0) m st p of (m, st, _) \<Rightarrow> (m, st))
      (\<lparr>phrase = ph, matching = 0\<rparr>, ([], [])) chunks = (m', st')"
    and m: "phrase m' = ph" "matching m' < length ph"
  shows "masked_output [ph] chunks = snd st' @ take (matching m') ph"
proof -
  obtain st2 e where c: "masker_Close (stack_Write masker_Write collect 0) (stack_Close masker_Write masker_Close collect collect_close 0) m' st' = (st2, e)"
    by fastforce
  then have "snd st2 = snd st' @ take (matching m') ph"
    using stk.masker_Close_spec [OF _ c] m by simp
  moreover have "New ([] :: bytes) [ph] = \<lparr>depth = 1, stack = ([\<lparr>phrase = ph, matching = 0\<rparr>], [])\<rparr>"
    using ph by (simp add: New_def)
  ultimately show ?thesis
    using stack_output_single [where one = masker_Write and cls = masker_Close, OF f c] by (simp add: masked_output_def Masker_Write_def Masker_Close_def stack_output_def)
qed

lemma masked_output_eq:
  assumes "ph \<noteq> []" "mask_bytes \<notin> set chunks" "hd ph \<notin> set (tl ph) \<or> length chunks \<le> 1"
  shows "masked_output [ph] chunks = mask_all ph (concat chunks)"
proof -
  obtain m' st' where f: "foldl (\<lambda>(m, st) p. case masker_Write (stack_Write masker_Write collect 0) m st p of (m, st, _) \<Rightarrow> (m, st))
      (\<lparr>phrase = ph, matching = 0\<rparr>, ([], [])) chunks = (m', st')" by (rule prod.exhaust)
  have "phrase m' = ph \<and> matching m' < length ph \<and> mask_all ph (concat chunks) = snd st' @ take (matching m') ph"
    using stk.masker_writes_spec [OF _ assms(1) _ assms(2) _ f] assms(1,3) by auto
  then show ?thesis using masked_output_single [OF assms(1) f] by simp
qed

lemma masker_equivalent_once:
  "ph \<noteq> [] \<Longrightarrow> p \<noteq> mask_bytes \<Longrightarrow> masked_output [ph] [p] = mask_all ph p"
  using masked_output_eq [of ph "[p]"] by simp

text \<open>C22: Masking a phrase. The log is the written text with the leftmost occurrences of the phrase replaced,
  however the text is cut into writes, if the first byte of the phrase does not occur in it again; for a
  text that is written at once this holds for every phrase.\<close>

theorem masker_equivalent:
  assumes "ph \<noteq> []" "mask_bytes \<notin> set chunks" "hd ph \<notin> set (tl ph) \<or> length chunks \<le> 1"
  shows "masked_output [ph] chunks = mask_all ph (concat chunks)"
  using assms by (rule masked_output_eq)

theorem masker_equivalent_witness:
  "masked_output [''secret''] [''my se'', ''cret'', '' is secretx''] = ''my [MASKED] is [MASKED]x''"
  using masker_equivalent [of "''secret''" "[''my se'', ''cret'', '' is secretx'']"]
  by (simp add: mask_bytes_def mask_all.simps)

lemma masker_Write_held:
  assumes "0 < k" "k < length ph" "take k ph \<noteq> mask_bytes"
  shows "masker_Write (stack_Write masker_Write collect 0) \<lparr>phrase = ph, matching = 0\<rparr> (ms, out) (take k ph) =
    (\<lparr>phrase = ph, matching = k\<rparr>, (ms, out), k, None)"
proof -
  have ne: "ph \<noteq> []" "take k ph \<noteq> []" using assms by auto
  have "IndexByte (take k ph) (hd ph) = Some 0"
    using assms(1) ne(1) by (cases ph; cases k) (simp_all add: IndexByte_def)
  moreover have "masker_loop (stack_Write masker_Write collect 0) (take k ph) k k \<lparr>phrase = ph, matching = k\<rparr> (ms, out) =
      (\<lparr>phrase = ph, matching = k\<rparr>, (ms, out), k, None)"
    by (subst masker_loop.simps) (simp add: collect_def)
  ultimately show ?thesis
    using assms ne
    by (simp add: masker_Write_def masker_loop.simps [of _ "take k ph" 0] BytesHasPrefix_def collect_def)
qed

text \<open>Two ways in which the boundaries of the writes matter. A phrase that starts with a repeated byte is not
  masked when a write ends inside it at the wrong place, although it is masked when written at once.
  And bytes held back because they may start the phrase are overtaken by a write that consists of the
  mask alone, as another masker of the stack makes it: the log has them in the wrong order.\<close>

theorem masker_depends_on_writes:
  assumes "c \<noteq> d" "0 < k" "k < length ph" "take k ph \<noteq> mask_bytes"
  shows "masked_output [[c, c, d]] [[c, c], [c, d]] = [c, c, c, d] \<and>
    masked_output [[c, c, d]] [[c, c, c, d]] = c # mask_bytes \<and>
    masked_output [ph] [take k ph, mask_bytes] = mask_bytes @ take k ph"
proof (intro conjI)
  have "[c, c] \<noteq> mask_bytes" "[c, d] \<noteq> mask_bytes" "[c, c, c, d] \<noteq> mask_bytes" by (simp_all add: mask_bytes_def)
  then show "masked_output [[c, c, d]] [[c, c], [c, d]] = [c, c, c, d]"
    using assms(1)
    by (simp add: masked_output_def New_def Masker_Write_def Masker_Close_def Stack_Write_def Stack_Close_def masker_Write_def masker_Close_def
        masker_loop.simps IndexByte_def BytesHasPrefix_def collect_def collect_close_def subslice_def)
  show "masked_output [[c, c, d]] [[c, c, c, d]] = c # mask_bytes"
    using masker_equivalent_once [of "[c, c, d]" "[c, c, c, d]"] assms(1) \<open>[c, c, c, d] \<noteq> mask_bytes\<close>
    by (simp add: mask_all.simps)
  let ?m = "\<lparr>phrase = ph, matching = k\<rparr>" and ?w = "stack_Write masker_Write collect 0"
  have w: "masker_Write ?w \<lparr>phrase = ph, matching = 0\<rparr> ([], []) (take k ph) = (?m, ([], []), k, None)"
    "masker_Write ?w ?m ([], []) mask_bytes = (?m, ([], mask_bytes), length mask_bytes, None)"
    using masker_Write_held [OF assms(2-4)] by (simp_all add: masker_Write_def collect_def mask_bytes_def)
  have "foldl (\<lambda>(m, st) p. case masker_Write ?w m st p of (m, st, _) \<Rightarrow> (m, st))
      (\<lparr>phrase = ph, matching = 0\<rparr>, ([], [])) [take k ph, mask_bytes] = (?m, ([], mask_bytes))"
    by (simp only: foldl.simps prod.case w)
  from masked_output_single [OF _ this] assms(2,3)
  show "masked_output [ph] [take k ph, mask_bytes] = mask_bytes @ take k ph" by force
qed

theorem masker_depends_on_writes_witness:
  "masked_output [''aab''] [''aa'', ''ab''] = ''aaab'' \<and>
   masked_output [''secret''] [''se'', mask_bytes] = mask_bytes @ ''se''"
  using masker_depends_on_writes [of "CHR ''a''" "CHR ''b''" 2 "''secret''"] by (simp add: mask_bytes_def)

end
