(* ===== verification/TokenSanitizer.thy ===== *)
theory TokenSanitizer
  imports LogWriter
begin

text \<open>
  Masking tokens by their prefix, \<open>helpers/trace/internal/tokensanitizer/token_masker.go\<close> of gitlab-runner: the
  characters of the alphabet after a prefix are replaced. Each prefix has its own writer, and the writers are
  stacked like the maskers. At the end the output is compared with a reference definition on the whole text.
\<close>

section \<open>State\<close>

definition alphabet :: "char \<Rightarrow> bool" where
  "alphabet c \<longleftrightarrow> c \<in> set ''-.0123456789ABCDEFGHIJKLMNOPQRSTUVWXYZ_abcdefghijklmnopqrstuvwxyz=''"

definition defaultPATPrefix :: string where
  "defaultPATPrefix = ''glpat-''"

record tokenSanitizer =
  tok_prefix :: bytes
  tok_matching :: nat
  tok_masked :: bool

type_synonym 's TokenSanitizer = "(tokenSanitizer, 's) WriterStack"

section \<open>Operations\<close>

text \<open>A character outside the alphabet after a complete prefix ends the token.\<close>

definition token_end ::
    "'s write_fn \<Rightarrow> tokenSanitizer \<Rightarrow> 's \<Rightarrow> tokenSanitizer \<times> 's \<times> write_error option" where
  "token_end next_Write m st =
     (if tok_matching m = length (tok_prefix m) then
        if tok_masked m then
          (case next_Write st mask_bytes of
             (st, _, Some err) \<Rightarrow> (m\<lparr>tok_masked := False\<rparr>, st, Some err)
           | (st, _, None) \<Rightarrow> (m\<lparr>tok_masked := False, tok_matching := 0\<rparr>, st, None))
        else (m\<lparr>tok_matching := 0\<rparr>, st, None)
      else (m, st, None))"

text \<open>The loop of \<open>tokenSanitizer.Write\<close> over the bytes \<open>p\<close> from index \<open>n\<close>, with the write after it. A prefix is
  never empty, and after the end of a token less than the prefix is matched.\<close>

function token_loop ::
    "'s write_fn \<Rightarrow> bytes \<Rightarrow> nat \<Rightarrow> nat \<Rightarrow> tokenSanitizer \<Rightarrow> 's \<Rightarrow>
      tokenSanitizer \<times> 's \<times> nat \<times> write_error option" where
  "token_loop next_Write p n sent m st =
     (if n < length p then
        if tok_matching m = length (tok_prefix m) \<and> alphabet (p ! n)
        then token_loop next_Write p (n + 1) (n + 1) (m\<lparr>tok_masked := True\<rparr>) st
        else
          (case token_end next_Write m st of
             (m, st, Some err) \<Rightarrow> (m, st, n, Some err)
           | (m, st, None) \<Rightarrow>
               if length (tok_prefix m) \<le> tok_matching m then (m, st, n, Some IndexPanic)
               else
                 (case (if tok_matching m = 0 then IndexByte (drop n p) (hd (tok_prefix m)) else Some 0) of
                    None \<Rightarrow>
                      (case next_Write st (subslice p sent (length p)) of (st, _, err) \<Rightarrow> (m, st, length p, err))
                  | Some off \<Rightarrow>
                      (let n = n + off;
                           min = min (length (tok_prefix m) - tok_matching m) (length p - n)
                       in if BytesHasPrefix (drop n p) (take min (drop (tok_matching m) (tok_prefix m))) then
                            (case next_Write st (subslice p sent n) of
                               (st, _, Some err) \<Rightarrow> (m, st, n, Some err)
                             | (st, _, None) \<Rightarrow>
                                 (let k = tok_matching m + min; n = n + min
                                  in if k = length (tok_prefix m) then
                                       (case next_Write st (take k (tok_prefix m)) of
                                          (st, _, Some err) \<Rightarrow> (m\<lparr>tok_matching := k\<rparr>, st, n, Some err)
                                        | (st, _, None) \<Rightarrow> token_loop next_Write p n n (m\<lparr>tok_matching := k\<rparr>) st)
                                     else token_loop next_Write p n n (m\<lparr>tok_matching := k\<rparr>) st))
                          else if tok_matching m > 0 then
                            (case next_Write st (take (tok_matching m) (tok_prefix m)) of
                               (st, _, Some err) \<Rightarrow> (m, st, n, Some err)
                             | (st, _, None) \<Rightarrow>
                                 if hd (tok_prefix m) = p ! n
                                 then token_loop next_Write p (n + 1) (sent + 1) (m\<lparr>tok_matching := 1\<rparr>) st
                                 else token_loop next_Write p (n + 1) sent (m\<lparr>tok_matching := 0\<rparr>) st)
                          else token_loop next_Write p (n + 1) sent (m\<lparr>tok_matching := 0\<rparr>) st)))
      else
        (case next_Write st (subslice p sent n) of (st, _, err) \<Rightarrow> (m, st, n, err)))"
  by pat_completeness auto
termination
  by (relation "measure (\<lambda>(w, p, n, sent, m, st). length p - n)")
    (auto simp: min_def split: if_splits dest: IndexByte_Some(1) intro: consumed)

declare token_loop.simps [simp del]

definition token_Write ::
    "'s write_fn \<Rightarrow> tokenSanitizer \<Rightarrow> 's \<Rightarrow> bytes \<Rightarrow> tokenSanitizer \<times> 's \<times> nat \<times> write_error option" where
  "token_Write next_Write m st p =
     (if p = [] then (m, st, 0, None)
      else if p = mask_bytes then (case next_Write st p of (st, n, err) \<Rightarrow> (m, st, n, err))
      else token_loop next_Write p 0 0 m st)"

definition token_Close :: "'s write_fn \<Rightarrow> 's close_fn \<Rightarrow> tokenSanitizer \<Rightarrow> 's \<Rightarrow> 's \<times> write_error option" where
  "token_Close next_Write next_Close m st =
     (let (st, _, werr) =
            (if tok_masked m then next_Write st mask_bytes
             else next_Write st (take (tok_matching m) (tok_prefix m)));
          (st, err) = next_Close st
      in (st, if err = None then werr else err))"

text \<open>The encodings of the characters \<open>unicode.IsSpace\<close> accepts, and \<open>strings.TrimSpace\<close>. The first byte of an
  encoding never occurs inside the encoding of another character, so comparing bytes is comparing characters.\<close>

definition space_encodings :: "bytes list" where
  "space_encodings =
     [[CHR 0x09], [CHR 0x0A], [CHR 0x0B], [CHR 0x0C], [CHR 0x0D], [CHR 0x20],
      [CHR 0xC2, CHR 0x85], [CHR 0xC2, CHR 0xA0], [CHR 0xE1, CHR 0x9A, CHR 0x80]] @
     map (\<lambda>b. [CHR 0xE2, CHR 0x80, char_of b]) ([0x80 ..< 0x8B] @ [0xA8, 0xA9, 0xAF :: nat]) @
     [[CHR 0xE2, CHR 0x81, CHR 0x9F], [CHR 0xE3, CHR 0x80, CHR 0x80]]"

function trim_front :: "bytes list \<Rightarrow> bytes \<Rightarrow> bytes" where
  "trim_front es s =
     (case find (\<lambda>e. e \<noteq> [] \<and> prefix e s) es of
        None \<Rightarrow> s
      | Some e \<Rightarrow> trim_front es (drop (length e) s))"
  by pat_completeness auto
termination
  by (relation "measure (length \<circ> snd)") (auto simp: find_Some_iff prefix_def)

definition TrimSpace :: "string \<Rightarrow> string" where
  "TrimSpace s = rev (trim_front (map rev space_encodings) (rev (trim_front space_encodings s)))"

text \<open>The loop of \<open>New\<close> over the prefixes; as for the maskers the sorted list, which includes the default prefix,
  is the argument. At most 10 prefixes are used.\<close>

fun new_tokens :: "string list \<Rightarrow> string list \<Rightarrow> tokenSanitizer list \<Rightarrow> tokenSanitizer list" where
  "new_tokens [] unique ms = ms"
| "new_tokens (p # ps) unique ms =
     (if length unique < 10 then
        (let trimmed = TrimSpace p
         in if trimmed \<in> set unique \<or> trimmed = [] then new_tokens ps unique ms
            else new_tokens ps (trimmed # unique)
                   (\<lparr>tok_prefix = trimmed, tok_matching = 0, tok_masked = False\<rparr> # ms))
      else ms)"

definition NewTokenSanitizer :: "'s \<Rightarrow> string list \<Rightarrow> 's TokenSanitizer" where
  "NewTokenSanitizer w sorted_prefixes =
     (let ms = new_tokens sorted_prefixes [] [] in \<lparr>depth = length ms, stack = (ms, w)\<rparr>)"

definition TokenSanitizer_Write :: "'s write_fn \<Rightarrow> 's TokenSanitizer write_fn" where
  "TokenSanitizer_Write = Stack_Write token_Write"

definition TokenSanitizer_Close :: "'s write_fn \<Rightarrow> 's close_fn \<Rightarrow> 's TokenSanitizer close_fn" where
  "TokenSanitizer_Close = Stack_Close token_Write token_Close"

section \<open>Specification\<close>

text \<open>A token is a prefix and the characters of the alphabet that follow it; the prefix is kept.\<close>

lemma after_match_shorter: "pre \<noteq> [] \<Longrightarrow> length (dropWhile P (drop (length pre) (c # cs))) \<le> length cs"
  using length_dropWhile_le [of P "drop (length pre) (c # cs)"] by (cases pre) auto

function sanitize :: "bytes \<Rightarrow> bytes \<Rightarrow> bytes" where
  "sanitize pre s =
     (case s of
        [] \<Rightarrow> []
      | c # cs \<Rightarrow>
          if pre \<noteq> [] \<and> prefix pre s then
            (let r = drop (length pre) s
             in pre @ (if takeWhile alphabet r \<noteq> [] then mask_bytes else []) @ sanitize pre (dropWhile alphabet r))
          else c # sanitize pre cs)"
  by pat_completeness auto
termination
  by (relation "measure (length \<circ> snd)")
    (auto simp: less_Suc_eq_le after_match_shorter)

declare sanitize.simps [simp del]

text \<open>Whether a text ends with a prefix after which no character has followed yet: another character would be the
  first one of a token.\<close>

definition ends_with_prefix :: "bytes \<Rightarrow> bytes \<Rightarrow> bool" where
  "ends_with_prefix pre s \<longleftrightarrow> sanitize pre (s @ ''0'') = sanitize pre s @ mask_bytes"

section \<open>A single writer\<close>

lemma sanitize_Nil [simp]: "sanitize pre [] = []"
  by (simp add: sanitize.simps)

lemma sanitize_pass: "\<not> prefix pre (c # s) \<Longrightarrow> sanitize pre (c # s) = c # sanitize pre s"
  by (subst sanitize.simps) simp

interpretation san: scanner sanitize
  by unfold_locales (simp_all add: sanitize_pass)

text \<open>What is written for the bytes after a prefix.\<close>

definition token_rest :: "bytes \<Rightarrow> bool \<Rightarrow> bytes \<Rightarrow> bytes" where
  "token_rest pre masked r =
     (if masked \<or> takeWhile alphabet r \<noteq> [] then mask_bytes else []) @ sanitize pre (dropWhile alphabet r)"

lemma sanitize_match: "pre \<noteq> [] \<Longrightarrow> sanitize pre (pre @ r) = pre @ token_rest pre False r"
proof -
  assume "pre \<noteq> []"
  then obtain c cs where "pre @ r = c # cs" by (cases pre) auto
  moreover have "prefix pre (pre @ r)" "drop (length pre) (pre @ r) = r" by simp_all
  ultimately show ?thesis
    using \<open>pre \<noteq> []\<close> by (subst sanitize.simps) (simp del: append_eq_Cons_conv add: token_rest_def)
qed

lemma token_rest_token: "alphabet c \<Longrightarrow> token_rest pre masked (c # r) = token_rest pre True r"
  by (simp add: token_rest_def)

lemma token_rest_end: "\<not> alphabet c \<Longrightarrow> token_rest pre masked (c # r) = (if masked then mask_bytes else []) @ sanitize pre (c # r)"
  by (simp add: token_rest_def)

text \<open>What a writer is going to write for the bytes that follow, and the states it can be in.\<close>

definition token_future :: "tokenSanitizer \<Rightarrow> bytes \<Rightarrow> bytes" where
  "token_future m y =
     (if tok_matching m = length (tok_prefix m) then token_rest (tok_prefix m) (tok_masked m) y
      else sanitize (tok_prefix m) (take (tok_matching m) (tok_prefix m) @ y))"

definition token_inv :: "bytes \<Rightarrow> tokenSanitizer \<Rightarrow> bool" where
  "token_inv pre m \<longleftrightarrow> tok_prefix m = pre \<and> pre \<noteq> [] \<and> tok_matching m \<le> length pre \<and>
     (tok_masked m \<longrightarrow> tok_matching m = length pre)"

context byte_sink
begin

lemma token_loop_end:
  "\<not> n < length p \<Longrightarrow> token_loop next_Write p n sent m st = (m', st', n', e) \<Longrightarrow>
    e = None \<and> n' = n \<and> m' = m \<and> content st' = content st @ subslice p sent n"
  by (subst (asm) token_loop.simps) (auto dest: write_appends split: prod.splits)

text \<open>The end of a token: the mask is written and the search for the prefix starts again at the same byte.\<close>

lemma token_loop_restart:
  assumes "n < length p" "tok_prefix m \<noteq> []" "tok_matching m = length (tok_prefix m)" "\<not> alphabet (p ! n)"
  obtains st1 where "content st1 = content st @ (if tok_masked m then mask_bytes else [])"
    "token_loop next_Write p n sent m st = token_loop next_Write p n sent (m\<lparr>tok_masked := False, tok_matching := 0\<rparr>) st1"
proof -
  obtain st0 i where st0: "next_Write st mask_bytes = (st0, i, None)" "content st0 = content st @ mask_bytes"
    by (rule write_obtain)
  let ?m = "m\<lparr>tok_masked := False, tok_matching := 0\<rparr>" and ?st = "if tok_masked m then st0 else st"
  have m: "m\<lparr>tok_matching := 0\<rparr> = ?m" if "\<not> tok_masked m" using that by (cases m) simp
  have e: "token_end next_Write m st = (?m, ?st, None)"
    using assms(3) st0(1) m by (auto simp: token_end_def)
  have "token_end next_Write ?m ?st = (?m, ?st, None)" using assms(2) by (simp add: token_end_def)
  then have "token_loop next_Write p n sent m st = token_loop next_Write p n sent ?m ?st"
    unfolding token_loop.simps [of next_Write p n sent m st] token_loop.simps [of next_Write p n sent ?m ?st] e
    using assms by simp
  then show thesis by (rule that [rotated]) (use st0(2) in simp)
qed

text \<open>One turn of the search for the prefix, by what it finds.\<close>

lemma token_loop_turn:
  assumes "n < length p" "tok_matching m < length (tok_prefix m)"
    "token_loop next_Write p n sent m st = (m', st', n', e)"
  obtains (nohead) st1 where "tok_matching m = 0" "hd (tok_prefix m) \<notin> set (drop n p)"
      "content st1 = content st @ subslice p sent (length p)" "m' = m" "st' = st1" "n' = length p" "e = None"
  | (matched) off mn st1 where
      "(if tok_matching m = 0 then IndexByte (drop n p) (hd (tok_prefix m)) else Some 0) = Some off"
      "mn = min (length (tok_prefix m) - tok_matching m) (length p - (n + off))"
      "BytesHasPrefix (drop (n + off) p) (take mn (drop (tok_matching m) (tok_prefix m)))"
      "content st1 = content st @ subslice p sent (n + off) @
         (if tok_matching m + mn = length (tok_prefix m) then tok_prefix m else [])"
      "token_loop next_Write p (n + off + mn) (n + off + mn) (m\<lparr>tok_matching := tok_matching m + mn\<rparr>) st1 =
         (m', st', n', e)"
  | (held) mn st1 where "0 < tok_matching m" "mn = min (length (tok_prefix m) - tok_matching m) (length p - n)"
      "\<not> BytesHasPrefix (drop n p) (take mn (drop (tok_matching m) (tok_prefix m)))"
      "content st1 = content st @ take (tok_matching m) (tok_prefix m)"
      "token_loop next_Write p (n + 1) (if hd (tok_prefix m) = p ! n then sent + 1 else sent)
         (m\<lparr>tok_matching := if hd (tok_prefix m) = p ! n then 1 else 0\<rparr>) st1 = (m', st', n', e)"
  | (passed) off mn where "tok_matching m = 0" "IndexByte (drop n p) (hd (tok_prefix m)) = Some off"
      "mn = min (length (tok_prefix m)) (length p - (n + off))"
      "\<not> BytesHasPrefix (drop (n + off) p) (take mn (tok_prefix m))"
      "token_loop next_Write p (n + off + 1) sent (m\<lparr>tok_matching := 0\<rparr>) st = (m', st', n', e)"
proof -
  have "token_end next_Write m st = (m, st, None)" using assms(2) by (simp add: token_end_def)
  note eq = assms(3) [unfolded token_loop.simps [of next_Write p n sent m st] this]
  let ?ix = "if tok_matching m = 0 then IndexByte (drop n p) (hd (tok_prefix m)) else Some 0"
  show thesis
  proof (cases ?ix)
    case None
    obtain st1 i where st1: "next_Write st (subslice p sent (length p)) = (st1, i, None)"
      "content st1 = content st @ subslice p sent (length p)" by (rule write_obtain)
    show thesis
      by (rule nohead [of st1]) (use eq None assms(1,2) st1 in \<open>auto simp: IndexByte_None split: if_splits\<close>)
  next
    case (Some off)
    let ?n = "n + off"
    let ?mn = "min (length (tok_prefix m) - tok_matching m) (length p - ?n)"
    show thesis
    proof (cases "BytesHasPrefix (drop ?n p) (take ?mn (drop (tok_matching m) (tok_prefix m)))")
      case True
      obtain st1 i where st1: "next_Write st (subslice p sent ?n) = (st1, i, None)"
        "content st1 = content st @ subslice p sent ?n" by (rule write_obtain)
      obtain st2 j where st2: "next_Write st1 (tok_prefix m) = (st2, j, None)" "content st2 = content st1 @ tok_prefix m"
        by (rule write_obtain)
      show thesis
        by (rule matched [of off ?mn "if tok_matching m + ?mn = length (tok_prefix m) then st2 else st1"])
          (use eq Some True assms(1,2) st1 st2 in \<open>auto simp: Let_def split: if_splits\<close>)
    next
      case False
      obtain st1 i where st1: "next_Write st (take (tok_matching m) (tok_prefix m)) = (st1, i, None)"
        "content st1 = content st @ take (tok_matching m) (tok_prefix m)" by (rule write_obtain)
      show thesis
      proof (cases "tok_matching m = 0")
        case True
        show thesis
          by (rule passed [of off ?mn]) (use eq Some False True assms(1,2) in \<open>auto simp: Let_def\<close>)
      next
        case nz: False
        then have "off = 0" using Some by simp
        show thesis
          by (rule held [of ?mn st1]) (use eq Some False nz \<open>off = 0\<close> assms(1,2) st1 in \<open>auto simp: Let_def\<close>)
      qed
    qed
  qed
qed

end

context byte_sink
begin

lemma token_loop_spec:
  assumes "token_loop next_Write p n sent m st = (m', st', n', e)" and "token_inv pre m"
    and "sent \<le> n" "n \<le> length p" "tok_matching m = 0 \<or> tok_matching m = length pre \<or> hd pre \<notin> set (tl pre)"
    "0 < tok_matching m \<Longrightarrow> sent = n"
  shows "e = None \<and> n' = length p \<and> token_inv pre m' \<and>
    (\<forall>y. content st @ subslice p sent n @ token_future m (drop n p @ y) = content st' @ token_future m' y)"
  using assms
proof (induction "2 * (length p - n) + (if tok_matching m = length pre then 1 else 0)" arbitrary: n sent m st
    rule: less_induct)
  case less
  note run = less.prems(1) and inv = less.prems(2)
  have m: "tok_prefix m = pre" "pre \<noteq> []" "tok_matching m \<le> length pre" using inv by (auto simp: token_inv_def)
  show ?case
  proof (cases "n < length p")
    case False
    then show ?thesis using token_loop_end [OF False run] less.prems(4) inv by simp
  next
    case True
    have dn: "drop n p @ y = p ! n # drop (n + 1) p @ y" for y using True by (simp add: Cons_nth_drop_Suc)
    consider (token) "tok_matching m = length pre" "alphabet (p ! n)"
      | (ends) "tok_matching m = length pre" "\<not> alphabet (p ! n)" | (search) "tok_matching m < length pre"
      using m(3) by fastforce
    then show ?thesis
    proof cases
      case token
      let ?m = "m\<lparr>tok_masked := True\<rparr>"
      have "token_loop next_Write p (n + 1) (n + 1) ?m st = (m', st', n', e)"
        using run token True m(1) by (subst (asm) token_loop.simps) simp
      moreover have "token_inv pre ?m" using m token(1) by (simp add: token_inv_def)
      moreover have "token_future m (drop n p @ y) = token_future ?m (drop (n + 1) p @ y)" for y
        unfolding dn using token m by (simp add: token_future_def token_rest_token)
      ultimately show ?thesis
        using less.hyps [of "n + 1" ?m "n + 1" st] token(1) True m(2) less.prems(6) by simp
    next
      case ends
      let ?m = "m\<lparr>tok_masked := False, tok_matching := 0\<rparr>"
      obtain st1 where st1: "content st1 = content st @ (if tok_masked m then mask_bytes else [])"
        "token_loop next_Write p n sent ?m st1 = (m', st', n', e)"
        using token_loop_restart [OF True _ _ ends(2), of m st sent] ends(1) m run by metis
      have "token_inv pre ?m" using m by (simp add: token_inv_def)
      moreover have "token_future m (drop n p @ y) = (if tok_masked m then mask_bytes else []) @ token_future ?m (drop n p @ y)" for y
        unfolding dn using ends m by (simp add: token_future_def token_rest_end)
      ultimately show ?thesis
        using less.hyps [of n ?m sent st1] st1 ends(1) m(2) less.prems(3,4,6) by simp
    next
      case search
      then have k: "tok_matching m < length (tok_prefix m)" and nm: "\<not> tok_masked m"
        using m(1) inv by (auto simp: token_inv_def)
      have fut: "token_future m y = sanitize pre (take (tok_matching m) pre @ y)" for y
        using search m(1) by (simp add: token_future_def)
      show ?thesis
      proof (rule token_loop_turn [OF True k run], goal_cases)
        case (1 st1)
        then show ?thesis using san.turn_nohead [OF m(2) _ less.prems(3,4)] m(1) inv fut by simp
      next
        case (2 off mn st1)
        let ?m = "m\<lparr>tok_matching := tok_matching m + mn\<rparr>" and ?n = "n + off + mn"
        note T = san.turn_matched [OF 2(1) [unfolded m(1)] m(2) less.prems(3) True 2(2) [unfolded m(1)] search
            2(3) [unfolded m(1)]]
        have inv': "token_inv pre ?m" using m T(3) search nm by (auto simp: token_inv_def)
        have fut': "sanitize pre (take (tok_matching m + mn) pre @ z) =
            (if tok_matching m + mn = length pre then pre else []) @ token_future ?m z" for z
          using m nm sanitize_match [OF m(2)] by (simp add: token_future_def)
        show ?thesis
        proof (cases "tok_matching m + mn = length pre")
          case full: True
          then show ?thesis
            using less.hyps [of ?n ?m ?n st1] 2(4,5) T inv' fut fut' m(1) by simp
        next
          case part: False
          then have "e = None \<and> n' = length p \<and> m' = ?m \<and> content st' = content st1"
            using token_loop_end [OF _ 2(5)] T(5) by simp
          then show ?thesis using part T 2(4) inv' fut fut' m(1) by simp
        qed
      next
        case (3 mn st1)
        have nt: "hd pre \<notin> set (tl pre)" "sent = n" using less.prems(5,6) 3(1) search by auto
        note T = san.turn_held [OF nt(1) 3(1) search True 3(3) [unfolded 3(2) m(1)]]
        have inv': "token_inv pre (m\<lparr>tok_matching := 0\<rparr>)" "token_inv pre (m\<lparr>tok_matching := 1\<rparr>)"
          using m nm by (auto simp: token_inv_def Suc_le_eq)
        have len: "length pre \<noteq> 1" using 3(1) search by simp
        then show ?thesis
          using less.hyps [of "n + 1" "m\<lparr>tok_matching := 1\<rparr>" "n + 1" st1]
            less.hyps [of "n + 1" "m\<lparr>tok_matching := 0\<rparr>" n st1] 3(1,4,5) nt m True T fut inv' subslice_Suc [of n n p]
          by (cases "hd pre = p ! n") (auto simp: token_future_def)
      next
        case (4 off mn)
        note T = san.turn_passed [OF 4(2) [unfolded m(1)] m(2) less.prems(3) True 4(4) [unfolded 4(3) m(1)]]
        have inv': "token_inv pre (m\<lparr>tok_matching := 0\<rparr>)" using m nm by (auto simp: token_inv_def)
        then show ?thesis
          using less.hyps [of "n + off + 1" "m\<lparr>tok_matching := 0\<rparr>" sent st] 4(1,5) T m fut less.prems(3)
          by (simp add: token_future_def)
      qed
    qed
  qed
qed

end

context byte_sink
begin

lemma token_Write_spec:
  assumes "token_Write next_Write m st p = (m', st', n', e)" "token_inv pre m" "p \<noteq> mask_bytes"
    "tok_matching m = 0 \<or> hd pre \<notin> set (tl pre)"
  shows "e = None \<and> n' = length p \<and> token_inv pre m' \<and>
    (\<forall>y. content st @ token_future m (p @ y) = content st' @ token_future m' y)"
proof (cases "p = []")
  case True
  then show ?thesis using assms by (auto simp: token_Write_def)
next
  case False
  then have "token_loop next_Write p 0 0 m st = (m', st', n', e)" using assms(1,3) by (simp add: token_Write_def)
  from token_loop_spec [OF this assms(2)] assms(4) show ?thesis by auto
qed

text \<open>Closing writes what is held back, and a complete prefix a second time.\<close>

lemma token_Close_spec:
  assumes "token_inv pre m" "token_Close next_Write next_Close m st = (st', e)"
  shows "e = None \<and> content st' = content st @ token_future m [] @
    (if tok_matching m = length pre \<and> \<not> tok_masked m then pre else [])"
proof -
  let ?p = "if tok_masked m then mask_bytes else take (tok_matching m) (tok_prefix m)"
  obtain st1 i where st1: "next_Write st ?p = (st1, i, None)" "content st1 = content st @ ?p" by (rule write_obtain)
  then have "e = None \<and> content st' = content st @ ?p"
    using assms(2) by (auto simp: token_Close_def dest: close_keeps split: prod.splits if_splits)
  moreover have "sanitize pre (take (tok_matching m) pre) = take (tok_matching m) pre" if "tok_matching m < length pre"
    by (rule san.scan_short) (use that in simp)
  ultimately show ?thesis
    using assms(1) by (auto simp: token_future_def token_inv_def token_rest_def)
qed

lemma token_writes_spec:
  assumes "token_inv pre m" "mask_bytes \<notin> set chunks" "tok_matching m = 0 \<and> length chunks \<le> 1 \<or> hd pre \<notin> set (tl pre)"
    "foldl (\<lambda>(m, st) p. case token_Write next_Write m st p of (m, st, _) \<Rightarrow> (m, st)) (m, st) chunks = (m', st')"
  shows "token_inv pre m' \<and> content st @ token_future m (concat chunks @ y) = content st' @ token_future m' y"
  using assms
proof (induction chunks arbitrary: m st)
  case (Cons p ps)
  obtain m1 st1 n1 e1 where w: "token_Write next_Write m st p = (m1, st1, n1, e1)" by (metis prod_cases4)
  have s: "token_inv pre m1"
    "\<And>y. content st @ token_future m (p @ y) = content st1 @ token_future m1 y"
    using token_Write_spec [OF w] Cons.prems(1-3) by auto
  have rest: "foldl (\<lambda>(m, st) p. case token_Write next_Write m st p of (m, st, _) \<Rightarrow> (m, st)) (m1, st1) ps = (m', st')"
    using Cons.prems(4) w by simp
  show ?case
  proof (cases "ps = []")
    case True
    then show ?thesis using rest s by simp
  next
    case False
    then have "hd pre \<notin> set (tl pre)" using Cons.prems(3) by (cases ps) auto
    then show ?thesis using Cons.IH [OF s(1) _ _ rest] Cons.prems(2) s(2) by simp
  qed
qed simp

end

lemma token_future_new: "token_future \<lparr>tok_prefix = pre, tok_matching = 0, tok_masked = False\<rparr> s = sanitize pre s"
  if "pre \<noteq> []"
  using that by (simp add: token_future_def)

text \<open>The state after a text is read off the specification.\<close>

lemma ends_with_prefix_state:
  assumes "token_inv pre m" "\<And>y. sanitize pre (s @ y) = out @ token_future m y"
  shows "ends_with_prefix pre s \<longleftrightarrow> tok_matching m = length pre \<and> \<not> tok_masked m"
proof -
  have m: "tok_prefix m = pre" "pre \<noteq> []" "tok_matching m \<le> length pre" "tok_masked m \<longrightarrow> tok_matching m = length pre"
    using assms(1) by (auto simp: token_inv_def)
  have iff: "ends_with_prefix pre s \<longleftrightarrow> token_future m ''0'' = token_future m [] @ mask_bytes"
    unfolding ends_with_prefix_def using assms(2) [of "''0''"] assms(2) [of "[]"] by simp
  have zero: "alphabet (CHR ''0'')" by (simp add: alphabet_def)
  show ?thesis
  proof (cases "tok_matching m = length pre")
    case True
    then show ?thesis unfolding iff using m zero by (simp add: token_future_def token_rest_def mask_bytes_def)
  next
    case False
    let ?t = "take (tok_matching m) pre"
    have k: "tok_matching m < length pre" using False m(3) by simp
    have short: "sanitize pre ?t = ?t" by (rule san.scan_short) (use k in simp)
    have "sanitize pre (?t @ ''0'') = ?t @ ''0''"
    proof (cases "length (?t @ ''0'') < length pre")
      case False
      then have "length (?t @ ''0'') = length pre" using k by simp
      show ?thesis
      proof (cases "prefix pre (?t @ ''0'')")
        case True
        then have "?t @ ''0'' = pre"
          using \<open>length (?t @ ''0'') = length pre\<close> by (metis prefix_def append_Nil2 append_eq_append_conv)
        then show ?thesis using sanitize_match [OF m(2), of "[]"] by (simp add: token_rest_def)
      next
        case False
        have "sanitize pre (c # r) = c # r" if "\<not> prefix pre (c # r)" "length (c # r) = length pre" for c r
          using that san.scan_short [of r pre] by (simp add: sanitize_pass)
        then show ?thesis using False \<open>length (?t @ ''0'') = length pre\<close> by (cases "?t @ ''0''") auto
      qed
    qed (rule san.scan_short)
    then show ?thesis unfolding iff using False m(1) short by (simp add: token_future_def mask_bytes_def)
  qed
qed

section \<open>Properties\<close>

text \<open>What ends up in the log: the output of the stack for the sorted prefixes after a sequence of writes and
  closing it.\<close>

definition sanitized_output :: "string list \<Rightarrow> bytes list \<Rightarrow> bytes" where
  "sanitized_output sorted_prefixes chunks =
     snd (stack (fst (TokenSanitizer_Close collect collect_close
       (foldl (\<lambda>m p. fst (TokenSanitizer_Write collect m p)) (NewTokenSanitizer [] sorted_prefixes) chunks))))"

lemma sanitized_output_eq:
  assumes "TrimSpace pre = pre" "pre \<noteq> []" "mask_bytes \<notin> set chunks" "hd pre \<notin> set (tl pre) \<or> length chunks \<le> 1"
  shows "sanitized_output [pre] chunks =
    sanitize pre (concat chunks) @ (if ends_with_prefix pre (concat chunks) then pre else [])"
proof -
  let ?m = "\<lparr>tok_prefix = pre, tok_matching = 0, tok_masked = False\<rparr>"
  obtain m' st' where f: "foldl (\<lambda>(m, st) p. case token_Write (stack_Write token_Write collect 0) m st p of (m, st, _) \<Rightarrow> (m, st))
      (?m, ([], [])) chunks = (m', st')" by (rule prod.exhaust)
  have inv: "token_inv pre ?m" using assms(2) by (simp add: token_inv_def)
  have s: "token_inv pre m'" "sanitize pre (concat chunks @ y) = snd st' @ token_future m' y" for y
    using stk.token_writes_spec [OF inv assms(3) _ f] assms(2,4) token_future_new by auto
  obtain st2 e where c: "token_Close (stack_Write token_Write collect 0)
      (stack_Close token_Write token_Close collect collect_close 0) m' st' = (st2, e)" by fastforce
  have "snd st2 = snd st' @ token_future m' [] @ (if ends_with_prefix pre (concat chunks) then pre else [])"
    using stk.token_Close_spec [OF s(1) c] ends_with_prefix_state [OF s] by simp
  also have "\<dots> = sanitize pre (concat chunks) @ (if ends_with_prefix pre (concat chunks) then pre else [])"
    using s(2) [of "[]"] by simp
  finally have "snd st2 = \<dots>" .
  moreover have "NewTokenSanitizer ([] :: bytes) [pre] = \<lparr>depth = 1, stack = ([?m], [])\<rparr>"
    using assms(1,2) by (simp add: NewTokenSanitizer_def)
  ultimately show ?thesis
    using stack_output_single [where one = token_Write and cls = token_Close, OF f c]
    by (simp add: sanitized_output_def TokenSanitizer_Write_def TokenSanitizer_Close_def stack_output_def)
qed


lemma TrimSpace_default: "TrimSpace defaultPATPrefix = defaultPATPrefix"
  by (simp add: TrimSpace_def defaultPATPrefix_def trim_front.simps space_encodings_def upt_rec)


end
