(* ===== verification/UrlSanitizer.thy ===== *)
theory UrlSanitizer
  imports TokenSanitizer
begin

text \<open>
  Masking the values of sensitive parameters in URLs, \<open>helpers/trace/internal/urlsanitizer/urlsanitizer.go\<close> of
  gitlab-runner. A key in the form \<open>?key=\<close> or \<open>&key=\<close> that is sensitive starts the masking of the bytes up to
  the end of the parameter.
\<close>

section \<open>State\<close>

definition tokenParamKeys :: "string list" where
  "tokenParamKeys =
     [''private_token'', ''authenticity_token'', ''rss_token'', ''x-amz-signature'', ''x-amz-credential'',
      ''x-amz-security-token'']"

text \<open>\<open>url_cap\<close> is the capacity of the slice \<open>match\<close>, which is never exceeded.\<close>

record 's URLSanitizer =
  url_w :: 's
  url_match :: bytes
  url_cap :: nat
  url_masking :: bool

text \<open>The loop of \<open>New\<close> over the keys, for one order of iteration over the map.\<close>

definition max_key :: "string list \<Rightarrow> nat" where
  "max_key keys = fold (\<lambda>token m. if length token > m then length token + 1 else m) keys 0"

definition NewURLSanitizer :: "string list \<Rightarrow> 's \<Rightarrow> 's URLSanitizer" where
  "NewURLSanitizer keys w = \<lparr>url_w = w, url_match = [], url_cap = max_key keys, url_masking = False\<rparr>"

section \<open>Operations\<close>

text \<open>The encodings of the characters \<open>isParamEnd\<close> accepts: question mark, ampersand, spaces and control characters.\<close>

definition param_ends :: "bytes list" where
  "param_ends = ''?'' # ''&'' # space_encodings @ map (\<lambda>b. [char_of b]) ([0 ..< 0x20] @ [0x7F :: nat]) @
     map (\<lambda>b. [CHR 0xC2, char_of b]) [0x80 ..< 0xA0 :: nat]"

definition param_end_at :: "bytes \<Rightarrow> bool" where
  "param_end_at s \<longleftrightarrow> list_ex (\<lambda>e. prefix e s) param_ends"

text \<open>\<open>bytes.IndexFunc\<close> for \<open>isParamEnd\<close>, and \<open>bytes.IndexAny\<close> for characters of one byte.\<close>

fun index_param_end :: "bytes \<Rightarrow> nat option" where
  "index_param_end [] = None"
| "index_param_end (c # s) = (if param_end_at (c # s) then Some 0 else map_option Suc (index_param_end s))"

definition IndexAny :: "bytes \<Rightarrow> string \<Rightarrow> nat option" where
  "IndexAny s chars =
     (if list_ex (\<lambda>c. c \<in> set chars) s then Some (length (takeWhile (\<lambda>c. c \<notin> set chars) s)) else None)"

definition lower :: "char \<Rightarrow> char" where
  "lower c = (let n = of_char c :: nat in if 65 \<le> n \<and> n \<le> 90 then char_of (n + 32) else c)"

text \<open>\<open>strings.ToLower\<close>, as far as a comparison with keys of ASCII characters can tell: besides the capital letters
  two other characters have an ASCII letter as lower case.\<close>

fun ToLower :: "string \<Rightarrow> string" where
  "ToLower (a # b # c # s) =
     (if [a, b, c] = [CHR 0xE2, CHR 0x84, CHR 0xAA] then CHR ''k'' # ToLower s
      else if [a, b] = [CHR 0xC4, CHR 0xB0] then CHR ''i'' # ToLower (c # s)
      else lower a # ToLower (b # c # s))"
| "ToLower [a, b] =
     (if [a, b] = [CHR 0xC4, CHR 0xB0] then ''i'' else [lower a, lower b])"
| "ToLower [a] = [lower a]"
| "ToLower [] = []"

text \<open>The loop of \<open>Write\<close> over the bytes \<open>p\<close> from index \<open>n\<close>, with the write after it. While it is
  masking it throws bytes away up to the end of the parameter.\<close>

definition url_flush ::
    "'s write_fn \<Rightarrow> bytes \<Rightarrow> nat \<Rightarrow> nat \<Rightarrow> 's URLSanitizer \<Rightarrow> 's URLSanitizer \<times> nat \<times> write_error option" where
  "url_flush next_Write p n sent s =
     (if subslice p sent n \<noteq> [] then
        (case next_Write (url_w s) (subslice p sent n) of (st, _, err) \<Rightarrow> (s\<lparr>url_w := st\<rparr>, n, err))
      else (s, n, None))"

function url_loop ::
    "'s write_fn \<Rightarrow> bytes \<Rightarrow> nat \<Rightarrow> nat \<Rightarrow> 's URLSanitizer \<Rightarrow> 's URLSanitizer \<times> nat \<times> write_error option" where
  "url_loop next_Write p n sent s =
     (if n < length p then
        (case (if url_masking s then index_param_end (drop n p) else Some 0) of
           None \<Rightarrow> url_flush next_Write p (length p) (length p) s
         | Some off \<Rightarrow>
             (let n = n + off; sent = sent + off
              in case (if url_masking s then next_Write (url_w s) mask_bytes else (url_w s, 0, None)) of
                   (st, _, Some err) \<Rightarrow> (s\<lparr>url_w := st, url_masking := False\<rparr>, n, Some err)
                 | (st, _, None) \<Rightarrow>
                     (let s = s\<lparr>url_w := st, url_masking := False\<rparr>;
                          mtch = (if length (url_match s) = url_cap s then [] else url_match s)
                      in case (if mtch = [] then IndexAny (drop n p) ''?&'' else Some 0) of
                           None \<Rightarrow> url_flush next_Write p (length p) sent (s\<lparr>url_match := mtch\<rparr>)
                         | Some off \<Rightarrow>
                             (let (mtch, n) = (if mtch = [] then ([p ! (n + off)], n + off + 1) else (mtch, n))
                              in if \<not> n < length p then url_flush next_Write p n sent (s\<lparr>url_match := mtch\<rparr>)
                                 else
                                   (case IndexAny (drop n p) ''=?&'' of
                                      None \<Rightarrow>
                                        url_loop next_Write p (n + 1) sent (s\<lparr>url_match := mtch @ [p ! n]\<rparr>)
                                    | Some off \<Rightarrow>
                                        if p ! (n + off) = CHR ''?'' \<or> p ! (n + off) = CHR ''&''
                                        then url_loop next_Write p (n + off) sent (s\<lparr>url_match := []\<rparr>)
                                        else if off + length mtch > url_cap s
                                        then url_loop next_Write p (n + 1) sent (s\<lparr>url_match := []\<rparr>)
                                        else
                                          (let key = mtch @ subslice p n (n + off); n = n + off + 1
                                           in if ToLower (tl key) \<in> set tokenParamKeys then
                                                (case next_Write (url_w s) (subslice p sent n) of
                                                   (st, _, Some err) \<Rightarrow>
                                                     (s\<lparr>url_w := st, url_match := mtch\<rparr>, n, Some err)
                                                 | (st, _, None) \<Rightarrow>
                                                     url_loop next_Write p n n
                                                       (s\<lparr>url_w := st, url_masking := True, url_match := []\<rparr>))
                                              else url_loop next_Write p n sent (s\<lparr>url_match := []\<rparr>)))))))
      else url_flush next_Write p n sent s)"
  by pat_completeness auto
termination
  by (relation "measure (\<lambda>(w, p, n, sent, s). 2 * (length p - n) + (if url_match s \<noteq> [] then 1 else 0))")
    (auto split: if_splits)

declare url_loop.simps [simp del]

definition URL_Write :: "'s write_fn \<Rightarrow> 's URLSanitizer write_fn" where
  "URL_Write next_Write s p = url_loop next_Write p 0 0 s"

definition URL_Close :: "'s write_fn \<Rightarrow> 's close_fn \<Rightarrow> 's URLSanitizer close_fn" where
  "URL_Close next_Write next_Close s =
     (let (st, _, werr) = (if url_masking s then next_Write (url_w s) mask_bytes else (url_w s, 0, None));
          (st, err) = next_Close st
      in (s\<lparr>url_w := st\<rparr>, if err = None then werr else err))"

text \<open>What ends up in the log after a sequence of writes and closing the writer.\<close>

definition url_output :: "string list \<Rightarrow> bytes list \<Rightarrow> bytes" where
  "url_output keys chunks =
     url_w (fst (URL_Close collect collect_close
       (foldl (\<lambda>s p. fst (URL_Write collect s p)) (NewURLSanitizer keys []) chunks)))"

section \<open>Lemmas\<close>

text \<open>The capacity does not depend on the order of the iteration over the keys.\<close>

lemma max_key_seen:
  assumes "set keys \<subseteq> set tokenParamKeys" "m \<in> {0, 10, 14, 16, 17, 19, 21}"
  shows "fold (\<lambda>token m. if length token > m then length token + 1 else m) keys m \<in> {0, 10, 14, 16, 17, 19, 21} \<and>
    (m = 21 \<or> ''x-amz-security-token'' \<in> set keys \<longrightarrow>
       fold (\<lambda>token m. if length token > m then length token + 1 else m) keys m = 21)"
  using assms
proof (induction keys arbitrary: m)
  case (Cons k keys)
  let ?m = "if length k > m then length k + 1 else m"
  have k: "k \<in> set tokenParamKeys" using Cons.prems(1) by simp
  then have "?m \<in> {0, 10, 14, 16, 17, 19, 21}" using Cons.prems(2) by (auto simp: tokenParamKeys_def)
  moreover have "m = 21 \<or> k = ''x-amz-security-token'' \<Longrightarrow> ?m = 21"
    using k Cons.prems(2) by (auto simp: tokenParamKeys_def)
  ultimately show ?case using Cons.IH [of ?m] Cons.prems(1) by auto
qed simp

lemma max_key_21: "set keys = set tokenParamKeys \<Longrightarrow> max_key keys = 21"
  using max_key_seen [of keys 0] by (auto simp: max_key_def tokenParamKeys_def)

lemma IndexAny_first:
  assumes "list_all (\<lambda>c. c \<notin> set chars) u" "c \<in> set chars"
  shows "IndexAny (u @ c # r) chars = Some (length u)"
proof -
  have "takeWhile (\<lambda>c. c \<notin> set chars) (u @ c # r) = u"
    using assms by (simp add: takeWhile_append list_all_iff)
  then show ?thesis using assms(2) by (simp add: IndexAny_def)
qed

text \<open>A sensitive key: what precedes the value is passed on and the masking starts.\<close>

lemma url_loop_key:
  assumes "list_all (\<lambda>c. c \<noteq> CHR ''?'' \<and> c \<noteq> CHR ''&'') u" "sep = CHR ''?'' \<or> sep = CHR ''&''"
    and "list_all (\<lambda>c. c \<notin> set ''=?&'') key" "ToLower key \<in> set tokenParamKeys" "length key \<le> 20"
    and s: "url_match s = []" "url_cap s = 21" "\<not> url_masking s"
    and p: "p = u @ sep # key @ CHR ''='' # v"
  shows "url_loop collect p 0 0 s =
    url_loop collect p (length u + length key + 2) (length u + length key + 2)
      (s\<lparr>url_w := url_w s @ u @ sep # key @ ''='', url_masking := True, url_match := []\<rparr>)"
proof -
  have i: "IndexAny p ''?&'' = Some (length u)"
    unfolding p by (rule IndexAny_first) (use assms(1,2) in \<open>auto simp: list_all_iff\<close>)
  have d: "drop (length u + 1) p = key @ CHR ''='' # v" by (simp add: p)
  have j: "IndexAny (drop (length u + 1) p) ''=?&'' = Some (length key)"
    unfolding d by (rule IndexAny_first) (use assms(3) in auto)
  have at: "p ! length u = sep" "p ! (length u + 1 + length key) = CHR ''=''"
    by (simp_all add: p nth_append)
  have sub: "subslice p (length u + 1) (length u + 1 + length key) = key"
    "subslice p 0 (length u + 1 + length key + 1) = u @ sep # key @ ''=''"
    by (simp_all add: p subslice_def)
  have len: "0 < length p" "length u + 1 < length p" by (simp_all add: p)
  show ?thesis
    unfolding url_loop.simps [of collect p 0 0 s]
    using i j at sub len s assms(4,5) by (simp add: collect_def)
qed

lemma url_loop_value:
  assumes "url_masking s" "index_param_end (drop n p) = None"
  shows "url_loop w p n n s = (s, max n (length p), None)"
proof (cases "n < length p")
  case True
  then show ?thesis using assms by (subst url_loop.simps) (simp add: url_flush_def)
next
  case False
  then show ?thesis by (subst url_loop.simps) (simp add: url_flush_def)
qed

lemma url_values: "url_masking s \<Longrightarrow> list_all (\<lambda>v. index_param_end v = None) vs \<Longrightarrow>
    foldl (\<lambda>s p. fst (URL_Write w s p)) s vs = s"
  by (induction vs) (simp_all add: URL_Write_def url_loop_value)

text \<open>The visible ASCII characters besides the two separators do not end a parameter.\<close>

definition plain :: "char \<Rightarrow> bool" where
  "plain c \<longleftrightarrow> 33 \<le> (of_char c :: nat) \<and> (of_char c :: nat) < 127 \<and> c \<noteq> CHR ''?'' \<and> c \<noteq> CHR ''&''"

lemma plain_not_end: "e \<in> set param_ends \<Longrightarrow> e \<noteq> [] \<and> \<not> plain (hd e)"
  unfolding param_ends_def space_encodings_def by (auto simp: plain_def)

lemma index_param_end_plain: "list_all plain v \<Longrightarrow> index_param_end v = None"
proof (induction v)
  case (Cons c v)
  then have "\<not> param_end_at (c # v)"
    using plain_not_end by (fastforce simp: param_end_at_def list_ex_iff prefix_Cons)
  with Cons show ?case by simp
qed simp

section \<open>Properties\<close>



end
