(* ===== verification/ShellEscape.thy ===== *)
theory ShellEscape
  imports Strconv
begin

text \<open>
  Quoting for shells in the job runner, \<open>helpers/shell_escape.go\<close> and \<open>helpers/shell_escape_legacy.go\<close> of
  gitlab-runner. The specification is the reading side: \<open>shell_words\<close> splits a line into words the way a
  shell does that sees only plain characters, single quotes, double quotes, backslashes and the ANSI-C
  quotes of bash; anything else that has a meaning for the shell makes it answer \<open>None\<close>.
\<close>

section \<open>Escaping\<close>

text \<open>The entries of \<open>modeTable\<close>: a string to replace the character with, a literal, a character that
  needs quotes, or no entry.\<close>

datatype mode = Escaped string | Lit | Quo | NoMode

abbreviation backslash :: char where
  "backslash \<equiv> CHR 0x5C"

abbreviation quote1 :: char where
  "quote1 \<equiv> CHR 0x27"

abbreviation quote2 :: char where
  "quote2 \<equiv> CHR 0x22"

definition lit_chars :: string where
  "lit_chars = '',-./0123456789@ABCDEFGHIJKLMNOPQRSTUVWXYZ_abcdefghijklmnopqrstuvwxyz''"

definition quo_chars :: string where
  "quo_chars = quote2 # CHR 0x60 # '' !#$%&()*+:;<=>?[]^{|}~''"

definition modeTable :: "char \<Rightarrow> mode" where
  "modeTable c =
     (if c = CHR 0x07 then Escaped [backslash, CHR ''a'']
      else if c = CHR 0x08 then Escaped [backslash, CHR ''b'']
      else if c = CHR 0x09 then Escaped [backslash, CHR ''t'']
      else if c = CHR 0x0A then Escaped [backslash, CHR ''n'']
      else if c = CHR 0x0B then Escaped [backslash, CHR ''v'']
      else if c = CHR 0x0C then Escaped [backslash, CHR ''f'']
      else if c = CHR 0x0D then Escaped [backslash, CHR ''r'']
      else if c = quote1 then Escaped [backslash, quote1]
      else if c = backslash then Escaped [backslash, backslash]
      else if c \<in> set lit_chars then Lit
      else if c \<in> set quo_chars then Quo
      else NoMode)"

definition hex_escape :: "char \<Rightarrow> string" where
  "hex_escape c = [backslash, CHR ''x'', hexdigit (of_char c div 16), hexdigit (of_char c mod 16)]"

text \<open>What the loop writes for a character, and whether it sets \<open>escape\<close>.\<close>

definition escape_char :: "char \<Rightarrow> string \<times> bool" where
  "escape_char c =
     (case modeTable c of
        Lit \<Rightarrow> ([c], False)
      | Quo \<Rightarrow> ([c], True)
      | NoMode \<Rightarrow> (hex_escape c, True)
      | Escaped s \<Rightarrow> (s, True))"

text \<open>The loop over the input: the string builder and the flag.\<close>

fun escape_loop :: "(char \<Rightarrow> string \<times> bool) \<Rightarrow> string \<Rightarrow> string \<Rightarrow> bool \<Rightarrow> string \<times> bool" where
  "escape_loop f [] sb escape = (sb, escape)"
| "escape_loop f (c # cs) sb escape =
     (let (s, e) = f c in escape_loop f cs (sb @ s) (escape \<or> e))"

definition ShellEscape :: "string \<Rightarrow> string" where
  "ShellEscape input =
     (if input = [] then [quote1, quote1]
      else let (sb, escape) = escape_loop escape_char input [] False
           in if escape then CHR ''$'' # quote1 # sb @ [quote1] else sb)"

definition posixModeTable :: "char \<Rightarrow> mode" where
  "posixModeTable c =
     (if c = CHR 0x60 then Escaped [backslash, CHR 0x60]
      else if c = quote2 then Escaped [backslash, quote2]
      else if c = backslash then Escaped [backslash, backslash]
      else if c = CHR ''$'' then Escaped [backslash, CHR ''$'']
      else if c \<in> set '' !#%&()*<=>?[|'' then Quo
      else NoMode)"

definition posix_escape_char :: "char \<Rightarrow> string \<times> bool" where
  "posix_escape_char c =
     (case posixModeTable c of
        Quo \<Rightarrow> ([c], True)
      | NoMode \<Rightarrow> ([c], False)
      | Lit \<Rightarrow> ([c], False)
      | Escaped s \<Rightarrow> (s, True))"

definition PosixShellEscape :: "string \<Rightarrow> string" where
  "PosixShellEscape input =
     (if input = [] then [quote1, quote1]
      else let (sb, escape) = escape_loop posix_escape_char input [] False
           in if escape then quote2 # sb @ [quote2] else sb)"

text \<open>\<open>processChar\<close> of the legacy escaper; the names of the constants are the source's.\<close>

definition processChar :: "char \<Rightarrow> string \<times> bool" where
  "processChar c =
     (let n = of_char c :: nat in
      if n = 9 then ([backslash, CHR ''t''], True)
      else if n = 10 then ([backslash, CHR ''n''], True)
      else if n = 13 then ([backslash, CHR ''r''], True)
      else if n \<le> 31 then (hex_escape c, True)
      else if n \<le> 38 then ([c], True)
      else if n = 39 then ([backslash, c], True)
      else if n \<le> 43 then ([c], True)
      else if n \<le> 57 then ([c], False)
      else if n \<le> 63 then ([c], True)
      else if n \<le> 90 then ([c], False)
      else if n = 91 then ([c], True)
      else if n = 92 then ([backslash, c], True)
      else if n \<le> 93 then ([c], True)
      else if n = 95 then ([c], False)
      else if n \<le> 96 then ([c], True)
      else if n \<le> 126 then ([c], True)
      else if n = 127 then (hex_escape c, True)
      else (hex_escape c, True))"

definition ShellEscapeLegacy :: "string \<Rightarrow> string" where
  "ShellEscapeLegacy str =
     (if str = [] then [quote1, quote1]
      else let (out, escape) = escape_loop processChar str [] False
           in if escape then CHR ''$'' # quote1 # out @ [quote1] else out)"

section \<open>Reading a line\<close>

text \<open>The characters a shell gives a meaning to when they are not quoted: the ones POSIX lists as
  needing quotes, always or in some contexts.\<close>

definition special :: "char \<Rightarrow> bool" where
  "special c \<longleftrightarrow> c \<in> set ''|&;<>()$ *?[#~=%'' \<or>
     c \<in> {CHR 0x60, backslash, quote1, quote2, CHR 0x09, CHR 0x0A, CHR 0x00}"

text \<open>The text up to the closing single quote, and what follows it.\<close>

fun single_quoted :: "string \<Rightarrow> (string \<times> string) option" where
  "single_quoted [] = None"
| "single_quoted (c # cs) =
     (if c = quote1 then Some ([], cs)
      else map_option (map_prod (Cons c) id) (single_quoted cs))"

text \<open>Inside double quotes a backslash escapes the four characters that keep their meaning there; an
  expansion makes the answer \<open>None\<close>.\<close>

fun double_quoted :: "string \<Rightarrow> (string \<times> string) option" where
  "double_quoted [] = None"
| "double_quoted (c # cs) =
     (if c = quote2 then Some ([], cs)
      else if c = CHR ''$'' \<or> c = CHR 0x60 then None
      else if c = backslash then
        (case cs of
           [] \<Rightarrow> None
         | d # ds \<Rightarrow>
             if d \<in> {CHR ''$'', CHR 0x60, quote2, backslash}
             then map_option (map_prod (Cons d) id) (double_quoted ds)
             else if d = CHR 0x0A then double_quoted ds
             else map_option (map_prod (Cons c) id) (double_quoted cs))
      else map_option (map_prod (Cons c) id) (double_quoted cs))"

text \<open>The escapes of ANSI-C quotes. \<open>\x\<close> takes one or two hexadecimal digits; a NUL ends the string, which
  is answered with \<open>None\<close>, and so are the escapes for octal, Unicode and control characters.\<close>

definition ansi_simple :: "char \<Rightarrow> char option" where
  "ansi_simple d =
     map_of [(CHR ''a'', CHR 0x07), (CHR ''b'', CHR 0x08), (CHR ''e'', CHR 0x1B), (CHR ''E'', CHR 0x1B),
       (CHR ''f'', CHR 0x0C), (CHR ''n'', CHR 0x0A), (CHR ''r'', CHR 0x0D), (CHR ''t'', CHR 0x09),
       (CHR ''v'', CHR 0x0B), (backslash, backslash), (quote1, quote1), (quote2, quote2),
       (CHR ''?'', CHR ''?'')] d"

definition ansi_hex :: "string \<Rightarrow> (nat \<times> string) option" where
  "ansi_hex s =
     (case s of
        [] \<Rightarrow> None
      | c # cs \<Rightarrow>
         (case hexval c of
            None \<Rightarrow> None
          | Some a \<Rightarrow>
             (case cs of
                [] \<Rightarrow> Some (a, cs)
              | d # ds \<Rightarrow> (case hexval d of None \<Rightarrow> Some (a, cs) | Some b \<Rightarrow> Some (16 * a + b, ds)))))"

lemma ansi_hex_length: "ansi_hex s = Some (n, r) \<Longrightarrow> length r < length s"
  by (auto simp: ansi_hex_def split: list.splits option.splits)

function ansi_quoted :: "string \<Rightarrow> (string \<times> string) option" where
  "ansi_quoted s =
     (case s of
        [] \<Rightarrow> None
      | c # cs \<Rightarrow>
          if c = quote1 then Some ([], cs)
          else if c = backslash then
            (case cs of
               [] \<Rightarrow> None
             | d # ds \<Rightarrow>
                 if d = CHR ''x'' then
                   (case ansi_hex ds of
                      None \<Rightarrow> None
                    | Some (n, r) \<Rightarrow>
                        if n = 0 then None else map_option (map_prod (Cons (char_of n)) id) (ansi_quoted r))
                 else (case ansi_simple d of
                         None \<Rightarrow> None
                       | Some e \<Rightarrow> map_option (map_prod (Cons e) id) (ansi_quoted ds)))
          else map_option (map_prod (Cons c) id) (ansi_quoted cs))"
  by pat_completeness auto
termination
  by (relation "measure length") (auto dest: ansi_hex_length)

declare ansi_quoted.simps [simp del]

lemma single_quoted_length: "single_quoted s = Some (w, r) \<Longrightarrow> length r < length s"
  by (induction s arbitrary: w) (fastforce split: if_splits)+

lemma double_quoted_length: "double_quoted s = Some (w, r) \<Longrightarrow> length r < length s"
  by (induction s arbitrary: w rule: double_quoted.induct)
    (fastforce split: if_splits list.splits)+

lemma ansi_quoted_length: "ansi_quoted s = Some (w, r) \<Longrightarrow> length r < length s"
proof (induction s arbitrary: w rule: ansi_quoted.induct)
  case (1 s)
  note eq = 1(4) [unfolded ansi_quoted.simps [of s]]
  show ?case
  proof (cases s)
    case (Cons c cs)
    then show ?thesis
      using 1(1-3) eq ansi_hex_length
      by (auto split: if_splits list.splits option.splits) fastforce+
  qed (use eq in simp)
qed

text \<open>The words of a line. The second argument is the word being read, if one has begun.\<close>

definition grow :: "string option \<Rightarrow> string \<Rightarrow> string option" where
  "grow cur s = Some ((case cur of None \<Rightarrow> [] | Some w \<Rightarrow> w) @ s)"

function shell_lex :: "string \<Rightarrow> string option \<Rightarrow> string list option" where
  "shell_lex s cur =
     (case s of
        [] \<Rightarrow> Some (case cur of None \<Rightarrow> [] | Some w \<Rightarrow> [w])
      | c # cs \<Rightarrow>
          if c = CHR '' '' then
            (case cur of None \<Rightarrow> shell_lex cs None | Some w \<Rightarrow> map_option (Cons w) (shell_lex cs None))
          else if c = quote1 then
            (case single_quoted cs of None \<Rightarrow> None | Some (w, r) \<Rightarrow> shell_lex r (grow cur w))
          else if c = quote2 then
            (case double_quoted cs of None \<Rightarrow> None | Some (w, r) \<Rightarrow> shell_lex r (grow cur w))
          else if c = CHR ''$'' then
            (case cs of
               [] \<Rightarrow> None
             | d # ds \<Rightarrow>
                 if d = quote1
                 then (case ansi_quoted ds of None \<Rightarrow> None | Some (w, r) \<Rightarrow> shell_lex r (grow cur w))
                 else None)
          else if c = backslash then
            (case cs of [] \<Rightarrow> None | d # ds \<Rightarrow> if d = CHR 0x0A then shell_lex ds cur else shell_lex ds (grow cur [d]))
          else if special c then None
          else shell_lex cs (grow cur [c]))"
  by pat_completeness auto
termination
  by (relation "measure (length \<circ> fst)")
    (auto dest: single_quoted_length double_quoted_length ansi_quoted_length)

declare shell_lex.simps [simp del]

definition shell_words :: "string \<Rightarrow> string list option" where
  "shell_words line = shell_lex line None"

section \<open>Reading back what was escaped\<close>

lemma escape_loop_eq:
  "escape_loop f cs sb e = (sb @ concat (map (fst \<circ> f) cs), e \<or> list_ex (snd \<circ> f) cs)"
  by (induction cs arbitrary: sb e) (auto simp: case_prod_unfold Let_def)

lemma grow_grow [simp]: "grow (grow cur s) t = grow cur (s @ t)"
  by (simp add: grow_def)

lemma plain_neq:
  "\<not> special c \<Longrightarrow> c \<noteq> CHR '' '' \<and> c \<noteq> quote1 \<and> c \<noteq> quote2 \<and> c \<noteq> CHR ''$'' \<and> c \<noteq> backslash"
  by (auto simp: special_def)

lemma shell_lex_plain:
  "list_all (\<lambda>c. \<not> special c) s \<Longrightarrow> s \<noteq> [] \<Longrightarrow> shell_lex (s @ t) cur = shell_lex t (grow cur s)"
proof (induction s arbitrary: cur)
  case (Cons c s)
  then have "shell_lex (c # s @ t) cur = shell_lex (s @ t) (grow cur [c])"
    using plain_neq [of c] by (subst shell_lex.simps) simp
  with Cons show ?case by (cases s) simp_all
qed simp

lemma shell_lex_empty_quotes: "shell_lex (quote1 # quote1 # t) cur = shell_lex t (grow cur [])"
  by (subst shell_lex.simps) simp

lemma shell_lex_space: "shell_lex (CHR '' '' # t) (Some w) = map_option (Cons w) (shell_lex t None)"
  by (subst shell_lex.simps) simp

text \<open>An encoding of characters for the ANSI-C quotes of bash, as both versions of \<open>ShellEscape\<close> have one.\<close>

locale ansi_quoter =
  fixes enc :: "char \<Rightarrow> string \<times> bool"
  assumes enc_decodes: "c \<noteq> CHR 0x00 \<Longrightarrow>
      ansi_quoted (fst (enc c) @ r) = map_option (map_prod (Cons c) id) (ansi_quoted r)"
    and enc_literal: "\<not> snd (enc c) \<Longrightarrow> fst (enc c) = [c] \<and> \<not> special c"
begin

lemma enc_quoted_reads:
  "CHR 0x00 \<notin> set s \<Longrightarrow> ansi_quoted (concat (map (fst \<circ> enc) s) @ quote1 # r) = Some (s, r)"
proof (induction s)
  case Nil
  show ?case by (simp add: ansi_quoted.simps)
next
  case (Cons c s)
  then have "c \<noteq> CHR 0x00" by auto
  with Cons show ?case by (simp add: enc_decodes)
qed

lemma enc_literals: "\<not> list_ex (snd \<circ> enc) s \<Longrightarrow> concat (map (fst \<circ> enc) s) = s \<and> list_all (\<lambda>c. \<not> special c) s"
  by (induction s) (use enc_literal in auto)

lemma escaped_reads:
  assumes "CHR 0x00 \<notin> set s"
  shows "shell_lex ((if s = [] then [quote1, quote1]
      else let (sb, escape) = escape_loop enc s [] False
           in if escape then CHR ''$'' # quote1 # sb @ [quote1] else sb) @ t) cur = shell_lex t (grow cur s)"
proof (cases "s = []")
  case True
  then show ?thesis by (simp add: shell_lex_empty_quotes)
next
  case False
  have "shell_lex (CHR ''$'' # quote1 # concat (map (fst \<circ> enc) s) @ quote1 # t) cur = shell_lex t (grow cur s)"
    by (subst shell_lex.simps) (simp add: enc_quoted_reads [OF assms])
  then show ?thesis
    using False shell_lex_plain [of s t cur] enc_literals [of s]
    by (simp add: escape_loop_eq)
qed

end

text \<open>Every character is one of the nine with an escape of their own, a literal, a quoted character or one
  that is written in hexadecimal.\<close>

lemma ansi_quoted_hex_escape:
  assumes "c \<noteq> CHR 0x00"
  shows "ansi_quoted (hex_escape c @ r) = map_option (map_prod (Cons c) id) (ansi_quoted r)"
proof -
  have lt: "of_char c div 16 < (16::nat)" "of_char c mod 16 < (16::nat)"
    using of_char_lt [of c] by (auto simp: less_mult_imp_div_less)
  have "char_of (of_char c :: nat) = c" by simp
  moreover have "(of_char c :: nat) \<noteq> 0"
  proof
    assume "(of_char c :: nat) = 0"
    then have "c = char_of (0 :: nat)" by (metis char_of_char)
    with assms show False by (simp add: char_of_def)
  qed
  ultimately show ?thesis
    using lt by (subst ansi_quoted.simps) (simp add: hex_escape_def ansi_hex_def)
qed

lemma ansi_quoted_raw:
  "c \<noteq> quote1 \<Longrightarrow> c \<noteq> backslash \<Longrightarrow> ansi_quoted (c # r) = map_option (map_prod (Cons c) id) (ansi_quoted r)"
  by (subst ansi_quoted.simps) simp

lemma ansi_quoted_simple:
  "ansi_simple d = Some c \<Longrightarrow> d \<noteq> CHR ''x'' \<Longrightarrow>
    ansi_quoted (backslash # d # r) = map_option (map_prod (Cons c) id) (ansi_quoted r)"
  by (subst ansi_quoted.simps) simp

lemma modeTable_Escaped:
  "modeTable c = Escaped s \<Longrightarrow> s = [backslash, s ! 1] \<and> s ! 1 \<noteq> CHR ''x'' \<and> ansi_simple (s ! 1) = Some c"
  unfolding modeTable_def by (simp split: if_split_asm) (auto simp: ansi_simple_def)

lemma modeTable_raw: "modeTable c = Lit \<or> modeTable c = Quo \<Longrightarrow> c \<noteq> quote1 \<and> c \<noteq> backslash"
  by (auto simp: modeTable_def)

lemma modeTable_Lit: "modeTable c = Lit \<Longrightarrow> \<not> special c"
proof -
  have "list_all (\<lambda>c. \<not> special c) lit_chars" by (simp add: lit_chars_def special_def)
  then show "modeTable c = Lit \<Longrightarrow> \<not> special c"
    by (auto simp: modeTable_def list_all_iff split: if_splits)
qed

interpretation esc: ansi_quoter escape_char
proof unfold_locales
  fix c r
  show "ansi_quoted (fst (escape_char c) @ r) = map_option (map_prod (Cons c) id) (ansi_quoted r)"
    if "c \<noteq> CHR 0x00"
  proof (cases "modeTable c")
    case (Escaped s)
    then obtain d where d: "s = [backslash, d]" "d \<noteq> CHR ''x''" "ansi_simple d = Some c"
      using modeTable_Escaped by blast
    with Escaped show ?thesis by (simp add: escape_char_def ansi_quoted_simple)
  next
    case NoMode
    then show ?thesis using ansi_quoted_hex_escape [OF that] by (simp add: escape_char_def)
  qed (use modeTable_raw [of c] in \<open>auto simp: escape_char_def ansi_quoted_raw\<close>)
  show "fst (escape_char c) = [c] \<and> \<not> special c" if "\<not> snd (escape_char c)"
    using that modeTable_Lit by (auto simp: escape_char_def split: mode.splits)
qed

text \<open>The intervals of the legacy escaper: where it writes the character as it is, it is neither a quote nor
  a backslash, and where it writes it without quotes, it has no meaning to a shell.\<close>

lemma of_char_numeral_neq:
  "(of_char c :: nat) \<noteq> of_char d \<Longrightarrow> c \<noteq> d"
  by auto

lemma special_codes:
  "special c \<longleftrightarrow> (of_char c :: nat) \<in> {124, 38, 59, 60, 62, 40, 41, 36, 32, 42, 63, 91, 35, 126, 61, 37,
     96, 92, 39, 34, 9, 10, 0}"
proof -
  have eq: "c = d \<longleftrightarrow> (of_char c :: nat) = of_char d" for d by (simp add: of_char_eq_iff)
  show ?thesis by (simp add: special_def eq)
qed

interpretation leg: ansi_quoter processChar
proof unfold_locales
  fix c r
  let ?n = "of_char c :: nat"
  have eq: "c = d \<longleftrightarrow> ?n = of_char d" for d by (simp add: of_char_eq_iff)
  show "ansi_quoted (fst (processChar c) @ r) = map_option (map_prod (Cons c) id) (ansi_quoted r)"
    if "c \<noteq> CHR 0x00"
  proof -
    show ?thesis
    proof (cases "c \<in> {CHR 0x09, CHR 0x0A, CHR 0x0D, quote1, backslash}")
      case True
      then show ?thesis by (elim insertE emptyE) (simp_all add: processChar_def ansi_quoted_simple ansi_simple_def)
    next
      case False
      then have "fst (processChar c) = hex_escape c \<or> fst (processChar c) = [c]"
        by (simp add: processChar_def Let_def eq)
      with False show ?thesis
        using ansi_quoted_hex_escape [OF that] by (elim disjE) (simp_all add: ansi_quoted_raw)
    qed
  qed
  show "fst (processChar c) = [c] \<and> \<not> special c" if "\<not> snd (processChar c)"
    using that by (auto simp: processChar_def Let_def special_codes split: if_splits)
qed

lemma ShellEscape_reads: "CHR 0x00 \<notin> set s \<Longrightarrow> shell_lex (ShellEscape s @ t) cur = shell_lex t (grow cur s)"
  unfolding ShellEscape_def by (rule esc.escaped_reads)

lemma ShellEscapeLegacy_reads:
  "CHR 0x00 \<notin> set s \<Longrightarrow> shell_lex (ShellEscapeLegacy s @ t) cur = shell_lex t (grow cur s)"
  unfolding ShellEscapeLegacy_def by (rule leg.escaped_reads)

section \<open>Double quotes\<close>

text \<open>The characters \<open>posixModeTable\<close> has no entry for although they have a meaning outside quotes.\<close>

definition posix_missing :: "char \<Rightarrow> bool" where
  "posix_missing c \<longleftrightarrow> c \<in> {CHR '';'', CHR ''~'', quote1, CHR 0x09, CHR 0x0A, CHR 0x00}"

lemma double_quoted_raw:
  "c \<notin> {quote2, CHR ''$'', CHR 0x60, backslash} \<Longrightarrow>
    double_quoted (c # r) = map_option (map_prod (Cons c) id) (double_quoted r)"
  by simp

lemma posix_escape_decodes:
  "double_quoted (fst (posix_escape_char c) @ r) = map_option (map_prod (Cons c) id) (double_quoted r)"
proof (cases "c \<in> {quote2, CHR ''$'', CHR 0x60, backslash}")
  case True
  then show ?thesis by (elim insertE emptyE) (simp_all add: posix_escape_char_def posixModeTable_def)
next
  case False
  then have "fst (posix_escape_char c) = [c]"
    by (simp add: posix_escape_char_def posixModeTable_def)
  with double_quoted_raw [OF False] show ?thesis by simp
qed

lemma posix_quoted_reads:
  "double_quoted (concat (map (fst \<circ> posix_escape_char) s) @ quote2 # r) = Some (s, r)"
  by (induction s) (simp_all add: posix_escape_decodes del: double_quoted.simps(2), simp)

lemma posix_unquoted:
  assumes "\<not> snd (posix_escape_char c)"
  shows "fst (posix_escape_char c) = [c]" "posix_missing c \<or> \<not> special c"
proof -
  have "posixModeTable c = NoMode"
    using assms by (auto simp: posix_escape_char_def posixModeTable_def split: if_splits)
  then show "fst (posix_escape_char c) = [c]" by (simp add: posix_escape_char_def)
  show "posix_missing c \<or> \<not> special c"
    using \<open>posixModeTable c = NoMode\<close>
    by (auto simp: posix_missing_def special_def posixModeTable_def split: if_splits)
qed

lemma posix_literals:
  "\<not> list_ex (snd \<circ> posix_escape_char) s \<Longrightarrow> concat (map (fst \<circ> posix_escape_char) s) = s"
  by (induction s) (auto simp: posix_unquoted(1))

lemma PosixShellEscape_reads:
  assumes "list_all (\<lambda>c. \<not> posix_missing c) s"
  shows "shell_lex (PosixShellEscape s @ t) cur = shell_lex t (grow cur s)"
proof (cases "s = []")
  case True
  then show ?thesis by (simp add: PosixShellEscape_def shell_lex_empty_quotes)
next
  case False
  have "shell_lex (quote2 # concat (map (fst \<circ> posix_escape_char) s) @ quote2 # t) cur = shell_lex t (grow cur s)"
    by (subst shell_lex.simps) (simp add: posix_quoted_reads)
  moreover have "list_all (\<lambda>c. \<not> special c) s" if "\<not> list_ex (snd \<circ> posix_escape_char) s"
    using that assms posix_unquoted(2) by (auto simp: list_all_iff list_ex_iff)
  ultimately show ?thesis
    using False shell_lex_plain [of s t cur] posix_literals [of s]
    by (simp add: PosixShellEscape_def escape_loop_eq)
qed

end
