(* ===== verification/BashWriter.thy ===== *)
theory BashWriter
  imports ShellEscape "HOL-Library.Monad_Syntax"
begin

text \<open>
  Writing the scripts of a job for a POSIX shell, \<open>shells/bash.go\<close> of gitlab-runner. The embedded buffer
  is the text written so far. \<open>strings.Repeat\<close> panics for a negative count, so writing a line has no result
  when the indentation is negative. The verb \<open>%q\<close> of \<open>fmt\<close> and \<open>path.Join\<close> are the fields \<open>quoteGo\<close> and
  \<open>pathJoin\<close> of the writer, of which nothing is assumed.
\<close>

section \<open>State\<close>

record BashWriter =
  buf :: string
  TemporaryPath :: string
  Shell :: string
  indent :: int
  checkForErrors :: bool
  useNewEval :: bool
  useNewEscape :: bool
  usePosixEscape :: bool
  useJSONTermination :: bool
  quoteGo :: "string \<Rightarrow> string"
  pathJoin :: "string list \<Rightarrow> string"

abbreviation newline :: char where
  "newline \<equiv> CHR 0x0A"

abbreviation esc :: char where
  "esc \<equiv> CHR 0x1B"

section \<open>Operations\<close>

text \<open>\<open>flag\<close> says which feature flags are on for the build.\<close>

definition NewBashWriter ::
    "(string \<Rightarrow> string) \<Rightarrow> (string list \<Rightarrow> string) \<Rightarrow> (string \<Rightarrow> bool) \<Rightarrow> string \<Rightarrow> string \<Rightarrow> string \<Rightarrow> BashWriter" where
  "NewBashWriter quote join_path flag executor tmpProjectDir shell =
     \<lparr>buf = [], TemporaryPath = tmpProjectDir, Shell = shell, indent = 0,
      checkForErrors = flag ''FF_ENABLE_BASH_EXIT_CODE_CHECK'',
      useNewEval = flag ''FF_USE_NEW_BASH_EVAL_STRATEGY'',
      useNewEscape = flag ''FF_USE_NEW_SHELL_ESCAPE'',
      usePosixEscape = flag ''FF_POSIXLY_CORRECT_ESCAPES'',
      useJSONTermination =
        (executor = ''kubernetes'' \<and> \<not> flag ''FF_USE_LEGACY_KUBERNETES_EXECUTION_STRATEGY''),
      quoteGo = quote, pathJoin = join_path\<rparr>"

definition Line :: "string \<Rightarrow> BashWriter \<Rightarrow> BashWriter option" where
  "Line txt b =
     (if indent b < 0 then None
      else Some (b\<lparr>buf := buf b @ concat (replicate (nat (indent b)) ''  '') @ txt @ [newline]\<rparr>))"

definition CheckForErrors :: "BashWriter \<Rightarrow> BashWriter option" where
  "CheckForErrors b =
     (if \<not> checkForErrors b then Some b
      else Line ''_runner_exit_code=$?; if [ $_runner_exit_code -ne 0 ]; then exit $_runner_exit_code; fi'' b)"

definition Indent :: "BashWriter \<Rightarrow> BashWriter" where
  "Indent b = b\<lparr>indent := indent b + 1\<rparr>"

definition Unindent :: "BashWriter \<Rightarrow> BashWriter" where
  "Unindent b = b\<lparr>indent := indent b - 1\<rparr>"

definition escape :: "BashWriter \<Rightarrow> string \<Rightarrow> string" where
  "escape b input =
     (if usePosixEscape b then PosixShellEscape input
      else if useNewEscape b then ShellEscape input
      else ShellEscapeLegacy input)"

definition escapeNoLegacy :: "BashWriter \<Rightarrow> string \<Rightarrow> string" where
  "escapeNoLegacy b input = (if usePosixEscape b then PosixShellEscape input else ShellEscape input)"

definition doubleQuote :: "string \<Rightarrow> string" where
  "doubleQuote s = quote2 # s @ [quote2]"

definition buildCommand :: "BashWriter \<Rightarrow> (string \<Rightarrow> string) \<Rightarrow> string \<Rightarrow> string list \<Rightarrow> string" where
  "buildCommand b quoter command arguments = join '' '' (escape b command # map quoter arguments)"

definition Command :: "string \<Rightarrow> string list \<Rightarrow> BashWriter \<Rightarrow> BashWriter option" where
  "Command command arguments b =
     Option.bind (Line (buildCommand b (escapeNoLegacy b) command arguments) b) CheckForErrors"

definition CommandArgExpand :: "string \<Rightarrow> string list \<Rightarrow> BashWriter \<Rightarrow> BashWriter option" where
  "CommandArgExpand command arguments b =
     Option.bind (Line (buildCommand b doubleQuote command arguments) b) CheckForErrors"

definition IsAbs :: "string \<Rightarrow> bool" where
  "IsAbs p \<longleftrightarrow> take 1 p = ''/''"

definition HasPrefix :: "string \<Rightarrow> string \<Rightarrow> bool" where
  "HasPrefix s p \<longleftrightarrow> take (length p) s = p"

definition Absolute :: "BashWriter \<Rightarrow> string \<Rightarrow> string" where
  "Absolute b dir = (if IsAbs dir \<or> HasPrefix dir ''$PWD'' then dir else pathJoin b [''$PWD'', dir])"

definition cleanPath :: "BashWriter \<Rightarrow> string \<Rightarrow> string" where
  "cleanPath b name = Absolute b name"

definition TmpFile :: "BashWriter \<Rightarrow> string \<Rightarrow> string" where
  "TmpFile b name = cleanPath b (pathJoin b [TemporaryPath b, name])"

definition EnvVariableKey :: "string \<Rightarrow> string" where
  "EnvVariableKey name = CHR ''$'' # name"

definition isTmpFile :: "BashWriter \<Rightarrow> string \<Rightarrow> bool" where
  "isTmpFile b p = HasPrefix p (TemporaryPath b)"

definition ToSlash :: "string \<Rightarrow> string" where
  "ToSlash p = map (\<lambda>c. if c = backslash then CHR ''/'' else c) p"

record JobVariable =
  var_Key :: string
  var_Value :: string
  var_File :: bool

definition Variable :: "JobVariable \<Rightarrow> BashWriter \<Rightarrow> BashWriter option" where
  "Variable variable b =
     (if var_File variable then
        let variableFile = TmpFile b (var_Key variable) in
        do {
          b \<leftarrow> Line (''mkdir -p '' @ quoteGo b (ToSlash (TemporaryPath b))) b;
          b \<leftarrow> Line (''printf '' @ [quote1] @ ''%s'' @ [quote1] @ '' '' @ escape b (var_Value variable) @
                 '' > '' @ quoteGo b variableFile) b;
          Line (''export '' @ escape b (var_Key variable) @ ''='' @ quoteGo b variableFile) b
        }
      else
        let value = (if isTmpFile b (var_Value variable) then cleanPath b (var_Value variable)
                     else var_Value variable)
        in Line (''export '' @ escape b (var_Key variable) @ ''='' @ escape b value) b)"

definition IfDirectory :: "string \<Rightarrow> BashWriter \<Rightarrow> BashWriter option" where
  "IfDirectory path b = map_option Indent (Line (''if [ -d '' @ quoteGo b path @ '' ]; then'') b)"

definition IfFile :: "string \<Rightarrow> BashWriter \<Rightarrow> BashWriter option" where
  "IfFile path b = map_option Indent (Line (''if [ -e '' @ quoteGo b path @ '' ]; then'') b)"

definition IfCmd :: "string \<Rightarrow> string list \<Rightarrow> BashWriter \<Rightarrow> BashWriter option" where
  "IfCmd cmd arguments b =
     map_option Indent (Line (''if '' @ buildCommand b (escapeNoLegacy b) cmd arguments @ '' >/dev/null 2>&1; then'') b)"

definition IfCmdWithOutput :: "string \<Rightarrow> string list \<Rightarrow> BashWriter \<Rightarrow> BashWriter option" where
  "IfCmdWithOutput cmd arguments b =
     map_option Indent (Line (''if '' @ buildCommand b (escapeNoLegacy b) cmd arguments @ ''; then'') b)"

definition Else :: "BashWriter \<Rightarrow> BashWriter option" where
  "Else b = map_option Indent (Line ''else'' (Unindent b))"

definition EndIf :: "BashWriter \<Rightarrow> BashWriter option" where
  "EndIf b = Line ''fi'' (Unindent b)"

definition Cd :: "string \<Rightarrow> BashWriter \<Rightarrow> BashWriter option" where
  "Cd path = Command ''cd'' [path]"

definition MkDir :: "string \<Rightarrow> BashWriter \<Rightarrow> BashWriter option" where
  "MkDir path = Command ''mkdir'' [''-p'', path]"

definition MkTmpDir :: "string \<Rightarrow> BashWriter \<Rightarrow> (BashWriter \<times> string) option" where
  "MkTmpDir name b =
     (let path = pathJoin b [TemporaryPath b, name] in map_option (\<lambda>b. (b, path)) (MkDir path b))"

definition RmDir :: "string \<Rightarrow> BashWriter \<Rightarrow> BashWriter option" where
  "RmDir path = Command ''rm'' [''-r'', ''-f'', path]"

definition RmFile :: "string \<Rightarrow> BashWriter \<Rightarrow> BashWriter option" where
  "RmFile path = Command ''rm'' [''-f'', path]"

definition RmFilesRecursive :: "string \<Rightarrow> string \<Rightarrow> BashWriter \<Rightarrow> BashWriter option" where
  "RmFilesRecursive path name b =
     do {
       b \<leftarrow> IfDirectory path b;
       b \<leftarrow> Line (''find '' @ quoteGo b path @ '' -name '' @ quoteGo b name @ '' -exec rm {} +'') b;
       EndIf b
     }"

definition ANSI_BOLD_RED :: string where "ANSI_BOLD_RED = esc # ''[31;1m''"
definition ANSI_BOLD_GREEN :: string where "ANSI_BOLD_GREEN = esc # ''[32;1m''"
definition ANSI_BOLD_YELLOW :: string where "ANSI_BOLD_YELLOW = esc # ''[33;1m''"
definition ANSI_YELLOW :: string where "ANSI_YELLOW = esc # ''[0;33m''"
definition ANSI_RESET :: string where "ANSI_RESET = esc # ''[0;m''"
definition ANSI_CLEAR :: string where "ANSI_CLEAR = esc # ''[0K''"

text \<open>The printing functions, for a format that has been applied to its arguments.\<close>

definition bw_Printf :: "string \<Rightarrow> BashWriter \<Rightarrow> BashWriter option" where
  "bw_Printf txt b = Line (''echo '' @ escape b (ANSI_RESET @ txt)) b"

definition Noticef :: "string \<Rightarrow> BashWriter \<Rightarrow> BashWriter option" where
  "Noticef txt b = Line (''echo '' @ escape b (ANSI_BOLD_GREEN @ txt @ ANSI_RESET)) b"

definition Warningf :: "string \<Rightarrow> BashWriter \<Rightarrow> BashWriter option" where
  "Warningf txt b = Line (''echo '' @ escape b (ANSI_YELLOW @ txt @ ANSI_RESET)) b"

definition Errorf :: "string \<Rightarrow> BashWriter \<Rightarrow> BashWriter option" where
  "Errorf txt b = Line (''echo '' @ escape b (ANSI_BOLD_RED @ txt @ ANSI_RESET)) b"

definition EmptyLine :: "BashWriter \<Rightarrow> BashWriter option" where
  "EmptyLine = Line ''echo''"

definition section_prefix :: string where
  "section_prefix = ''printf '' @ [quote1] @ ''%b'' @ [backslash] @ ''n'' @ [quote1] @ '' '' @ ANSI_CLEAR"

definition SectionStart :: "string \<Rightarrow> string \<Rightarrow> BashWriter \<Rightarrow> BashWriter option" where
  "SectionStart i command b =
     Line (section_prefix @ ''section_start:$(date +%s):section_'' @ i @ [CHR 0x0D] @ ANSI_CLEAR @
           escape b (ANSI_BOLD_GREEN @ command @ ANSI_RESET)) b"

definition SectionEnd :: "string \<Rightarrow> BashWriter \<Rightarrow> BashWriter option" where
  "SectionEnd i b =
     Line (section_prefix @ ''section_end:$(date +%s):section_'' @ i @ [CHR 0x0D] @ ANSI_CLEAR) b"

text \<open>\<open>trapScript\<close> is the constant \<open>bashJSONTerminationScript\<close>.\<close>

definition eval_prefix :: "BashWriter \<Rightarrow> string" where
  "eval_prefix b = (if useNewEval b then '': | (eval '' else '': | eval '')"

definition eval_suffix :: "BashWriter \<Rightarrow> string" where
  "eval_suffix b = (if useNewEval b then '')'' else []) @ [newline]"

definition bw_Finish :: "string \<Rightarrow> bool \<Rightarrow> BashWriter \<Rightarrow> string" where
  "bw_Finish trapScript trace b =
     (if Shell b \<noteq> [] then ''#!/usr/bin/env '' @ Shell b @ [newline, newline] else []) @
     (if useJSONTermination b then trapScript else []) @
     (if trace then ''set -o xtrace'' @ [newline] else []) @
     ''if set -o | grep pipefail > /dev/null; then set -o pipefail; fi; set -o errexit'' @ [newline] @
     ''set +o noclobber'' @ [newline] @
     eval_prefix b @ escape b (buf b) @ eval_suffix b @
     ''exit 0'' @ [newline]"

text \<open>\<open>GetConfiguration\<close> builds a command line for a login shell or another user; \<open>linux\<close> is whether the
  runner runs on Linux, \<open>detectScript\<close> the constant \<open>BashDetectShellScript\<close>, in which the arguments take the
  place of \<open>$@\<close>.\<close>

fun replace_args :: "string \<Rightarrow> string \<Rightarrow> string" where
  "replace_args new [] = []"
| "replace_args new [c] = [c]"
| "replace_args new (c # d # s) =
     (if c = CHR ''$'' \<and> d = CHR ''@'' then new @ replace_args new s else c # replace_args new (d # s))"

record ShellConfiguration =
  cfg_Command :: string
  cfg_DockerCommand :: "string list"
  cfg_CmdLine :: string
  cfg_Arguments :: "string list"

definition GetConfiguration :: "string \<Rightarrow> bool \<Rightarrow> bool \<Rightarrow> string \<Rightarrow> string \<Rightarrow> ShellConfiguration" where
  "GetConfiguration detectScript linux login user shell =
     (let script = \<lparr>cfg_Command = shell, cfg_DockerCommand = [], cfg_CmdLine = shell, cfg_Arguments = []\<rparr>;
          script =
            (if login then
               script\<lparr>cfg_CmdLine := cfg_CmdLine script @ '' -l'', cfg_Arguments := [''-l''],
                 cfg_DockerCommand := [''sh'', ''-c'', replace_args ''-l'' detectScript]\<rparr>
             else script\<lparr>cfg_DockerCommand := [''sh'', ''-c'', replace_args [] detectScript]\<rparr>)
      in if user = [] then script
         else
           let script = script\<lparr>cfg_Command := ''su'',
                 cfg_Arguments :=
                   (if linux then [''-s'', ''/bin/'' @ shell, user, ''-c'', cfg_CmdLine script]
                    else [user, ''-c'', cfg_CmdLine script])\<rparr>
           in script\<lparr>cfg_CmdLine :=
                foldl (\<lambda>line arg. line @ '' '' @ ShellEscape arg) (cfg_Command script) (cfg_Arguments script)\<rparr>)"

text \<open>A script: \<open>writeScript\<close> is the common part of all shells, which writes the commands of a stage.\<close>

definition ensurePrepareStageHostnameMessage ::
    "bool \<Rightarrow> string \<Rightarrow> BashWriter \<Rightarrow> BashWriter option" where
  "ensurePrepareStageHostnameMessage prepare hostname b =
     (if prepare then
        if hostname \<noteq> []
        then Line (''echo '' @ quoteGo b (''Running on $(hostname) via '' @ hostname @ ''...'')) b
        else Line (''echo '' @ quoteGo b ''Running on $(hostname)...'') b
      else Some b)"

definition generateScript ::
    "(BashWriter \<Rightarrow> (BashWriter \<times> string option) option) \<Rightarrow> string \<Rightarrow> bool \<Rightarrow> string \<Rightarrow> bool \<Rightarrow> BashWriter \<Rightarrow>
      (string \<times> string option) option" where
  "generateScript writeScript trapScript prepare hostname debugTrace b =
     do {
       b \<leftarrow> ensurePrepareStageHostnameMessage prepare hostname b;
       (b, err) \<leftarrow> writeScript b;
       Some (bw_Finish trapScript debugTrace b, err)
     }"

definition generateSaveScript :: "string \<Rightarrow> string \<Rightarrow> BashWriter \<Rightarrow> BashWriter option" where
  "generateSaveScript scriptPath script b =
     do {
       b \<leftarrow> Line (''touch '' @ scriptPath) b;
       b \<leftarrow> Line (''chmod 777 '' @ scriptPath) b;
       Line (''echo '' @ escape b script @ '' > '' @ scriptPath) b
     }"

section \<open>What the shell reads\<close>

text \<open>A quoted text is read as the text itself, whatever surrounds it.\<close>

definition quotes :: "string \<Rightarrow> string \<Rightarrow> bool" where
  "quotes q s \<longleftrightarrow> (\<forall>t cur. shell_lex (q @ t) cur = shell_lex t (grow cur s))"

lemma shell_lex_Nil [simp]: "shell_lex [] (Some w) = Some [w]"
  by (subst shell_lex.simps) simp

lemma join_reads:
  assumes "list_all2 quotes qs ws"
  shows "shell_words (join '' '' qs) = Some ws"
  unfolding shell_words_def using assms
proof (induction qs arbitrary: ws rule: induct_list012)
  case 1
  then show ?case by (subst shell_lex.simps) simp
next
  case (2 q)
  then obtain w where w: "ws = [w]" "quotes q w" by (auto simp: list_all2_Cons1)
  then have "shell_lex (q @ []) None = shell_lex [] (grow None w)" unfolding quotes_def by blast
  then show ?case by (simp add: w(1) grow_def)
next
  case (3 q q' qs)
  then obtain w ws' where w: "ws = w # ws'" "quotes q w" "list_all2 quotes (q' # qs) ws'"
    by (auto simp: list_all2_Cons1)
  have "shell_lex (q @ CHR '' '' # join '' '' (q' # qs)) None =
      shell_lex (CHR '' '' # join '' '' (q' # qs)) (grow None w)"
    using w(2) by (simp add: quotes_def)
  then show ?case using 3(2) [OF w(3)] by (simp add: w(1) grow_def shell_lex_space)
qed

text \<open>The texts the flags of the writer can quote.\<close>

definition quotable :: "BashWriter \<Rightarrow> string \<Rightarrow> bool" where
  "quotable b s \<longleftrightarrow> (if usePosixEscape b then list_all (\<lambda>c. \<not> posix_missing c) s else CHR 0x00 \<notin> set s)"

lemma ShellEscape_quotes: "CHR 0x00 \<notin> set s \<Longrightarrow> quotes (ShellEscape s) s"
  by (simp add: quotes_def ShellEscape_reads)

lemma escape_quotes: "quotable b s \<Longrightarrow> quotes (escape b s) s"
  by (simp add: quotes_def quotable_def escape_def PosixShellEscape_reads ShellEscape_reads ShellEscapeLegacy_reads
      split: if_splits)

lemma escapeNoLegacy_quotes: "quotable b s \<Longrightarrow> quotes (escapeNoLegacy b s) s"
  by (simp add: quotes_def quotable_def escapeNoLegacy_def PosixShellEscape_reads ShellEscape_reads
      split: if_splits)

lemma quotes_plain: "list_all (\<lambda>c. \<not> special c) s \<Longrightarrow> s \<noteq> [] \<Longrightarrow> quotes s s"
  by (simp add: quotes_def shell_lex_plain)

lemma foldl_join:
  "foldl (\<lambda>line arg. line @ '' '' @ f arg) l args = join '' '' (l # map f args)"
proof (induction args arbitrary: l)
  case (Cons a args)
  have "join '' '' ((l @ '' '' @ f a) # map f args) = l @ '' '' @ join '' '' (f a # map f args)"
    by (cases args) simp_all
  with Cons show ?case by simp
qed simp

section \<open>Properties\<close>


definition demo_bash :: "bool \<Rightarrow> BashWriter" where
  "demo_bash posix = \<lparr>buf = [], TemporaryPath = ''/tmp'', Shell = ''bash'', indent = 0, checkForErrors = False,
     useNewEval = False, useNewEscape = False, usePosixEscape = posix, useJSONTermination = False,
     quoteGo = id, pathJoin = concat\<rparr>"


text \<open>The POSIX escaping leaves some special characters unquoted. A command separator between characters
  that need no quotes is passed through, so that the shell does not read one word: what follows the
  semicolon is another command.\<close>

theorem posix_separator_unquoted:
  assumes "usePosixEscape b" "list_all (\<lambda>c. posixModeTable c = NoMode \<and> \<not> special c) (pre @ post)"
  shows "escapeNoLegacy b (pre @ '';'' @ post) = pre @ '';'' @ post \<and>
    shell_words (escapeNoLegacy b (pre @ '';'' @ post)) = None"
proof -
  let ?s = "pre @ '';'' @ post"
  have "posixModeTable (CHR '';'') = NoMode" by (simp add: posixModeTable_def)
  then have "posixModeTable c = NoMode" if "c \<in> set ?s" for c
    using that assms(2) by (auto simp: list_all_iff)
  then have "\<not> snd (posix_escape_char c)" if "c \<in> set ?s" for c
    using that by (simp add: posix_escape_char_def)
  then have esc: "escapeNoLegacy b ?s = ?s"
    using assms(1) posix_literals [of ?s]
    by (simp add: escapeNoLegacy_def PosixShellEscape_def escape_loop_eq list_ex_iff)
  have stop: "shell_lex ('';'' @ post) cur = None" for cur
    by (subst shell_lex.simps) (simp add: special_def)
  have "shell_words ?s = None"
  proof (cases "pre = []")
    case False
    then show ?thesis
      unfolding shell_words_def using assms(2) shell_lex_plain [of pre "'';'' @ post" None] stop
      by (simp add: list_all_iff)
  qed (use stop in \<open>simp add: shell_words_def\<close>)
  with esc show ?thesis by simp
qed

theorem posix_separator_unquoted_witness:
  "escapeNoLegacy (demo_bash True) ''x;reboot'' = ''x;reboot'' \<and>
   shell_words (escapeNoLegacy (demo_bash True) ''x;reboot'') = None"
proof -
  have "usePosixEscape (demo_bash True)" by (simp add: demo_bash_def)
  moreover have "list_all (\<lambda>c. posixModeTable c = NoMode \<and> \<not> special c) (''x'' @ ''reboot'')"
    by (simp add: posixModeTable_def special_def)
  ultimately have "escapeNoLegacy (demo_bash True) (''x'' @ '';'' @ ''reboot'') = ''x'' @ '';'' @ ''reboot'' \<and>
      shell_words (escapeNoLegacy (demo_bash True) (''x'' @ '';'' @ ''reboot'')) = None"
    by (rule posix_separator_unquoted)
  then show ?thesis unfolding append_Cons append_Nil .
qed

text \<open>The script is evaluated as it was written: the word after \<open>eval\<close> in the finished script reads as the
  text collected by the writer, newlines included.\<close>

theorem finish_evaluates_script:
  assumes "quotable b (buf b)"
  shows "\<exists>pre q. bw_Finish trapScript trace b = pre @ eval_prefix b @ q @ eval_suffix b @ ''exit 0'' @ [newline] \<and>
    shell_words q = Some [buf b]"
proof -
  have "quotes (escape b (buf b)) (buf b)" by (rule escape_quotes [OF assms])
  then have "shell_words (join '' '' [escape b (buf b)]) = Some [buf b]" by (intro join_reads) simp
  then have "shell_words (escape b (buf b)) = Some [buf b]" by simp
  then show ?thesis unfolding bw_Finish_def by (metis append_assoc)
qed

theorem finish_evaluates_script_witness:
  "\<exists>pre q. bw_Finish [] True ((demo_bash False)\<lparr>buf := ''cd $HOME'' @ [newline]\<rparr>) = pre @ '': | eval '' @ q @ [newline] @ ''exit 0'' @ [newline] \<and>
    shell_words q = Some [''cd $HOME'' @ [newline]]"
  using finish_evaluates_script [of "(demo_bash False)\<lparr>buf := ''cd $HOME'' @ [newline]\<rparr>" "[]" True]
  by (simp add: demo_bash_def quotable_def eval_prefix_def eval_suffix_def)

end
