(* ===== verification/LimitWriter.thy ===== *)
theory LimitWriter
  imports LogWriter BashWriter
begin

text \<open>
  The limit of a job log, \<open>limitWriter\<close> in \<open>helpers/trace/buffer.go\<close> of gitlab-runner: it truncates the log at the
  limit without breaking a UTF-8 character and appends a message, once. The package \<open>unicode/utf8\<close> is modelled as
  far as the truncation uses it.
\<close>

section \<open>UTF-8\<close>

text \<open>A byte as a number, and the length of the character a text starts with, as \<open>utf8.DecodeRune\<close> accepts it: the
  first byte determines the length and the range of the second byte.\<close>

definition byte :: "char \<Rightarrow> nat" where
  "byte c = of_char c"

definition cont :: "char \<Rightarrow> bool" where
  "cont c \<longleftrightarrow> 0x80 \<le> byte c \<and> byte c \<le> 0xBF"

definition rune_length :: "char \<Rightarrow> nat" where
  "rune_length c =
     (let b = byte c
      in if b < 0x80 then 1 else if b < 0xC2 then 0 else if b < 0xE0 then 2 else if b < 0xF0 then 3
         else if b < 0xF5 then 4 else 0)"

definition accept_second :: "char \<Rightarrow> char \<Rightarrow> bool" where
  "accept_second c d \<longleftrightarrow>
     (let b = byte c
      in (if b = 0xE0 then 0xA0 else if b = 0xF0 then 0x90 else 0x80) \<le> byte d \<and>
         byte d \<le> (if b = 0xED then 0x9F else if b = 0xF4 then 0x8F else 0xBF))"

definition is_rune :: "bytes \<Rightarrow> bool" where
  "is_rune r \<longleftrightarrow> r \<noteq> [] \<and> length r = rune_length (hd r) \<and> list_all cont (tl r) \<and>
     (length r > 1 \<longrightarrow> accept_second (hd r) (r ! 1))"

text \<open>The number of bytes \<open>utf8.DecodeRune\<close> consumes, and whether they are a character. The encoding of the
  replacement character is a character.\<close>

definition DecodeRune :: "bytes \<Rightarrow> bool \<times> nat" where
  "DecodeRune p =
     (if p = [] then (False, 0)
      else let n = rune_length (hd p)
           in if n \<le> length p \<and> is_rune (take n p) then (True, n) else (False, 1))"

definition RuneStart :: "char \<Rightarrow> bool" where
  "RuneStart c \<longleftrightarrow> \<not> cont c"

text \<open>\<open>utf8.DecodeLastRune\<close>: it looks for the start of the last character in at most four bytes. The number is
  the distance of the start from the end.\<close>

fun rune_start_back :: "bytes \<Rightarrow> nat \<Rightarrow> nat \<Rightarrow> nat" where
  "rune_start_back rest k 0 = (if rest = [] then k - 1 else k)"
| "rune_start_back [] k (Suc fuel) = k - 1"
| "rune_start_back (c # rest) k (Suc fuel) = (if RuneStart c then k else rune_start_back rest (k + 1) fuel)"

definition DecodeLastRune :: "bytes \<Rightarrow> bool \<times> nat" where
  "DecodeLastRune p =
     (if p = [] then (False, 0)
      else if byte (last p) < 0x80 then (True, 1)
      else
        (let k = rune_start_back (tl (rev p)) 2 3;
             (ok, sz) = DecodeRune (drop (length p - k) p)
         in if sz \<noteq> k then (False, 1) else (ok, sz)))"

section \<open>The limit\<close>

fun truncate_loop :: "bytes \<Rightarrow> nat \<Rightarrow> nat \<Rightarrow> nat" where
  "truncate_loop p capacity 0 = capacity"
| "truncate_loop p capacity (Suc i) =
     (case DecodeLastRune (take capacity p) of
        (ok, sz) \<Rightarrow> if \<not> ok \<and> sz = 1 then truncate_loop p (capacity - 1) i else capacity)"

definition truncateSafeUTF8 :: "bytes \<Rightarrow> nat \<Rightarrow> bytes" where
  "truncateSafeUTF8 p capacity = take (truncate_loop p capacity 4) p"

record 'f limitWriter =
  lw_w :: 'f
  written :: int
  lw_limit :: int

definition limit_message :: "int \<Rightarrow> bytes" where
  "limit_message L =
     newline # ANSI_BOLD_YELLOW @ ''Job'' @ [quote1] @ ''s log exceeded limit of '' @
     (if L < 0 then CHR ''-'' # decstr (nat (- L)) else decstr (nat L)) @ '' bytes.'' @ [newline] @
     ''Job execution will continue but no more output will be collected.'' @ ANSI_RESET @ [newline]"

definition writeLimitExceededMessage :: "'f write_fn \<Rightarrow> 'f limitWriter \<Rightarrow> 'f limitWriter" where
  "writeLimitExceededMessage wr w =
     (case wr (lw_w w) (limit_message (lw_limit w)) of
        (st, n, _) \<Rightarrow> w\<lparr>lw_w := st, written := written w + int n\<rparr>)"

definition limit_Write :: "'f write_fn \<Rightarrow> 'f limitWriter write_fn" where
  "limit_Write wr w p =
     (let capacity = lw_limit w - written w
      in if capacity \<le> 0 then (w, 0, Some LogLimitExceeded)
         else if int (length p) \<ge> capacity then
           (case wr (lw_w w) (truncateSafeUTF8 p (nat capacity)) of
              (st, n, err) \<Rightarrow>
                (writeLimitExceededMessage wr (w\<lparr>lw_w := st, written := written w + int n\<rparr>), n,
                 case err of None \<Rightarrow> Some LogLimitExceeded | Some e \<Rightarrow> Some e))
         else
           (case wr (lw_w w) p of
              (st, n, err) \<Rightarrow> (w\<lparr>lw_w := st, written := written w + int n\<rparr>, n, err)))"

section \<open>Lemmas on characters\<close>

text \<open>A text of complete characters.\<close>

definition valid_utf8 :: "bytes \<Rightarrow> bool" where
  "valid_utf8 p \<longleftrightarrow> (\<exists>rs. list_all is_rune rs \<and> p = concat rs)"

lemma rune_length_le: "rune_length c \<le> 4"
  by (simp add: rune_length_def Let_def)

lemma rune_head: "is_rune r \<Longrightarrow> \<not> cont (hd r)"
  by (cases r) (auto simp: is_rune_def rune_length_def cont_def Let_def split: if_splits)

lemma rune_cases:
  assumes "is_rune r"
  obtains c cs where "r = c # cs" "\<not> cont c" "list_all cont cs" "length cs \<le> 3" "rune_length c = Suc (length cs)"
proof (cases r)
  case (Cons c cs)
  then show thesis
    using assms rune_head [OF assms] rune_length_le [of c] by (intro that) (auto simp: is_rune_def)
qed (use assms in \<open>simp add: is_rune_def\<close>)

lemma rune_byte: "rune_length c = Suc 0 \<longleftrightarrow> byte c < 0x80"
  by (simp add: rune_length_def Let_def)

lemma cont_byte: "cont c \<Longrightarrow> \<not> byte c < 0x80"
  by (simp add: cont_def)

lemma rune_start_back_conts:
  "list_all cont cs \<Longrightarrow> \<not> cont d \<Longrightarrow> length cs \<le> fuel \<Longrightarrow> rune_start_back (cs @ d # rest) k fuel = k + length cs"
proof (induction cs arbitrary: k fuel)
  case Nil
  then show ?case by (cases fuel) (simp_all add: RuneStart_def)
next
  case (Cons c cs)
  then show ?case by (cases fuel) (simp_all add: RuneStart_def)
qed

lemma DecodeRune_rune: "is_rune r \<Longrightarrow> DecodeRune (r @ s) = (True, length r)"
proof -
  assume r: "is_rune r"
  then have "r \<noteq> []" "rune_length (hd r) = length r" by (auto simp: is_rune_def)
  then show ?thesis using r by (simp add: DecodeRune_def Let_def)
qed

lemma DecodeRune_partial: "c # cs \<noteq> [] \<Longrightarrow> length (c # cs) < rune_length c \<Longrightarrow> DecodeRune (c # cs) = (False, 1)"
  by (simp add: DecodeRune_def Let_def)

text \<open>A text that ends with a first byte and continuation bytes: the last character is looked for at that byte.\<close>

lemma DecodeLastRune_tail:
  assumes "\<not> cont c" "list_all cont cs" "cs \<noteq> []" "length cs \<le> 3"
  shows "DecodeLastRune (f @ c # cs) =
    (case DecodeRune (c # cs) of (ok, n) \<Rightarrow> if n \<noteq> Suc (length cs) then (False, 1) else (ok, n))"
proof -
  obtain d ds where cs: "rev cs = d # ds" using assms(3) by (cases "rev cs") auto
  have d: "last (f @ c # cs) = d" "cont d" "list_all cont ds" "length ds + 1 = length cs"
  proof -
    have "last cs = d" using cs by (metis last_rev list.sel(1) rev_rev_ident hd_rev)
    then show "last (f @ c # cs) = d" using assms(3) by simp
    have "list_all cont (rev cs)" using assms(2) by (simp add: list_all_iff)
    then show "cont d" "list_all cont ds" unfolding cs by simp_all
    show "length ds + 1 = length cs" using cs by (metis Suc_eq_plus1 length_Cons length_rev)
  qed
  have "tl (rev (f @ c # cs)) = ds @ c # rev f" by (simp add: cs)
  then have "rune_start_back (tl (rev (f @ c # cs))) 2 3 = Suc (length cs)"
    using rune_start_back_conts [OF d(3) assms(1), of 3 "rev f" 2] assms(4) d(4) by simp
  then show ?thesis
    unfolding DecodeLastRune_def using d(1) cont_byte [OF d(2)] by (simp add: Let_def)
qed

lemma DecodeLastRune_complete:
  assumes "is_rune r"
  shows "DecodeLastRune (f @ r) = (True, length r)"
proof -
  obtain c cs where r: "r = c # cs" "\<not> cont c" "list_all cont cs" "length cs \<le> 3" "rune_length c = Suc (length cs)"
    using rune_cases [OF assms] by blast
  show ?thesis
  proof (cases "cs = []")
    case True
    then show ?thesis using r rune_byte [of c] by (simp add: DecodeLastRune_def)
  next
    case False
    then show ?thesis
      using DecodeLastRune_tail [OF r(2,3) False r(4), of f] DecodeRune_rune [OF assms, of "[]"] r(1) by simp
  qed
qed

text \<open>A text that breaks off inside a character.\<close>

lemma DecodeLastRune_partial:
  assumes "list_all is_rune rs" "is_rune r" "prefix q r" "q \<noteq> r" "q \<noteq> []"
  shows "DecodeLastRune (concat rs @ q) = (False, 1)"
proof -
  obtain c cs where r: "r = c # cs" "\<not> cont c" "list_all cont cs" "length cs \<le> 3" "rune_length c = Suc (length cs)"
    using rune_cases [OF assms(2)] by blast
  obtain qs where q: "q = c # qs" "prefix qs cs" "qs \<noteq> cs" using assms(3-5) r(1) by (cases q) auto
  have qs: "list_all cont qs" "length qs < length cs"
    using q(2,3) r(3) by (auto simp: prefix_def list_all_iff)
  have part: "DecodeRune (c # qs) = (False, 1)" using qs(2) r(5) by (intro DecodeRune_partial) auto
  show ?thesis
  proof (cases "qs = []")
    case False
    then show ?thesis
      using DecodeLastRune_tail [OF r(2) qs(1) False, of "concat rs"] qs(2) r(4) part q(1) by simp
  next
    case True
    have nb: "\<not> byte c < 0x80" using rune_byte [of c] r(5) qs(2) by auto
    show ?thesis
    proof (cases rs rule: rev_cases)
      case Nil
      then show ?thesis using q(1) True nb part by (simp add: DecodeLastRune_def numeral_3_eq_3)
    next
      case (snoc rs' r')
      obtain d ds where r': "r' = d # ds" "\<not> cont d" "list_all cont ds" "length ds \<le> 3" "rune_length d = Suc (length ds)"
        using rune_cases [of r'] assms(1) snoc by auto
      have "tl (rev (concat rs @ q)) = rev ds @ d # rev (concat rs')" using q(1) True snoc r'(1) by simp
      moreover have "list_all cont (rev ds)" using r'(3) by (simp add: list_all_iff)
      ultimately have k: "rune_start_back (tl (rev (concat rs @ q))) 2 3 = Suc (length r')"
        using rune_start_back_conts [of "rev ds" d 3 "rev (concat rs')" 2] r' by simp
      have "drop (length (concat rs @ q) - Suc (length r')) (concat rs @ q) = r' @ [c]"
        using snoc q(1) True by simp
      moreover have "DecodeRune (r' @ [c]) = (True, length r')"
        by (rule DecodeRune_rune) (use assms(1) snoc in simp)
      ultimately show ?thesis
        using k nb q(1) True by (simp add: DecodeLastRune_def Let_def)
    qed
  qed
qed

section \<open>Truncation\<close>

lemma truncate_loop_bounds: "truncate_loop p capacity i \<le> capacity \<and> capacity \<le> truncate_loop p capacity i + i"
proof (induction i arbitrary: capacity)
  case (Suc i)
  show ?case using Suc [of "capacity - 1"] by (auto split: prod.splits)
qed simp

text \<open>Where a valid text is cut: complete characters and a part of the next one.\<close>

lemma valid_cut:
  assumes "list_all is_rune rs"
  shows "\<exists>rs' q r. take n (concat rs) = concat rs' @ q \<and> list_all is_rune rs' \<and> (q = [] \<or> is_rune r \<and> prefix q r \<and> q \<noteq> r)"
  using assms
proof (induction rs arbitrary: n)
  case Nil
  show ?case by (rule exI [of _ "[]"]) simp
next
  case (Cons r rs)
  show ?case
  proof (cases "length r \<le> n")
    case True
    obtain rs' q r' where "take (n - length r) (concat rs) = concat rs' @ q" "list_all is_rune rs'"
        "q = [] \<or> is_rune r' \<and> prefix q r' \<and> q \<noteq> r'"
      using Cons by fastforce
    then show ?thesis using True Cons.prems by (intro exI [of _ "r # rs'"] exI [of _ q] exI [of _ r']) simp
  next
    case False
    then have "take n (concat (r # rs)) = take n r" "prefix (take n r) r" "take n r \<noteq> r"
      using take_is_prefix [of n r] by (auto dest: arg_cong [where f = length])
    then show ?thesis using Cons.prems by (intro exI [of _ "[]"] exI [of _ "take n r"] exI [of _ r]) simp
  qed
qed

lemma truncate_loop_valid:
  assumes "list_all is_rune rs" "take n p = concat rs @ q" "n \<le> length p" "q = [] \<or> is_rune r \<and> prefix q r \<and> q \<noteq> r"
    "length q \<le> i"
  shows "truncate_loop p n i = n - length q"
  using assms(2-5)
proof (induction i arbitrary: n q)
  case (Suc i)
  show ?case
  proof (cases "q = []")
    case True
    have "fst (DecodeLastRune (concat rs)) \<or> snd (DecodeLastRune (concat rs)) = 0"
    proof (cases rs rule: rev_cases)
      case (snoc rs' r')
      then show ?thesis using DecodeLastRune_complete [of r' "concat rs'"] assms(1) by simp
    qed (simp add: DecodeLastRune_def)
    then show ?thesis using Suc.prems(1) True by (auto split: prod.splits)
  next
    case False
    have len: "length (concat rs) + length q = n" using Suc.prems(1,2) by (metis length_append length_take min.absorb2)
    have "n - 1 = length (concat rs) + (length q - 1)" using len False by (cases q) auto
    then have n: "take (n - 1) (concat rs @ q) = concat rs @ butlast q" by (simp only: take_append butlast_conv_take) simp
    have "take (n - 1) p = take (n - 1) (take n p)" by simp
    also have "\<dots> = concat rs @ butlast q" unfolding Suc.prems(1) by (rule n)
    finally have "take (n - 1) p = concat rs @ butlast q" .
    moreover have "butlast q = [] \<or> is_rune r \<and> prefix (butlast q) r \<and> butlast q \<noteq> r"
    proof -
      have "length (butlast q) < length q" using False by (cases q) auto
      then have "butlast q \<noteq> r" if "prefix q r" using prefix_length_le [OF that] by auto
      then show ?thesis using Suc.prems(3) False by (auto intro: prefix_order.trans [OF prefixeq_butlast])
    qed
    ultimately have "truncate_loop p (n - 1) i = n - 1 - length (butlast q)"
      using Suc.IH [of "n - 1" "butlast q"] Suc.prems(2,4) by simp
    moreover have "DecodeLastRune (take n p) = (False, 1)"
      unfolding Suc.prems(1) using DecodeLastRune_partial [OF assms(1)] Suc.prems(3) False by blast
    ultimately show ?thesis using False len by (simp add: length_butlast)
  qed
qed simp

lemma truncate_valid:
  assumes "valid_utf8 p" "n \<le> length p"
  shows "valid_utf8 (truncateSafeUTF8 p n)"
proof -
  obtain rs where rs: "list_all is_rune rs" "p = concat rs" using assms(1) by (auto simp: valid_utf8_def)
  obtain rs' q r where cut: "take n p = concat rs' @ q" "list_all is_rune rs'"
      "q = [] \<or> is_rune r \<and> prefix q r \<and> q \<noteq> r"
    using valid_cut [OF rs(1), of n] rs(2) by auto
  have "length q \<le> 4"
    using cut(3) rune_length_le [of "hd r"] by (auto simp: is_rune_def dest: prefix_length_le)
  then have "truncate_loop p n 4 = n - length q" by (rule truncate_loop_valid [OF cut(2,1) assms(2) cut(3)])
  moreover have "length (concat rs') + length q = n" using cut(1) assms(2) by (metis length_append length_take min.absorb2)
  moreover from this have "n - length q = length (concat rs')" by linarith
  ultimately have "truncateSafeUTF8 p n = take (length (concat rs')) (take n p)"
    unfolding truncateSafeUTF8_def by (simp only: take_take) simp
  then have "truncateSafeUTF8 p n = concat rs'" by (simp add: cut(1))
  then show ?thesis using cut(2) by (auto simp: valid_utf8_def)
qed

section \<open>The log\<close>

text \<open>The log after a sequence of writes to a file that accepts them.\<close>

definition limited_log :: "int \<Rightarrow> bytes list \<Rightarrow> bytes" where
  "limited_log L ps = lw_w (foldl (\<lambda>w p. fst (limit_Write collect w p)) \<lparr>lw_w = [], written = 0, lw_limit = L\<rparr> ps)"

lemma valid_utf8_append: "valid_utf8 p \<Longrightarrow> valid_utf8 q \<Longrightarrow> valid_utf8 (p @ q)"
  unfolding valid_utf8_def by (metis concat_append list_all_append)

lemma limit_message_length: "5 \<le> length (limit_message L)"
  by (simp add: limit_message_def)

text \<open>Once the limit is reached nothing is written.\<close>

lemma limit_closed: "lw_limit w \<le> written w \<Longrightarrow> foldl (\<lambda>w p. fst (limit_Write wr w p)) w ps = w"
  by (induction ps) (simp_all add: limit_Write_def)

lemma limit_reached:
  assumes "int (length t) < L" "L \<le> int (length t) + int (length p)"
  obtains k where "L - 4 \<le> int k" "int k \<le> L" "length t \<le> k"
    "limit_Write collect \<lparr>lw_w = t, written = int (length t), lw_limit = L\<rparr> p =
       (\<lparr>lw_w = take k (t @ p) @ limit_message L, written = int k + int (length (limit_message L)), lw_limit = L\<rparr>,
        k - length t, Some LogLimitExceeded)"
    "valid_utf8 p \<Longrightarrow> valid_utf8 (take (k - length t) p)"
proof -
  define n where "n = nat (L - int (length t))"
  define m where "m = truncate_loop p n 4"
  have n: "0 < n" "n \<le> length p" "int n = L - int (length t)" using assms by (auto simp: n_def)
  have m: "m \<le> n" "n \<le> m + 4" using truncate_loop_bounds [of p n 4] by (auto simp: m_def)
  have p: "truncateSafeUTF8 p n = take m p" by (simp add: truncateSafeUTF8_def m_def)
  have v: "valid_utf8 p \<Longrightarrow> valid_utf8 (take m p)" using truncate_valid [OF _ n(2)] p by simp
  show thesis
    by (rule that [of "length t + m"])
      (use assms n m p v in \<open>simp_all add: limit_Write_def collect_def writeLimitExceededMessage_def Let_def n_def [symmetric]\<close>)
qed

lemma limited_writes:
  assumes "int (length t) < L" "w = \<lparr>lw_w = t, written = int (length t), lw_limit = L\<rparr>"
    "out = lw_w (foldl (\<lambda>w p. fst (limit_Write collect w p)) w ps)"
  shows "if int (length (t @ concat ps)) < L then out = t @ concat ps
    else \<exists>k. L - 4 \<le> int k \<and> int k \<le> L \<and> out = take k (t @ concat ps) @ limit_message L \<and>
      (valid_utf8 t \<and> list_all valid_utf8 ps \<longrightarrow> valid_utf8 (take k (t @ concat ps)))"
  using assms
proof (induction ps arbitrary: t w)
  case (Cons p ps)
  show ?case
  proof (cases "int (length (t @ p)) < L")
    case True
    then have "limit_Write collect w p = (\<lparr>lw_w = t @ p, written = int (length (t @ p)), lw_limit = L\<rparr>, length p, None)"
      by (simp add: Cons.prems(2) limit_Write_def collect_def)
    then have "if int (length ((t @ p) @ concat ps)) < L then out = (t @ p) @ concat ps
      else \<exists>k. L - 4 \<le> int k \<and> int k \<le> L \<and> out = take k ((t @ p) @ concat ps) @ limit_message L \<and>
        (valid_utf8 (t @ p) \<and> list_all valid_utf8 ps \<longrightarrow> valid_utf8 (take k ((t @ p) @ concat ps)))"
      using Cons.IH [OF True refl] Cons.prems(3) by simp
    then show ?thesis using valid_utf8_append [of t p] by (auto split: if_splits)
  next
    case False
    obtain k where k: "L - 4 \<le> int k" "int k \<le> L" "length t \<le> k"
      "limit_Write collect w p =
       (\<lparr>lw_w = take k (t @ p) @ limit_message L, written = int k + int (length (limit_message L)), lw_limit = L\<rparr>,
        k - length t, Some LogLimitExceeded)"
      "valid_utf8 p \<Longrightarrow> valid_utf8 (take (k - length t) p)"
    proof (rule limit_reached [OF Cons.prems(1), of p])
      show "L \<le> int (length t) + int (length p)" using False by simp
    qed (simp add: Cons.prems(2))
    have kp: "k \<le> length (t @ p)" using k(2) False by simp
    have "out = take k (t @ p) @ limit_message L"
      unfolding Cons.prems(3) using k(1,4) limit_message_length [of L] by (simp add: limit_closed)
    moreover have "take k (t @ concat (p # ps)) = take k (t @ p)" "take k (t @ p) = t @ take (k - length t) p"
      using kp k(3) by simp_all
    ultimately show ?thesis
      using k(1,2,5) False valid_utf8_append [of t "take (k - length t) p"] by (auto intro!: exI [of _ k])
  qed
qed auto

text \<open>C27: The limit of the log. A log below the limit is what was written. Otherwise it is cut at the limit, at most
  four bytes before it, and one message follows, after which nothing is written any more; texts of complete
  characters are not cut inside a character.\<close>

theorem log_limited:
  assumes "0 < L"
  shows "if int (length (concat ps)) < L then limited_log L ps = concat ps
    else \<exists>k. L - 4 \<le> int k \<and> int k \<le> L \<and> limited_log L ps = take k (concat ps) @ limit_message L \<and>
      (list_all valid_utf8 ps \<longrightarrow> valid_utf8 (take k (concat ps)))"
proof -
  have "valid_utf8 []" unfolding valid_utf8_def by (rule exI [of _ "[]"]) simp
  moreover have "if int (length ([] @ concat ps)) < L then limited_log L ps = [] @ concat ps
    else \<exists>k. L - 4 \<le> int k \<and> int k \<le> L \<and> limited_log L ps = take k ([] @ concat ps) @ limit_message L \<and>
      (valid_utf8 [] \<and> list_all valid_utf8 ps \<longrightarrow> valid_utf8 (take k ([] @ concat ps)))"
    by (rule limited_writes [OF _ refl]) (simp_all add: assms limited_log_def)
  ultimately show ?thesis by (cases "int (length (concat ps)) < L") simp_all
qed

theorem log_limited_witness:
  "limited_log 100 [''some '', ''output''] = ''some output'' \<and>
   (\<exists>k. k \<le> 4 \<and> limited_log 4 [''some '', ''output''] = take k ''some output'' @ limit_message 4)"
  using log_limited [of 100 "[''some '', ''output'']"] log_limited [of 4 "[''some '', ''output'']"] by auto

end
