(* ===== verification/TraceBuffer.thy ===== *)
theory TraceBuffer
  imports Masker UrlSanitizer LimitWriter
begin

text \<open>
  The log of a job on disk, \<open>helpers/trace/buffer.go\<close> of gitlab-runner: the buffer that stacks the sanitizers on top
  of the writer that enforces the limit. The file with its buffered writer and its checksum is the writer below, and
  the conversion to UTF-8 is a parameter.
\<close>

section \<open>The buffer\<close>

text \<open>The writers of the buffer, from the sanitizer of URLs, if it is used, down to the limit. \<open>'t\<close> is the state of
  the conversion to UTF-8 and \<open>'f\<close> the log file with its buffered writer.\<close>

type_synonym ('t, 'f) base = "'t \<times> 'f limitWriter"

datatype ('t, 'f) chain =
    WithURL "('t, 'f) base Masker TokenSanitizer URLSanitizer"
  | WithoutURL "('t, 'f) base Masker TokenSanitizer"

record ('t, 'f) buffer_env =
  tr_New :: 't
  tr_Write :: "'f limitWriter write_fn \<Rightarrow> ('t, 'f) base write_fn"
  tr_Close :: "'f limitWriter write_fn \<Rightarrow> ('t, 'f) base close_fn"
  file_Write :: "'f write_fn"
  file_Flush :: "'f \<Rightarrow> 'f \<times> write_error option"
  file_ReadAt :: "'f \<Rightarrow> nat \<Rightarrow> nat \<Rightarrow> bytes \<times> write_error option"

record ('t, 'f) Buffer =
  buf_w :: "('t, 'f) chain"
  urlParamMasking :: bool
  failedFlush :: bool

definition masker_env_Write :: "('t, 'f) buffer_env \<Rightarrow> ('t, 'f) base Masker write_fn" where
  "masker_env_Write env = Masker_Write (tr_Write env (limit_Write (file_Write env)))"

definition masker_env_Close :: "('t, 'f) buffer_env \<Rightarrow> ('t, 'f) base Masker close_fn" where
  "masker_env_Close env =
     Masker_Close (tr_Write env (limit_Write (file_Write env))) (tr_Close env (limit_Write (file_Write env)))"

definition chain_Write :: "('t, 'f) buffer_env \<Rightarrow> ('t, 'f) chain write_fn" where
  "chain_Write env ch p =
     (let w = TokenSanitizer_Write (masker_env_Write env)
      in case ch of
           WithURL u \<Rightarrow> (case URL_Write w u p of (u, n, err) \<Rightarrow> (WithURL u, n, err))
         | WithoutURL ts \<Rightarrow> (case w ts p of (ts, n, err) \<Rightarrow> (WithoutURL ts, n, err)))"

definition chain_Close :: "('t, 'f) buffer_env \<Rightarrow> ('t, 'f) chain close_fn" where
  "chain_Close env ch =
     (let w = TokenSanitizer_Write (masker_env_Write env);
          c = TokenSanitizer_Close (masker_env_Write env) (masker_env_Close env)
      in case ch of
           WithURL u \<Rightarrow> (case URL_Close w c u of (u, err) \<Rightarrow> (WithURL u, err))
         | WithoutURL ts \<Rightarrow> (case c ts of (ts, err) \<Rightarrow> (WithoutURL ts, err)))"

text \<open>The limiting writer at the bottom, which \<open>Buffer.lw\<close> refers to.\<close>

definition chain_token :: "('t, 'f) chain \<Rightarrow> ('t, 'f) base Masker TokenSanitizer" where
  "chain_token ch = (case ch of WithURL u \<Rightarrow> url_w u | WithoutURL ts \<Rightarrow> ts)"

definition buffer_lw :: "('t, 'f) Buffer \<Rightarrow> 'f limitWriter" where
  "buffer_lw b = snd (snd (stack (snd (stack (chain_token (buf_w b))))))"

definition map_lw :: "('f limitWriter \<Rightarrow> 'f limitWriter) \<Rightarrow> ('t, 'f) Buffer \<Rightarrow> ('t, 'f) Buffer" where
  "map_lw f b =
     (let upd = (\<lambda>ts. ts\<lparr>stack := (fst (stack ts), (snd (stack ts))\<lparr>stack :=
             (fst (stack (snd (stack ts))), fst (snd (stack (snd (stack ts)))), f (snd (snd (stack (snd (stack ts))))))\<rparr>)\<rparr>)
      in b\<lparr>buf_w :=
             (case buf_w b of
                WithURL u \<Rightarrow> WithURL (u\<lparr>url_w := upd (url_w u)\<rparr>)
              | WithoutURL ts \<Rightarrow> WithoutURL (upd ts))\<rparr>)"

text \<open>A new chain of writers; \<open>phrases\<close> and \<open>prefixes\<close> are sorted, and \<open>keys\<close> is one order of the keys.\<close>

definition new_chain ::
    "('t, 'f) buffer_env \<Rightarrow> string list \<Rightarrow> string list \<Rightarrow> string list \<Rightarrow> bool \<Rightarrow> 'f limitWriter \<Rightarrow> ('t, 'f) chain" where
  "new_chain env keys phrases token_prefixes url lw =
     (let ts = NewTokenSanitizer (New (tr_New env, lw) phrases) token_prefixes
      in if url then WithURL (NewURLSanitizer keys ts) else WithoutURL ts)"

definition SetMasked ::
    "('t, 'f) buffer_env \<Rightarrow> string list \<Rightarrow> string list \<Rightarrow> string list \<Rightarrow> ('t, 'f) Buffer \<Rightarrow> ('t, 'f) Buffer" where
  "SetMasked env keys phrases token_prefixes b =
     (let b = b\<lparr>buf_w := fst (chain_Close env (buf_w b))\<rparr>
      in b\<lparr>buf_w := new_chain env keys phrases token_prefixes (urlParamMasking b) (buffer_lw b)\<rparr>)"

definition SetLimit :: "int \<Rightarrow> ('t, 'f) Buffer \<Rightarrow> ('t, 'f) Buffer" where
  "SetLimit sz b = map_lw (\<lambda>lw. lw\<lparr>lw_limit := sz\<rparr>) b"

definition Buffer_Size :: "('t, 'f) Buffer \<Rightarrow> int" where
  "Buffer_Size b = written (buffer_lw b)"

text \<open>\<open>Bytes\<close>: the outer option is a panic.\<close>

definition Buffer_Bytes ::
    "('t, 'f) buffer_env \<Rightarrow> int \<Rightarrow> int \<Rightarrow> ('t, 'f) Buffer \<Rightarrow> (('t, 'f) Buffer \<times> (write_error + bytes)) option" where
  "Buffer_Bytes env offset n b =
     (case file_Flush env (lw_w (buffer_lw b)) of
        (f, Some err) \<Rightarrow> Some ((map_lw (\<lambda>lw. lw\<lparr>lw_w := f\<rparr>) b)\<lparr>failedFlush := True\<rparr>, Inl err)
      | (f, None) \<Rightarrow>
          (let b = map_lw (\<lambda>lw. lw\<lparr>lw_w := f\<rparr>) b;
               sz = written (buffer_lw b) - offset;
               n = (if n > sz then sz else n)
           in if n < 0 then None
              else if offset < 0 then Some (b, Inl (WriteError ''negative offset''))
              else case file_ReadAt env f (nat offset) (nat n) of
                     (content, None) \<Rightarrow> Some (b, Inr content)
                   | (content, Some err) \<Rightarrow> Some (b, Inl err)))"

definition Buffer_Write :: "('t, 'f) buffer_env \<Rightarrow> ('t, 'f) Buffer write_fn" where
  "Buffer_Write env b p =
     (case chain_Write env (buf_w b) p of
        (ch, n, err) \<Rightarrow>
          (let b = b\<lparr>buf_w := ch\<rparr>
           in if err = Some LogLimitExceeded then (b, length p, None)
              else if failedFlush b then
                (case file_Flush env (lw_w (buffer_lw b)) of
                   (f, Some e) \<Rightarrow> (map_lw (\<lambda>lw. lw\<lparr>lw_w := f\<rparr>) b, n, Some e)
                 | (f, None) \<Rightarrow> ((map_lw (\<lambda>lw. lw\<lparr>lw_w := f\<rparr>) b)\<lparr>failedFlush := False\<rparr>, n, err))
              else (b, n, err)))"

definition Buffer_Finish :: "('t, 'f) buffer_env \<Rightarrow> ('t, 'f) Buffer \<Rightarrow> ('t, 'f) Buffer" where
  "Buffer_Finish env b = b\<lparr>buf_w := fst (chain_Close env (buf_w b))\<rparr>"

definition NewBuffer :: "('t, 'f) buffer_env \<Rightarrow> string list \<Rightarrow> bool \<Rightarrow> 'f \<Rightarrow> ('t, 'f) Buffer" where
  "NewBuffer env keys url f =
     \<lparr>buf_w = new_chain env keys [] [defaultPATPrefix] url \<lparr>lw_w = f, written = 0, lw_limit = 4 * 1024 * 1024\<rparr>,
      urlParamMasking = url, failedFlush = False\<rparr>"

end
