(* ===== verification/LogInvariant.thy ===== *)
theory LogInvariant
  imports TraceBuffer
begin

text \<open>
  The layers of the buffer of a job log touch the layer below only through its \<open>Write\<close> and \<open>Close\<close>: an invariant of
  the lowest layer is an invariant of the whole buffer, whatever the sanitizers do. The invariant shown is that the
  size the buffer reports is the length of the log, and that it stays within the limit and the message.
\<close>

section \<open>The loops\<close>

lemma masker_loop_keeps:
  assumes "\<And>st p. I st \<Longrightarrow> I (fst (w st p))" "I st"
  shows "I (fst (snd (masker_loop w p n sent m st)))"
  using assms
proof (induction w p n sent m st rule: masker_loop.induct)
  case (1 w p n sent m st)
  note eq = masker_loop.simps [of w p n sent m st, unfolded case_prod_unfold Let_def]
  note keep = 1(6) and st = 1(7)
  note IH = 1(1) [OF _ _ _ refl refl _ prod.collapse prod.collapse _ refl refl _ prod.collapse prod.collapse _ keep]
    1(2) [OF _ _ _ refl refl _ prod.collapse prod.collapse _ refl refl _ keep]
    1(3) [OF _ _ _ refl refl _ _ prod.collapse prod.collapse _ _ keep]
    1(4) [OF _ _ _ refl refl _ _ prod.collapse prod.collapse _ _ keep]
    1(5) [OF _ _ _ refl refl _ _ keep st]
  let ?ix = "if matching m = 0 then IndexByte (drop n p) (hd (phrase m)) else Some 0"
  consider (out) "\<not> n < length p" | (panic) "n < length p" "phrase m = [] \<or> length (phrase m) < matching m"
    | (none) "n < length p" "\<not> (phrase m = [] \<or> length (phrase m) < matching m)" "?ix = None"
    | (turn) off where "n < length p" "\<not> (phrase m = [] \<or> length (phrase m) < matching m)" "?ix = Some off"
    by (cases ?ix) blast+
  then show ?case
  proof cases
    case out
    then show ?thesis unfolding eq using keep st by simp
  next
    case panic
    then show ?thesis unfolding eq using keep st by simp
  next
    case none
    then show ?thesis unfolding eq using keep st by simp
  next
    case (turn off)
    let ?mn = "min (length (phrase m) - matching m) (length p - (n + off))"
    let ?w1 = "w st (subslice p sent (n + off))" and ?w2 = "w st (take (matching m) (phrase m))"
    consider (wfails) e where "BytesHasPrefix (drop (n + off) p) (take ?mn (drop (matching m) (phrase m)))" "snd (snd ?w1) = Some e"
      | (matched) "BytesHasPrefix (drop (n + off) p) (take ?mn (drop (matching m) (phrase m)))" "snd (snd ?w1) = None"
      | (hfails) e where "\<not> BytesHasPrefix (drop (n + off) p) (take ?mn (drop (matching m) (phrase m)))" "0 < matching m" "snd (snd ?w2) = Some e"
      | (held) "\<not> BytesHasPrefix (drop (n + off) p) (take ?mn (drop (matching m) (phrase m)))" "0 < matching m" "snd (snd ?w2) = None"
      | (passed) "\<not> BytesHasPrefix (drop (n + off) p) (take ?mn (drop (matching m) (phrase m)))" "\<not> 0 < matching m"
      by fastforce
    then show ?thesis
    proof cases
      case matched
      show ?thesis
      proof (cases "matching m + ?mn = length (phrase m)")
        case True
        then show ?thesis
          using turn matched keep st IH(1) [OF turn matched] unfolding eq
          by (cases "snd (snd (w (fst ?w1) mask_bytes))") simp_all
      next
        case False
        then show ?thesis using turn matched keep st IH(2) [OF turn matched] unfolding eq by simp
      qed
    next
      case held
      show ?thesis
        using turn held keep st IH(3) [OF turn held] IH(4) [OF turn held] unfolding eq
        by (cases "hd (phrase m) = p ! (n + off)") simp_all
    next
      case passed
      show ?thesis using turn passed keep st IH(5) [OF turn passed] unfolding eq by simp
    next
      case wfails
      then show ?thesis using turn keep st unfolding eq by simp
    next
      case hfails
      then show ?thesis using turn keep st unfolding eq by simp
    qed
  qed
qed

lemma token_end_keeps:
  assumes "\<And>st p. I st \<Longrightarrow> I (fst (w st p))" "I st"
  shows "I (fst (snd (token_end w m st)))"
  using assms by (simp add: token_end_def case_prod_unfold split: option.splits)

lemma token_loop_keeps:
  assumes "\<And>st p. I st \<Longrightarrow> I (fst (w st p))" "I st"
  shows "I (fst (snd (token_loop w p n sent m st)))"
  using assms
proof (induction w p n sent m st rule: token_loop.induct)
  case (1 w p n sent m st)
  note eq = token_loop.simps [of w p n sent m st, unfolded case_prod_unfold Let_def]
  note keep = 1(7) and st = 1(8)
  define m1 where "m1 = fst (token_end w m st)"
  define st1 where "st1 = fst (snd (token_end w m st))"
  have st1: "I st1" unfolding st1_def by (rule token_end_keeps [OF keep st])
  let ?tok = "tok_matching m = length (tok_prefix m) \<and> alphabet (p ! n)"
  let ?ix = "if tok_matching m1 = 0 then IndexByte (drop n p) (hd (tok_prefix m1)) else Some 0"
  note ends = prod.collapse [of "token_end w m st", folded m1_def] prod.collapse [of "snd (token_end w m st)", folded st1_def]
  note IH = 1(2) [OF _ _ ends _ _ _ refl refl _ prod.collapse prod.collapse _ refl refl _ prod.collapse prod.collapse _ keep]
    1(3) [OF _ _ ends _ _ _ refl refl _ prod.collapse prod.collapse _ refl refl _ keep]
    1(4) [OF _ _ ends _ _ _ refl refl _ _ prod.collapse prod.collapse _ _ keep]
    1(5) [OF _ _ ends _ _ _ refl refl _ _ prod.collapse prod.collapse _ _ keep]
    1(6) [OF _ _ ends _ _ _ refl refl _ _ keep st1]
  consider (out) "\<not> n < length p" | (token) "n < length p" ?tok
    | (fails) e where "n < length p" "\<not> ?tok" "snd (snd (token_end w m st)) = Some e"
    | (panic) "n < length p" "\<not> ?tok" "snd (snd (token_end w m st)) = None" "length (tok_prefix m1) \<le> tok_matching m1"
    | (none) "n < length p" "\<not> ?tok" "snd (snd (token_end w m st)) = None" "\<not> length (tok_prefix m1) \<le> tok_matching m1" "?ix = None"
    | (turn) off where "n < length p" "\<not> ?tok" "snd (snd (token_end w m st)) = None" "\<not> length (tok_prefix m1) \<le> tok_matching m1" "?ix = Some off"
    by (cases "snd (snd (token_end w m st))"; cases ?ix) blast+
  then show ?case
  proof cases
    case token
    then show ?thesis using 1(1) [OF token keep st] unfolding eq by simp
  next
    case (turn off)
    define mn where "mn = min (length (tok_prefix m1) - tok_matching m1) (length p - (n + off))"
    let ?has = "BytesHasPrefix (drop (n + off) p) (take mn (drop (tok_matching m1) (tok_prefix m1)))"
    let ?w1 = "w st1 (subslice p sent (n + off))" and ?w2 = "w st1 (take (tok_matching m1) (tok_prefix m1))"
    note eq' = eq [folded m1_def st1_def, unfolded if_P [OF turn(1)] if_not_P [OF turn(2)] turn(3-5) option.case
        if_not_P [OF turn(4)], folded mn_def]
    note IH' = IH [OF turn(1,2) _ turn(4,5), folded mn_def]
    consider (wfails) e where ?has "snd (snd ?w1) = Some e" | (matched) ?has "snd (snd ?w1) = None"
      | (hfails) e where "\<not> ?has" "0 < tok_matching m1" "snd (snd ?w2) = Some e"
      | (held) "\<not> ?has" "0 < tok_matching m1" "snd (snd ?w2) = None" | (passed) "\<not> ?has" "\<not> 0 < tok_matching m1"
      by fastforce
    then show ?thesis
    proof cases
      case matched
      show ?thesis
      proof (cases "tok_matching m1 + mn = length (tok_prefix m1)")
        case True
        then show ?thesis
          using turn(3-5) matched keep st1 IH'(1) [OF _ matched] unfolding eq'
          by (cases "snd (snd (w (fst ?w1) (take (tok_matching m1 + mn) (tok_prefix m1))))") simp_all
      next
        case False
        then show ?thesis using turn(3-5) matched keep st1 IH'(2) [OF _ matched] unfolding eq' by simp
      qed
    next
      case held
      then show ?thesis
        using turn(3-5) keep st1 IH'(3) [OF _ held] IH'(4) [OF _ held] unfolding eq'
        by (cases "hd (tok_prefix m1) = p ! (n + off)") simp_all
    next
      case passed
      then show ?thesis using turn(3-5) keep st1 IH'(5) [OF _ passed] unfolding eq' by simp
    next
      case wfails
      then show ?thesis using turn(3-5) keep st1 unfolding eq' by simp
    next
      case hfails
      then show ?thesis using turn(3-5) keep st1 unfolding eq' by simp
    qed
  next
    case out
    then show ?thesis using keep st unfolding eq by simp
  next
    case fails
    then show ?thesis using st1 unfolding eq if_P [OF fails(1)] if_not_P [OF fails(2)] by (simp add: st1_def)
  next
    case panic
    then show ?thesis
      using st1 unfolding eq if_P [OF panic(1)] if_not_P [OF panic(2)] by (simp add: st1_def m1_def)
  next
    case none
    then show ?thesis
      using st1 keep unfolding eq [folded m1_def st1_def] if_P [OF none(1)] if_not_P [OF none(2)] by simp
  qed
qed

lemma url_flush_keeps:
  assumes "\<And>st p. I st \<Longrightarrow> I (fst (w st p))" "I (url_w s)"
  shows "I (url_w (fst (url_flush w p n sent s)))"
  using assms by (simp add: url_flush_def case_prod_unfold)

lemma url_loop_keeps:
  assumes "\<And>st p. I st \<Longrightarrow> I (fst (w st p))" "I (url_w s)"
  shows "I (url_w (fst (url_loop w p n sent s)))"
  using assms
proof (induction w p n sent s rule: url_loop.induct)
  case (1 w p n sent s)
  note keep = 1(6) and st = 1(7)
  have flush: "I (url_w (fst (url_flush w p k j x)))" if "I (url_w x)" for k j x
    using url_flush_keeps [of I w x p k j] keep that by blast
  let ?W = "if url_masking s then w (url_w s) mask_bytes else (url_w s, 0, None)"
  define s1 where "s1 = s\<lparr>url_w := fst ?W, url_masking := False\<rparr>"
  define mt where "mt = (if length (url_match s1) = url_cap s1 then [] else url_match s1)"
  have s1: "I (url_w s1)" using keep st by (simp add: s1_def)
  note eq = url_loop.simps [of w p n sent s, unfolded case_prod_unfold Let_def, folded s1_def, folded mt_def]
  let ?ix1 = "if url_masking s then index_param_end (drop n p) else Some 0"
  show ?case
  proof (cases "n < length p")
    case False
    then show ?thesis unfolding eq using flush [OF st] by simp
  next
    case n: True
    show ?thesis
    proof (cases ?ix1)
      case None
      then show ?thesis unfolding eq using flush [OF st] n by simp
    next
      case ix1: (Some off1)
      let ?ix2 = "if mt = [] then IndexAny (drop (n + off1) p) ''?&'' else Some 0"
      show ?thesis
      proof (cases "snd (snd ?W)")
        case (Some e)
        then show ?thesis unfolding eq if_P [OF n] ix1 using s1 by (simp add: s1_def)
      next
        case ok: None
        note eq1 = eq [unfolded if_P [OF n] ix1 option.case ok]
        note IH = 1(1-5) [OF n ix1 refl refl prod.collapse prod.collapse ok, folded s1_def, OF refl refl, folded mt_def]
        show ?thesis
        proof (cases ?ix2)
          case None
          then show ?thesis unfolding eq1 using flush [of "s1\<lparr>url_match := mt\<rparr>"] s1 by simp
        next
          case ix2: (Some off2)
          let ?mn = "if mt = [] then ([p ! (n + off1 + off2)], n + off1 + off2 + 1) else (mt, n + off1)"
          define mt2 where "mt2 = fst ?mn"
          define n2 where "n2 = snd ?mn"
          note eq2 = eq1 [unfolded ix2 option.case, folded mt2_def n2_def]
          note IH2 = IH [OF ix2 refl prod.collapse, folded mt2_def n2_def]
          show ?thesis
          proof (cases "n2 < length p")
            case False
            then show ?thesis unfolding eq2 using flush [of "s1\<lparr>url_match := mt2\<rparr>"] s1 by simp
          next
            case n2: True
            then have n2': "\<not> \<not> n2 < length p" by simp
            show ?thesis
            proof (cases "IndexAny (drop n2 p) ''=?&''")
              case None
              then show ?thesis
                unfolding eq2 if_not_P [OF n2'] using IH2(1) [OF n2' None keep] s1 by simp
            next
              case ix3: (Some off3)
              let ?sep = "p ! (n2 + off3) = CHR ''?'' \<or> p ! (n2 + off3) = CHR ''&''"
              let ?key = "mt2 @ subslice p n2 (n2 + off3)"
              let ?w2 = "w (url_w s1) (subslice p (sent + off1) (n2 + off3 + 1))"
              note eq3 = eq2 [unfolded if_not_P [OF n2'] ix3 option.case]
              consider (sep) ?sep | (long) "\<not> ?sep" "url_cap s1 < off3 + length mt2"
                | (other) "\<not> ?sep" "\<not> url_cap s1 < off3 + length mt2" "ToLower (tl ?key) \<notin> set tokenParamKeys"
                | (wfails) e where "\<not> ?sep" "\<not> url_cap s1 < off3 + length mt2" "ToLower (tl ?key) \<in> set tokenParamKeys"
                    "snd (snd ?w2) = Some e"
                | (found) "\<not> ?sep" "\<not> url_cap s1 < off3 + length mt2" "ToLower (tl ?key) \<in> set tokenParamKeys"
                    "snd (snd ?w2) = None"
                by (cases "snd (snd ?w2)") blast+
              then show ?thesis
              proof cases
                case sep
                then show ?thesis unfolding eq3 if_P [OF sep] using IH2(2) [OF n2' ix3 sep keep] s1 by simp
              next
                case long
                then show ?thesis
                  unfolding eq3 if_not_P [OF long(1)] if_P [OF long(2)] using IH2(3) [OF n2' ix3 long keep] s1 by simp
              next
                case other
                then show ?thesis
                  unfolding eq3 if_not_P [OF other(1)] if_not_P [OF other(2)] if_not_P [OF other(3)]
                  using IH2(5) [OF n2' ix3 other(1,2) refl refl other(3) keep] s1 by simp
              next
                case wfails
                then show ?thesis
                  unfolding eq3 if_not_P [OF wfails(1)] if_not_P [OF wfails(2)] if_P [OF wfails(3)]
                  using keep s1 by simp
              next
                case found
                then show ?thesis
                  unfolding eq3 if_not_P [OF found(1)] if_not_P [OF found(2)] if_P [OF found(3)]
                  using IH2(4) [OF n2' ix3 found(1,2) refl refl found(3) prod.collapse prod.collapse found(4) keep] keep s1
                  by simp
              qed
            qed
          qed
        qed
      qed
    qed
  qed
qed

section \<open>The layers\<close>

text \<open>A writer over another one, as a layer of a stack.\<close>

lemma masker_Write_keeps:
  assumes "\<And>st p. I st \<Longrightarrow> I (fst (w st p))" "I st"
  shows "I (fst (snd (masker_Write w m st p)))"
  using assms masker_loop_keeps [of I w, OF assms(1)] by (simp add: masker_Write_def case_prod_unfold)

lemma token_Write_keeps:
  assumes "\<And>st p. I st \<Longrightarrow> I (fst (w st p))" "I st"
  shows "I (fst (snd (token_Write w m st p)))"
  using assms token_loop_keeps [of I w, OF assms(1)] by (simp add: token_Write_def case_prod_unfold)

lemma stack_Write_keeps:
  fixes one :: "('m, 's) one_write"
  assumes "\<And>w m st p. (\<And>st p. I (snd st) \<Longrightarrow> I (snd (fst (w st p)))) \<Longrightarrow> I (snd st) \<Longrightarrow> I (snd (fst (snd (one w m st p))))"
    and "\<And>st p. I st \<Longrightarrow> I (fst (w st p))" "I (snd x)"
  shows "I (snd (fst (stack_Write one w k x p)))"
  using assms(3)
proof (induction k arbitrary: x p)
  case 0
  then show ?case using assms(2) by (simp add: case_prod_unfold)
next
  case (Suc k)
  then show ?case using assms(1) [of "stack_Write one w k" "(tl (fst x), snd x)"] by (simp add: case_prod_unfold)
qed

lemma stack_Close_keeps:
  fixes one :: "('m, 's) one_write" and cls :: "('m, 's) one_close"
  assumes "\<And>w m st p. (\<And>st p. I (snd st) \<Longrightarrow> I (snd (fst (w st p)))) \<Longrightarrow> I (snd st) \<Longrightarrow> I (snd (fst (snd (one w m st p))))"
    and "\<And>w c m st. (\<And>st p. I (snd st) \<Longrightarrow> I (snd (fst (w st p)))) \<Longrightarrow> (\<And>st. I (snd st) \<Longrightarrow> I (snd (fst (c st)))) \<Longrightarrow>
      I (snd st) \<Longrightarrow> I (snd (fst (cls w c m st)))"
    and "\<And>st p. I st \<Longrightarrow> I (fst (w st p))" "\<And>st. I st \<Longrightarrow> I (fst (c st))" "I (snd x)"
  shows "I (snd (fst (stack_Close one cls w c k x)))"
  using assms(5)
proof (induction k arbitrary: x)
  case 0
  then show ?case using assms(4) by (simp add: case_prod_unfold)
next
  case (Suc k)
  have "I (snd (fst (stack_Write one w k y p)))" if "I (snd y)" for y p
    by (rule stack_Write_keeps [of I one, OF assms(1,3) that])
  then show ?case
    using assms(2) [of "stack_Write one w k" "stack_Close one cls w c k" "(tl (fst x), snd x)"] Suc
    by (simp add: case_prod_unfold)
qed

context write_invariant
begin

lemma keeps_fst: "I st \<Longrightarrow> I (fst (next_Write st p))" "I st \<Longrightarrow> I (fst (next_Close st))"
  using write_keeps [of st p] closing_keeps [of st] by (cases "next_Write st p"; cases "next_Close st"; auto)+

lemma masker_layer:
  "write_invariant (Masker_Write next_Write) (Masker_Close next_Write next_Close) (\<lambda>m. I (snd (stack m)))"
proof unfold_locales
  have one: "I (snd (fst (snd (masker_Write w m st p))))"
    if "\<And>st p. I (snd st) \<Longrightarrow> I (snd (fst (w st p)))" "I (snd st)" for w m p and st :: "(masker, 's) stack"
    by (rule masker_Write_keeps [of "\<lambda>st. I (snd st)", OF that])
  have cls: "I (snd (fst (masker_Close w c m st)))"
    if "\<And>st p. I (snd st) \<Longrightarrow> I (snd (fst (w st p)))" "\<And>st. I (snd st) \<Longrightarrow> I (snd (fst (c st)))" "I (snd st)"
    for w c m and st :: "(masker, 's) stack"
    using that by (auto simp: masker_Close_def case_prod_unfold Let_def)
  show "I (snd (stack m'))" if "Masker_Write next_Write m p = (m', n, e)" "I (snd (stack m))" for m p m' n e
    using stack_Write_keeps [of I masker_Write, OF one keeps_fst(1) that(2)] that(1)
    by (auto simp: Masker_Write_def Stack_Write_def case_prod_unfold)
  show "I (snd (stack m'))" if "Masker_Close next_Write next_Close m = (m', e)" "I (snd (stack m))" for m m' e
    using stack_Close_keeps [of I masker_Write masker_Close, OF one cls keeps_fst that(2)] that(1)
    by (auto simp: Masker_Close_def Stack_Close_def case_prod_unfold)
qed

lemma token_layer:
  "write_invariant (TokenSanitizer_Write next_Write) (TokenSanitizer_Close next_Write next_Close) (\<lambda>m. I (snd (stack m)))"
proof unfold_locales
  have one: "I (snd (fst (snd (token_Write w m st p))))"
    if "\<And>st p. I (snd st) \<Longrightarrow> I (snd (fst (w st p)))" "I (snd st)" for w m p and st :: "(tokenSanitizer, 's) stack"
    by (rule token_Write_keeps [of "\<lambda>st. I (snd st)", OF that])
  have cls: "I (snd (fst (token_Close w c m st)))"
    if "\<And>st p. I (snd st) \<Longrightarrow> I (snd (fst (w st p)))" "\<And>st. I (snd st) \<Longrightarrow> I (snd (fst (c st)))" "I (snd st)"
    for w c m and st :: "(tokenSanitizer, 's) stack"
    using that by (auto simp: token_Close_def case_prod_unfold Let_def)
  show "I (snd (stack m'))" if "TokenSanitizer_Write next_Write m p = (m', n, e)" "I (snd (stack m))" for m p m' n e
    using stack_Write_keeps [of I token_Write, OF one keeps_fst(1) that(2)] that(1)
    by (auto simp: TokenSanitizer_Write_def Stack_Write_def case_prod_unfold)
  show "I (snd (stack m'))" if "TokenSanitizer_Close next_Write next_Close m = (m', e)" "I (snd (stack m))" for m m' e
    using stack_Close_keeps [of I token_Write token_Close, OF one cls keeps_fst that(2)] that(1)
    by (auto simp: TokenSanitizer_Close_def Stack_Close_def case_prod_unfold)
qed

lemma url_layer:
  "write_invariant (URL_Write next_Write) (URL_Close next_Write next_Close) (\<lambda>s. I (url_w s))"
proof unfold_locales
  show "I (url_w s')" if "URL_Write next_Write s p = (s', n, e)" "I (url_w s)" for s p s' n e
    using url_loop_keeps [of I next_Write s p 0 0] keeps_fst(1) that by (simp add: URL_Write_def)
  show "I (url_w s')" if "URL_Close next_Write next_Close s = (s', e)" "I (url_w s)" for s s' e
    using keeps_fst that by (auto simp: URL_Close_def case_prod_unfold Let_def split: if_splits)
qed

end

section \<open>The buffer\<close>

text \<open>What is relied on: the log file appends the bytes it reports to have accepted, flushing keeps them, and the
  conversion to UTF-8 touches the writer below only through \<open>Write\<close>.\<close>

definition file_ok :: "('t, 'f) buffer_env \<Rightarrow> ('f \<Rightarrow> bytes) \<Rightarrow> bool" where
  "file_ok env content \<longleftrightarrow>
     (\<forall>f p f' n e. file_Write env f p = (f', n, e) \<longrightarrow> n \<le> length p \<and> content f' = content f @ take n p) \<and>
     (\<forall>f f' e. file_Flush env f = (f', e) \<longrightarrow> content f' = content f)"

definition transform_ok :: "('t, 'f) buffer_env \<Rightarrow> bool" where
  "transform_ok env \<longleftrightarrow>
     (\<forall>w I. (\<forall>lw p. I lw \<longrightarrow> I (fst (w lw p))) \<longrightarrow>
        (\<forall>t lw p. I lw \<longrightarrow> I (snd (fst (tr_Write env w (t, lw) p)))) \<and>
        (\<forall>t lw. I lw \<longrightarrow> I (snd (fst (tr_Close env w (t, lw))))))"

text \<open>The invariant of the limiting writer, for a bound \<open>B\<close> on the log.\<close>

definition lw_ok :: "int \<Rightarrow> ('f \<Rightarrow> bytes) \<Rightarrow> 'f limitWriter \<Rightarrow> bool" where
  "lw_ok B content lw \<longleftrightarrow> written lw = int (length (content (lw_w lw))) \<and> written lw \<le> B \<and>
     lw_limit lw + int (length (limit_message (lw_limit lw))) \<le> B"

lemma limit_Write_keeps:
  assumes "\<And>f p f' n e. wr f p = (f', n, e) \<Longrightarrow> n \<le> length p \<and> content f' = content f @ take n p"
    and "lw_ok B content lw"
  shows "lw_ok B content (fst (limit_Write wr lw p))"
proof -
  define cap where "cap = lw_limit lw - written lw"
  obtain f1 n1 e1 where w1: "wr (lw_w lw) (truncateSafeUTF8 p (nat cap)) = (f1, n1, e1)" by (rule prod_cases3)
  obtain f2 n2 e2 where w2: "wr f1 (limit_message (lw_limit lw)) = (f2, n2, e2)" by (rule prod_cases3)
  obtain f3 n3 e3 where w3: "wr (lw_w lw) p = (f3, n3, e3)" by (rule prod_cases3)
  have "length (truncateSafeUTF8 p (nat cap)) \<le> nat cap"
    using truncate_loop_bounds [of p "nat cap" 4] by (simp add: truncateSafeUTF8_def min_def)
  then show ?thesis
    using assms(2) assms(1) [OF w1] assms(1) [OF w2] assms(1) [OF w3] w1 w2 w3
    unfolding limit_Write_def Let_def cap_def [symmetric]
    by (auto simp: lw_ok_def writeLimitExceededMessage_def cap_def)
qed

lemma file_okD:
  assumes "file_ok env content"
  shows "file_Write env f p = (f', n, e) \<Longrightarrow> n \<le> length p \<and> content f' = content f @ take n p"
    and "file_Flush env f = (f', e) \<Longrightarrow> content f' = content f"
  using assms unfolding file_ok_def by blast+

lemma base_layer:
  assumes "file_ok env content" "transform_ok env"
  shows "write_invariant (tr_Write env (limit_Write (file_Write env))) (tr_Close env (limit_Write (file_Write env)))
    (\<lambda>b. lw_ok B content (snd b))"
proof -
  have keep: "lw_ok B content (fst (limit_Write (file_Write env) lw p))" if "lw_ok B content lw" for lw p
    by (rule limit_Write_keeps [OF file_okD(1) [OF assms(1)] that])
  have tr: "(\<forall>lw p. I lw \<longrightarrow> I (fst (w lw p))) \<longrightarrow> (\<forall>t lw p. I lw \<longrightarrow> I (snd (fst (tr_Write env w (t, lw) p)))) \<and>
      (\<forall>t lw. I lw \<longrightarrow> I (snd (fst (tr_Close env w (t, lw)))))" for w I
    using assms(2) unfolding transform_ok_def by blast
  show ?thesis
    by unfold_locales
      (use tr [of "lw_ok B content" "limit_Write (file_Write env)"] keep in \<open>metis fst_conv snd_conv prod.collapse\<close>)+
qed

definition buffer_ok :: "int \<Rightarrow> ('f \<Rightarrow> bytes) \<Rightarrow> ('t, 'f) Buffer \<Rightarrow> bool" where
  "buffer_ok B content b \<longleftrightarrow> lw_ok B content (buffer_lw b)"

lemma chain_keeps:
  assumes "file_ok env content" "transform_ok env" "buffer_ok B content b"
  shows "buffer_ok B content (b\<lparr>buf_w := fst (chain_Write env (buf_w b) p)\<rparr>)"
    and "buffer_ok B content (b\<lparr>buf_w := fst (chain_Close env (buf_w b))\<rparr>)"
proof -
  let ?I = "\<lambda>ts. lw_ok B content (snd (snd (stack (snd (stack ts)))))"
  let ?w = "TokenSanitizer_Write (masker_env_Write env)"
  let ?c = "TokenSanitizer_Close (masker_env_Write env) (masker_env_Close env)"
  have ts: "write_invariant ?w ?c ?I"
    using write_invariant.token_layer [OF write_invariant.masker_layer [OF base_layer [OF assms(1,2), of B]]]
    by (simp add: masker_env_Write_def masker_env_Close_def)
  have url: "write_invariant (URL_Write ?w) (URL_Close ?w ?c) (\<lambda>u. ?I (url_w u))" by (rule write_invariant.url_layer [OF ts])
  have start: "?I (chain_token (buf_w b))" using assms(3) by (simp add: buffer_ok_def buffer_lw_def)
  show "buffer_ok B content (b\<lparr>buf_w := fst (chain_Write env (buf_w b) p)\<rparr>)"
    using write_invariant.keeps_fst(1) [OF ts] write_invariant.keeps_fst(1) [OF url] start
    by (cases "buf_w b")
      (auto simp: buffer_ok_def buffer_lw_def chain_Write_def chain_token_def case_prod_unfold Let_def)
  show "buffer_ok B content (b\<lparr>buf_w := fst (chain_Close env (buf_w b))\<rparr>)"
    using write_invariant.keeps_fst(2) [OF ts] write_invariant.keeps_fst(2) [OF url] start
    by (cases "buf_w b")
      (auto simp: buffer_ok_def buffer_lw_def chain_Close_def chain_token_def case_prod_unfold Let_def)
qed

lemma buffer_lw_new [simp]: "buffer_lw (b\<lparr>buf_w := new_chain env keys phrases token_prefixes url lw\<rparr>) = lw"
  by (simp add: buffer_lw_def new_chain_def chain_token_def NewURLSanitizer_def NewTokenSanitizer_def New_def Let_def)

lemma buffer_lw_map [simp]: "buffer_lw (map_lw f b) = f (buffer_lw b)"
  by (cases "buf_w b") (simp_all add: buffer_lw_def map_lw_def chain_token_def Let_def)

lemma buffer_lw_flag [simp]: "buffer_lw (b\<lparr>failedFlush := x\<rparr>) = buffer_lw b"
  by (simp add: buffer_lw_def)

lemma flush_keeps:
  "file_ok env content \<Longrightarrow> file_Flush env (lw_w (buffer_lw b)) = (f, e) \<Longrightarrow> buffer_ok B content b \<Longrightarrow>
   buffer_ok B content (map_lw (\<lambda>lw. lw\<lparr>lw_w := f\<rparr>) b)"
  using file_okD(2) [of env content "lw_w (buffer_lw b)" f e] by (simp add: buffer_ok_def lw_ok_def)

text \<open>The operations of the buffer.\<close>

datatype buffer_op = OpWrite bytes | OpSetMasked "string list" "string list" | OpSetLimit int | OpBytes int int | OpFinish

definition buffer_exec :: "('t, 'f) buffer_env \<Rightarrow> string list \<Rightarrow> buffer_op \<Rightarrow> ('t, 'f) Buffer \<Rightarrow> ('t, 'f) Buffer option" where
  "buffer_exec env keys x b =
     (case x of
        OpWrite p \<Rightarrow> Some (fst (Buffer_Write env b p))
      | OpSetMasked phrases token_prefixes \<Rightarrow> Some (SetMasked env keys phrases token_prefixes b)
      | OpSetLimit sz \<Rightarrow> Some (SetLimit sz b)
      | OpBytes offset n \<Rightarrow> map_option fst (Buffer_Bytes env offset n b)
      | OpFinish \<Rightarrow> Some (Buffer_Finish env b))"

definition buffer_run :: "('t, 'f) buffer_env \<Rightarrow> string list \<Rightarrow> buffer_op list \<Rightarrow> ('t, 'f) Buffer \<Rightarrow> ('t, 'f) Buffer option" where
  "buffer_run env keys xs b = foldl (\<lambda>r x. Option.bind r (buffer_exec env keys x)) (Some b) xs"

text \<open>The limits that are set allow the bound.\<close>

definition limits_within :: "int \<Rightarrow> buffer_op list \<Rightarrow> bool" where
  "limits_within B xs \<longleftrightarrow>
     list_all (\<lambda>L. L + int (length (limit_message L)) \<le> B)
       (4 * 1024 * 1024 # concat (map (\<lambda>x. case x of OpSetLimit L \<Rightarrow> [L] | _ \<Rightarrow> []) xs))"

lemma exec_keeps:
  assumes env: "file_ok env content" "transform_ok env" and b: "buffer_ok B content b"
    and exec: "buffer_exec env keys x b = Some b'" and L: "\<And>L. x = OpSetLimit L \<Longrightarrow> L + int (length (limit_message L)) \<le> B"
  shows "buffer_ok B content b'"
proof (cases x)
  case (OpWrite p)
  let ?b = "b\<lparr>buf_w := fst (chain_Write env (buf_w b) p)\<rparr>"
  have ok: "buffer_ok B content ?b" by (rule chain_keeps(1) [OF env b])
  obtain f e where f: "file_Flush env (lw_w (buffer_lw ?b)) = (f, e)" by fastforce
  have "buffer_ok B content (map_lw (\<lambda>lw. lw\<lparr>lw_w := f\<rparr>) ?b)" by (rule flush_keeps [OF env(1) f ok])
  then show ?thesis
    using ok exec f OpWrite
    by (auto simp: buffer_exec_def Buffer_Write_def case_prod_unfold Let_def buffer_ok_def split: option.splits if_splits)
next
  case (OpSetMasked phrases token_prefixes)
  then show ?thesis
    using chain_keeps(2) [OF env b] exec by (auto simp: buffer_exec_def SetMasked_def Let_def buffer_ok_def)
next
  case (OpSetLimit L)
  then show ?thesis using exec b assms(5) by (auto simp: buffer_exec_def SetLimit_def buffer_ok_def lw_ok_def)
next
  case (OpBytes offset n)
  obtain f e where f: "file_Flush env (lw_w (buffer_lw b)) = (f, e)" by fastforce
  have "buffer_ok B content (map_lw (\<lambda>lw. lw\<lparr>lw_w := f\<rparr>) b)" by (rule flush_keeps [OF env(1) f b])
  then show ?thesis
    using exec f OpBytes
    by (auto simp: buffer_exec_def Buffer_Bytes_def Let_def buffer_ok_def split: option.splits if_splits prod.splits)
next
  case OpFinish
  then show ?thesis using chain_keeps(2) [OF env b] exec by (auto simp: buffer_exec_def Buffer_Finish_def)
qed

lemma run_keeps:
  assumes env: "file_ok env content" "transform_ok env"
    and "buffer_run env keys xs b = Some b'" "buffer_ok B content b" "limits_within B xs"
  shows "buffer_ok B content b'"
  using assms(3-5)
proof (induction xs arbitrary: b' rule: rev_induct)
  case Nil
  then show ?case by (simp add: buffer_run_def)
next
  case (snoc x xs)
  then obtain b1 where b1: "buffer_run env keys xs b = Some b1" "buffer_exec env keys x b1 = Some b'"
    by (auto simp: buffer_run_def bind_eq_Some_conv)
  have "limits_within B xs" "\<And>L. x = OpSetLimit L \<Longrightarrow> L + int (length (limit_message L)) \<le> B"
    using snoc.prems(3) by (auto simp: limits_within_def)
  then show ?case using exec_keeps [OF env snoc.IH [OF b1(1) snoc.prems(2)] b1(2)] by blast
qed

section \<open>Properties\<close>

text \<open>C28: The size of the log. Whatever is written, masked, read or limited, in any order, and whichever writes and
  reads fail, the size the buffer reports is the length of the log, and the log never gets longer than the largest
  limit and its message.\<close>

theorem buffer_size_is_length:
  assumes "file_ok env content" "transform_ok env" "content f = []" "limits_within B xs"
    and "buffer_run env keys xs (NewBuffer env keys url f) = Some b"
  shows "Buffer_Size b = int (length (content (lw_w (buffer_lw b)))) \<and> Buffer_Size b \<le> B"
proof -
  have "buffer_lw (NewBuffer env keys url f) = \<lparr>lw_w = f, written = 0, lw_limit = 4 * 1024 * 1024\<rparr>"
    by (simp add: NewBuffer_def buffer_lw_def new_chain_def chain_token_def NewURLSanitizer_def NewTokenSanitizer_def
        New_def Let_def)
  moreover have "0 \<le> B" using assms(4) by (simp add: limits_within_def)
  ultimately have "buffer_ok B content (NewBuffer env keys url f)"
    using assms(3,4) by (simp add: buffer_ok_def lw_ok_def limits_within_def)
  from run_keeps [OF assms(1,2,5) this assms(4)] show ?thesis
    by (simp add: buffer_ok_def lw_ok_def Buffer_Size_def)
qed

definition plain_env :: "(unit, bytes) buffer_env" where
  "plain_env = \<lparr>tr_New = (), tr_Write = (\<lambda>w (t, lw) p. case w lw p of (lw, n, e) \<Rightarrow> ((t, lw), n, e)),
     tr_Close = (\<lambda>w x. (x, None)), file_Write = collect, file_Flush = (\<lambda>f. (f, None)),
     file_ReadAt = (\<lambda>f i n. (take n (drop i f), None))\<rparr>"

theorem buffer_size_is_length_witness:
  "\<exists>b. buffer_run plain_env [] [OpSetLimit 8, OpSetMasked [] [], OpWrite ''some output'', OpFinish] (NewBuffer plain_env [] False []) = Some b \<and>
     Buffer_Size b = int (length (lw_w (buffer_lw b))) \<and> Buffer_Size b \<le> 5 * 1024 * 1024"
proof -
  have env: "file_ok plain_env id" "transform_ok plain_env"
    by (auto simp: file_ok_def transform_ok_def plain_env_def collect_def case_prod_unfold)
  have lim: "limits_within (5 * 1024 * 1024) [OpSetLimit 8, OpSetMasked [] [], OpWrite ''some output'', OpFinish]"
    by (simp add: limits_within_def limit_message_def decstr.simps ANSI_BOLD_YELLOW_def ANSI_RESET_def)
  obtain b where b: "buffer_run plain_env [] [OpSetLimit 8, OpSetMasked [] [], OpWrite ''some output'', OpFinish] (NewBuffer plain_env [] False []) = Some b"
    by (simp add: buffer_run_def buffer_exec_def)
  then show ?thesis using buffer_size_is_length [OF env _ lim b] by auto
qed

end
