(* ===== verification/JobTrace.thy ===== *)
theory JobTrace
  imports Strconv LogWriter
begin

text \<open>
  Sending the log of a job to the coordinator, \<open>network/trace.go\<close>, \<open>network/patch_response.go\<close>,
  \<open>network/remote_job_state_response.go\<close> and the two calls of \<open>network/gitlab.go\<close> it makes. The outside is
  the record \<open>world\<close>: what the coordinator answers to the HTTP requests, whether the log file can be read,
  and the clock, all depending on a state of any type. The buffer is its contents. Times are in
  nanoseconds. A result \<open>None\<close> is a panic.
\<close>

section \<open>The coordinator\<close>

text \<open>A result of type \<open>int\<close> or \<open>time.Duration\<close> is kept at its 64 bits.\<close>

definition wrap64 :: "int \<Rightarrow> int" where
  "wrap64 x = (x + 2 ^ 63) mod 2 ^ 64 - 2 ^ 63"

text \<open>The status code and the headers of a response that are used.\<close>

record http_response =
  http_StatusCode :: int
  http_JobStatus :: string
  http_Range :: string
  http_UpdateInterval :: string

datatype JobState = Pending | JobRunning | JobFailed | JobSuccess

record UpdateJobInfo =
  info_State :: JobState
  info_FailureReason :: string
  info_Bytesize :: int
  info_ExitCode :: int

text \<open>A request to update the job also has the status code \<open>doMeasuredJSON\<close> returns, which is not the one of
  the response when there is none. \<open>flush_fails\<close> and \<open>read_fails\<close> are errors of the log file.\<close>

record 'srv world =
  http_patch :: "'srv \<Rightarrow> bytes \<Rightarrow> int \<Rightarrow> 'srv \<times> http_response option"
  http_update :: "'srv \<Rightarrow> UpdateJobInfo \<Rightarrow> 'srv \<times> int \<times> http_response option"
  flush_fails :: "'srv \<Rightarrow> bool"
  read_fails :: "'srv \<Rightarrow> bool"
  time_Now :: "'srv \<Rightarrow> int"
  time_Sleep :: "'srv \<Rightarrow> int \<Rightarrow> 'srv"

record RemoteJobStateResponse =
  StatusCode :: int
  RemoteState :: string
  RemoteUpdateInterval :: int

definition IsFailed :: "RemoteJobStateResponse \<Rightarrow> bool" where
  "IsFailed r \<longleftrightarrow> (RemoteState r = ''canceled'' \<or> RemoteState r = ''failed'') \<or> StatusCode r = 403"

definition IsCanceled :: "RemoteJobStateResponse \<Rightarrow> bool" where
  "IsCanceled r \<longleftrightarrow> RemoteState r = ''canceling''"

definition NewRemoteJobStateResponse :: "http_response option \<Rightarrow> RemoteJobStateResponse" where
  "NewRemoteJobStateResponse response =
     (case response of
        None \<Rightarrow> \<lparr>StatusCode = 0, RemoteState = [], RemoteUpdateInterval = 0\<rparr>
      | Some r \<Rightarrow>
          \<lparr>StatusCode = http_StatusCode r, RemoteState = http_JobStatus r,
           RemoteUpdateInterval =
             (if http_UpdateInterval r \<noteq> [] then
                (case Atoi (http_UpdateInterval r) of
                   (n, None) \<Rightarrow> wrap64 (n * 1000000000) | (n, Some e) \<Rightarrow> 0)
              else 0)\<rparr>)"

definition NewOffset :: "string \<Rightarrow> int" where
  "NewOffset RemoteRange =
     (case split_char (CHR ''-'') RemoteRange of
        [a, b] \<Rightarrow> fst (Atoi b)
      | _ \<Rightarrow> 0)"

datatype PatchState = PatchSucceeded | PatchNotFound | PatchAbort | PatchRangeMismatch | PatchFailed

record PatchTraceResult =
  SentOffset :: int
  pt_CancelRequested :: bool
  pt_State :: PatchState
  pt_NewUpdateInterval :: int

definition NewPatchTraceResult :: "int \<Rightarrow> PatchState \<Rightarrow> int \<Rightarrow> PatchTraceResult" where
  "NewPatchTraceResult sentOffset state newUpdateInterval =
     \<lparr>SentOffset = sentOffset, pt_CancelRequested = False, pt_State = state,
      pt_NewUpdateInterval = wrap64 (newUpdateInterval * 1000000000)\<rparr>"

definition createPatchTraceResult :: "int \<Rightarrow> http_response \<Rightarrow> int \<Rightarrow> PatchTraceResult" where
  "createPatchTraceResult startOffset response endOffset =
     (let tracePatchResponse = NewRemoteJobStateResponse (Some response);
          result = \<lparr>SentOffset = startOffset, pt_CancelRequested = IsCanceled tracePatchResponse,
            pt_State = PatchFailed, pt_NewUpdateInterval = RemoteUpdateInterval tracePatchResponse\<rparr>
      in if IsFailed tracePatchResponse then result\<lparr>pt_State := PatchAbort\<rparr>
         else if http_StatusCode response = 202
         then result\<lparr>SentOffset := endOffset, pt_State := PatchSucceeded\<rparr>
         else if http_StatusCode response = 404 then result\<lparr>pt_State := PatchNotFound\<rparr>
         else if http_StatusCode response = 416
         then result\<lparr>SentOffset := NewOffset (http_Range response), pt_State := PatchRangeMismatch\<rparr>
         else if http_StatusCode response = -100 then result\<lparr>pt_State := PatchAbort\<rparr>
         else result)"

definition PatchTrace :: "'srv world \<Rightarrow> 'srv \<Rightarrow> bytes \<Rightarrow> int \<Rightarrow> 'srv \<times> PatchTraceResult" where
  "PatchTrace w s content startOffset =
     (if content = [] then (s, NewPatchTraceResult startOffset PatchSucceeded 0)
      else
        (let endOffset = startOffset + int (length content)
         in case http_patch w s content startOffset of
              (s, None) \<Rightarrow> (s, NewPatchTraceResult startOffset PatchFailed 0)
            | (s, Some response) \<Rightarrow> (s, createPatchTraceResult startOffset response endOffset)))"

datatype UpdateState =
    UpdateSucceeded | UpdateAcceptedButNotCompleted | UpdateTraceValidationFailed | UpdateNotFound
  | UpdateAbort | UpdateFailed

record UpdateJobResult =
  up_State :: UpdateState
  up_CancelRequested :: bool
  up_NewUpdateInterval :: int

definition createUpdateJobResult :: "int \<Rightarrow> http_response option \<Rightarrow> UpdateJobResult" where
  "createUpdateJobResult statusCode response =
     (let r = NewRemoteJobStateResponse response
      in \<lparr>up_State =
            (if IsFailed r then UpdateAbort
             else if statusCode = 200 then UpdateSucceeded
             else if statusCode = 202 then UpdateAcceptedButNotCompleted
             else if statusCode = 412 then UpdateTraceValidationFailed
             else if statusCode = 404 then UpdateAbort
             else if statusCode = 403 then UpdateAbort
             else if statusCode = -100 then UpdateAbort
             else UpdateFailed),
          up_CancelRequested = IsCanceled r, up_NewUpdateInterval = RemoteUpdateInterval r\<rparr>)"

definition UpdateJob :: "'srv world \<Rightarrow> 'srv \<Rightarrow> UpdateJobInfo \<Rightarrow> 'srv \<times> UpdateJobResult" where
  "UpdateJob w s info =
     (case http_update w s info of (s, statusCode, response) \<Rightarrow> (s, createUpdateJobResult statusCode response))"

section \<open>The trace of a job\<close>

text \<open>Of the functions that cancel and abort the job and of the collector of failures the trace keeps whether
  they are set; \<open>canceled\<close> and \<open>aborted\<close> count the calls, \<open>recorded\<close> is what the collector has been told.\<close>

record clientJobTrace =
  buffer :: bytes
  bytesLimit :: int
  job_state :: JobState
  failureReason :: string
  exitCode :: int
  sentTrace :: int
  sentTime :: int
  updateInterval :: int
  forceSendInterval :: int
  maxTracePatchSize :: int
  dynamicForceSend :: bool
  cancelFunc :: bool
  abortFunc :: bool
  failuresCollector :: bool
  canceled :: nat
  aborted :: nat
  recorded :: "string list"

abbreviation second :: int where
  "second \<equiv> 1000000000"

abbreviation minute :: int where
  "minute \<equiv> 60 * second"

definition newJobTrace :: "bool \<Rightarrow> clientJobTrace" where
  "newJobTrace dynamic =
     \<lparr>buffer = [], bytesLimit = 4 * 1024 * 1024, job_state = Pending, failureReason = [], exitCode = 0,
      sentTrace = 0, sentTime = 0, updateInterval = 3 * second, forceSendInterval = 30 * second,
      maxTracePatchSize = 1024 * 1024, dynamicForceSend = dynamic, cancelFunc = False, abortFunc = False,
      failuresCollector = False, canceled = 0, aborted = 0, recorded = []\<rparr>"

text \<open>The limit of the log in bytes, from the configured number of kilobytes.\<close>

definition setupLogLimit :: "int \<Rightarrow> clientJobTrace \<Rightarrow> clientJobTrace" where
  "setupLogLimit OutputLimit c =
     (let limit = wrap64 (OutputLimit * 1024)
      in c\<lparr>bytesLimit := (if limit = 0 then 4 * 1024 * 1024 else limit)\<rparr>)"

definition jt_start :: "int \<Rightarrow> clientJobTrace \<Rightarrow> clientJobTrace" where
  "jt_start OutputLimit c = setupLogLimit OutputLimit (c\<lparr>job_state := JobRunning\<rparr>)"

text \<open>\<open>Buffer.Size\<close> and \<open>Buffer.Bytes\<close>. The result \<open>Inl\<close> is an error of the file; \<open>make\<close> panics for a
  negative length, which it gets when the offset is beyond the end of the log.\<close>

definition Size :: "clientJobTrace \<Rightarrow> int" where
  "Size c = int (length (buffer c))"

definition Bytes :: "'srv world \<Rightarrow> 'srv \<Rightarrow> clientJobTrace \<Rightarrow> int \<Rightarrow> int \<Rightarrow> (string + bytes) option" where
  "Bytes w s c offset n =
     (if flush_fails w s then Some (Inl ''flushing log buffer'')
      else
        (let size = Size c - offset;
             n = (if n > size then size else n)
         in if n < 0 then None
            else if offset < 0 then Some (Inl ''negative offset'')
            else if read_fails w s then Some (Inl ''reading log file'')
            else Some (Inr (take (nat n) (drop (nat offset) (buffer c))))))"

definition setFailure :: "string \<Rightarrow> int \<Rightarrow> clientJobTrace \<Rightarrow> clientJobTrace" where
  "setFailure reason code c =
     (let c = c\<lparr>job_state := JobFailed, failureReason := reason, exitCode := code\<rparr>
      in if failuresCollector c then c\<lparr>recorded := recorded c @ [reason]\<rparr> else c)"

text \<open>The part of \<open>complete\<close> under the lock; the flag says whether \<open>finish\<close> is called.\<close>

definition complete :: "(string \<times> int) option \<Rightarrow> clientJobTrace \<Rightarrow> clientJobTrace \<times> bool" where
  "complete failure c =
     (if job_state c \<noteq> JobRunning then (c, False)
      else case failure of
             None \<Rightarrow> (c\<lparr>job_state := JobSuccess\<rparr>, True)
           | Some (reason, code) \<Rightarrow> (setFailure reason code c, True))"

definition SetCancelFunc :: "bool \<Rightarrow> clientJobTrace \<Rightarrow> clientJobTrace" where
  "SetCancelFunc f c = c\<lparr>cancelFunc := f\<rparr>"

definition SetAbortFunc :: "bool \<Rightarrow> clientJobTrace \<Rightarrow> clientJobTrace" where
  "SetAbortFunc f c = c\<lparr>abortFunc := f\<rparr>"

definition SetFailuresCollector :: "bool \<Rightarrow> clientJobTrace \<Rightarrow> clientJobTrace" where
  "SetFailuresCollector f c = c\<lparr>failuresCollector := f\<rparr>"

definition jt_Cancel :: "clientJobTrace \<Rightarrow> clientJobTrace \<times> bool" where
  "jt_Cancel c =
     (if \<not> cancelFunc c then (c, False)
      else ((SetCancelFunc False c)\<lparr>canceled := canceled c + 1\<rparr>, True))"

definition jt_Abort :: "clientJobTrace \<Rightarrow> clientJobTrace \<times> bool" where
  "jt_Abort c =
     (if \<not> abortFunc c then (c, False)
      else ((SetAbortFunc False (SetCancelFunc False c))\<lparr>aborted := aborted c + 1\<rparr>, True))"

definition anyTraceToSend :: "clientJobTrace \<Rightarrow> bool" where
  "anyTraceToSend c \<longleftrightarrow> Size c \<noteq> sentTrace c"

definition setUpdateInterval :: "int \<Rightarrow> clientJobTrace \<Rightarrow> clientJobTrace" where
  "setUpdateInterval newUpdateInterval c =
     (if newUpdateInterval \<le> 0 then c
      else
        (let c = c\<lparr>updateInterval := newUpdateInterval\<rparr>;
             c = (if updateInterval c > 15 * minute then c\<lparr>updateInterval := 15 * minute\<rparr> else c)
         in if dynamicForceSend c then
              (let c = c\<lparr>forceSendInterval := updateInterval c * 4\<rparr>;
                   c = (if forceSendInterval c < 30 * second then c\<lparr>forceSendInterval := 30 * second\<rparr> else c);
                   c = (if forceSendInterval c > 30 * minute then c\<lparr>forceSendInterval := 30 * minute\<rparr> else c)
               in c)
            else c))"

definition sendPatch ::
    "'srv world \<Rightarrow> clientJobTrace \<Rightarrow> 'srv \<Rightarrow> (clientJobTrace \<times> 'srv \<times> PatchTraceResult) option" where
  "sendPatch w c s =
     (case Bytes w s c (sentTrace c) (maxTracePatchSize c) of
        None \<Rightarrow> None
      | Some (Inl err) \<Rightarrow>
          Some (c, s, \<lparr>SentOffset = 0, pt_CancelRequested = False, pt_State = PatchFailed,
                       pt_NewUpdateInterval = 0\<rparr>)
      | Some (Inr content) \<Rightarrow>
          if content = []
          then Some (c, s, \<lparr>SentOffset = 0, pt_CancelRequested = False, pt_State = PatchSucceeded,
                            pt_NewUpdateInterval = 0\<rparr>)
          else
            (let (s, result) = PatchTrace w s content (sentTrace c);
                 c = setUpdateInterval (pt_NewUpdateInterval result) c;
                 c = (if pt_State result = PatchSucceeded \<or> pt_State result = PatchRangeMismatch
                      then c\<lparr>sentTime := time_Now w s, sentTrace := SentOffset result\<rparr> else c)
             in Some (c, s, result)))"

definition job_info :: "clientJobTrace \<Rightarrow> JobState \<Rightarrow> UpdateJobInfo" where
  "job_info c state =
     \<lparr>info_State = state, info_FailureReason = failureReason c, info_Bytesize = Size c,
      info_ExitCode = exitCode c\<rparr>"

definition touchJob :: "'srv world \<Rightarrow> clientJobTrace \<Rightarrow> 'srv \<Rightarrow> clientJobTrace \<times> 'srv \<times> UpdateJobResult" where
  "touchJob w c s =
     (if \<not> time_Now w s - sentTime c > forceSendInterval c
      then (c, s, \<lparr>up_State = UpdateSucceeded, up_CancelRequested = False, up_NewUpdateInterval = 0\<rparr>)
      else
        (let (s, result) = UpdateJob w s
               \<lparr>info_State = JobRunning, info_FailureReason = [], info_Bytesize = Size c, info_ExitCode = 0\<rparr>;
             c = setUpdateInterval (up_NewUpdateInterval result) c;
             c = (if up_State result = UpdateSucceeded then c\<lparr>sentTime := time_Now w s\<rparr> else c)
         in (c, s, result)))"

definition sendUpdate :: "'srv world \<Rightarrow> clientJobTrace \<Rightarrow> 'srv \<Rightarrow> clientJobTrace \<times> 'srv \<times> UpdateState" where
  "sendUpdate w c s =
     (let (s, result) = UpdateJob w s (job_info c (job_state c));
          c = setUpdateInterval (up_NewUpdateInterval result) c;
          c = (if up_State result = UpdateSucceeded then c\<lparr>sentTime := time_Now w s\<rparr>
               else if up_State result = UpdateTraceValidationFailed
               then c\<lparr>sentTime := time_Now w s, sentTrace := 0\<rparr>
               else c)
      in (c, s, up_State result))"

definition incrementalUpdate ::
    "'srv world \<Rightarrow> clientJobTrace \<Rightarrow> 'srv \<Rightarrow> (clientJobTrace \<times> 'srv \<times> bool) option" where
  "incrementalUpdate w c s =
     (case sendPatch w c s of
        None \<Rightarrow> None
      | Some (c, s, patchResult) \<Rightarrow>
          (let c = (if pt_CancelRequested patchResult then fst (jt_Cancel c) else c)
           in case pt_State patchResult of
                PatchSucceeded \<Rightarrow>
                  (let (c, s, touchResult) = touchJob w c s;
                       c = (if up_CancelRequested touchResult then fst (jt_Cancel c) else c)
                   in if up_State touchResult = UpdateAbort then Some (fst (jt_Abort c), s, False)
                      else Some (c, s, True))
              | PatchAbort \<Rightarrow> Some (fst (jt_Abort c), s, False)
              | _ \<Rightarrow> Some (c, s, True)))"

text \<open>The loops have no result when they do not end.\<close>

partial_function (option) ensureAllTraceSent ::
    "'srv world \<Rightarrow> clientJobTrace \<Rightarrow> 'srv \<Rightarrow> (clientJobTrace \<times> 'srv) option" where
  "ensureAllTraceSent w c s =
     (if anyTraceToSend c then
        (case sendPatch w c s of
           None \<Rightarrow> None
         | Some (c, s, result) \<Rightarrow>
             (case pt_State result of
                PatchSucceeded \<Rightarrow> ensureAllTraceSent w c s
              | PatchAbort \<Rightarrow> Some (c, s)
              | PatchNotFound \<Rightarrow> Some (c, s)
              | PatchRangeMismatch \<Rightarrow> ensureAllTraceSent w c (time_Sleep w s (updateInterval c))
              | PatchFailed \<Rightarrow> ensureAllTraceSent w c (time_Sleep w s (updateInterval c))))
      else Some (c, s))"

partial_function (option) finalUpdate_loop ::
    "'srv world \<Rightarrow> clientJobTrace \<Rightarrow> 'srv \<Rightarrow> (clientJobTrace \<times> 'srv \<times> UpdateState) option" where
  "finalUpdate_loop w c s =
     (case ensureAllTraceSent w c s of
        None \<Rightarrow> None
      | Some (c, s) \<Rightarrow>
         (case sendUpdate w c s of
            (c, s, st) \<Rightarrow>
              if st = UpdateSucceeded \<or> st = UpdateAbort \<or> st = UpdateNotFound then Some (c, s, st)
              else finalUpdate_loop w c (time_Sleep w s (updateInterval c))))"

definition finalUpdate ::
    "'srv world \<Rightarrow> clientJobTrace \<Rightarrow> 'srv \<Rightarrow> (clientJobTrace \<times> 'srv \<times> UpdateState) option" where
  "finalUpdate w c s = finalUpdate_loop w (setUpdateInterval (3 * second) c) s"

text \<open>\<open>held\<close> is what the masking writers held back until \<open>Buffer.Finish\<close> closes them.\<close>

definition jt_finish ::
    "'srv world \<Rightarrow> bytes \<Rightarrow> clientJobTrace \<Rightarrow> 'srv \<Rightarrow> (clientJobTrace \<times> 'srv \<times> UpdateState) option" where
  "jt_finish w held c s = finalUpdate w (c\<lparr>buffer := buffer c @ held\<rparr>) s"

section \<open>The watcher\<close>

text \<open>The goroutine \<open>watch\<close>: it sends updates, or has seen that the job is over and waits for \<open>finish\<close>, or has
  returned. The log is written and the watcher ticks in any order while the job runs.\<close>

datatype watcher = Watching | WaitFinished | WatcherReturned

record 'srv jt_system =
  sys_trace :: clientJobTrace
  sys_srv :: 'srv
  sys_watcher :: watcher

datatype jt_event = LogWrite bytes | Tick | JobDone "(string \<times> int) option" bytes

inductive jt_step :: "'srv world \<Rightarrow> 'srv jt_system \<Rightarrow> jt_event \<Rightarrow> 'srv jt_system \<Rightarrow> bool" for w where
  log_write: "sys_watcher y \<noteq> WatcherReturned \<Longrightarrow> length (buffer (sys_trace y)) + length p < 2 ^ 63 \<Longrightarrow>
    jt_step w y (LogWrite p) (y\<lparr>sys_trace := (sys_trace y)\<lparr>buffer := buffer (sys_trace y) @ p\<rparr>\<rparr>)"
| tick: "sys_watcher y = Watching \<Longrightarrow> incrementalUpdate w (sys_trace y) (sys_srv y) = Some (c, s, running) \<Longrightarrow>
    jt_step w y Tick (y\<lparr>sys_trace := c, sys_srv := s, sys_watcher := (if running then Watching else WaitFinished)\<rparr>)"
| job_done: "complete failure (sys_trace y) = (c, True) \<Longrightarrow> length (buffer c) + length held < 2 ^ 63 \<Longrightarrow>
    jt_finish w held c (sys_srv y) = Some (c', s', st) \<Longrightarrow>
    jt_step w y (JobDone failure held) (y\<lparr>sys_trace := c', sys_srv := s', sys_watcher := WatcherReturned\<rparr>)"

section \<open>What the coordinator promises\<close>

text \<open>\<open>slog\<close> is the log the coordinator has stored. A patch is appended where the log ends or not at all, even when
  the response gets lost; a patch is accepted when it has been appended; a patch for another offset is answered
  with the length of the log. Neither updates nor time change the log.\<close>

definition coordinator_ok :: "'srv world \<Rightarrow> ('srv \<Rightarrow> bytes) \<Rightarrow> bool" where
  "coordinator_ok w slog \<longleftrightarrow>
     (\<forall>s p off s' r. http_patch w s p off = (s', r) \<longrightarrow>
        (slog s' = slog s \<or> off = int (length (slog s)) \<and> slog s' = slog s @ p) \<and>
        (\<forall>resp. r = Some resp \<longrightarrow>
           (http_StatusCode resp = 202 \<longrightarrow> off = int (length (slog s)) \<and> slog s' = slog s @ p) \<and>
           (http_StatusCode resp = 416 \<longrightarrow>
              off \<noteq> int (length (slog s)) \<and> slog s' = slog s \<and>
              http_Range resp = ''0-'' @ decstr (length (slog s))))) \<and>
     (\<forall>s info s' r. http_update w s info = (s', r) \<longrightarrow> slog s' = slog s) \<and>
     (\<forall>s d. slog (time_Sleep w s d) = slog s)"

text \<open>How long the surroundings may fail: \<open>patience\<close> bounds the number of failures of requests and of the log file
  that are still to come, and the job is not taken away from the runner.\<close>

definition responsive :: "'srv world \<Rightarrow> ('srv \<Rightarrow> nat) \<Rightarrow> bool" where
  "responsive w patience \<longleftrightarrow>
     (\<forall>s p off s' r. http_patch w s p off = (s', r) \<longrightarrow>
        patience s' \<le> patience s \<and>
        (case r of
           None \<Rightarrow> patience s' < patience s
         | Some resp \<Rightarrow>
             \<not> IsFailed (NewRemoteJobStateResponse r) \<and> http_StatusCode resp \<notin> {404, -100} \<and>
             (http_StatusCode resp \<notin> {202, 416} \<longrightarrow> patience s' < patience s))) \<and>
     (\<forall>s info s' code r. http_update w s info = (s', code, r) \<longrightarrow>
        patience s' \<le> patience s \<and>
        (up_State (createUpdateJobResult code r) \<notin> {UpdateSucceeded, UpdateAbort} \<longrightarrow>
           patience s' < patience s)) \<and>
     (\<forall>s d. patience (time_Sleep w s d) \<le> patience s \<and>
        (flush_fails w s \<or> read_fails w s \<longrightarrow> patience (time_Sleep w s d) < patience s))"

text \<open>The invariant of the trace: the coordinator has a prefix of the log, and the next patch starts inside it.\<close>

definition trace_ok :: "('srv \<Rightarrow> bytes) \<Rightarrow> clientJobTrace \<Rightarrow> 'srv \<Rightarrow> bool" where
  "trace_ok slog c s \<longleftrightarrow>
     prefix (slog s) (buffer c) \<and> 0 \<le> sentTrace c \<and> sentTrace c \<le> int (length (slog s)) \<and>
     0 < maxTracePatchSize c \<and> length (buffer c) < 2 ^ 63"

section \<open>Lemmas\<close>

lemma coordinator_okD:
  assumes "coordinator_ok w slog"
  shows "http_patch w s p off = (s', r) \<Longrightarrow>
      slog s' = slog s \<or> off = int (length (slog s)) \<and> slog s' = slog s @ p"
    and "http_patch w s p off = (s', Some resp) \<Longrightarrow> http_StatusCode resp = 202 \<Longrightarrow>
      off = int (length (slog s)) \<and> slog s' = slog s @ p"
    and "http_patch w s p off = (s', Some resp) \<Longrightarrow> http_StatusCode resp = 416 \<Longrightarrow>
      off \<noteq> int (length (slog s)) \<and> slog s' = slog s \<and> http_Range resp = ''0-'' @ decstr (length (slog s))"
    and "http_update w s info = (s', u) \<Longrightarrow> slog s' = slog s"
    and "slog (time_Sleep w s d) = slog s"
  using assms unfolding coordinator_ok_def by blast+

lemma NewOffset_range: "n < 2 ^ 63 \<Longrightarrow> NewOffset (''0-'' @ decstr n) = int n"
proof -
  assume n: "n < 2 ^ 63"
  have "split_char (CHR ''-'') ([CHR ''0''] @ CHR ''-'' # decstr n) = [CHR ''0''] # split_char (CHR ''-'') (decstr n)"
    by (rule split_char_once) simp
  then show ?thesis using n by (simp add: NewOffset_def split_char_none decstr_no_sign Atoi_decstr)
qed

lemma setUpdateInterval_keeps [simp]:
  "buffer (setUpdateInterval d c) = buffer c" "sentTrace (setUpdateInterval d c) = sentTrace c"
  "maxTracePatchSize (setUpdateInterval d c) = maxTracePatchSize c"
  "job_state (setUpdateInterval d c) = job_state c"
  by (simp_all add: setUpdateInterval_def Let_def)

lemma trace_ok_setUpdateInterval [simp]: "trace_ok slog (setUpdateInterval d c) s = trace_ok slog c s"
  by (simp add: trace_ok_def)

lemma trace_ok_cong:
  "slog s' = slog s \<Longrightarrow> buffer c' = buffer c \<Longrightarrow> sentTrace c' = sentTrace c \<Longrightarrow>
   maxTracePatchSize c' = maxTracePatchSize c \<Longrightarrow> trace_ok slog c' s' = trace_ok slog c s"
  by (simp add: trace_ok_def)

text \<open>Nothing is read from beyond the log.\<close>

lemma Bytes_trace_ok:
  assumes "trace_ok slog c s"
  shows "Bytes w s c (sentTrace c) (maxTracePatchSize c) =
    (if flush_fails w s then Some (Inl ''flushing log buffer'')
     else if read_fails w s then Some (Inl ''reading log file'')
     else Some (Inr (take (nat (maxTracePatchSize c)) (drop (nat (sentTrace c)) (buffer c)))))"
proof -
  have "sentTrace c \<le> int (length (buffer c))"
    using assms prefix_length_le by (fastforce simp: trace_ok_def)
  then show ?thesis
    using assms by (auto simp: Bytes_def trace_ok_def Let_def Size_def nat_diff_distrib)
qed

text \<open>A piece of the log appended to the prefix the coordinator has is again a prefix.\<close>

lemma prefix_append_piece: "prefix xs ys \<Longrightarrow> prefix (xs @ take n (drop (length xs) ys)) ys"
  by (auto simp: prefix_def) (metis append_take_drop_id)

lemma createPatchTraceResult_state:
  "pt_State (createPatchTraceResult a r b) = PatchSucceeded \<Longrightarrow>
     http_StatusCode r = 202 \<and> SentOffset (createPatchTraceResult a r b) = b"
  "pt_State (createPatchTraceResult a r b) = PatchRangeMismatch \<Longrightarrow>
     http_StatusCode r = 416 \<and> SentOffset (createPatchTraceResult a r b) = NewOffset (http_Range r)"
  by (auto simp: createPatchTraceResult_def Let_def split: if_splits)

text \<open>A request that is sent: the log of the coordinator stays a prefix, and where the trace moves its offset, the
  offset becomes the length of that log.\<close>

lemma PatchTrace_sent:
  assumes co: "coordinator_ok w slog" and ok: "trace_ok slog c s"
    and p: "p = take (nat (maxTracePatchSize c)) (drop (nat (sentTrace c)) (buffer c))" "p \<noteq> []"
    and call: "PatchTrace w s p (sentTrace c) = (s', result)"
  shows "prefix (slog s) (slog s')" "prefix (slog s') (buffer c)"
    and "pt_State result = PatchSucceeded \<Longrightarrow>
      SentOffset result = int (length (slog s')) \<and> length (slog s) < length (slog s')"
    and "pt_State result = PatchRangeMismatch \<Longrightarrow>
      SentOffset result = int (length (slog s')) \<and> slog s' = slog s \<and> sentTrace c \<noteq> int (length (slog s))"
proof -
  obtain r where r: "http_patch w s p (sentTrace c) = (s', r)"
    and result: "result = (case r of None \<Rightarrow> NewPatchTraceResult (sentTrace c) PatchFailed 0
      | Some resp \<Rightarrow> createPatchTraceResult (sentTrace c) resp (sentTrace c + int (length p)))"
    using call p(2) by (auto simp: PatchTrace_def Let_def split: prod.splits option.splits)
  have pre: "prefix (slog s) (buffer c)" using ok by (simp add: trace_ok_def)
  have step: "slog s' = slog s \<or> sentTrace c = int (length (slog s)) \<and> slog s' = slog s @ p"
    by (rule coordinator_okD(1) [OF co r])
  then show "prefix (slog s) (slog s')" by auto
  show "prefix (slog s') (buffer c)" using step pre prefix_append_piece [OF pre] p(1) by auto
  have len: "length (slog s) < 2 ^ 63" using ok prefix_length_le [OF pre] by (simp add: trace_ok_def)
  show "SentOffset result = int (length (slog s')) \<and> length (slog s) < length (slog s')"
    if st: "pt_State result = PatchSucceeded"
  proof (cases r)
    case None
    then show ?thesis using st result by (simp add: NewPatchTraceResult_def)
  next
    case (Some resp)
    then have "http_StatusCode resp = 202" "SentOffset result = sentTrace c + int (length p)"
      using createPatchTraceResult_state(1) st result by auto
    then show ?thesis using coordinator_okD(2) [OF co r [unfolded Some]] p(2) by simp
  qed
  show "SentOffset result = int (length (slog s')) \<and> slog s' = slog s \<and> sentTrace c \<noteq> int (length (slog s))"
    if st: "pt_State result = PatchRangeMismatch"
  proof (cases r)
    case None
    then show ?thesis using st result by (simp add: NewPatchTraceResult_def)
  next
    case (Some resp)
    then have "http_StatusCode resp = 416" "SentOffset result = NewOffset (http_Range resp)"
      using createPatchTraceResult_state(2) st result by auto
    then show ?thesis using coordinator_okD(3) [OF co r [unfolded Some]] NewOffset_range [OF len] by simp
  qed
qed

lemma sendPatch_inv:
  assumes co: "coordinator_ok w slog" and ok: "trace_ok slog c s"
  obtains c' s' result where "sendPatch w c s = Some (c', s', result)" "trace_ok slog c' s'"
    "buffer c' = buffer c" "maxTracePatchSize c' = maxTracePatchSize c" "job_state c' = job_state c"
    "prefix (slog s) (slog s')"
    "pt_State result = PatchSucceeded \<Longrightarrow> anyTraceToSend c \<Longrightarrow> length (slog s) < length (slog s')"
    "pt_State result = PatchRangeMismatch \<Longrightarrow> slog s' = slog s \<and> sentTrace c \<noteq> int (length (slog s)) \<and>
       sentTrace c' = int (length (slog s))"
proof -
  let ?p = "take (nat (maxTracePatchSize c)) (drop (nat (sentTrace c)) (buffer c))"
  note B = Bytes_trace_ok [OF ok, of w]
  consider (fails) "flush_fails w s \<or> read_fails w s" | (empty) "\<not> flush_fails w s" "\<not> read_fails w s" "?p = []"
    | (sent) "\<not> flush_fails w s" "\<not> read_fails w s" "?p \<noteq> []"
    by blast
  then show ?thesis
  proof cases
    case fails
    then show ?thesis by (intro that) (auto simp: sendPatch_def B ok)
  next
    case empty
    then have "\<not> anyTraceToSend c"
      using ok prefix_length_le [of "slog s" "buffer c"] by (auto simp: trace_ok_def anyTraceToSend_def Size_def)
    then show ?thesis using empty by (intro that) (auto simp: sendPatch_def B ok)
  next
    case sent
    obtain s' result where call: "PatchTrace w s ?p (sentTrace c) = (s', result)" by fastforce
    note P = PatchTrace_sent [OF co ok refl sent(3) call]
    let ?c1 = "setUpdateInterval (pt_NewUpdateInterval result) c"
    let ?c = "if pt_State result = PatchSucceeded \<or> pt_State result = PatchRangeMismatch
      then ?c1\<lparr>sentTime := time_Now w s', sentTrace := SentOffset result\<rparr> else ?c1"
    have eq: "sendPatch w c s = Some (?c, s', result)"
      using sent unfolding sendPatch_def B by (simp add: call Let_def)
    have "trace_ok slog ?c s'"
      using ok P prefix_length_le [OF P(1)] by (auto simp: trace_ok_def)
    then show ?thesis using P by (intro that [OF eq]) auto
  qed
qed

lemma UpdateJob_slog: "coordinator_ok w slog \<Longrightarrow> UpdateJob w s info = (s', result) \<Longrightarrow> slog s' = slog s"
  by (auto simp: UpdateJob_def coordinator_okD(4) split: prod.splits)

lemma jt_Cancel_keeps [simp]:
  "buffer (fst (jt_Cancel c)) = buffer c" "trace_ok slog (fst (jt_Cancel c)) s = trace_ok slog c s"
  "job_state (fst (jt_Cancel c)) = job_state c"
  by (auto simp: jt_Cancel_def SetCancelFunc_def trace_ok_def)

lemma jt_Abort_keeps [simp]:
  "buffer (fst (jt_Abort c)) = buffer c" "trace_ok slog (fst (jt_Abort c)) s = trace_ok slog c s"
  "job_state (fst (jt_Abort c)) = job_state c"
  by (auto simp: jt_Abort_def SetAbortFunc_def SetCancelFunc_def trace_ok_def)

lemma touchJob_inv:
  assumes "coordinator_ok w slog" "trace_ok slog c s" "touchJob w c s = (c', s', r)"
  shows "trace_ok slog c' s'" "buffer c' = buffer c" "slog s' = slog s" "job_state c' = job_state c"
  using assms UpdateJob_slog [OF assms(1)]
  by (auto simp: touchJob_def Let_def trace_ok_def split: prod.splits if_splits)

lemma sendUpdate_inv:
  assumes "coordinator_ok w slog" "trace_ok slog c s" "sendUpdate w c s = (c', s', st)"
  shows "trace_ok slog c' s'" "buffer c' = buffer c" "slog s' = slog s" "st = UpdateSucceeded \<Longrightarrow> sentTrace c' = sentTrace c"
  using assms UpdateJob_slog [OF assms(1)]
  by (auto simp: sendUpdate_def Let_def trace_ok_def split: prod.splits if_splits)

lemma incrementalUpdate_inv:
  assumes co: "coordinator_ok w slog" and ok: "trace_ok slog c s"
  obtains c' s' running where "incrementalUpdate w c s = Some (c', s', running)" "trace_ok slog c' s'"
    "buffer c' = buffer c" "prefix (slog s) (slog s')" "job_state c' = job_state c"
proof -
  obtain c1 s1 r where send: "sendPatch w c s = Some (c1, s1, r)" "trace_ok slog c1 s1" "buffer c1 = buffer c"
      "prefix (slog s) (slog s1)" "job_state c1 = job_state c"
    using sendPatch_inv [OF co ok] by metis
  define c2 where "c2 = (if pt_CancelRequested r then fst (jt_Cancel c1) else c1)"
  have c2: "trace_ok slog c2 s1" "buffer c2 = buffer c" "job_state c2 = job_state c"
    using send by (auto simp: c2_def)
  obtain c3 s3 t where touch: "touchJob w c2 s1 = (c3, s3, t)" by (metis surj_pair)
  note T = touchJob_inv [OF co c2(1) touch]
  let ?c3 = "if up_CancelRequested t then fst (jt_Cancel c3) else c3"
  have c3: "trace_ok slog ?c3 s3" "buffer ?c3 = buffer c" "job_state ?c3 = job_state c" using T c2 by auto
  have eq: "incrementalUpdate w c s =
    (case pt_State r of
       PatchSucceeded \<Rightarrow> if up_State t = UpdateAbort then Some (fst (jt_Abort ?c3), s3, False) else Some (?c3, s3, True)
     | PatchAbort \<Rightarrow> Some (fst (jt_Abort c2), s1, False)
     | _ \<Rightarrow> Some (c2, s1, True))"
    unfolding incrementalUpdate_def send(1) option.case prod.case Let_def c2_def [symmetric] touch ..
  show ?thesis
    using eq c2 c3 T(3) send(4) by (cases "pt_State r") (auto split: if_splits intro!: that)
qed

lemma trace_ok_sleep: "coordinator_ok w slog \<Longrightarrow> trace_ok slog c (time_Sleep w s d) = trace_ok slog c s"
  by (simp add: trace_ok_def coordinator_okD(5))

lemma ensureAllTraceSent_inv:
  assumes "ensureAllTraceSent w c s = Some y" "coordinator_ok w slog" "trace_ok slog c s"
  shows "trace_ok slog (fst y) (snd y) \<and> buffer (fst y) = buffer c \<and> prefix (slog s) (slog (snd y))"
  using assms
proof (induction rule: ensureAllTraceSent.raw_induct [rotated, consumes 1, case_names turn])
  case (turn rec w c s y)
  show ?case
  proof (cases "anyTraceToSend c")
    case False
    then show ?thesis using turn(2-4) by auto
  next
    case True
    obtain c1 s1 r where send: "sendPatch w c s = Some (c1, s1, r)" "trace_ok slog c1 s1" "buffer c1 = buffer c"
        "prefix (slog s) (slog s1)"
      using sendPatch_inv [OF turn(3,4)] by metis
    have IH: "rec w c1 s2 = Some y \<Longrightarrow> slog s2 = slog s1 \<Longrightarrow>
      trace_ok slog (fst y) (snd y) \<and> buffer (fst y) = buffer c \<and> prefix (slog s) (slog (snd y))" for s2
      using turn(1) [of w c1 s2 y, OF _ turn(3)] send prefix_order.trans by (fastforce simp: trace_ok_def)
    show ?thesis
      using turn(2) True send IH coordinator_okD(5) [OF turn(3)]
      by (auto split: PatchState.splits)
  qed
qed

lemma responsiveD:
  assumes "responsive w patience"
  shows "http_patch w s p off = (s', r) \<Longrightarrow> patience s' \<le> patience s"
    and "http_patch w s p off = (s', None) \<Longrightarrow> patience s' < patience s"
    and "http_patch w s p off = (s', Some resp) \<Longrightarrow> \<not> IsFailed (NewRemoteJobStateResponse (Some resp)) \<and>
      http_StatusCode resp \<noteq> 404 \<and> http_StatusCode resp \<noteq> - 100 \<and>
      (http_StatusCode resp \<noteq> 202 \<and> http_StatusCode resp \<noteq> 416 \<longrightarrow> patience s' < patience s)"
    and "http_update w s info = (s', code, u) \<Longrightarrow> patience s' \<le> patience s"
    and "http_update w s info = (s', code, u) \<Longrightarrow>
      up_State (createUpdateJobResult code u) \<noteq> UpdateSucceeded \<Longrightarrow>
      up_State (createUpdateJobResult code u) \<noteq> UpdateAbort \<Longrightarrow> patience s' < patience s"
    and "patience (time_Sleep w s d) \<le> patience s"
    and "flush_fails w s \<or> read_fails w s \<Longrightarrow> patience (time_Sleep w s d) < patience s"
  using assms unfolding responsive_def by (fastforce split: option.splits)+

text \<open>A patch that does not get through uses up patience.\<close>

lemma sendPatch_patience:
  assumes re: "responsive w patience" and ok: "trace_ok slog c s" and send: "sendPatch w c s = Some (c', s', r)"
  shows "patience s' \<le> patience s" "pt_State r \<noteq> PatchAbort" "pt_State r \<noteq> PatchNotFound"
    and "pt_State r = PatchFailed \<Longrightarrow> patience (time_Sleep w s' d) < patience s"
proof -
  let ?p = "take (nat (maxTracePatchSize c)) (drop (nat (sentTrace c)) (buffer c))"
  have "patience s' \<le> patience s \<and> pt_State r \<noteq> PatchAbort \<and> pt_State r \<noteq> PatchNotFound \<and>
    (pt_State r = PatchFailed \<longrightarrow> s' = s \<and> (flush_fails w s \<or> read_fails w s) \<or> patience s' < patience s)"
  proof (cases "flush_fails w s \<or> read_fails w s \<or> ?p = []")
    case True
    then show ?thesis using send by (auto simp: sendPatch_def Bytes_trace_ok [OF ok] split: if_splits)
  next
    case False
    obtain s1 resp where call: "http_patch w s ?p (sentTrace c) = (s1, resp)" by fastforce
    have r: "s' = s1" "r = (case resp of None \<Rightarrow> NewPatchTraceResult (sentTrace c) PatchFailed 0
      | Some resp \<Rightarrow> createPatchTraceResult (sentTrace c) resp (sentTrace c + int (length ?p)))"
      using send False call by (auto simp: sendPatch_def Bytes_trace_ok [OF ok] PatchTrace_def Let_def split: option.splits)
    show ?thesis
    proof (cases resp)
      case None
      then show ?thesis using r responsiveD(2) [OF re, of s ?p "sentTrace c" s1] call
        by (simp add: NewPatchTraceResult_def)
    next
      case (Some rs)
      then show ?thesis
        using r responsiveD(1,3) [OF re] call by (simp add: createPatchTraceResult_def Let_def)
    qed
  qed
  then show "patience s' \<le> patience s" "pt_State r \<noteq> PatchAbort" "pt_State r \<noteq> PatchNotFound"
    "pt_State r = PatchFailed \<Longrightarrow> patience (time_Sleep w s' d) < patience s"
    using responsiveD(7) [OF re, of s d] responsiveD(6) [OF re, of s' d] by auto
qed

text \<open>Every turn of the loop uses up patience, or extends the log of the coordinator, or corrects the offset.\<close>

definition unsent :: "('srv \<Rightarrow> bytes) \<Rightarrow> clientJobTrace \<Rightarrow> 'srv \<Rightarrow> nat" where
  "unsent slog c s =
     2 * (length (buffer c) - length (slog s)) + (if sentTrace c = int (length (slog s)) then 0 else 1)"

lemma ensureAllTraceSent_returns:
  assumes co: "coordinator_ok w slog" and re: "responsive w patience" and ok: "trace_ok slog c s"
  shows "\<exists>c' s'. ensureAllTraceSent w c s = Some (c', s') \<and> trace_ok slog c' s' \<and> buffer c' = buffer c \<and>
    slog s' = buffer c \<and> sentTrace c' = Size c \<and> patience s' \<le> patience s"
  using ok
proof (induction "(patience s, unsent slog c s)" arbitrary: c s rule: wf_induct_rule [OF wf_lex_prod [OF wf_less_than wf_less_than]])
  case (1 c s)
  show ?case
  proof (cases "anyTraceToSend c")
    case False
    have "prefix (slog s) (buffer c)" "length (buffer c) \<le> length (slog s)"
      using False 1(2) by (auto simp: anyTraceToSend_def trace_ok_def Size_def)
    then have "slog s = buffer c" by (auto simp: prefix_def)
    then show ?thesis using 1(2) False by (subst ensureAllTraceSent.simps) (simp add: anyTraceToSend_def)
  next
    case True
    obtain c1 s1 r where send: "sendPatch w c s = Some (c1, s1, r)" "trace_ok slog c1 s1" "buffer c1 = buffer c"
        "prefix (slog s) (slog s1)"
        "pt_State r = PatchSucceeded \<Longrightarrow> length (slog s) < length (slog s1)"
        "pt_State r = PatchRangeMismatch \<Longrightarrow> slog s1 = slog s \<and> sentTrace c \<noteq> int (length (slog s)) \<and>
           sentTrace c1 = int (length (slog s))"
      using sendPatch_inv [OF co 1(2)] True by metis
    let ?z = "time_Sleep w s1 (updateInterval c1)"
    note pat = sendPatch_patience [OF re 1(2) send(1)]
    have sl: "slog ?z = slog s1" by (rule coordinator_okD(5) [OF co])
    have zle: "patience ?z \<le> patience s1" by (rule responsiveD(6) [OF re])
    have bound: "length (slog s1) \<le> length (buffer c)"
      using send(2,3) prefix_length_le by (fastforce simp: trace_ok_def)
    have IH: "\<exists>c' s'. ensureAllTraceSent w c1 s2 = Some (c', s') \<and> trace_ok slog c' s' \<and> buffer c' = buffer c \<and>
        slog s' = buffer c \<and> sentTrace c' = Size c \<and> patience s' \<le> patience s"
      if "patience s2 < patience s \<or> patience s2 \<le> patience s \<and> unsent slog c1 s2 < unsent slog c s"
        "slog s2 = slog s1" for s2
    proof -
      have "((patience s2, unsent slog c1 s2), (patience s, unsent slog c s)) \<in> less_than <*lex*> less_than"
        using that(1) by auto
      moreover have "trace_ok slog c1 s2" using send(2) that(2) by (simp add: trace_ok_def)
      ultimately show ?thesis using 1(1) [of s2 c1] send(3) that(1) by (fastforce simp: Size_def)
    qed
    consider "pt_State r = PatchSucceeded" | "pt_State r = PatchRangeMismatch" | "pt_State r = PatchFailed"
      using pat(2,3) by (cases "pt_State r") auto
    then show ?thesis
    proof cases
      case 1
      have "unsent slog c1 s1 < unsent slog c s" using send(3) send(5) [OF 1] bound by (auto simp: unsent_def)
      then show ?thesis using IH [of s1] 1 pat(1) True by (subst ensureAllTraceSent.simps) (simp add: send(1))
    next
      case 2
      have "unsent slog c1 ?z < unsent slog c s" using send(3) send(6) [OF 2] sl by (auto simp: unsent_def)
      then show ?thesis using IH [of ?z] 2 pat(1) zle sl True by (subst ensureAllTraceSent.simps) (simp add: send(1))
    next
      case 3
      then show ?thesis using IH [of ?z] pat(4) [of "updateInterval c1"] sl True by (subst ensureAllTraceSent.simps) (simp add: send(1))
    qed
  qed
qed

lemma sendUpdate_patience:
  assumes "responsive w patience" "sendUpdate w c s = (c', s', st)"
  shows "patience s' \<le> patience s" "st \<noteq> UpdateSucceeded \<Longrightarrow> st \<noteq> UpdateAbort \<Longrightarrow> patience s' < patience s"
  using assms(2) responsiveD(4,5) [OF assms(1)]
  by (auto simp: sendUpdate_def UpdateJob_def Let_def split: prod.splits)

lemma finalUpdate_loop_returns:
  assumes co: "coordinator_ok w slog" and re: "responsive w patience" and ok: "trace_ok slog c s"
  shows "\<exists>c' s' st. finalUpdate_loop w c s = Some (c', s', st) \<and> trace_ok slog c' s' \<and> buffer c' = buffer c \<and>
    slog s' = buffer c \<and> st \<in> {UpdateSucceeded, UpdateAbort}"
  using ok
proof (induction "patience s" arbitrary: c s rule: less_induct)
  case less
  obtain c1 s1 where send: "ensureAllTraceSent w c s = Some (c1, s1)" "trace_ok slog c1 s1" "buffer c1 = buffer c"
      "slog s1 = buffer c" "patience s1 \<le> patience s"
    using ensureAllTraceSent_returns [OF co re less(2)] by blast
  obtain c2 s2 st where up: "sendUpdate w c1 s1 = (c2, s2, st)" by (metis surj_pair)
  note U = sendUpdate_inv [OF co send(2) up]
  show ?case
  proof (cases "st \<in> {UpdateSucceeded, UpdateAbort}")
    case True
    then show ?thesis using U send up by (subst finalUpdate_loop.simps) auto
  next
    case False
    have st: "st \<noteq> UpdateNotFound"
      using up by (auto simp: sendUpdate_def UpdateJob_def createUpdateJobResult_def Let_def split: prod.splits if_splits)
    let ?z = "time_Sleep w s2 (updateInterval c2)"
    have "patience ?z < patience s"
      using responsiveD(6) [OF re, of s2 "updateInterval c2"] sendUpdate_patience(2) [OF re up] send(5) False by auto
    moreover have "trace_ok slog c2 ?z" using U(1) by (simp add: trace_ok_sleep [OF co])
    ultimately show ?thesis using less(1) [of ?z c2] U(2) send st False up by (subst finalUpdate_loop.simps) auto
  qed
qed

section \<open>Runs of the system\<close>

text \<open>A job starts with an empty log on both sides; the runner may have set its functions and its collector.\<close>

definition jt_init :: "('srv \<Rightarrow> bytes) \<Rightarrow> 'srv jt_system \<Rightarrow> bool" where
  "jt_init slog y \<longleftrightarrow>
     (\<exists>limit dynamic cf af fc. sys_trace y =
        SetFailuresCollector fc (SetAbortFunc af (SetCancelFunc cf (jt_start limit (newJobTrace dynamic))))) \<and>
     slog (sys_srv y) = [] \<and> sys_watcher y = Watching"

lemma jt_init_ok: "jt_init slog y \<Longrightarrow> trace_ok slog (sys_trace y) (sys_srv y)"
  by (auto simp: jt_init_def SetFailuresCollector_def SetAbortFunc_def SetCancelFunc_def jt_start_def setupLogLimit_def
      newJobTrace_def trace_ok_def Let_def)

lemma trace_ok_append:
  "trace_ok slog c s \<Longrightarrow> length (buffer c) + length p < 2 ^ 63 \<Longrightarrow> trace_ok slog (c\<lparr>buffer := buffer c @ p\<rparr>) s"
  by (auto simp: trace_ok_def)

lemma complete_keeps:
  assumes "complete failure c = (c', b)"
  shows "buffer c' = buffer c" "trace_ok slog c' s = trace_ok slog c s"
  using assms by (auto simp: complete_def setFailure_def trace_ok_def Let_def split: if_splits option.splits)

lemma finalUpdate_loop_inv:
  assumes "finalUpdate_loop w c s = Some y" "coordinator_ok w slog" "trace_ok slog c s"
  shows "trace_ok slog (fst y) (fst (snd y)) \<and> buffer (fst y) = buffer c"
  using assms
proof (induction rule: finalUpdate_loop.raw_induct [rotated, consumes 1, case_names turn])
  case (turn rec w c s y)
  obtain c1 s1 where e: "ensureAllTraceSent w c s = Some (c1, s1)" using turn(2) by (auto split: option.splits)
  note E = ensureAllTraceSent_inv [OF e turn(3,4), simplified]
  obtain c2 s2 st where u: "sendUpdate w c1 s1 = (c2, s2, st)" by (metis surj_pair)
  have ok1: "trace_ok slog c1 s1" using E by simp
  note U = sendUpdate_inv [OF turn(3) ok1 u]
  show ?case
    using turn(1) [of w c2 _ y, OF _ turn(3)] turn(2) E U trace_ok_sleep [OF turn(3)]
    by (auto simp: e u split: if_splits)
qed

lemma jt_step_inv:
  assumes "coordinator_ok w slog" "trace_ok slog (sys_trace y) (sys_srv y)" "jt_step w y e y'"
  shows "trace_ok slog (sys_trace y') (sys_srv y')"
  using assms(3)
proof cases
  case (log_write p)
  then show ?thesis using trace_ok_append [OF assms(2)] by simp
next
  case (tick c s running)
  have "trace_ok slog c s" by (rule incrementalUpdate_inv [OF assms(1,2)]) (simp add: tick(4))
  then show ?thesis by (simp add: tick(2))
next
  case (job_done failure c held c' s' st)
  have "trace_ok slog c (sys_srv y)" using assms(2) by (simp add: complete_keeps(2) [OF job_done(3)])
  then have "trace_ok slog (c\<lparr>buffer := buffer c @ held\<rparr>) (sys_srv y)" by (rule trace_ok_append [OF _ job_done(4)])
  then have "trace_ok slog c' s'"
    using finalUpdate_loop_inv [OF job_done(5) [unfolded jt_finish_def finalUpdate_def] assms(1)] by simp
  then show ?thesis by (simp add: job_done(2))
qed

lemma jt_reachable_ok:
  assumes "coordinator_ok w slog" "reachable (jt_init slog) (jt_step w) y"
  shows "trace_ok slog (sys_trace y) (sys_srv y)"
proof -
  have "invariant_of (jt_init slog) (jt_step w) (\<lambda>y. trace_ok slog (sys_trace y) (sys_srv y))"
    by unfold_locales (auto intro: jt_init_ok jt_step_inv [OF assms(1)])
  then show ?thesis by (rule invariant_of.reachable_inv [OF _ assms(2)])
qed

text \<open>The intervals are only changed by \<open>setUpdateInterval\<close>.\<close>

definition intervals_ok :: "clientJobTrace \<Rightarrow> bool" where
  "intervals_ok c \<longleftrightarrow> 0 < updateInterval c \<and> updateInterval c \<le> 15 * minute \<and>
     30 * second \<le> forceSendInterval c \<and> forceSendInterval c \<le> 30 * minute"

lemma intervals_set [simp]: "intervals_ok c \<Longrightarrow> intervals_ok (setUpdateInterval d c)"
  by (auto simp: intervals_ok_def setUpdateInterval_def Let_def)

lemma intervals_Cancel [simp]: "intervals_ok (fst (jt_Cancel c)) = intervals_ok c"
  by (simp add: intervals_ok_def jt_Cancel_def SetCancelFunc_def)

lemma intervals_Abort [simp]: "intervals_ok (fst (jt_Abort c)) = intervals_ok c"
  by (simp add: intervals_ok_def jt_Abort_def SetAbortFunc_def SetCancelFunc_def)

lemma intervals_update [simp]:
  "intervals_ok (c\<lparr>sentTime := x\<rparr>) = intervals_ok c" "intervals_ok (c\<lparr>sentTrace := y\<rparr>) = intervals_ok c"
  "intervals_ok (c\<lparr>buffer := b\<rparr>) = intervals_ok c"
  by (simp_all add: intervals_ok_def)

lemma intervals_sendPatch: "sendPatch w c s = Some (c', s', r) \<Longrightarrow> intervals_ok c \<Longrightarrow> intervals_ok c'"
  by (auto simp: sendPatch_def Let_def split: option.splits sum.splits prod.splits if_splits)

lemma intervals_touchJob: "touchJob w c s = (c', s', r) \<Longrightarrow> intervals_ok c \<Longrightarrow> intervals_ok c'"
  by (auto simp: touchJob_def Let_def split: prod.splits if_splits)

lemma intervals_sendUpdate: "sendUpdate w c s = (c', s', st) \<Longrightarrow> intervals_ok c \<Longrightarrow> intervals_ok c'"
  by (auto simp: sendUpdate_def Let_def split: prod.splits if_splits)

lemma intervals_incrementalUpdate:
  assumes "incrementalUpdate w c s = Some (c', s', b)" "intervals_ok c"
  shows "intervals_ok c'"
proof -
  obtain c1 s1 r where send: "sendPatch w c s = Some (c1, s1, r)"
    using assms(1) by (auto simp: incrementalUpdate_def split: option.splits)
  then have c1: "intervals_ok c1" by (rule intervals_sendPatch) (rule assms(2))
  define c2 where "c2 = (if pt_CancelRequested r then fst (jt_Cancel c1) else c1)"
  have c2: "intervals_ok c2" using c1 by (simp add: c2_def)
  obtain c3 s3 t where touch: "touchJob w c2 s1 = (c3, s3, t)" by (metis surj_pair)
  have c3: "intervals_ok c3" by (rule intervals_touchJob [OF touch c2])
  show ?thesis
    using assms(1) c2 c3 unfolding incrementalUpdate_def send option.case prod.case Let_def c2_def [symmetric] touch
    by (auto split: PatchState.splits if_splits)
qed

lemma intervals_ensureAllTraceSent:
  assumes "ensureAllTraceSent w c s = Some y" "intervals_ok c"
  shows "intervals_ok (fst y)"
  using assms
  by (induction rule: ensureAllTraceSent.raw_induct [rotated, consumes 1, case_names turn])
    (auto split: if_splits option.splits PatchState.splits dest!: intervals_sendPatch)

lemma intervals_finalUpdate_loop:
  assumes "finalUpdate_loop w c s = Some y" "intervals_ok c"
  shows "intervals_ok (fst y)"
  using assms
  by (induction rule: finalUpdate_loop.raw_induct [rotated, consumes 1, case_names turn])
    (auto split: if_splits option.splits prod.splits dest!: intervals_ensureAllTraceSent intervals_sendUpdate)

lemma intervals_step:
  assumes "intervals_ok (sys_trace y)" "jt_step w y e y'"
  shows "intervals_ok (sys_trace y')"
  using assms(2)
proof cases
  case (job_done failure c held c' s' st)
  have "intervals_ok c"
    using job_done(3) assms(1)
    by (auto simp: complete_def setFailure_def intervals_ok_def Let_def split: if_splits option.splits)
  then show ?thesis
    using intervals_finalUpdate_loop [OF job_done(5) [unfolded jt_finish_def finalUpdate_def]] job_done(2) by simp
qed (use assms(1) intervals_incrementalUpdate in auto)

section \<open>A coordinator that loses responses\<close>

text \<open>Its state is its log and the number of responses it is still going to lose.\<close>

definition lossy :: "(bytes \<times> nat) world" where
  "lossy =
     \<lparr>http_patch = (\<lambda>(l, k) p off.
        if off = int (length l)
        then ((l @ p, k - 1), if k > 0 then None else
           Some \<lparr>http_StatusCode = 202, http_JobStatus = ''running'', http_Range = [], http_UpdateInterval = ''5''\<rparr>)
        else ((l, k),
           Some \<lparr>http_StatusCode = 416, http_JobStatus = ''running'', http_Range = ''0-'' @ decstr (length l),
                 http_UpdateInterval = []\<rparr>)),
      http_update = (\<lambda>s info. (s, 200,
        Some \<lparr>http_StatusCode = 200, http_JobStatus = ''running'', http_Range = [], http_UpdateInterval = []\<rparr>)),
      flush_fails = (\<lambda>s. False), read_fails = (\<lambda>s. False), time_Now = (\<lambda>s. 0), time_Sleep = (\<lambda>s d. s)\<rparr>"

lemma lossy_ok: "coordinator_ok lossy fst"
  unfolding coordinator_ok_def by (auto simp: lossy_def split: if_splits)

lemma lossy_responsive: "responsive lossy snd"
  unfolding responsive_def
  by (auto simp: lossy_def IsFailed_def NewRemoteJobStateResponse_def createUpdateJobResult_def split: if_splits)

text \<open>A run with one loss: the log is written, the response to its patch gets lost, more is written.\<close>

definition lossy_start :: "(bytes \<times> nat) jt_system" where
  "lossy_start = \<lparr>sys_trace = SetFailuresCollector False (SetAbortFunc False (SetCancelFunc False
     (jt_start 0 (newJobTrace False)))), sys_srv = ([], 1), sys_watcher = Watching\<rparr>"

definition lossy_run :: "(bytes \<times> nat) jt_system" where
  "lossy_run = lossy_start\<lparr>sys_trace := (sys_trace lossy_start)\<lparr>buffer := ''line1line2''\<rparr>, sys_srv := (''line1'', 0)\<rparr>"

lemma lossy_start_fields [simp]:
  "buffer (sys_trace lossy_start) = []" "sentTrace (sys_trace lossy_start) = 0"
  "maxTracePatchSize (sys_trace lossy_start) = 1024 * 1024" "sys_srv lossy_start = ([], 1)"
  "sys_watcher lossy_start = Watching" "job_state (sys_trace lossy_start) = JobRunning"
  by (simp_all add: lossy_start_def SetFailuresCollector_def SetAbortFunc_def SetCancelFunc_def jt_start_def
      setupLogLimit_def newJobTrace_def Let_def)

lemma lossy_tick:
  assumes "c = (sys_trace lossy_start)\<lparr>buffer := ''line1''\<rparr>"
  shows "incrementalUpdate lossy c ([], 1) = Some (c, (''line1'', 0), True)"
  by (simp add: assms incrementalUpdate_def sendPatch_def Bytes_def Size_def PatchTrace_def lossy_def
      NewPatchTraceResult_def wrap64_def setUpdateInterval_def Let_def)

lemma lossy_run_reachable: "reachable (jt_init fst) (jt_step lossy) lossy_run"
proof -
  let ?y1 = "lossy_start\<lparr>sys_trace := (sys_trace lossy_start)\<lparr>buffer := ''line1''\<rparr>\<rparr>"
  let ?y2 = "?y1\<lparr>sys_trace := sys_trace ?y1, sys_srv := (''line1'', 0), sys_watcher := (if True then Watching else WaitFinished)\<rparr>"
  have "jt_init fst lossy_start" unfolding jt_init_def by (simp add: lossy_start_def) blast
  then have "reachable (jt_init fst) (jt_step lossy) lossy_start" by (rule reach_init)
  moreover have "jt_step lossy lossy_start (LogWrite ''line1'') ?y1"
    using log_write [of lossy_start "''line1''" lossy] by simp
  ultimately have "reachable (jt_init fst) (jt_step lossy) ?y1" by (rule reach_step)
  moreover have "jt_step lossy ?y1 Tick ?y2"
    by (rule tick) (simp_all add: lossy_tick [OF refl, simplified])
  ultimately have "reachable (jt_init fst) (jt_step lossy) ?y2" by (rule reach_step)
  moreover have "jt_step lossy ?y2 (LogWrite ''line2'') lossy_run"
    using log_write [of ?y2 "''line2''" lossy] by (simp add: lossy_run_def lossy_start_def)
  ultimately show ?thesis by (rule reach_step)
qed

section \<open>Theorems\<close>

text \<open>C23: in every run of a job, writes to the log and updates in any order, with a coordinator that may lose
  responses, the coordinator has a prefix of the log: no byte is lost, repeated or reordered. And no update reads
  beyond the end of the log, which would panic.\<close>

theorem coordinator_has_prefix:
  assumes "coordinator_ok w slog" "reachable (jt_init slog) (jt_step w) y"
  shows "prefix (slog (sys_srv y)) (buffer (sys_trace y)) \<and>
    sendPatch w (sys_trace y) (sys_srv y) \<noteq> None \<and> incrementalUpdate w (sys_trace y) (sys_srv y) \<noteq> None"
proof (intro conjI)
  have ok: "trace_ok slog (sys_trace y) (sys_srv y)" by (rule jt_reachable_ok [OF assms])
  then show "prefix (slog (sys_srv y)) (buffer (sys_trace y))" by (simp add: trace_ok_def)
  show "sendPatch w (sys_trace y) (sys_srv y) \<noteq> None" by (rule sendPatch_inv [OF assms(1) ok]) simp
  show "incrementalUpdate w (sys_trace y) (sys_srv y) \<noteq> None" by (rule incrementalUpdate_inv [OF assms(1) ok]) simp
qed

theorem coordinator_has_prefix_witness:
  "prefix (fst (sys_srv lossy_run)) (buffer (sys_trace lossy_run)) \<and> fst (sys_srv lossy_run) = ''line1'' \<and>
   incrementalUpdate lossy (sys_trace lossy_run) (sys_srv lossy_run) \<noteq> None"
  using coordinator_has_prefix [OF lossy_ok lossy_run_reachable] by (simp add: lossy_run_def)

text \<open>C24: when a job ends and the coordinator answers in the end, the final update terminates, the coordinator has
  the whole log including what the writers held back, and the job is reported or was taken away.\<close>

theorem finish_delivers_log:
  assumes "coordinator_ok w slog" "responsive w patience" "reachable (jt_init slog) (jt_step w) y"
    and "complete failure (sys_trace y) = (c, True)" "length (buffer (sys_trace y)) + length held < 2 ^ 63"
  shows "\<exists>c' s' st. jt_finish w held c (sys_srv y) = Some (c', s', st) \<and>
    slog s' = buffer (sys_trace y) @ held \<and> buffer c' = buffer (sys_trace y) @ held \<and>
    st \<in> {UpdateSucceeded, UpdateAbort}"
proof -
  have "trace_ok slog c (sys_srv y)"
    using jt_reachable_ok [OF assms(1,3)] by (simp add: complete_keeps(2) [OF assms(4)])
  then have "trace_ok slog (setUpdateInterval (3 * second) (c\<lparr>buffer := buffer c @ held\<rparr>)) (sys_srv y)"
    using trace_ok_append assms(5) complete_keeps(1) [OF assms(4)] by fastforce
  then show ?thesis
    using finalUpdate_loop_returns [OF assms(1,2)] complete_keeps(1) [OF assms(4)]
    unfolding jt_finish_def finalUpdate_def by fastforce
qed

theorem finish_delivers_log_witness:
  "\<exists>c' s' st. jt_finish lossy ''!'' (fst (complete None (sys_trace lossy_run))) (sys_srv lossy_run) = Some (c', s', st) \<and>
    fst s' = ''line1line2!'' \<and> st \<in> {UpdateSucceeded, UpdateAbort}"
  using finish_delivers_log [OF lossy_ok lossy_responsive lossy_run_reachable, of None _ "''!''"]
  by (simp add: lossy_run_def complete_def) blast

text \<open>whatever interval a coordinator asks for, also one that overflows a duration, the runner waits more than
  nothing and at most 15 minutes between updates, and touches the job after 30 seconds at the earliest and after 30
  minutes at the latest.\<close>

theorem intervals_bounded:
  assumes "reachable (jt_init slog) (jt_step w) y"
  shows "0 < updateInterval (sys_trace y) \<and> updateInterval (sys_trace y) \<le> 15 * minute \<and>
    30 * second \<le> forceSendInterval (sys_trace y) \<and> forceSendInterval (sys_trace y) \<le> 30 * minute"
proof -
  have "invariant_of (jt_init slog) (jt_step w) (\<lambda>y. intervals_ok (sys_trace y))"
  proof unfold_locales
    show "intervals_ok (sys_trace y)" if "jt_init slog y" for y :: "'a jt_system"
      using that by (auto simp: jt_init_def SetFailuresCollector_def SetAbortFunc_def SetCancelFunc_def jt_start_def
          setupLogLimit_def newJobTrace_def intervals_ok_def Let_def)
  qed (rule intervals_step)
  then have "intervals_ok (sys_trace y)" by (rule invariant_of.reachable_inv [OF _ assms])
  then show ?thesis by (simp add: intervals_ok_def)
qed

theorem intervals_bounded_witness:
  "0 < updateInterval (sys_trace lossy_run) \<and> updateInterval (sys_trace lossy_run) \<le> 15 * minute"
  using intervals_bounded [OF lossy_run_reachable] by simp

text \<open>A coordinator whose log is longer than the log of the runner answers a patch with an offset beyond its end:
  the next patch panics.\<close>

theorem range_beyond_log_panics:
  assumes "c = (sys_trace lossy_start)\<lparr>buffer := ''line1''\<rparr>" "s = (''a longer log'', 0)"
  shows "\<exists>c' r. sendPatch lossy c s = Some (c', s, r) \<and> sendPatch lossy c' s = None"
proof -
  have "NewOffset (''0-'' @ decstr (length ''a longer log'')) = 12" by (subst NewOffset_range) simp_all
  then show ?thesis
    by (simp add: assms sendPatch_def Bytes_def Size_def PatchTrace_def lossy_def createPatchTraceResult_def
        NewRemoteJobStateResponse_def IsFailed_def setUpdateInterval_def Let_def)
qed

end
