(* ===== verification/UpdateRef.thy ===== *)
theory UpdateRef
  imports Strconv
begin

text \<open>
  Updating references in bulk, \<open>internal/git/updateref/updateref.go\<close> of Gitaly: a state machine around a process
  \<open>git update-ref --stdin -z\<close>. The process is a parameter: a state of any type and what writing to it, reading a
  line from it, waiting for it and its standard error give. The regular expressions that classify its errors are
  modelled as lists of tokens with a backtracking matcher.
\<close>

section \<open>The process\<close>

datatype git_error =
    GitError string | ContextCanceled | ContextDeadlineExceeded
  | ErrAlreadyLocked string
  | ErrInvalidReferenceFormat string
  | ErrFileDirectoryConflict string string
  | ErrInTransactionConflict string string
  | NonExistentObjectError string string
  | NonCommitObjectError string string
  | InvalidStateTransition string string
  | StateUpdateNotSuccessful string string
  | Fallback git_error string
  | GitWrapped string git_error

text \<open>\<open>errors.Is\<close> on errors that wrap another one.\<close>

fun git_error_is :: "git_error \<Rightarrow> git_error \<Rightarrow> bool" where
  "git_error_is (Fallback e s) target \<longleftrightarrow> Fallback e s = target \<or> git_error_is e target"
| "git_error_is (GitWrapped s e) target \<longleftrightarrow> GitWrapped s e = target \<or> git_error_is e target"
| "git_error_is e target \<longleftrightarrow> e = target"

record 'p process =
  proc_exec :: "'p \<Rightarrow> 'p \<times> git_error option"
  proc_write :: "'p \<Rightarrow> string \<Rightarrow> 'p \<times> git_error option"
  proc_read :: "'p \<Rightarrow> 'p \<times> (git_error + string)"
  proc_wait :: "'p \<Rightarrow> 'p \<times> git_error option"
  proc_stderr :: "'p \<Rightarrow> string"

section \<open>Regular expressions\<close>

text \<open>A literal, any character but a newline, any number of them as many as possible (captured or not), at least one
  of them as few as possible (captured), and the end of the text. All expressions are anchored at the start.\<close>

datatype rx = RLit string | RAny | RStar bool | RPlusLazy | REnd

definition dot_run :: "string \<Rightarrow> nat" where
  "dot_run s = length (takeWhile (\<lambda>c. c \<noteq> CHR 0x0A) s)"

fun first_some :: "('a \<Rightarrow> 'b option) \<Rightarrow> 'a list \<Rightarrow> 'b option" where
  "first_some f [] = None"
| "first_some f (x # xs) = (case f x of None \<Rightarrow> first_some f xs | Some y \<Rightarrow> Some y)"

primrec rx_match :: "rx list \<Rightarrow> string \<Rightarrow> string list option" where
  "rx_match [] s = Some []"
| "rx_match (t # ts) s =
     (case t of
        RLit l \<Rightarrow> if take (length l) s = l then rx_match ts (drop (length l) s) else None
      | RAny \<Rightarrow> if 0 < dot_run s then rx_match ts (drop 1 s) else None
      | RStar capture \<Rightarrow>
          first_some (\<lambda>k. map_option (\<lambda>cs. (if capture then [take k s] else []) @ cs) (rx_match ts (drop k s)))
            (rev [0 ..< Suc (dot_run s)])
      | RPlusLazy \<Rightarrow>
          first_some (\<lambda>k. map_option (\<lambda>cs. take k s # cs) (rx_match ts (drop k s))) [1 ..< Suc (dot_run s)]
      | REnd \<Rightarrow> if s = [] then rx_match ts s else None)"

abbreviation tick1 :: string where
  "tick1 \<equiv> [CHR 0x27]"

definition refLockedRegex :: "rx list" where
  "refLockedRegex =
     [RLit (''fatal: prepare: cannot lock ref '' @ tick1), RPlusLazy, RLit (tick1 @ '': Unable to create '' @ tick1),
      RStar False, RLit (tick1 @ '': File exists''), RAny]"

definition refInvalidFormatRegex :: "rx list" where
  "refInvalidFormatRegex = [RLit ''fatal: invalid ref format: '', RStar True, RLit [CHR 0x0A], REnd]"

definition referenceExistsConflictRegex :: "rx list" where
  "referenceExistsConflictRegex =
     [RLit ''fatal: '', RStar False, RLit ('': cannot lock ref '' @ tick1), RStar True, RLit (tick1 @ '': '' @ tick1),
      RStar True, RLit (tick1 @ '' exists; cannot create '' @ tick1), RStar False, RLit (tick1 @ [CHR 0x0A]), REnd]"

definition inTransactionConflictRegex :: "rx list" where
  "inTransactionConflictRegex =
     [RLit ''fatal: '', RStar False, RLit ('': cannot lock ref '' @ tick1), RStar False,
      RLit (tick1 @ '': cannot process '' @ tick1), RStar True, RLit (tick1 @ '' and '' @ tick1), RStar True,
      RLit (tick1 @ '' at the same time'' @ [CHR 0x0A]), REnd]"

definition nonExistentObjectRegex :: "rx list" where
  "nonExistentObjectRegex =
     [RLit ''fatal: '', RStar False, RLit ('': cannot update ref '' @ tick1), RStar False,
      RLit (tick1 @ '': trying to write ref '' @ tick1), RStar True, RLit (tick1 @ '' with nonexistent object ''),
      RStar True, RLit [CHR 0x0A], REnd]"

definition nonCommitObjectRegex :: "rx list" where
  "nonCommitObjectRegex =
     [RLit ''fatal: '', RStar False, RLit ('': cannot update ref '' @ tick1), RStar False,
      RLit (tick1 @ '': trying to write non-commit object ''), RStar True, RLit ('' to branch '' @ tick1), RStar True,
      RLit (tick1 @ [CHR 0x0A])]"

section \<open>The updater\<close>

datatype ustate = stateIdle | stateStarted | statePrepared | stateClosed

definition state_name :: "ustate \<Rightarrow> string" where
  "state_name st =
     (case st of stateIdle \<Rightarrow> ''idle'' | stateStarted \<Rightarrow> ''started'' | statePrepared \<Rightarrow> ''prepared'' | stateClosed \<Rightarrow> ''closed'')"

record 'p Updater =
  proc :: 'p
  ZeroOID :: string
  upd_state :: ustate

definition NewUpdater :: "'p process \<Rightarrow> (git_error + string) \<Rightarrow> 'p \<Rightarrow> 'p \<times> (git_error + 'p Updater)" where
  "NewUpdater w objectHash p =
     (case proc_exec w p of
        (p, Some err) \<Rightarrow> (p, Inl err)
      | (p, None) \<Rightarrow>
          (case objectHash of
             Inl err \<Rightarrow> (p, Inl (GitWrapped ''detecting object hash'' err))
           | Inr zero \<Rightarrow> (p, Inr \<lparr>proc = p, ZeroOID = zero, upd_state = stateIdle\<rparr>)))"

definition upd_Close :: "'p process \<Rightarrow> 'p Updater \<Rightarrow> 'p Updater \<times> git_error option" where
  "upd_Close w u = (case proc_wait w (proc u) of (p, err) \<Rightarrow>
     (u\<lparr>proc := p, upd_state := stateClosed\<rparr>, map_option (GitWrapped ''closing updater'') err))"

definition checkState :: "'p Updater \<Rightarrow> ustate \<Rightarrow> git_error option" where
  "checkState u expected =
     (if upd_state u \<noteq> expected then Some (InvalidStateTransition (state_name expected) (state_name (upd_state u)))
      else None)"

definition expectState :: "'p process \<Rightarrow> 'p Updater \<Rightarrow> ustate \<Rightarrow> 'p Updater \<times> git_error option" where
  "expectState w u expected =
     (case checkState u expected of
        Some err \<Rightarrow> (fst (upd_Close w u), Some err)
      | None \<Rightarrow> (u, None))"

definition classify_stderr :: "string \<Rightarrow> git_error \<Rightarrow> git_error" where
  "classify_stderr stderr fallbackErr =
     (case rx_match refLockedRegex stderr of
        Some (a # _) \<Rightarrow> ErrAlreadyLocked a
      | _ \<Rightarrow>
     (case rx_match refInvalidFormatRegex stderr of
        Some (a # _) \<Rightarrow> ErrInvalidReferenceFormat a
      | _ \<Rightarrow>
     (case rx_match referenceExistsConflictRegex stderr of
        Some (a # b # _) \<Rightarrow> ErrFileDirectoryConflict a b
      | _ \<Rightarrow>
     (case rx_match inTransactionConflictRegex stderr of
        Some (a # b # _) \<Rightarrow> ErrInTransactionConflict a b
      | _ \<Rightarrow>
     (case rx_match nonExistentObjectRegex stderr of
        Some (a # b # _) \<Rightarrow> NonExistentObjectError a b
      | _ \<Rightarrow>
     (case rx_match nonCommitObjectRegex stderr of
        Some (a # b # _) \<Rightarrow> NonCommitObjectError b a
      | _ \<Rightarrow> Fallback fallbackErr stderr))))))"

definition handleIOError :: "'p process \<Rightarrow> 'p Updater \<Rightarrow> git_error \<Rightarrow> 'p Updater \<times> git_error" where
  "handleIOError w u fallbackErr =
     (case upd_Close w u of
        (u, Some err) \<Rightarrow>
          if git_error_is err ContextCanceled \<or> git_error_is err ContextDeadlineExceeded then (u, err)
          else (u, classify_stderr (proc_stderr w (proc u)) fallbackErr)
      | (u, None) \<Rightarrow> (u, classify_stderr (proc_stderr w (proc u)) fallbackErr))"

definition upd_write :: "'p process \<Rightarrow> 'p Updater \<Rightarrow> string \<Rightarrow> 'p Updater \<times> git_error option" where
  "upd_write w u txt =
     (case proc_write w (proc u) txt of
        (p, Some err) \<Rightarrow> (case handleIOError w (u\<lparr>proc := p\<rparr>) err of (u, e) \<Rightarrow> (u, Some e))
      | (p, None) \<Rightarrow> (u\<lparr>proc := p\<rparr>, None))"

definition setState :: "'p process \<Rightarrow> 'p Updater \<Rightarrow> string \<Rightarrow> 'p Updater \<times> git_error option" where
  "setState w u st =
     (case upd_write w u (st @ [CHR 0x00]) of
        (u, Some err) \<Rightarrow> (u, Some err)
      | (u, None) \<Rightarrow>
          (case proc_read w (proc u) of
             (p, Inl err) \<Rightarrow>
               (case handleIOError w (u\<lparr>proc := p\<rparr>) (GitWrapped (''state update to '' @ st @ '' failed'') err) of
                  (u, e) \<Rightarrow> (u, Some e))
           | (p, Inr line) \<Rightarrow>
               if line \<noteq> st @ '': ok'' @ [CHR 0x0A]
               then (fst (upd_Close w (u\<lparr>proc := p\<rparr>)), Some (StateUpdateNotSuccessful st line))
               else (u\<lparr>proc := p\<rparr>, None)))"

definition upd_Start :: "'p process \<Rightarrow> 'p Updater \<Rightarrow> 'p Updater \<times> git_error option" where
  "upd_Start w u =
     (case expectState w u stateIdle of
        (u, Some err) \<Rightarrow> (u, Some err)
      | (u, None) \<Rightarrow> setState w (u\<lparr>upd_state := stateStarted\<rparr>) ''start'')"

definition update_command :: "string \<Rightarrow> string \<Rightarrow> string \<Rightarrow> string" where
  "update_command reference newOID oldOID =
     ''update '' @ reference @ [CHR 0x00] @ newOID @ [CHR 0x00] @ oldOID @ [CHR 0x00]"

definition upd_Update ::
    "'p process \<Rightarrow> 'p Updater \<Rightarrow> string \<Rightarrow> string \<Rightarrow> string \<Rightarrow> 'p Updater \<times> git_error option" where
  "upd_Update w u reference newOID oldOID =
     (case expectState w u stateStarted of
        (u, Some err) \<Rightarrow> (u, Some err)
      | (u, None) \<Rightarrow> upd_write w u (update_command reference newOID oldOID))"

definition upd_Create :: "'p process \<Rightarrow> 'p Updater \<Rightarrow> string \<Rightarrow> string \<Rightarrow> 'p Updater \<times> git_error option" where
  "upd_Create w u reference oid = upd_Update w u reference oid (ZeroOID u)"

definition upd_Delete :: "'p process \<Rightarrow> 'p Updater \<Rightarrow> string \<Rightarrow> 'p Updater \<times> git_error option" where
  "upd_Delete w u reference = upd_Update w u reference (ZeroOID u) []"

definition upd_Prepare :: "'p process \<Rightarrow> 'p Updater \<Rightarrow> 'p Updater \<times> git_error option" where
  "upd_Prepare w u =
     (case expectState w u stateStarted of
        (u, Some err) \<Rightarrow> (u, Some err)
      | (u, None) \<Rightarrow> setState w (u\<lparr>upd_state := statePrepared\<rparr>) ''prepare'')"

definition upd_Commit :: "'p process \<Rightarrow> 'p Updater \<Rightarrow> 'p Updater \<times> git_error option" where
  "upd_Commit w u =
     (case (if checkState u statePrepared \<noteq> None then expectState w u stateStarted else (u, None)) of
        (u, Some err) \<Rightarrow> (u, Some err)
      | (u, None) \<Rightarrow> setState w (u\<lparr>upd_state := stateIdle\<rparr>) ''commit'')"


section \<open>The states of the updater\<close>

datatype updater_op =
    OpStart | OpUpdate string string string | OpCreate string string | OpDelete string | OpPrepare | OpCommit | OpClose

primrec upd_exec :: "'p process \<Rightarrow> updater_op \<Rightarrow> 'p Updater \<Rightarrow> 'p Updater \<times> git_error option" where
  "upd_exec w OpStart u = upd_Start w u"
| "upd_exec w (OpUpdate r n old) u = upd_Update w u r n old"
| "upd_exec w (OpCreate r n) u = upd_Create w u r n"
| "upd_exec w (OpDelete r) u = upd_Delete w u r"
| "upd_exec w OpPrepare u = upd_Prepare w u"
| "upd_exec w OpCommit u = upd_Commit w u"
| "upd_exec w OpClose u = upd_Close w u"

text \<open>The usage the comment on \<open>Updater\<close> gives, as the state after a successful call; a call without one is refused.\<close>

definition update_next :: "ustate \<Rightarrow> ustate option" where
  "update_next st = (if st = stateStarted then Some stateStarted else None)"

primrec next_state :: "updater_op \<Rightarrow> ustate \<Rightarrow> ustate option" where
  "next_state OpStart st = (if st = stateIdle then Some stateStarted else None)"
| "next_state (OpUpdate r n old) st = update_next st"
| "next_state (OpCreate r n) st = update_next st"
| "next_state (OpDelete r) st = update_next st"
| "next_state OpPrepare st = (if st = stateStarted then Some statePrepared else None)"
| "next_state OpCommit st = (if st \<in> {stateStarted, statePrepared} then Some stateIdle else None)"
| "next_state OpClose st = Some stateClosed"

primrec needed :: "updater_op \<Rightarrow> ustate" where
  "needed OpStart = stateIdle"
| "needed (OpUpdate r n old) = stateStarted"
| "needed (OpCreate r n) = stateStarted"
| "needed (OpDelete r) = stateStarted"
| "needed OpPrepare = stateStarted"
| "needed OpCommit = stateStarted"
| "needed OpClose = stateClosed"

named_theorems upd_ops

declare upd_Start_def [upd_ops] upd_Update_def [upd_ops] upd_Create_def [upd_ops] upd_Delete_def [upd_ops]
  upd_Prepare_def [upd_ops] upd_Commit_def [upd_ops] update_next_def [upd_ops]

lemma Close_closed [simp]: "upd_state (fst (upd_Close w u)) = stateClosed" "proc (fst (upd_Close w u)) = fst (proc_wait w (proc u))"
  by (simp_all add: upd_Close_def case_prod_unfold)

lemma handleIOError_closes [simp]: "fst (handleIOError w u err) = fst (upd_Close w u)"
  by (simp add: handleIOError_def case_prod_unfold split: option.split)

lemma write_state:
  "upd_state (fst (upd_write w u txt)) = (if snd (upd_write w u txt) = None then upd_state u else stateClosed)"
  by (simp add: upd_write_def case_prod_unfold split: option.split)

lemma setState_state:
  "upd_state (fst (setState w u st)) = (if snd (setState w u st) = None then upd_state u else stateClosed)"
  using write_state [of w u "st @ [CHR 0x00]"]
  by (simp add: setState_def case_prod_unfold split: option.split sum.split)

lemma expectState_eq:
  "expectState w u st =
    (if upd_state u = st then (u, None)
     else (fst (upd_Close w u), Some (InvalidStateTransition (state_name st) (state_name (upd_state u)))))"
  by (simp add: expectState_def checkState_def)

lemma exec_refused:
  assumes "next_state op (upd_state u) = None"
  shows "upd_exec w op u =
    (fst (upd_Close w u), Some (InvalidStateTransition (state_name (needed op)) (state_name (upd_state u))))"
  using assms by (cases op) (auto simp: upd_ops expectState_eq checkState_def split: if_splits)

lemma exec_accepted:
  assumes "next_state op (upd_state u) = Some st"
  shows "upd_state (fst (upd_exec w op u)) = (if snd (upd_exec w op u) = None then st else stateClosed)"
  using assms
  by (cases op) (auto simp: upd_ops expectState_eq checkState_def write_state setState_state split: if_splits)

text \<open>C29: The states of the updater. A call the comment on \<open>Updater\<close> does not allow in the state is refused with the
  state it needs, writes nothing to the process and closes the updater. An allowed call leads to the documented state
  when it succeeds and closes the updater on any error, whatever the process does.\<close>

theorem updater_typestate:
  "case next_state op (upd_state u) of
     None \<Rightarrow> upd_exec w op u =
       (u\<lparr>proc := fst (proc_wait w (proc u)), upd_state := stateClosed\<rparr>,
        Some (InvalidStateTransition (state_name (needed op)) (state_name (upd_state u))))
   | Some st \<Rightarrow> upd_state (fst (upd_exec w op u)) = (if snd (upd_exec w op u) = None then st else stateClosed)"
  using exec_refused [of op u w] exec_accepted [of op u _ w]
  by (simp add: upd_Close_def case_prod_unfold split: option.split)


section \<open>What git reads\<close>

text \<open>The documented input of \<open>git update-ref --stdin -z\<close>: fields that end with a zero byte; an update has the name, the
  new and the old value in three of them.\<close>

datatype git_command = CStart | CPrepare | CCommit | CUpdate string string string | COther string

fun nul_fields :: "string \<Rightarrow> string \<Rightarrow> string list" where
  "nul_fields acc [] = []"
| "nul_fields acc (c # cs) = (if c = CHR 0x00 then rev acc # nul_fields [] cs else nul_fields (c # acc) cs)"

fun parse_fields :: "string list \<Rightarrow> git_command list" where
  "parse_fields [] = []"
| "parse_fields (f # fs) =
     (if f = ''start'' then CStart # parse_fields fs
      else if f = ''prepare'' then CPrepare # parse_fields fs
      else if f = ''commit'' then CCommit # parse_fields fs
      else if take 7 f = ''update '' then
        (case fs of n # old # rest \<Rightarrow> CUpdate (drop 7 f) n old # parse_fields rest | _ \<Rightarrow> [COther f])
      else COther f # parse_fields fs)"

definition commands :: "string \<Rightarrow> git_command list" where
  "commands s = parse_fields (nul_fields [] s)"

definition updates :: "git_command list \<Rightarrow> (string \<times> string) list" where
  "updates cs = List.map_filter (\<lambda>c. case c of CUpdate r n _ \<Rightarrow> Some (r, n) | _ \<Rightarrow> None) cs"

type_synonym refs = "string \<Rightarrow> string option"

definition ref_value :: "string \<Rightarrow> string \<Rightarrow> string option" where
  "ref_value zero oid = (if oid = zero then None else Some oid)"

definition apply_updates :: "string \<Rightarrow> (string \<times> string) list \<Rightarrow> refs \<Rightarrow> refs" where
  "apply_updates zero us r = foldl (\<lambda>r (n, oid). r(n := ref_value zero oid)) r us"

definition partial_update :: "string \<Rightarrow> (string \<times> string) list \<Rightarrow> refs \<Rightarrow> refs \<Rightarrow> bool" where
  "partial_update zero us r r' \<longleftrightarrow> (\<forall>n. r' n = r n \<or> (\<exists>oid. (n, oid) \<in> set us \<and> r' n = ref_value zero oid))"

definition git_effect :: "string \<Rightarrow> git_command list \<Rightarrow> refs \<Rightarrow> refs \<Rightarrow> bool" where
  "git_effect zero cs r r' \<longleftrightarrow> (if CCommit \<in> set cs then partial_update zero (updates cs) r r' else r' = r)"

text \<open>What the code relies on of git. The references change only when the input of the process, what has been written
  to it so far, has a commit, and then only the references of its updates, to their new values, each or not; when the
  commit is reported as done, all of them.\<close>

definition git_ok :: "'p process \<Rightarrow> string \<Rightarrow> ('p \<Rightarrow> refs) \<Rightarrow> ('p \<Rightarrow> string) \<Rightarrow> bool" where
  "git_ok w zero grefs input \<longleftrightarrow>
     (\<forall>p. grefs (fst (proc_exec w p)) = grefs p \<and> input (fst (proc_exec w p)) = []) \<and>
     (\<forall>p t. input (fst (proc_write w p t)) = input p @ t \<and>
        git_effect zero (commands (input p @ t)) (grefs p) (grefs (fst (proc_write w p t)))) \<and>
     (\<forall>p. input (fst (proc_read w p)) = input p \<and>
        git_effect zero (commands (input p)) (grefs p) (grefs (fst (proc_read w p)))) \<and>
     (\<forall>p. input (fst (proc_wait w p)) = input p \<and>
        git_effect zero (commands (input p)) (grefs p) (grefs (fst (proc_wait w p)))) \<and>
     (\<forall>p. snd (proc_read w p) = Inr (''commit: ok'' @ [CHR 0x0A]) \<longrightarrow> commands (input p) \<noteq> [] \<longrightarrow>
        last (commands (input p)) = CCommit \<longrightarrow>
        grefs (fst (proc_read w p)) = apply_updates zero (updates (commands (input p))) (grefs p))"

lemma nul_fields_field: "CHR 0x00 \<notin> set f \<Longrightarrow> nul_fields acc (f @ CHR 0x00 # s) = (rev acc @ f) # nul_fields [] s"
  by (induction f arbitrary: acc) auto

definition session_input :: "(string \<times> string) list \<Rightarrow> string" where
  "session_input us =
     ''start'' @ [CHR 0x00] @ concat (map (\<lambda>(r, n). update_command r n []) us)"

definition nul_free :: "(string \<times> string) list \<Rightarrow> bool" where
  "nul_free us \<longleftrightarrow> list_all (\<lambda>(r, n). CHR 0x00 \<notin> set r \<and> CHR 0x00 \<notin> set n) us"

lemma commands_update:
  assumes "CHR 0x00 \<notin> set r" "CHR 0x00 \<notin> set n" "CHR 0x00 \<notin> set old"
  shows "commands (update_command r n old @ s) = CUpdate r n old # commands s"
  using nul_fields_field [of "''update '' @ r" "[]" "n @ [CHR 0x00] @ old @ [CHR 0x00] @ s"] assms
    nul_fields_field [of n "[]" "old @ [CHR 0x00] @ s"] nul_fields_field [of old "[]" s]
  by (simp add: commands_def update_command_def)

lemma commands_updates:
  "nul_free us \<Longrightarrow> commands (concat (map (\<lambda>(r, n). update_command r n []) us) @ s) =
     map (\<lambda>(r, n). CUpdate r n []) us @ commands s"
  by (induction us) (auto simp: nul_free_def commands_update)

lemma commands_state [simp]:
  "commands (''start'' @ CHR 0x00 # s) = CStart # commands s"
  "commands (''prepare'' @ CHR 0x00 # s) = CPrepare # commands s"
  "commands (''commit'' @ CHR 0x00 # s) = CCommit # commands s"
  "commands [] = []"
  by (simp_all add: commands_def)

lemma commands_session:
  "nul_free us \<Longrightarrow> commands (session_input us @ s) = CStart # map (\<lambda>(r, n). CUpdate r n []) us @ commands s"
  using commands_updates [of us s] commands_state(1) by (simp add: session_input_def)

lemma updates_map [simp]: "updates (CStart # map (\<lambda>(r, n). CUpdate r n []) us @ cs) = us @ updates cs"
  by (induction us) (auto simp: updates_def List.map_filter_def)

lemma no_commit_map [simp]: "CCommit \<notin> (\<lambda>(r, n). CUpdate r n []) ` A"
  by auto


section \<open>What the updater does to the references\<close>

lemma partial_trans:
  "partial_update zero us r r1 \<Longrightarrow> partial_update zero us r1 r2 \<Longrightarrow> partial_update zero us r r2"
  unfolding partial_update_def by metis

lemma partial_refl [simp]: "partial_update zero us r r"
  by (simp add: partial_update_def)

lemma partial_Nil [simp]: "partial_update zero [] r r' \<longleftrightarrow> r' = r"
  by (auto simp: partial_update_def)

lemma apply_updates_Cons [simp]: "apply_updates zero ((n, oid) # us) r = apply_updates zero us (r(n := ref_value zero oid))"
  by (simp add: apply_updates_def)

lemma apply_updates_Nil [simp]: "apply_updates zero [] r = r"
  by (simp add: apply_updates_def)

lemma apply_updates_other: "n \<notin> fst ` set us \<Longrightarrow> apply_updates zero us r n = r n"
  by (induction us arbitrary: r) auto

lemma apply_updates_agree: "n \<in> fst ` set us \<Longrightarrow> apply_updates zero us r n = apply_updates zero us r' n"
proof (induction us arbitrary: r r')
  case (Cons x us)
  then show ?case by (cases x, cases "n \<in> fst ` set us") (auto simp: apply_updates_other)
qed simp

lemma apply_updates_partial:
  assumes "partial_update zero us r r'"
  shows "apply_updates zero us r' = apply_updates zero us r"
proof
  fix n
  have "n \<notin> fst ` set us \<Longrightarrow> r' n = r n"
    using assms unfolding partial_update_def by (metis fst_conv imageI)
  then show "apply_updates zero us r' n = apply_updates zero us r n"
    using apply_updates_agree [of n us zero r' r] apply_updates_other [of n us zero] by metis
qed

lemma git_effect_trans: "git_effect zero cs r r1 \<Longrightarrow> git_effect zero cs r1 r2 \<Longrightarrow> git_effect zero cs r r2"
  by (auto simp: git_effect_def intro: partial_trans split: if_splits)

text \<open>Writing \<open>t\<close> to the process takes the updater from \<open>u\<close> to \<open>u'\<close>.\<close>

definition wrote :: "string \<Rightarrow> ('p \<Rightarrow> refs) \<Rightarrow> ('p \<Rightarrow> string) \<Rightarrow> string \<Rightarrow> 'p Updater \<Rightarrow> 'p Updater \<Rightarrow> bool" where
  "wrote zero grefs input t u u' \<longleftrightarrow>
     input (proc u') = input (proc u) @ t \<and>
     git_effect zero (commands (input (proc u) @ t)) (grefs (proc u)) (grefs (proc u'))"

lemma wrote_more:
  "wrote zero grefs input t u u1 \<Longrightarrow> wrote zero grefs input [] u1 u2 \<Longrightarrow> wrote zero grefs input t u u2"
  by (auto simp: wrote_def intro: git_effect_trans)

lemma wrote_Close: "git_ok w zero grefs input \<Longrightarrow> wrote zero grefs input [] u (fst (upd_Close w u))"
  by (simp add: git_ok_def wrote_def)

lemma wrote_proc:
  "git_ok w zero grefs input \<Longrightarrow> wrote zero grefs input t u (u\<lparr>proc := fst (proc_write w (proc u) t)\<rparr>)"
  "git_ok w zero grefs input \<Longrightarrow> wrote zero grefs input [] u (u\<lparr>proc := fst (proc_read w (proc u))\<rparr>)"
  by (simp_all add: git_ok_def wrote_def)

lemma wrote_write: "git_ok w zero grefs input \<Longrightarrow> wrote zero grefs input t u (fst (upd_write w u t))"
  using wrote_more [OF wrote_proc(1) wrote_Close]
  by (auto simp: upd_write_def case_prod_unfold wrote_proc split: option.split)

lemma wrote_setState:
  assumes "git_ok w zero grefs input"
  shows "wrote zero grefs input (st @ [CHR 0x00]) u (fst (setState w u st))"
  using wrote_write [OF assms] wrote_more [OF wrote_write [OF assms] wrote_proc(2) [OF assms]]
    wrote_more [OF wrote_more [OF wrote_write [OF assms] wrote_proc(2) [OF assms]] wrote_Close [OF assms]]
  by (auto simp: setState_def case_prod_unfold split: option.split sum.split)

lemma setState_commit:
  assumes "git_ok w zero grefs input" "snd (setState w u ''commit'') = None"
    and "commands (input (proc u) @ ''commit'' @ [CHR 0x00]) = cs @ [CCommit]"
  shows "grefs (proc (fst (setState w u ''commit''))) = apply_updates zero (updates (cs @ [CCommit])) (grefs (proc u))"
proof -
  let ?u = "fst (upd_write w u (''commit'' @ [CHR 0x00]))"
  have w: "wrote zero grefs input (''commit'' @ [CHR 0x00]) u ?u" by (rule wrote_write [OF assms(1)])
  then have p: "partial_update zero (updates (cs @ [CCommit])) (grefs (proc u)) (grefs (proc ?u))"
    and i: "commands (input (proc ?u)) = cs @ [CCommit]"
    using assms(3) by (simp_all add: wrote_def git_effect_def)
  have "snd (proc_read w (proc ?u)) = Inr (''commit: ok'' @ [CHR 0x0A])"
    "grefs (proc (fst (setState w u ''commit''))) = grefs (fst (proc_read w (proc ?u)))"
    using assms(2) by (auto simp: setState_def case_prod_unfold split: option.splits sum.splits if_splits)
  then show ?thesis using assms(1) i apply_updates_partial [OF p] unfolding git_ok_def by simp
qed

end
