(* ===== verification/WriteAheadLog.thy ===== *)
theory WriteAheadLog
  imports UpdateRef "HOL-Library.List_Lexorder" "HOL-Library.Char_ord"
begin

text \<open>
  The write-ahead log of a repository, \<open>internal/gitaly/transaction_manager.go\<close> of Gitaly. Transactions are verified
  against the references, logged in a key-value store, applied with \<open>git update-ref\<close> through the updater of
  \<open>UpdateRef\<close> and acknowledged; after a restart the logged entries that have not been applied are applied. The store,
  the messages in it and git are parameters. A log index is a \<open>uint64\<close>.
\<close>

section \<open>Data\<close>

datatype wal_error =
    WalError string
  | ErrKeyNotFound
  | ErrReferenceNotFound
  | ErrTransactionProcessingStopped
  | InvalidReferenceFormatError string
  | ReferenceVerificationError string string string
  | GitFailed git_error
  | Wrapped string wal_error

type_synonym LogIndex = u64

record ReferenceUpdate =
  OldOID :: string
  NewOID :: string

text \<open>The updates of a transaction are a Go map; the list has its entries in the order the loop visits them.\<close>

record wal_Transaction =
  SkipVerificationFailures :: bool
  ReferenceUpdates :: "(string, ReferenceUpdate) gomap"

text \<open>The reference name and the new object ID of each update.\<close>

type_synonym LogEntry = "(string \<times> string) list"

text \<open>\<open>'p\<close> is the repository with its git process, \<open>'d\<close> the store and \<open>'b\<close> a marshaled message.\<close>

record ('p, 'd, 'b) wal_env =
  git :: "'p process"
  ObjectHash :: "'p \<Rightarrow> git_error + string"
  ResolveRevision :: "'p \<Rightarrow> string \<Rightarrow> wal_error + string"
  StorageName :: string
  RelativePath :: string
  MarshalEntry :: "LogEntry \<Rightarrow> wal_error + 'b"
  UnmarshalEntry :: "'b \<Rightarrow> wal_error + LogEntry"
  MarshalIndex :: "LogIndex \<Rightarrow> wal_error + 'b"
  UnmarshalIndex :: "'b \<Rightarrow> wal_error + LogIndex"
  batch_Set :: "'d \<Rightarrow> bytes \<Rightarrow> 'b \<Rightarrow> wal_error option"
  batch_Flush :: "'d \<Rightarrow> bytes \<Rightarrow> 'b \<Rightarrow> 'd \<times> wal_error option"
  txn_Get :: "'d \<Rightarrow> bytes \<Rightarrow> wal_error + 'b"
  txn_Delete :: "'d \<Rightarrow> bytes \<Rightarrow> 'd \<times> wal_error option"
  iterator_Seek :: "'d \<Rightarrow> bytes \<Rightarrow> bytes \<Rightarrow> wal_error + bytes option"

record ('p, 'd) TransactionManager =
  repository :: 'p
  db :: 'd
  appendedLogIndex :: LogIndex
  appliedLogIndex :: LogIndex

section \<open>Keys\<close>

definition getRepositoryID :: "('p, 'd, 'b) wal_env \<Rightarrow> string" where
  "getRepositoryID env = StorageName env @ '':'' @ RelativePath env"

definition keyAppliedLogIndex :: "string \<Rightarrow> bytes" where
  "keyAppliedLogIndex repositoryID = ''repository/'' @ repositoryID @ ''/log/index/applied''"

definition keyPrefixLogEntries :: "string \<Rightarrow> bytes" where
  "keyPrefixLogEntries repositoryID = ''repository/'' @ repositoryID @ ''/log/entry/''"

definition PutUint64 :: "u64 \<Rightarrow> bytes" where
  "PutUint64 v = map (\<lambda>k. char_of (unat (drop_bit k v))) [56, 48, 40, 32, 24, 16, 8, 0]"

text \<open>\<open>binary.BigEndian.Uint64\<close> panics on fewer than eight bytes.\<close>

definition Uint64 :: "bytes \<Rightarrow> u64 option" where
  "Uint64 b = (if length b < 8 then None else Some (of_nat (foldl (\<lambda>a c. a * 256 + of_char c) 0 (take 8 b))))"

definition keyLogEntry :: "string \<Rightarrow> LogIndex \<Rightarrow> bytes" where
  "keyLogEntry repositoryID index = keyPrefixLogEntries repositoryID @ PutUint64 index"

definition TrimPrefix :: "bytes \<Rightarrow> bytes \<Rightarrow> bytes" where
  "TrimPrefix s pre = (if take (length pre) s = pre then drop (length pre) s else s)"

section \<open>The store\<close>

definition setKey ::
    "('p, 'd, 'b) wal_env \<Rightarrow> ('p, 'd) TransactionManager \<Rightarrow> bytes \<Rightarrow> wal_error + 'b
      \<Rightarrow> ('p, 'd) TransactionManager \<times> wal_error option" where
  "setKey env mgr key marshaled =
     (case marshaled of
        Inl err \<Rightarrow> (mgr, Some (Wrapped ''marshal value'' err))
      | Inr marshaledValue \<Rightarrow>
          (case batch_Set env (db mgr) key marshaledValue of
             Some err \<Rightarrow> (mgr, Some (Wrapped ''set'' err))
           | None \<Rightarrow> (case batch_Flush env (db mgr) key marshaledValue of (d, err) \<Rightarrow> (mgr\<lparr>db := d\<rparr>, err))))"

definition readKey ::
    "('p, 'd, 'b) wal_env \<Rightarrow> ('p, 'd) TransactionManager \<Rightarrow> bytes \<Rightarrow> ('b \<Rightarrow> wal_error + 'm) \<Rightarrow> wal_error + 'm" where
  "readKey env mgr key unmarshal =
     (case txn_Get env (db mgr) key of Inl err \<Rightarrow> Inl (Wrapped ''get'' err) | Inr value \<Rightarrow> unmarshal value)"

definition deleteKey ::
    "('p, 'd, 'b) wal_env \<Rightarrow> ('p, 'd) TransactionManager \<Rightarrow> bytes \<Rightarrow> ('p, 'd) TransactionManager \<times> wal_error option" where
  "deleteKey env mgr key = (case txn_Delete env (db mgr) key of (d, err) \<Rightarrow> (mgr\<lparr>db := d\<rparr>, err))"

definition storeLogEntry ::
    "('p, 'd, 'b) wal_env \<Rightarrow> ('p, 'd) TransactionManager \<Rightarrow> LogIndex \<Rightarrow> LogEntry
      \<Rightarrow> ('p, 'd) TransactionManager \<times> wal_error option" where
  "storeLogEntry env mgr index entry =
     setKey env mgr (keyLogEntry (getRepositoryID env) index) (MarshalEntry env entry)"

definition storeAppliedLogIndex ::
    "('p, 'd, 'b) wal_env \<Rightarrow> ('p, 'd) TransactionManager \<Rightarrow> LogIndex \<Rightarrow> ('p, 'd) TransactionManager \<times> wal_error option" where
  "storeAppliedLogIndex env mgr index =
     setKey env mgr (keyAppliedLogIndex (getRepositoryID env)) (MarshalIndex env index)"

fun error_is :: "wal_error \<Rightarrow> wal_error \<Rightarrow> bool" where
  "error_is (Wrapped s e) target \<longleftrightarrow> Wrapped s e = target \<or> error_is e target"
| "error_is e target \<longleftrightarrow> e = target"

text \<open>\<open>None\<close> is the panic of \<open>Uint64\<close>. Reading an index that is not in the store leaves the message at its zero value.\<close>

definition initialize_appended ::
    "('p, 'd, 'b) wal_env \<Rightarrow> ('p, 'd) TransactionManager \<Rightarrow> (('p, 'd) TransactionManager \<times> wal_error option) option" where
  "initialize_appended env mgr =
     (let logPrefix = keyPrefixLogEntries (getRepositoryID env); mgr = mgr\<lparr>appendedLogIndex := appliedLogIndex mgr\<rparr>
      in case iterator_Seek env (db mgr) logPrefix (logPrefix @ [CHR 0xFF]) of
           Inl err \<Rightarrow> Some (mgr, Some err)
         | Inr None \<Rightarrow> Some (mgr, None)
         | Inr (Some key) \<Rightarrow>
             map_option (\<lambda>i. (mgr\<lparr>appendedLogIndex := i\<rparr>, None)) (Uint64 (TrimPrefix key logPrefix)))"

definition initialize ::
    "('p, 'd, 'b) wal_env \<Rightarrow> ('p, 'd) TransactionManager \<Rightarrow> (('p, 'd) TransactionManager \<times> wal_error option) option" where
  "initialize env mgr =
     (case readKey env mgr (keyAppliedLogIndex (getRepositoryID env)) (UnmarshalIndex env) of
        Inl err \<Rightarrow>
          if \<not> error_is err ErrKeyNotFound then Some (mgr, Some (Wrapped ''read applied log index'' err))
          else initialize_appended env (mgr\<lparr>appliedLogIndex := 0\<rparr>)
      | Inr i \<Rightarrow> initialize_appended env (mgr\<lparr>appliedLogIndex := i\<rparr>))"

section \<open>Reference transactions\<close>

fun update_all :: "'p process \<Rightarrow> 'p Updater \<Rightarrow> LogEntry \<Rightarrow> 'p Updater \<times> wal_error option" where
  "update_all w u [] = (u, None)"
| "update_all w u ((name, oid) # us) =
     (case upd_Update w u name oid [] of
        (u, Some err) \<Rightarrow> (u, Some (Wrapped (''update '' @ name) (GitFailed err)))
      | (u, None) \<Rightarrow> update_all w u us)"

definition prepareReferenceTransaction ::
    "('p, 'd, 'b) wal_env \<Rightarrow> 'p \<Rightarrow> LogEntry \<Rightarrow> 'p \<times> (wal_error + 'p Updater)" where
  "prepareReferenceTransaction env p us =
     (case NewUpdater (git env) (ObjectHash env p) p of
        (p, Inl err) \<Rightarrow> (p, Inl (Wrapped ''new'' (GitFailed err)))
      | (p, Inr updater) \<Rightarrow>
     (case upd_Start (git env) updater of
        (u, Some err) \<Rightarrow> (proc u, Inl (Wrapped ''start'' (GitFailed err)))
      | (u, None) \<Rightarrow>
     (case update_all (git env) u us of
        (u, Some err) \<Rightarrow> (proc u, Inl err)
      | (u, None) \<Rightarrow>
     (case upd_Prepare (git env) u of
        (u, Some err) \<Rightarrow> (proc u, Inl (Wrapped ''prepare'' (GitFailed err)))
      | (u, None) \<Rightarrow> (proc u, Inr u)))))"

definition verifyReferencesWithGit ::
    "('p, 'd, 'b) wal_env \<Rightarrow> ('p, 'd) TransactionManager \<Rightarrow> LogEntry \<Rightarrow> ('p, 'd) TransactionManager \<times> wal_error option" where
  "verifyReferencesWithGit env mgr us =
     (case prepareReferenceTransaction env (repository mgr) us of
        (p, Inl err) \<Rightarrow> (mgr\<lparr>repository := p\<rparr>, Some (Wrapped ''prepare reference transaction'' err))
      | (p, Inr updater) \<Rightarrow>
          (case upd_Close (git env) updater of
             (u, err) \<Rightarrow> (mgr\<lparr>repository := proc u\<rparr>, map_option GitFailed err)))"

section \<open>Verifying a transaction\<close>

definition actual_tip :: "('p, 'd, 'b) wal_env \<Rightarrow> 'p \<Rightarrow> string \<Rightarrow> wal_error + string" where
  "actual_tip env p name =
     (case ResolveRevision env p name of
        Inr tip \<Rightarrow> Inr tip
      | Inl err \<Rightarrow>
          if error_is err ErrReferenceNotFound then
            (case ObjectHash env p of Inl err \<Rightarrow> Inl (Wrapped ''object hash'' (GitFailed err)) | Inr zero \<Rightarrow> Inr zero)
          else Inl (Wrapped ''resolve revision'' err))"

fun verify_loop ::
    "('p, 'd, 'b) wal_env \<Rightarrow> 'p \<Rightarrow> bool \<Rightarrow> (string, ReferenceUpdate) gomap \<Rightarrow> LogEntry \<Rightarrow> wal_error + LogEntry" where
  "verify_loop env p skip [] entry = Inr entry"
| "verify_loop env p skip ((name, tips) # ups) entry =
     (if take 5 name \<noteq> ''refs/'' then Inl (InvalidReferenceFormatError name)
      else if CHR 0x00 \<in> set name \<or> CHR 0x0A \<in> set name then Inl (InvalidReferenceFormatError name)
      else case actual_tip env p name of
             Inl err \<Rightarrow> Inl err
           | Inr actualOldTip \<Rightarrow>
               if OldOID tips \<noteq> actualOldTip then
                 (if skip then verify_loop env p skip ups entry
                  else Inl (ReferenceVerificationError name (OldOID tips) actualOldTip))
               else verify_loop env p skip ups (entry @ [(name, NewOID tips)]))"

definition verifyReferences ::
    "('p, 'd, 'b) wal_env \<Rightarrow> ('p, 'd) TransactionManager \<Rightarrow> wal_Transaction
      \<Rightarrow> ('p, 'd) TransactionManager \<times> (wal_error + LogEntry)" where
  "verifyReferences env mgr tx =
     (case verify_loop env (repository mgr) (SkipVerificationFailures tx) (ReferenceUpdates tx) [] of
        Inl err \<Rightarrow> (mgr, Inl err)
      | Inr entry \<Rightarrow>
          (let logEntry = sort_key fst entry in
           case verifyReferencesWithGit env mgr logEntry of
             (mgr, Some err) \<Rightarrow> (mgr, Inl (Wrapped ''verify references with git'' err))
           | (mgr, None) \<Rightarrow> (mgr, Inr logEntry)))"

section \<open>The log\<close>

definition appendLogEntry ::
    "('p, 'd, 'b) wal_env \<Rightarrow> ('p, 'd) TransactionManager \<Rightarrow> LogEntry \<Rightarrow> ('p, 'd) TransactionManager \<times> wal_error option" where
  "appendLogEntry env mgr logEntry =
     (let nextLogIndex = appendedLogIndex mgr + 1 in
      case storeLogEntry env mgr nextLogIndex logEntry of
        (mgr, Some err) \<Rightarrow> (mgr, Some (Wrapped ''set log entry'' err))
      | (mgr, None) \<Rightarrow> (mgr\<lparr>appendedLogIndex := nextLogIndex\<rparr>, None))"

definition applyLogEntry ::
    "('p, 'd, 'b) wal_env \<Rightarrow> ('p, 'd) TransactionManager \<Rightarrow> LogIndex \<Rightarrow> ('p, 'd) TransactionManager \<times> wal_error option" where
  "applyLogEntry env mgr logIndex =
     (let key = keyLogEntry (getRepositoryID env) logIndex in
      case readKey env mgr key (UnmarshalEntry env) of
        Inl err \<Rightarrow> (mgr, Some (Wrapped ''read log entry'' err))
      | Inr logEntry \<Rightarrow>
     (case prepareReferenceTransaction env (repository mgr) logEntry of
        (p, Inl err) \<Rightarrow> (mgr\<lparr>repository := p\<rparr>, Some (Wrapped ''perpare reference transaction'' err))
      | (p, Inr updater) \<Rightarrow>
     (case upd_Commit (git env) updater of
        (u, Some err) \<Rightarrow> (mgr\<lparr>repository := proc u\<rparr>, Some (Wrapped ''commit transaction'' (GitFailed err)))
      | (u, None) \<Rightarrow>
     (case storeAppliedLogIndex env (mgr\<lparr>repository := proc u\<rparr>) logIndex of
        (mgr, Some err) \<Rightarrow> (mgr, Some (Wrapped ''set applied log index'' err))
      | (mgr, None) \<Rightarrow>
     (case deleteKey env mgr key of
        (mgr, Some err) \<Rightarrow> (mgr, Some (Wrapped ''deleting log entry'' err))
      | (mgr, None) \<Rightarrow> (mgr\<lparr>appliedLogIndex := logIndex\<rparr>, None))))))"

section \<open>Processing transactions\<close>

text \<open>A run of the manager with the result channels of the transactions proposed to it so far. A channel has room for
  the one result that is sent on it. \<open>finished\<close> is set when \<open>Run\<close> has returned.\<close>

type_synonym result = "wal_error option"

record ('p, 'd) wal_run =
  mgr :: "('p, 'd) TransactionManager"
  awaitingTransactions :: "(LogIndex, nat) gomap"
  channels :: "result option list"
  requests :: "wal_Transaction list"
  finished :: "result option"

definition send_result :: "nat \<Rightarrow> result \<Rightarrow> ('p, 'd) wal_run \<Rightarrow> ('p, 'd) wal_run" where
  "send_result c res r = r\<lparr>channels := (channels r)[c := Some res]\<rparr>"

text \<open>Starting \<open>Run\<close> on a manager \<open>NewTransactionManager\<close> made for the repository and the store. A panic ends the run.\<close>

definition Run_start :: "('p, 'd, 'b) wal_env \<Rightarrow> 'p \<Rightarrow> 'd \<Rightarrow> result option list \<Rightarrow> wal_Transaction list \<Rightarrow> ('p, 'd) wal_run" where
  "Run_start env p d cs rs =
     (let m = \<lparr>repository = p, db = d, appendedLogIndex = 0, appliedLogIndex = 0\<rparr>;
          r = (\<lambda>m f. \<lparr>mgr = m, awaitingTransactions = [], channels = cs, requests = rs, finished = f\<rparr>)
      in case initialize env m of
           None \<Rightarrow> r m (Some (Some (WalError ''panic'')))
         | Some (m, Some err) \<Rightarrow> r m (Some (Some (Wrapped ''initialize'' err)))
         | Some (m, None) \<Rightarrow> r m None)"

text \<open>What the manager receives when it waits: a proposed transaction or the end of its context.\<close>

datatype selected = Admitted wal_Transaction | ContextDone

definition apply_next :: "('p, 'd, 'b) wal_env \<Rightarrow> ('p, 'd) wal_run \<Rightarrow> ('p, 'd) wal_run" where
  "apply_next env r =
     (let logIndex = appliedLogIndex (mgr r) + 1 in
      case applyLogEntry env (mgr r) logIndex of
        (m, Some err) \<Rightarrow> r\<lparr>mgr := m, finished := Some (Some (Wrapped ''apply log entry'' err))\<rparr>
      | (m, None) \<Rightarrow>
          (case map_of (awaitingTransactions r) logIndex of
             None \<Rightarrow> r\<lparr>mgr := m\<rparr>
           | Some c \<Rightarrow> send_result c None
               (r\<lparr>mgr := m, awaitingTransactions := AList.delete logIndex (awaitingTransactions r)\<rparr>)))"

definition admit :: "('p, 'd, 'b) wal_env \<Rightarrow> wal_Transaction \<Rightarrow> ('p, 'd) wal_run \<Rightarrow> ('p, 'd) wal_run" where
  "admit env tx r =
     (let c = length (channels r); r = r\<lparr>channels := channels r @ [None], requests := requests r @ [tx]\<rparr> in
      case verifyReferences env (mgr r) tx of
        (m, Inl err) \<Rightarrow> send_result c (Some (Wrapped ''verify references'' err)) (r\<lparr>mgr := m\<rparr>)
      | (m, Inr logEntry) \<Rightarrow>
          (case appendLogEntry env m logEntry of
             (m, Some err) \<Rightarrow> send_result c (Some err) (r\<lparr>mgr := m\<rparr>)
           | (m, None) \<Rightarrow>
               r\<lparr>mgr := m, awaitingTransactions := AList.update (appendedLogIndex m) c (awaitingTransactions r)\<rparr>))"

definition run_iteration :: "('p, 'd, 'b) wal_env \<Rightarrow> selected \<Rightarrow> ('p, 'd) wal_run \<Rightarrow> ('p, 'd) wal_run" where
  "run_iteration env sel r =
     (if appliedLogIndex (mgr r) < appendedLogIndex (mgr r) then apply_next env r
      else case sel of
             ContextDone \<Rightarrow> r\<lparr>finished := Some None\<rparr>
           | Admitted tx \<Rightarrow> admit env tx r)"

text \<open>The manager runs, or its process ends at any time and a new manager starts on what is in the repository and the
  store.\<close>

datatype wal_event = Iterate selected | Restart

inductive wal_step :: "('p, 'd, 'b) wal_env \<Rightarrow> ('p, 'd) wal_run \<Rightarrow> wal_event \<Rightarrow> ('p, 'd) wal_run \<Rightarrow> bool" for env where
  iterate: "finished r = None \<Longrightarrow> wal_step env r (Iterate sel) (run_iteration env sel r)"
| restart: "wal_step env r Restart (Run_start env (repository (mgr r)) (db (mgr r)) (channels r) (requests r))"

inductive_cases wal_stepE: "wal_step env r e r'"

section \<open>Proposing a transaction\<close>

fun canceled :: "wal_error \<Rightarrow> bool" where
  "canceled (GitFailed e) = git_error_is e ContextCanceled"
| "canceled (Wrapped s e) = canceled e"
| "canceled e = False"

definition unwrapExpectedError :: "result \<Rightarrow> result" where
  "unwrapExpectedError err =
     (case err of Some e \<Rightarrow> if canceled e then Some ErrTransactionProcessingStopped else err | None \<Rightarrow> None)"

text \<open>What the two \<open>select\<close> statements of \<open>Propose\<close> receive.\<close>

datatype propose_event =
  NotAdmitted_ctxDone wal_error | NotAdmitted_stopCalled | Result_received result | Waiting_ctxDone wal_error | Waiting_runDone

definition Propose :: "propose_event \<Rightarrow> result" where
  "Propose ev =
     (case ev of
        Result_received err \<Rightarrow> unwrapExpectedError err
      | Waiting_ctxDone err \<Rightarrow> Some err
      | Waiting_runDone \<Rightarrow> Some ErrTransactionProcessingStopped
      | NotAdmitted_ctxDone err \<Rightarrow> Some err
      | NotAdmitted_stopCalled \<Rightarrow> Some ErrTransactionProcessingStopped)"

end
