(* ===== verification/WalRecovery.thy ===== *)
theory WalRecovery
  imports WriteAheadLog "HOL-Library.Sublist"
begin

text \<open>
  The correctness of the write-ahead log of \<open>WriteAheadLog\<close>: its keys keep the order of the indices, a verified
  transaction fits the references, and in every run, with failing operations of git and of the store and with restarts
  at any time, the references are the logged entries applied in order.
\<close>

section \<open>Keys\<close>

definition big_endian :: "nat \<Rightarrow> nat \<Rightarrow> bytes" where
  "big_endian k n = map (\<lambda>j. char_of (n div 256 ^ j)) (rev [0 ..< k])"

lemma big_endian_simps [simp]:
  "big_endian 0 n = []"
  "big_endian (Suc k) n = char_of (n div 256 ^ k) # big_endian k n"
  "length (big_endian k n) = k"
  by (simp_all add: big_endian_def)

lemma PutUint64_big_endian: "PutUint64 v = big_endian 8 (unat v)"
proof -
  have "unat (drop_bit k v) = unat v div 2 ^ k" for k by (simp add: unat_drop_bit_eq flip: drop_bit_eq_div)
  then have "PutUint64 v = map (\<lambda>k. char_of (unat v div 2 ^ k)) [56, 48, 40, 32, 24, 16, 8, 0]"
    unfolding PutUint64_def by (simp only:)
  then show ?thesis by (simp add: big_endian_def upt_rec)
qed

lemma mod_256_Suc: "n mod 256 ^ Suc k = (n div 256 ^ k mod 256) * 256 ^ k + n mod 256 ^ k" for n :: nat
  using mod_mult2_eq [of n "256 ^ k" 256] by (simp add: mult.commute)

lemma big_endian_value:
  "foldl (\<lambda>a c. a * 256 + of_char c) x (big_endian k n) = x * 256 ^ k + n mod 256 ^ k" for x :: nat
proof (induction k arbitrary: x)
  case (Suc k)
  have "foldl (\<lambda>a c. a * 256 + of_char c) x (big_endian (Suc k) n) = (x * 256 + n div 256 ^ k mod 256) * 256 ^ k + n mod 256 ^ k"
    using Suc.IH [of "x * 256 + n div 256 ^ k mod 256"] by simp
  then show ?case
    using mod_256_Suc [of n k] by (simp add: add_mult_distrib)
qed simp

lemma char_of_less: "char_of x < (char_of y :: char) \<longleftrightarrow> x mod 256 < y mod 256" for x y :: nat
  by (simp add: less_char_def)

lemma char_of_eq: "char_of x = (char_of y :: char) \<longleftrightarrow> x mod 256 = y mod 256" for x y :: nat
  by (metis char_of_eq_iff char_of_mod_256 of_char_of)

lemma digit_less:
  fixes a b c d :: nat
  assumes "c < q" "d < q"
  shows "a * q + c < b * q + d \<longleftrightarrow> a < b \<or> a = b \<and> c < d"
proof (cases a b rule: linorder_cases)
  case less
  then have "a * q + c < Suc a * q" "Suc a * q \<le> b * q" using assms(1) mult_le_mono1 [of "Suc a" b q] by simp_all
  with less show ?thesis by simp
next
  case greater
  then have "b * q + d < Suc b * q" "Suc b * q \<le> a * q" using assms(2) mult_le_mono1 [of "Suc b" a q] by simp_all
  with greater show ?thesis by simp
qed simp

lemma big_endian_less: "big_endian k m < big_endian k n \<longleftrightarrow> m mod 256 ^ k < n mod 256 ^ k"
proof (induction k)
  case (Suc k)
  show ?case
    unfolding mod_256_Suc
    by (subst digit_less) (simp_all add: Suc.IH char_of_less char_of_eq)
qed simp

lemma Uint64_PutUint64 [simp]: "Uint64 (PutUint64 v) = Some v"
proof -
  have "unat v < 256 ^ 8" using unsigned_less [of v, where 'a = nat] by simp
  then show ?thesis using big_endian_value [of 0 8 "unat v"] by (simp add: PutUint64_big_endian Uint64_def)
qed

lemma PutUint64_less: "PutUint64 v < PutUint64 v' \<longleftrightarrow> v < v'"
proof -
  have "unat x < 256 ^ 8" for x :: u64 using unsigned_less [of x, where 'a = nat] by simp
  then show ?thesis by (simp add: PutUint64_big_endian big_endian_less word_less_nat_alt)
qed

lemma append_less_iff: "(pre @ xs < pre @ ys) = (xs < (ys :: string))"
  by (induction pre) auto

lemma keyLogEntry_less: "keyLogEntry repo i < keyLogEntry repo j \<longleftrightarrow> i < j"
  by (simp add: keyLogEntry_def append_less_iff PutUint64_less)

lemma keyLogEntry_inj [simp]: "keyLogEntry repo i = keyLogEntry repo j \<longleftrightarrow> i = j"
  using keyLogEntry_less [of repo i j] keyLogEntry_less [of repo j i] by (metis less_irrefl neqE)

text \<open>The key the reverse search starts from is above the keys of the indices below \<open>0xff00000000000000\<close> only.\<close>

lemma keyLogEntry_found:
  "keyLogEntry repo i \<le> keyPrefixLogEntries repo @ [CHR 0xFF] \<longleftrightarrow> unat i < 255 * 2 ^ 56"
proof -
  have lt: "unat i < 256 * 2 ^ 56" using unsigned_less [of i, where 'a = nat] by simp
  have "keyLogEntry repo i \<le> keyPrefixLogEntries repo @ [CHR 0xFF] \<longleftrightarrow> PutUint64 i \<le> [CHR 0xFF]"
    by (simp add: keyLogEntry_def append_less_iff flip: not_less)
  also have "PutUint64 i = char_of (unat i div 256 ^ 7) # big_endian 7 (unat i)"
    using big_endian_simps(2) [of 7 "unat i"] by (simp add: PutUint64_big_endian)
  also have "\<dots> \<le> [CHR 0xFF] \<longleftrightarrow> char_of (unat i div 256 ^ 7) < CHR 0xFF"
    by (auto simp: le_less big_endian_def upt_rec)
  also have "\<dots> \<longleftrightarrow> unat i div 2 ^ 56 < 255"
    using lt char_of_less [of "unat i div 256 ^ 7" 255] by (simp add: less_char_def)
  also have "\<dots> \<longleftrightarrow> unat i < 255 * 2 ^ 56" by (simp add: div_less_iff_less_mult)
  finally show ?thesis .
qed

lemma TrimPrefix_key [simp]: "TrimPrefix (keyLogEntry repo i) (keyPrefixLogEntries repo) = PutUint64 i"
  by (simp add: TrimPrefix_def keyLogEntry_def)

lemma keys_apart [simp]: "\<not> prefix (keyPrefixLogEntries repo) (keyAppliedLogIndex repo)"
  using same_prefix_prefix [of "''repository/'' @ repo"] by (simp add: keyPrefixLogEntries_def keyAppliedLogIndex_def)

lemma key_prefix [simp]: "prefix (keyPrefixLogEntries repo) (keyLogEntry repo i)"
  by (simp add: keyLogEntry_def)


section \<open>Reference transactions\<close>

lemma session_no_commit:
  "nul_free us \<Longrightarrow> git_effect zero (commands (session_input us)) r r' \<longleftrightarrow> r' = r"
  using commands_session [of us "[]"] by (auto simp: git_effect_def)

lemma session_snoc: "session_input (us @ [(n, oid)]) = session_input us @ update_command n oid []"
  by (simp add: session_input_def)

lemma update_all_effect:
  assumes "git_ok w zero grefs input" "nul_free (vs @ us)"
    and "upd_state u = stateStarted" "input (proc u) = session_input vs"
  shows "grefs (proc (fst (update_all w u us))) = grefs (proc u) \<and>
    (snd (update_all w u us) = None \<longrightarrow> upd_state (fst (update_all w u us)) = stateStarted \<and>
       input (proc (fst (update_all w u us))) = session_input (vs @ us))"
  using assms(2-)
proof (induction us arbitrary: vs u)
  case (Cons x us)
  obtain n oid where x: "x = (n, oid)" by (cases x)
  obtain u1 e where u1: "upd_Update w u n oid [] = (u1, e)" by (cases "upd_Update w u n oid []")
  then have "upd_write w u (update_command n oid []) = (u1, e)"
    using Cons.prems by (simp add: upd_Update_def expectState_eq)
  then have w: "wrote zero grefs input (update_command n oid []) u u1" and st: "e = None \<Longrightarrow> upd_state u1 = stateStarted"
    using wrote_write [OF assms(1), of "update_command n oid []" u] write_state [of w u "update_command n oid []"]
      Cons.prems by simp_all
  then have s: "input (proc u1) = session_input (vs @ [x])" "grefs (proc u1) = grefs (proc u)"
    using Cons.prems session_no_commit [of "vs @ [x]" zero]
    by (auto simp: wrote_def x session_snoc nul_free_def)
  show ?case
    using Cons.IH [of "vs @ [x]" u1] s st Cons.prems(1) u1 by (cases e) (simp_all add: x)
qed simp

lemma new_effect:
  assumes "git_ok w zero grefs input" "NewUpdater w h p = (p1, x)"
  shows "grefs p1 = grefs p \<and> input p1 = [] \<and> (\<forall>u. x = Inr u \<longrightarrow> proc u = p1 \<and> upd_state u = stateIdle)"
proof -
  have "grefs (fst (proc_exec w p)) = grefs p" "input (fst (proc_exec w p)) = []"
    using assms(1) by (simp_all add: git_ok_def)
  then show ?thesis using assms(2) by (auto simp: NewUpdater_def split: prod.splits option.splits sum.splits)
qed

lemma start_effect:
  assumes "git_ok w zero grefs input" "upd_state u = stateIdle" "input (proc u) = []" "upd_Start w u = (u1, e)"
  shows "grefs (proc u1) = grefs (proc u) \<and> input (proc u1) = session_input [] \<and> (e = None \<longrightarrow> upd_state u1 = stateStarted)"
proof -
  have "setState w (u\<lparr>upd_state := stateStarted\<rparr>) ''start'' = (u1, e)"
    using assms by (simp add: upd_Start_def expectState_eq)
  then show ?thesis
    using wrote_setState [OF assms(1), of "''start''" "u\<lparr>upd_state := stateStarted\<rparr>"] assms(3)
      setState_state [of w "u\<lparr>upd_state := stateStarted\<rparr>" "''start''"] session_no_commit [of "[]" zero]
    by (simp add: wrote_def session_input_def nul_free_def)
qed

definition prepared_input :: "LogEntry \<Rightarrow> string" where
  "prepared_input us = session_input us @ ''prepare'' @ [CHR 0x00]"

lemma commands_prepared:
  "nul_free us \<Longrightarrow> commands (prepared_input us @ s) = CStart # map (\<lambda>(r, n). CUpdate r n []) us @ CPrepare # commands s"
  using commands_session [of us "''prepare'' @ CHR 0x00 # s"] commands_state(2) [of s] by (simp add: prepared_input_def)

lemma prepared_effect:
  assumes "git_ok w zero grefs input" "nul_free us" "upd_state u = stateStarted" "input (proc u) = session_input us"
    and "upd_Prepare w u = (u1, e)"
  shows "grefs (proc u1) = grefs (proc u) \<and> input (proc u1) = prepared_input us \<and> (e = None \<longrightarrow> upd_state u1 = statePrepared)"
proof -
  have q: "setState w (u\<lparr>upd_state := statePrepared\<rparr>) ''prepare'' = (u1, e)"
    using assms by (simp add: upd_Prepare_def expectState_eq)
  then have i: "input (proc u1) = prepared_input us"
    "git_effect zero (commands (prepared_input us)) (grefs (proc u)) (grefs (proc u1))"
    using wrote_setState [OF assms(1), of "''prepare''" "u\<lparr>upd_state := statePrepared\<rparr>"] assms(4)
    by (simp_all add: wrote_def prepared_input_def)
  with commands_prepared [OF assms(2), of "[]"] have "grefs (proc u1) = grefs (proc u)" by (auto simp: git_effect_def)
  then show ?thesis
    using setState_state [of w "u\<lparr>upd_state := statePrepared\<rparr>" "''prepare''"] q i(1) by simp
qed

lemma prepare_effect:
  assumes "git_ok (git env) zero grefs input" "nul_free us" "prepareReferenceTransaction env p us = (p', res)"
  shows "grefs p' = grefs p \<and>
    (\<forall>u. res = Inr u \<longrightarrow> proc u = p' \<and> upd_state u = statePrepared \<and> input p' = prepared_input us)"
proof -
  obtain p1 x where new: "NewUpdater (git env) (ObjectHash env p) p = (p1, x)" by fastforce
  note p1 = new_effect [OF assms(1) new]
  show ?thesis
  proof (cases x)
    case (Inl err)
    then show ?thesis using assms(3) new p1 by (auto simp: prepareReferenceTransaction_def)
  next
    case (Inr u)
    obtain u1 e1 u2 e2 u3 e3 where ops: "upd_Start (git env) u = (u1, e1)" "update_all (git env) u1 us = (u2, e2)"
      "upd_Prepare (git env) u2 = (u3, e3)" by (metis surj_pair)
    have u1: "grefs (proc u1) = grefs p \<and> input (proc u1) = session_input [] \<and> (e1 = None \<longrightarrow> upd_state u1 = stateStarted)"
      using start_effect [OF assms(1) _ _ ops(1)] p1 Inr by auto
    then have u2: "e1 = None \<Longrightarrow> grefs (proc u2) = grefs p \<and>
        (e2 = None \<longrightarrow> upd_state u2 = stateStarted \<and> input (proc u2) = session_input us)"
      using update_all_effect [OF assms(1), of "[]" us u1] assms(2) ops(2) by simp
    then have u3: "e1 = None \<Longrightarrow> e2 = None \<Longrightarrow> grefs (proc u3) = grefs p \<and>
        input (proc u3) = prepared_input us \<and> (e3 = None \<longrightarrow> upd_state u3 = statePrepared)"
      using prepared_effect [OF assms(1,2) _ _ ops(3)] by simp
    from assms(3) new Inr ops u1 u2 u3 show ?thesis
      unfolding prepareReferenceTransaction_def by (auto split: option.splits)
  qed
qed

lemma commit_effect:
  assumes "git_ok w zero grefs input" "nul_free us" "upd_state u = statePrepared"
    and "input (proc u) = prepared_input us" "upd_Commit w u = (u1, e)"
  shows "partial_update zero us (grefs (proc u)) (grefs (proc u1)) \<and>
    (e = None \<longrightarrow> grefs (proc u1) = apply_updates zero us (grefs (proc u)))"
proof -
  let ?u = "u\<lparr>upd_state := stateIdle\<rparr>"
  have c: "setState w ?u ''commit'' = (u1, e)"
    using assms(3,5) by (simp add: upd_Commit_def checkState_def)
  have cs: "commands (input (proc ?u) @ ''commit'' @ [CHR 0x00]) = (CStart # map (\<lambda>(r, n). CUpdate r n []) us @ [CPrepare]) @ [CCommit]"
    using commands_prepared [OF assms(2), of "''commit'' @ [CHR 0x00]"] commands_state(3) [of "[]"] assms(4) by simp
  have us: "updates ((CStart # map (\<lambda>(r, n). CUpdate r n []) us @ [CPrepare]) @ [CCommit]) = us"
    using updates_map [of us "[CPrepare, CCommit]"] by (simp add: updates_def)
  have "partial_update zero us (grefs (proc u)) (grefs (proc u1))"
    using wrote_setState [OF assms(1), of "''commit''" ?u] c us unfolding wrote_def cs by (simp add: git_effect_def)
  moreover have "e = None \<Longrightarrow> grefs (proc u1) = apply_updates zero us (grefs (proc u))"
    using setState_commit [OF assms(1) _ cs] c us by simp
  ultimately show ?thesis by blast
qed


section \<open>What the code relies on\<close>

text \<open>The store as a map: a batch that is flushed takes effect, one that fails to has none; a reverse search gives the
  last key with the prefix that is not above the given one; a message that is unmarshaled is the one that was
  marshaled.\<close>

definition last_key :: "(bytes \<Rightarrow> 'b option) \<Rightarrow> bytes \<Rightarrow> bytes \<Rightarrow> bytes option \<Rightarrow> bool" where
  "last_key m pre k res \<longleftrightarrow>
     (case res of
        None \<Rightarrow> (\<forall>k'. prefix pre k' \<longrightarrow> k' \<le> k \<longrightarrow> m k' = None)
      | Some l \<Rightarrow> m l \<noteq> None \<and> prefix pre l \<and> l \<le> k \<and> (\<forall>k'. prefix pre k' \<longrightarrow> k' \<le> k \<longrightarrow> m k' \<noteq> None \<longrightarrow> k' \<le> l))"

definition db_ok :: "('p, 'd, 'b) wal_env \<Rightarrow> ('d \<Rightarrow> bytes \<Rightarrow> 'b option) \<Rightarrow> bool" where
  "db_ok env kv \<longleftrightarrow>
     (\<forall>d k b. kv (fst (batch_Flush env d k b)) = (if snd (batch_Flush env d k b) = None then (kv d)(k \<mapsto> b) else kv d)) \<and>
     (\<forall>d k. case txn_Get env d k of Inr b \<Rightarrow> kv d k = Some b | Inl err \<Rightarrow> error_is err ErrKeyNotFound \<longrightarrow> kv d k = None) \<and>
     (\<forall>d pre k. case iterator_Seek env d pre k of Inr res \<Rightarrow> last_key (kv d) pre k res | Inl err \<Rightarrow> True) \<and>
     (\<forall>e b. MarshalEntry env e = Inr b \<longrightarrow> UnmarshalEntry env b = Inr e) \<and>
     (\<forall>i b. MarshalIndex env i = Inr b \<longrightarrow> UnmarshalIndex env b = Inr i)"

definition deletes_ok :: "('p, 'd, 'b) wal_env \<Rightarrow> ('d \<Rightarrow> bytes \<Rightarrow> 'b option) \<Rightarrow> bool" where
  "deletes_ok env kv \<longleftrightarrow> (\<forall>d k. snd (txn_Delete env d k) = None \<and> kv (fst (txn_Delete env d k)) = (kv d)(k := None))"

text \<open>Resolving a reference gives where it points to, and the hash of the repository has the given zero object ID.\<close>

definition resolve_ok :: "('p, 'd, 'b) wal_env \<Rightarrow> string \<Rightarrow> ('p \<Rightarrow> refs) \<Rightarrow> bool" where
  "resolve_ok env zero grefs \<longleftrightarrow>
     (\<forall>p n. case ResolveRevision env p n of
        Inr oid \<Rightarrow> grefs p n = Some oid
      | Inl err \<Rightarrow> error_is err ErrReferenceNotFound \<longrightarrow> grefs p n = None) \<and>
     (\<forall>p z. ObjectHash env p = Inr z \<longrightarrow> z = zero)"

section \<open>What a verified transaction is\<close>

definition tip :: "string \<Rightarrow> refs \<Rightarrow> string \<Rightarrow> string" where
  "tip zero r n = (case r n of None \<Rightarrow> zero | Some oid \<Rightarrow> oid)"

definition fitting :: "string \<Rightarrow> refs \<Rightarrow> (string, ReferenceUpdate) gomap \<Rightarrow> (string, ReferenceUpdate) gomap" where
  "fitting zero r ups = filter (\<lambda>(n, tips). OldOID tips = tip zero r n) ups"

definition verified :: "string \<Rightarrow> refs \<Rightarrow> wal_Transaction \<Rightarrow> LogEntry \<Rightarrow> bool" where
  "verified zero r tx e \<longleftrightarrow>
     (SkipVerificationFailures tx \<or> fitting zero r (ReferenceUpdates tx) = ReferenceUpdates tx) \<and>
     e = sort_key fst (map (\<lambda>(n, tips). (n, NewOID tips)) (fitting zero r (ReferenceUpdates tx)))"

definition valid_name :: "string \<Rightarrow> bool" where
  "valid_name n \<longleftrightarrow> take 5 n = ''refs/'' \<and> CHR 0x00 \<notin> set n \<and> CHR 0x0A \<notin> set n"

lemma actual_tip_ok: "resolve_ok env zero grefs \<Longrightarrow> actual_tip env p n = Inr t \<Longrightarrow> t = tip zero (grefs p) n"
  unfolding resolve_ok_def actual_tip_def tip_def
  by (auto split: sum.splits if_splits option.splits)

lemma verify_loop_spec:
  assumes "resolve_ok env zero grefs" "verify_loop env p skip ups entry = Inr e"
  shows "e = entry @ map (\<lambda>(n, tips). (n, NewOID tips)) (fitting zero (grefs p) ups) \<and>
    (skip \<or> fitting zero (grefs p) ups = ups) \<and> list_all (\<lambda>(n, tips). valid_name n) ups"
  using assms(2)
proof (induction ups arbitrary: entry)
  case (Cons x ups)
  then show ?case
    by (cases x) (fastforce simp: fitting_def valid_name_def dest: actual_tip_ok [OF assms(1)]
      split: if_splits sum.splits)
qed (simp add: fitting_def)

definition clean :: "wal_Transaction \<Rightarrow> bool" where
  "clean tx \<longleftrightarrow> list_all (\<lambda>(n, tips). CHR 0x00 \<notin> set (NewOID tips)) (ReferenceUpdates tx)"

lemma verify_loop_nul_free:
  assumes "resolve_ok env zero grefs" "clean tx" "verify_loop env p skip (ReferenceUpdates tx) [] = Inr e"
  shows "nul_free (sort_key fst e)"
  using verify_loop_spec [OF assms(1,3)] assms(2)
  by (auto simp: nul_free_def clean_def fitting_def list_all_iff valid_name_def)

lemma verifyWithGit_effect:
  assumes "git_ok (git env) zero grefs input" "nul_free us" "verifyReferencesWithGit env m us = (m', err)"
  shows "\<exists>p'. m' = m\<lparr>repository := p'\<rparr> \<and> grefs p' = grefs (repository m)"
proof -
  obtain p x where p: "prepareReferenceTransaction env (repository m) us = (p, x)" by fastforce
  note eff = prepare_effect [OF assms(1,2) p]
  show ?thesis
  proof (cases x)
    case (Inr u)
    have "grefs (proc (fst (upd_Close (git env) u))) = grefs (repository m)"
      using wrote_Close [OF assms(1), of u] eff commands_prepared [OF assms(2), of "[]"] Inr
      by (auto simp: wrote_def git_effect_def)
    then show ?thesis using assms(3) p Inr by (auto simp: verifyReferencesWithGit_def case_prod_unfold)
  qed (use assms(3) p eff in \<open>auto simp: verifyReferencesWithGit_def\<close>)
qed

lemma verify_effect:
  assumes "git_ok (git env) zero grefs input" "resolve_ok env zero grefs" "clean tx"
    and "verifyReferences env m tx = (m', res)"
  shows "\<exists>p'. m' = m\<lparr>repository := p'\<rparr> \<and> grefs p' = grefs (repository m) \<and>
    (\<forall>e. res = Inr e \<longrightarrow> nul_free e \<and> verified zero (grefs (repository m)) tx e)"
proof (cases "verify_loop env (repository m) (SkipVerificationFailures tx) (ReferenceUpdates tx) []")
  case (Inl err)
  then show ?thesis using assms(4) by (auto simp: verifyReferences_def intro: exI [of _ "repository m"])
next
  case (Inr e)
  obtain m1 err where g: "verifyReferencesWithGit env m (sort_key fst e) = (m1, err)" by fastforce
  have "verified zero (grefs (repository m)) tx (sort_key fst e)"
    using verify_loop_spec [OF assms(2) Inr] by (auto simp: verified_def)
  then show ?thesis
    using verifyWithGit_effect [OF assms(1) verify_loop_nul_free [OF assms(2,3) Inr] g]
      verify_loop_nul_free [OF assms(2,3) Inr] assms(4) Inr g
    by (auto simp: verifyReferences_def split: option.splits)
qed


section \<open>The log in the store\<close>

text \<open>The log is the list of the entries logged so far, each with the channel of its transaction; the entry at position
  \<open>i\<close> has the index \<open>i + 1\<close>. The first \<open>a\<close> of them have been applied and pruned.\<close>

type_synonym wal_log = "(nat \<times> LogEntry) list"

abbreviation max_index :: nat where
  "max_index \<equiv> 255 * 2 ^ 56"

definition log_stored :: "('p, 'd, 'b) wal_env \<Rightarrow> wal_log \<Rightarrow> nat \<Rightarrow> (bytes \<Rightarrow> 'b option) \<Rightarrow> bool" where
  "log_stored env log a m \<longleftrightarrow>
     a \<le> length log \<and> length log < max_index \<and>
     (case m (keyAppliedLogIndex (getRepositoryID env)) of None \<Rightarrow> a = 0 | Some b \<Rightarrow> UnmarshalIndex env b = Inr (of_nat a)) \<and>
     (\<forall>k. prefix (keyPrefixLogEntries (getRepositoryID env)) k \<longrightarrow> m k \<noteq> None \<longrightarrow>
        (\<exists>i. a < i \<and> i \<le> length log \<and> k = keyLogEntry (getRepositoryID env) (of_nat i))) \<and>
     (\<forall>i. a < i \<longrightarrow> i \<le> length log \<longrightarrow>
        (\<exists>b. m (keyLogEntry (getRepositoryID env) (of_nat i)) = Some b \<and> UnmarshalEntry env b = Inr (snd (log ! (i - 1)))))"

lemma unat_index: "i < max_index \<Longrightarrow> unat (of_nat i :: u64) = i"
  by (simp add: unsigned_of_nat take_bit_nat_eq_self)

lemma index_le: "i < max_index \<Longrightarrow> j < max_index \<Longrightarrow> (of_nat i :: u64) \<le> of_nat j \<longleftrightarrow> i \<le> j"
  by (simp only: word_le_nat_alt unat_index)

lemma index_eq: "i < max_index \<Longrightarrow> j < max_index \<Longrightarrow> (of_nat i :: u64) = of_nat j \<longleftrightarrow> i = j"
  by (metis unat_index)

lemma keyLogEntry_le: "keyLogEntry repo i \<le> keyLogEntry repo j \<longleftrightarrow> i \<le> j"
  using keyLogEntry_less [of repo j i] by (simp flip: not_less)

lemma key_not_applied [simp]:
  "keyAppliedLogIndex repo \<noteq> keyLogEntry repo i" "keyLogEntry repo i \<noteq> keyAppliedLogIndex repo"
  using keys_apart [of repo] key_prefix [of repo i] by metis+

lemma last_key_log:
  assumes "log_stored env log a m" "repo = getRepositoryID env"
    and "last_key m (keyPrefixLogEntries repo) (keyPrefixLogEntries repo @ [CHR 0xFF]) res"
  shows "res = (if a = length log then None else Some (keyLogEntry repo (of_nat (length log))))"
proof -
  have found: "i < max_index \<Longrightarrow> keyLogEntry repo (of_nat i) \<le> keyPrefixLogEntries repo @ [CHR 0xFF]" for i
    using keyLogEntry_found [of repo "of_nat i"] unat_index [of i] by simp
  have len: "length log < max_index" "a \<le> length log" using assms(1) by (simp_all add: log_stored_def)
  have range: "\<exists>i. a < i \<and> i \<le> length log \<and> k = keyLogEntry repo (of_nat i)"
    if "prefix (keyPrefixLogEntries repo) k" "m k \<noteq> None" for k
    using assms(1,2) that by (simp add: log_stored_def)
  have top: "m (keyLogEntry repo (of_nat (length log))) \<noteq> None" if "a \<noteq> length log"
  proof -
    have "a < length log" using that len by simp
    then show ?thesis using assms(1,2) unfolding log_stored_def by (metis le_refl option.distinct(1))
  qed
  show ?thesis
  proof (cases res)
    case None
    then show ?thesis using assms(3) found [OF len(1)] top by (auto simp: last_key_def)
  next
    case (Some l)
    then obtain i where i: "a < i" "i \<le> length log" "l = keyLogEntry repo (of_nat i)"
      using assms(3) range by (auto simp: last_key_def)
    then have "keyLogEntry repo (of_nat (length log)) \<le> l"
      using assms(3) Some found [OF len(1)] top by (auto simp: last_key_def)
    then have "length log \<le> i" using i len index_le [of "length log" i] by (simp add: keyLogEntry_le)
    then show ?thesis using i Some by auto
  qed
qed

lemma initialize_log:
  assumes "db_ok env kv" "log_stored env log a (kv (db m))"
  shows "\<exists>m' err. initialize env m = Some (m', err) \<and> repository m' = repository m \<and> db m' = db m \<and>
    (err = None \<longrightarrow> appliedLogIndex m' = of_nat a \<and> appendedLogIndex m' = of_nat (length log))"
proof -
  let ?repo = "getRepositoryID env"
  have appended: "\<exists>m' err. initialize_appended env m1 = Some (m', err) \<and> repository m' = repository m \<and> db m' = db m \<and>
      (err = None \<longrightarrow> appliedLogIndex m' = of_nat a \<and> appendedLogIndex m' = of_nat (length log))"
    if m1: "m1 = m\<lparr>appliedLogIndex := of_nat a\<rparr>" for m1
  proof (cases "iterator_Seek env (db m) (keyPrefixLogEntries ?repo) (keyPrefixLogEntries ?repo @ [CHR 0xFF])")
    case (Inr res)
    then have "last_key (kv (db m)) (keyPrefixLogEntries ?repo) (keyPrefixLogEntries ?repo @ [CHR 0xFF]) res"
      using assms(1) unfolding db_ok_def by (metis sum.simps(6))
    from last_key_log [OF assms(2) refl this] Inr show ?thesis
      by (simp add: initialize_appended_def m1 Let_def split: if_split_asm)
  qed (simp add: initialize_appended_def m1 Let_def)
  show ?thesis
  proof (cases "txn_Get env (db m) (keyAppliedLogIndex ?repo)")
    case (Inl err)
    then have "error_is err ErrKeyNotFound \<Longrightarrow> a = 0"
      using assms unfolding db_ok_def log_stored_def by (auto split: sum.splits dest!: spec2 [where x = "db m"])
    then show ?thesis using Inl appended [OF refl] by (auto simp: initialize_def readKey_def)
  next
    case (Inr b)
    then have "UnmarshalIndex env b = Inr (of_nat a)"
      using assms unfolding db_ok_def log_stored_def by (auto split: sum.splits option.splits dest!: spec2 [where x = "db m"])
    then show ?thesis using Inr appended [OF refl] by (auto simp: initialize_def readKey_def)
  qed
qed


lemma setKey_effect:
  assumes "db_ok env kv" "setKey env m k mv = (m', err)"
  shows "\<exists>d'. m' = m\<lparr>db := d'\<rparr> \<and>
    (if err = None then \<exists>b. mv = Inr b \<and> kv d' = (kv (db m))(k \<mapsto> b) else kv d' = kv (db m))"
proof -
  have flush: "kv (fst (batch_Flush env d k b)) = (if snd (batch_Flush env d k b) = None then (kv d)(k \<mapsto> b) else kv d)" for d b
    using assms(1) by (simp add: db_ok_def)
  show ?thesis
    using assms(2) flush
    by (auto simp: setKey_def case_prod_unfold split: sum.splits option.splits intro: exI [of _ "db m"])
qed

lemma log_stored_append:
  assumes "log_stored env log a m" "Suc (length log) < max_index" "UnmarshalEntry env b = Inr e"
  shows "log_stored env (log @ [(c, e)]) a (m(keyLogEntry (getRepositoryID env) (of_nat (Suc (length log))) \<mapsto> b))"
proof -
  have "(of_nat i :: u64) \<noteq> of_nat (Suc (length log))" if "i \<le> length log" for i
    using that assms(2) index_eq [of i "Suc (length log)"] by auto
  with assms show ?thesis
    unfolding log_stored_def
    by (auto simp: nth_append le_Suc_eq simp del: of_nat_Suc) (auto intro!: exI [of _ "Suc (length log)"])
qed

lemma log_stored_applied:
  assumes "log_stored env log a m" "a < length log" "UnmarshalIndex env b = Inr (of_nat (Suc a))"
  shows "log_stored env log (Suc a)
    (m(keyAppliedLogIndex (getRepositoryID env) \<mapsto> b, keyLogEntry (getRepositoryID env) (of_nat (Suc a)) := None))"
proof -
  have "length log < max_index" using assms(1) by (simp add: log_stored_def)
  then have "(of_nat i :: u64) \<noteq> of_nat (Suc a)" if "i \<le> length log" "Suc a < i" for i
    using that index_eq [of i "Suc a"] by auto
  moreover have "\<exists>i. Suc a < i \<and> i \<le> length log \<and> k = keyLogEntry (getRepositoryID env) (of_nat i)"
    if "prefix (keyPrefixLogEntries (getRepositoryID env)) k" "m k \<noteq> None"
      "k \<noteq> keyLogEntry (getRepositoryID env) (of_nat (Suc a))" for k
    using assms(1) that unfolding log_stored_def by (metis Suc_lessI)
  ultimately show ?thesis
    using assms unfolding log_stored_def by (auto simp del: of_nat_Suc)
qed

section \<open>Applying the log\<close>

definition apply_log :: "string \<Rightarrow> wal_log \<Rightarrow> refs \<Rightarrow> refs" where
  "apply_log zero log r = foldl (\<lambda>r (c, e). apply_updates zero e r) r log"

definition refs_applied :: "string \<Rightarrow> refs \<Rightarrow> wal_log \<Rightarrow> nat \<Rightarrow> refs \<Rightarrow> bool" where
  "refs_applied zero r0 log a r \<longleftrightarrow>
     partial_update zero (if a < length log then snd (log ! a) else []) (apply_log zero (take a log) r0) r"

lemma refs_applied_idle: "refs_applied zero r0 log (length log) r \<longleftrightarrow> r = apply_log zero log r0"
  by (simp add: refs_applied_def)

lemma refs_applied_append:
  "refs_applied zero r0 log (length log) r \<Longrightarrow> refs_applied zero r0 (log @ [x]) (length log) r"
  by (simp add: refs_applied_def)

lemma refs_applied_done:
  assumes "refs_applied zero r0 log a r" "a < length log"
  shows "refs_applied zero r0 log (Suc a) (apply_updates zero (snd (log ! a)) r)"
proof -
  have "apply_updates zero (snd (log ! a)) r = apply_log zero (take (Suc a) log) r0"
    using assms apply_updates_partial [of zero "snd (log ! a)" "apply_log zero (take a log) r0" r]
    by (simp add: refs_applied_def take_Suc_conv_app_nth apply_log_def case_prod_unfold)
  then show ?thesis by (simp add: refs_applied_def)
qed

lemma refs_applied_partial:
  assumes "refs_applied zero r0 log a r" "a < length log" "partial_update zero (snd (log ! a)) r r'"
  shows "refs_applied zero r0 log a r'"
  using assms by (auto simp: refs_applied_def intro: partial_trans)

lemma read_entry:
  assumes "db_ok env kv" "log_stored env log a (kv (db m))" "a < length log"
    and "readKey env m (keyLogEntry (getRepositoryID env) (of_nat (Suc a))) (UnmarshalEntry env) = Inr e"
  shows "e = snd (log ! a)"
proof -
  obtain b where b: "txn_Get env (db m) (keyLogEntry (getRepositoryID env) (of_nat (Suc a))) = Inr b"
    "UnmarshalEntry env b = Inr e" using assms(4) by (auto simp: readKey_def split: sum.splits)
  have "case txn_Get env (db m) (keyLogEntry (getRepositoryID env) (of_nat (Suc a))) of
      Inr b \<Rightarrow> kv (db m) (keyLogEntry (getRepositoryID env) (of_nat (Suc a))) = Some b
    | Inl err \<Rightarrow> error_is err ErrKeyNotFound \<longrightarrow> kv (db m) (keyLogEntry (getRepositoryID env) (of_nat (Suc a))) = None"
    using assms(1) unfolding db_ok_def by blast
  then have "kv (db m) (keyLogEntry (getRepositoryID env) (of_nat (Suc a))) = Some b" by (simp add: b(1) del: of_nat_Suc)
  moreover have "\<exists>b. kv (db m) (keyLogEntry (getRepositoryID env) (of_nat (Suc a))) = Some b \<and>
      UnmarshalEntry env b = Inr (snd (log ! (Suc a - 1)))"
    using assms(2,3) unfolding log_stored_def by (elim conjE) (erule allE [of _ "Suc a"], simp del: of_nat_Suc)
  ultimately show ?thesis using b(2) by auto
qed

lemma applied_effect:
  assumes "db_ok env kv" "deletes_ok env kv" "log_stored env log a (kv (db m))" "a < length log"
    and "storeAppliedLogIndex env m (of_nat (Suc a)) = (m1, err)"
  shows "\<exists>d. m1 = m\<lparr>db := d\<rparr> \<and>
    (if err = None
     then log_stored env log (Suc a) (kv (fst (txn_Delete env d (keyLogEntry (getRepositoryID env) (of_nat (Suc a))))))
     else log_stored env log a (kv d))"
proof -
  obtain d where d: "m1 = m\<lparr>db := d\<rparr>"
    "if err = None then \<exists>b. MarshalIndex env (of_nat (Suc a)) = Inr b \<and> kv d = (kv (db m))(keyAppliedLogIndex (getRepositoryID env) \<mapsto> b)
     else kv d = kv (db m)"
    using setKey_effect [OF assms(1) assms(5) [unfolded storeAppliedLogIndex_def]] by auto
  have "log_stored env log (Suc a) (kv (fst (txn_Delete env d (keyLogEntry (getRepositoryID env) (of_nat (Suc a))))))" if "err = None"
  proof -
    obtain b where b: "MarshalIndex env (of_nat (Suc a)) = Inr b" "kv d = (kv (db m))(keyAppliedLogIndex (getRepositoryID env) \<mapsto> b)"
      using d(2) \<open>err = None\<close> by auto
    then have "UnmarshalIndex env b = Inr (of_nat (Suc a))" using assms(1) unfolding db_ok_def by blast
    from log_stored_applied [OF assms(3,4) this] b(2) show ?thesis using assms(2) by (simp add: deletes_ok_def)
  qed
  with d assms(3) show ?thesis by auto
qed

lemma apply_effect:
  assumes "git_ok (git env) zero grefs input" "db_ok env kv" "deletes_ok env kv"
    and "log_stored env log a (kv (db m))" "refs_applied zero r0 log a (grefs (repository m))"
    and "list_all (\<lambda>(c, e). nul_free e) log" "a < length log"
    and "applyLogEntry env m (of_nat (Suc a)) = (m', err)"
  shows "if err = None
    then log_stored env log (Suc a) (kv (db m')) \<and> refs_applied zero r0 log (Suc a) (grefs (repository m')) \<and>
      appliedLogIndex m' = of_nat (Suc a) \<and> appendedLogIndex m' = appendedLogIndex m
    else log_stored env log a (kv (db m')) \<and> refs_applied zero r0 log a (grefs (repository m'))"
proof (cases "readKey env m (keyLogEntry (getRepositoryID env) (of_nat (Suc a))) (UnmarshalEntry env)")
  case (Inl x)
  then show ?thesis using assms by (auto simp: applyLogEntry_def)
next
  case (Inr e)
  have e: "e = snd (log ! a)" by (rule read_entry [OF assms(2,4,7) Inr])
  have nf: "nul_free e" using assms(6,7) by (auto simp: e list_all_length case_prod_unfold)
  obtain p x where p: "prepareReferenceTransaction env (repository m) e = (p, x)" by fastforce
  note eff = prepare_effect [OF assms(1) nf p]
  show ?thesis
  proof (cases x)
    case (Inl y)
    then show ?thesis using assms Inr p eff by (auto simp: applyLogEntry_def simp del: of_nat_Suc)
  next
    case u: (Inr u)
    obtain u1 e1 where c: "upd_Commit (git env) u = (u1, e1)" by fastforce
    have ce: "partial_update zero e (grefs (repository m)) (grefs (proc u1))"
      "e1 = None \<longrightarrow> grefs (proc u1) = apply_updates zero e (grefs (repository m))"
      using commit_effect [OF assms(1) nf _ _ c] eff u by auto
    obtain m1 e2 where s: "storeAppliedLogIndex env (m\<lparr>repository := proc u1\<rparr>) (of_nat (Suc a)) = (m1, e2)" by fastforce
    note rp = refs_applied_partial [OF assms(5,7) ce(1) [unfolded e]] refs_applied_done [OF assms(5,7), folded e]
    have st: "\<exists>d. m1 = m\<lparr>repository := proc u1, db := d\<rparr> \<and>
        (if e2 = None
         then log_stored env log (Suc a) (kv (fst (txn_Delete env d (keyLogEntry (getRepositoryID env) (of_nat (Suc a))))))
         else log_stored env log a (kv d))"
      using applied_effect [OF assms(2,3) _ assms(7) s] assms(4) by simp
    have del: "snd (txn_Delete env d k) = None" for d k using assms(3) by (simp add: deletes_ok_def)
    show ?thesis
      using assms(4,8) Inr p u c s st rp ce(2) del
      by (auto simp: applyLogEntry_def Let_def deleteKey_def case_prod_unfold simp del: of_nat_Suc split: option.splits if_splits)
  qed
qed


section \<open>The runs of the manager\<close>

definition channels_ok :: "wal_log \<Rightarrow> nat \<Rightarrow> result option list \<Rightarrow> bool" where
  "channels_ok log a cs \<longleftrightarrow>
     list_all (\<lambda>(c, e). c < length cs) log \<and> sorted_wrt (<) (map fst log) \<and>
     (\<forall>c. c < length cs \<longrightarrow> cs ! c = Some None \<longrightarrow> c \<in> fst ` set (take a log)) \<and>
     (\<forall>c err. c < length cs \<longrightarrow> cs ! c = Some (Some err) \<longrightarrow> c \<notin> fst ` set log)"

definition awaiting_ok :: "wal_log \<Rightarrow> nat \<Rightarrow> (LogIndex, nat) gomap \<Rightarrow> bool" where
  "awaiting_ok log a aw \<longleftrightarrow>
     (\<forall>i c. map_of aw i = Some c \<longrightarrow> (\<exists>j. a \<le> j \<and> j < length log \<and> fst (log ! j) = c \<and> i = of_nat (Suc j)))"

definition log_verified :: "string \<Rightarrow> refs \<Rightarrow> wal_log \<Rightarrow> wal_Transaction list \<Rightarrow> bool" where
  "log_verified zero r0 log rs \<longleftrightarrow>
     (\<forall>i < length log. verified zero (apply_log zero (take i log) r0) (rs ! fst (log ! i)) (snd (log ! i)))"

definition wal_inv ::
    "('p, 'd, 'b) wal_env \<Rightarrow> string \<Rightarrow> ('p \<Rightarrow> refs) \<Rightarrow> ('d \<Rightarrow> bytes \<Rightarrow> 'b option) \<Rightarrow> refs \<Rightarrow> wal_log \<Rightarrow> nat \<Rightarrow> ('p, 'd) wal_run \<Rightarrow> bool" where
  "wal_inv env zero grefs kv r0 log a r \<longleftrightarrow>
     log_stored env log a (kv (db (mgr r))) \<and> refs_applied zero r0 log a (grefs (repository (mgr r))) \<and>
     list_all (\<lambda>(c, e). nul_free e) log \<and> channels_ok log a (channels r) \<and> log_verified zero r0 log (requests r) \<and>
     length (requests r) = length (channels r) \<and>
     (finished r = None \<longrightarrow> appliedLogIndex (mgr r) = of_nat a \<and> appendedLogIndex (mgr r) = of_nat (length log) \<and>
        awaiting_ok log a (awaitingTransactions r))"

lemma channels_ok_result: "channels_ok log a cs \<Longrightarrow> channels_ok log a (cs @ [Some (Some err)])"
  by (auto simp: channels_ok_def nth_append less_Suc_eq list_all_iff)

lemma channels_ok_log: "channels_ok log a cs \<Longrightarrow> a \<le> length log \<Longrightarrow> channels_ok (log @ [(length cs, e)]) a (cs @ [None])"
  by (auto simp: channels_ok_def nth_append less_Suc_eq list_all_iff sorted_wrt_append)

lemma channels_ok_applied: "channels_ok log a cs \<Longrightarrow> channels_ok log (Suc a) cs"
  using image_mono [OF set_take_subset_set_take [of a "Suc a" log], of fst] unfolding channels_ok_def by auto

lemma channels_ok_sent:
  assumes "channels_ok log a cs" "a < length log"
  shows "channels_ok log (Suc a) (cs[fst (log ! a) := Some None])"
proof -
  have "fst (log ! a) < length cs"
    using assms by (auto simp: channels_ok_def list_all_length case_prod_unfold)
  with assms show ?thesis
    by (auto simp: channels_ok_def take_Suc_conv_app_nth nth_list_update list_all_iff split: if_splits)
qed

lemma awaiting_ok_delete:
  "awaiting_ok log a aw \<Longrightarrow> length log < max_index \<Longrightarrow> awaiting_ok log (Suc a) (AList.delete (of_nat (Suc a)) aw)"
  unfolding awaiting_ok_def by (simp add: map_of_filter_del del: of_nat_Suc) (metis Suc_leI le_neq_implies_less)

lemma awaiting_ok_channel:
  assumes "awaiting_ok log a aw" "length log < max_index" "a < length log" "map_of aw (of_nat (Suc a)) = Some c"
  shows "c = fst (log ! a)"
proof -
  obtain j where j: "a \<le> j" "j < length log" "fst (log ! j) = c" "(of_nat (Suc a) :: u64) = of_nat (Suc j)"
    using assms(1,4) unfolding awaiting_ok_def by blast
  then have "Suc a = Suc j" using assms(2,3) index_eq [of "Suc a" "Suc j"] by (simp del: of_nat_Suc)
  then show ?thesis using j(3) by simp
qed

lemma log_verified_append:
  assumes "log_verified zero r0 log rs" "list_all (\<lambda>(c, e). c < length rs) log"
    and "verified zero (apply_log zero log r0) tx e"
  shows "log_verified zero r0 (log @ [(length rs, e)]) (rs @ [tx])"
  using assms by (auto simp: log_verified_def nth_append less_Suc_eq list_all_length case_prod_unfold)

lemma log_verified_more:
  assumes "log_verified zero r0 log rs" "list_all (\<lambda>(c, e). c < length rs) log"
  shows "log_verified zero r0 log (rs @ [tx])"
  using assms by (auto simp: log_verified_def nth_append list_all_length case_prod_unfold)

lemma start_inv:
  assumes "db_ok env kv" "log_stored env log a (kv d)" "refs_applied zero r0 log a (grefs p)"
    and "list_all (\<lambda>(c, e). nul_free e) log" "channels_ok log a cs" "log_verified zero r0 log rs" "length rs = length cs"
  shows "wal_inv env zero grefs kv r0 log a (Run_start env p d cs rs)"
  using initialize_log [of env kv log a "\<lparr>repository = p, db = d, appendedLogIndex = 0, appliedLogIndex = 0\<rparr>"] assms
  by (auto simp: Run_start_def Let_def wal_inv_def awaiting_ok_def split: option.splits)

lemma apply_next_inv:
  assumes "git_ok (git env) zero grefs input" "db_ok env kv" "deletes_ok env kv" "wal_inv env zero grefs kv r0 log a r"
    and "finished r = None" "a < length log"
  shows "wal_inv env zero grefs kv r0 log a (apply_next env r) \<and> finished (apply_next env r) \<noteq> None \<or>
    wal_inv env zero grefs kv r0 log (Suc a) (apply_next env r)"
proof -
  note inv = assms(4) [unfolded wal_inv_def]
  obtain m' err where m': "applyLogEntry env (mgr r) (of_nat (Suc a)) = (m', err)" by fastforce
  have idx: "appliedLogIndex (mgr r) + 1 = of_nat (Suc a)" using inv assms(5) by simp
  have eff: "if err = None
    then log_stored env log (Suc a) (kv (db m')) \<and> refs_applied zero r0 log (Suc a) (grefs (repository m')) \<and>
      appliedLogIndex m' = of_nat (Suc a) \<and> appendedLogIndex m' = appendedLogIndex (mgr r)
    else log_stored env log a (kv (db m')) \<and> refs_applied zero r0 log a (grefs (repository m'))"
    by (rule apply_effect [OF assms(1-3) _ _ _ assms(6) m']) (use inv in auto)
  show ?thesis
  proof (cases err)
    case (Some x)
    then have "apply_next env r = r\<lparr>mgr := m', finished := Some (Some (Wrapped ''apply log entry'' x))\<rparr>"
      unfolding apply_next_def Let_def idx m' by simp
    then show ?thesis using eff inv Some by (simp add: wal_inv_def)
  next
    case None
    then have ok: "wal_inv env zero grefs kv r0 log (Suc a) (r\<lparr>mgr := m'\<rparr>)"
      if "awaiting_ok log (Suc a) (awaitingTransactions r)"
      using eff inv assms(5) that channels_ok_applied [of log a] by (simp add: wal_inv_def)
    have sent: "wal_inv env zero grefs kv r0 log (Suc a) (send_result (fst (log ! a)) None
        (r\<lparr>mgr := m', awaitingTransactions := AList.delete (of_nat (Suc a)) (awaitingTransactions r)\<rparr>))"
      using eff inv None assms(5) channels_ok_sent [OF _ assms(6)]
        awaiting_ok_delete [of log a "awaitingTransactions r"]
      by (simp add: wal_inv_def send_result_def log_stored_def del: of_nat_Suc)
    show ?thesis
    proof (cases "map_of (awaitingTransactions r) (of_nat (Suc a) :: u64)")
      case none: None
      then have "awaiting_ok log (Suc a) (awaitingTransactions r)"
        using awaiting_ok_delete [of log a "awaitingTransactions r"] inv assms(5)
        by (simp add: awaiting_ok_def map_of_filter_del fun_upd_idem log_stored_def del: of_nat_Suc)
      moreover have "apply_next env r = r\<lparr>mgr := m'\<rparr>"
        unfolding apply_next_def Let_def idx m' None using none by (simp del: of_nat_Suc)
      ultimately show ?thesis using ok by simp
    next
      case (Some c)
      then have "c = fst (log ! a)"
        using awaiting_ok_channel [of log a "awaitingTransactions r" c] inv assms(5,6) by (simp add: log_stored_def del: of_nat_Suc)
      then show ?thesis
        using sent Some unfolding apply_next_def Let_def idx m' None by (simp del: of_nat_Suc)
    qed
  qed
qed

lemma append_effect:
  assumes "db_ok env kv" "log_stored env log a (kv (db m))" "Suc (length log) < max_index"
    and "appendedLogIndex m = of_nat (length log)" "appendLogEntry env m e = (m', err)"
  shows "\<exists>d. if err = None
    then m' = m\<lparr>db := d, appendedLogIndex := of_nat (Suc (length log))\<rparr> \<and> log_stored env (log @ [(c, e)]) a (kv d)
    else m' = m\<lparr>db := d\<rparr> \<and> log_stored env log a (kv d)"
proof -
  have idx: "appendedLogIndex m + 1 = of_nat (Suc (length log))" using assms(4) by simp
  obtain m1 e1 where s: "storeLogEntry env m (of_nat (Suc (length log))) e = (m1, e1)" by fastforce
  obtain d where d: "m1 = m\<lparr>db := d\<rparr>" "if e1 = None then \<exists>b. MarshalEntry env e = Inr b \<and>
      kv d = (kv (db m))(keyLogEntry (getRepositoryID env) (of_nat (Suc (length log))) \<mapsto> b) else kv d = kv (db m)"
    using setKey_effect [OF assms(1) s [unfolded storeLogEntry_def]] by auto
  have "log_stored env (log @ [(c, e)]) a (kv d)" if "e1 = None"
  proof -
    obtain b where b: "MarshalEntry env e = Inr b"
      "kv d = (kv (db m))(keyLogEntry (getRepositoryID env) (of_nat (Suc (length log))) \<mapsto> b)" using d(2) \<open>e1 = None\<close> by (auto simp del: of_nat_Suc)
    then have "UnmarshalEntry env b = Inr e" using assms(1) unfolding db_ok_def by blast
    from log_stored_append [OF assms(2,3) this] b(2) show ?thesis by simp
  qed
  with d s assms(2,5) show ?thesis
    unfolding appendLogEntry_def Let_def idx by (auto simp del: of_nat_Suc split: option.splits)
qed

lemma admit_failed:
  assumes "wal_inv env zero grefs kv r0 log (length log) r" "finished r = None"
    and "log_stored env log (length log) (kv (db m))" "grefs (repository m) = grefs (repository (mgr r))"
    and "appliedLogIndex m = appliedLogIndex (mgr r)" "appendedLogIndex m = appendedLogIndex (mgr r)"
  shows "wal_inv env zero grefs kv r0 log (length log)
    (r\<lparr>requests := requests r @ [tx], mgr := m, channels := channels r @ [Some (Some err)]\<rparr>)"
  using assms channels_ok_result [of log _ "channels r"] log_verified_more [of zero r0 log "requests r" tx]
  by (simp add: wal_inv_def channels_ok_def [of log _ "channels r"])

lemma admit_logged:
  assumes "wal_inv env zero grefs kv r0 log (length log) r" "finished r = None"
    and "log_stored env (log @ [(length (channels r), e)]) (length log) (kv (db m))"
    and "grefs (repository m) = grefs (repository (mgr r))" "nul_free e" "verified zero (grefs (repository (mgr r))) tx e"
    and "appliedLogIndex m = appliedLogIndex (mgr r)" "appendedLogIndex m = of_nat (Suc (length log))"
  shows "wal_inv env zero grefs kv r0 (log @ [(length (channels r), e)]) (length log)
    (r\<lparr>channels := channels r @ [None], requests := requests r @ [tx], mgr := m,
       awaitingTransactions := AList.update (of_nat (Suc (length log))) (length (channels r)) (awaitingTransactions r)\<rparr>)"
proof -
  note inv = assms(1) [unfolded wal_inv_def]
  have refs: "grefs (repository (mgr r)) = apply_log zero log r0" using inv refs_applied_idle by blast
  have len: "list_all (\<lambda>(c, e). c < length (requests r)) log" "length (requests r) = length (channels r)"
    using inv by (simp_all add: channels_ok_def)
  have ch: "channels_ok (log @ [(length (channels r), e)]) (length log) (channels r @ [None])"
    using inv channels_ok_log by blast
  have "map_of (awaitingTransactions r) i = None" for i
    using inv assms(2) unfolding awaiting_ok_def by (metis leD option.exhaust)
  then have "awaiting_ok (log @ [(length (channels r), e)]) (length log)
      (AList.update (of_nat (Suc (length log))) (length (channels r)) (awaitingTransactions r))"
    by (simp add: awaiting_ok_def AList.update_conv' del: of_nat_Suc) (rule exI [of _ "length log"], simp)
  moreover have "log_verified zero r0 (log @ [(length (channels r), e)]) (requests r @ [tx])"
    using log_verified_append [of zero r0 log "requests r" tx e] inv len assms(6) refs by simp
  ultimately show ?thesis
    using inv assms refs_applied_append [of zero r0 log] len(2) ch by (simp add: wal_inv_def del: of_nat_Suc)
qed

lemma admit_inv:
  assumes "git_ok (git env) zero grefs input" "db_ok env kv" "resolve_ok env zero grefs"
    and "wal_inv env zero grefs kv r0 log (length log) r" "finished r = None" "clean tx" "Suc (length log) < max_index"
  shows "\<exists>log'. wal_inv env zero grefs kv r0 log' (length log) (admit env tx r)"
proof -
  note inv = assms(4) [unfolded wal_inv_def]
  obtain m1 res where v: "verifyReferences env (mgr r) tx = (m1, res)" by fastforce
  obtain p where p: "m1 = (mgr r)\<lparr>repository := p\<rparr>" "grefs p = grefs (repository (mgr r))"
    "\<And>e. res = Inr e \<Longrightarrow> nul_free e \<and> verified zero (grefs (repository (mgr r))) tx e"
    using verify_effect [OF assms(1,3,6) v] by auto
  show ?thesis
  proof (cases res)
    case (Inl err)
    then show ?thesis
      using admit_failed [OF assms(4,5), where m = m1] inv p
      by (auto simp: admit_def Let_def v send_result_def intro!: exI [of _ log])
  next
    case (Inr e)
    obtain m2 err where a: "appendLogEntry env m1 e = (m2, err)" by fastforce
    then obtain d where d: "if err = None
        then m2 = m1\<lparr>db := d, appendedLogIndex := of_nat (Suc (length log))\<rparr> \<and>
          log_stored env (log @ [(length (channels r), e)]) (length log) (kv d)
        else m2 = m1\<lparr>db := d\<rparr> \<and> log_stored env log (length log) (kv d)"
      using append_effect [OF assms(2) _ assms(7) _ a, of "length log" "length (channels r)"] inv assms(5) p(1) by auto
    show ?thesis
    proof (cases err)
      case (Some x)
      then show ?thesis using admit_failed [OF assms(4,5), where m = m2] Inr a d p v
        by (auto simp: admit_def Let_def send_result_def intro!: exI [of _ log])
    next
      case None
      then show ?thesis using admit_logged [OF assms(4,5), of e m2 tx] Inr a d p v
        by (auto simp: admit_def Let_def simp del: of_nat_Suc)
    qed
  qed
qed


lemma log_length:
  assumes "channels_ok log a cs"
  shows "length log \<le> length cs"
proof -
  have "distinct (map fst log)" using assms by (simp add: channels_ok_def strict_sorted_iff)
  then have "length log = card (set (map fst log))" using distinct_card by fastforce
  also have "\<dots> \<le> card {..< length cs}"
    using assms by (intro card_mono) (auto simp: channels_ok_def list_all_iff)
  finally show ?thesis by simp
qed

lemma iteration_inv:
  assumes "git_ok (git env) zero grefs input" "db_ok env kv" "deletes_ok env kv" "resolve_ok env zero grefs"
    and "wal_inv env zero grefs kv r0 log a r" "finished r = None"
    and "list_all clean (requests (run_iteration env sel r))" "length (channels (run_iteration env sel r)) < max_index"
  shows "\<exists>log a. wal_inv env zero grefs kv r0 log a (run_iteration env sel r)"
proof -
  note inv = assms(5) [unfolded wal_inv_def]
  have len: "length log < max_index" "a \<le> length log" using inv by (simp_all add: log_stored_def)
  then have lt: "appliedLogIndex (mgr r) < appendedLogIndex (mgr r) \<longleftrightarrow> a < length log"
    using inv assms(6) index_le [of "length log" a] by (simp flip: not_le)
  show ?thesis
  proof (cases "a < length log")
    case True
    then show ?thesis using apply_next_inv [OF assms(1-3,5,6) True] lt by (auto simp: run_iteration_def)
  next
    case False
    then have a: "a = length log" using len by simp
    show ?thesis
    proof (cases sel)
      case (Admitted tx)
      then have it: "run_iteration env sel r = admit env tx r" using lt False by (simp add: run_iteration_def)
      have "clean tx" "Suc (length (channels r)) < max_index"
        using assms(7,8) unfolding it
        by (auto simp: admit_def send_result_def Let_def split: prod.splits option.splits sum.splits)
      then show ?thesis
        using admit_inv [OF assms(1,2,4) _ assms(6), of r0 log tx] assms(5) a log_length inv unfolding it
        by (metis Suc_le_mono le_less_trans)
    next
      case ContextDone
      then show ?thesis using assms(5) lt False by (auto simp: run_iteration_def wal_inv_def)
    qed
  qed
qed

definition wal_init ::
    "('p, 'd, 'b) wal_env \<Rightarrow> ('p \<Rightarrow> refs) \<Rightarrow> ('d \<Rightarrow> bytes \<Rightarrow> 'b option) \<Rightarrow> refs \<Rightarrow> ('p, 'd) wal_run \<Rightarrow> bool" where
  "wal_init env grefs kv r0 r \<longleftrightarrow>
     (\<exists>p d. r = Run_start env p d [] [] \<and> grefs p = r0 \<and> kv d (keyAppliedLogIndex (getRepositoryID env)) = None \<and>
        (\<forall>k. prefix (keyPrefixLogEntries (getRepositoryID env)) k \<longrightarrow> kv d k = None))"

lemma Run_start_simps [simp]:
  "channels (Run_start env p d cs rs) = cs" "requests (Run_start env p d cs rs) = rs"
  by (auto simp: Run_start_def Let_def split: option.splits prod.splits)

lemma iteration_grows:
  "list_all clean (requests (run_iteration env sel r)) \<Longrightarrow> list_all clean (requests r)"
  "length (channels r) \<le> length (channels (run_iteration env sel r))"
  by (auto simp: run_iteration_def apply_next_def admit_def send_result_def Let_def
      split: prod.splits option.splits sum.splits selected.splits if_splits)

lemma step_grows:
  assumes "wal_step env r e r'" "list_all clean (requests r')" "length (channels r') < max_index"
  shows "list_all clean (requests r) \<and> length (channels r) < max_index"
  using assms iteration_grows [where r = r and env = env] by (auto elim!: wal_stepE dest: le_less_trans)

lemma wal_reachable_inv:
  assumes "git_ok (git env) zero grefs input" "db_ok env kv" "deletes_ok env kv" "resolve_ok env zero grefs"
    and "reachable (wal_init env grefs kv r0) (wal_step env) r"
    and "list_all clean (requests r)" "length (channels r) < max_index"
  shows "\<exists>log a. wal_inv env zero grefs kv r0 log a r"
  using assms(5-)
proof (induction rule: reachable.induct)
  case (reach_init r)
  then obtain p d where r: "r = Run_start env p d [] []" "grefs p = r0"
    "kv d (keyAppliedLogIndex (getRepositoryID env)) = None"
    "\<And>k. prefix (keyPrefixLogEntries (getRepositoryID env)) k \<Longrightarrow> kv d k = None" by (auto simp: wal_init_def)
  have "log_stored env [] 0 (kv d)" using r(3,4) by (auto simp: log_stored_def)
  then have "wal_inv env zero grefs kv r0 [] 0 r"
    unfolding r(1) by (rule start_inv [OF assms(2)]) (simp_all add: r(2) refs_applied_def apply_log_def channels_ok_def log_verified_def)
  then show ?case by blast
next
  case (reach_step r e r')
  then obtain log a where inv: "wal_inv env zero grefs kv r0 log a r" using step_grows by blast
  from reach_step(2) show ?case
  proof (cases rule: wal_step.cases)
    case (iterate sel)
    then show ?thesis using iteration_inv [OF assms(1-4) inv] reach_step(4,5) by blast
  next
    case restart
    have "wal_inv env zero grefs kv r0 log a r'"
      unfolding restart by (rule start_inv [OF assms(2)]) (use inv in \<open>simp_all add: wal_inv_def\<close>)
    then show ?thesis by blast
  qed
qed


section \<open>Verification does not depend on the order\<close>

definition verify_item :: "('p, 'd, 'b) wal_env \<Rightarrow> 'p \<Rightarrow> bool \<Rightarrow> string \<times> ReferenceUpdate \<Rightarrow> wal_error + LogEntry" where
  "verify_item env p skip x = verify_loop env p skip [x] []"

lemma verify_loop_item:
  "verify_loop env p skip (x # ups) entry =
    (case verify_item env p skip x of Inl err \<Rightarrow> Inl err | Inr e \<Rightarrow> verify_loop env p skip ups (entry @ e))"
  by (cases x) (auto simp: verify_item_def split: sum.split)

lemma verify_loop_all:
  "verify_loop env p skip ups entry =
    (case find (\<lambda>x. isl (verify_item env p skip x)) ups of
       Some x \<Rightarrow> Inl (projl (verify_item env p skip x))
     | None \<Rightarrow> Inr (entry @ concat (map (\<lambda>x. projr (verify_item env p skip x)) ups)))"
  by (induction ups arbitrary: entry) (auto simp: verify_loop_item split: sum.split option.split)

lemma verify_item_name: "verify_item env p skip x = Inr e \<Longrightarrow> e = [] \<or> e = [(fst x, NewOID (snd x))]"
  by (cases x) (auto simp: verify_item_def split: if_splits sum.splits)

lemma sorted_entry_mset:
  assumes "distinct (map fst ups)" "mset ups = mset ups'" "\<And>x. x \<in> set ups \<Longrightarrow> f x = [] \<or> f x = [(fst x, g x)]"
  shows "sort_key fst (concat (map f ups)) = sort_key fst (concat (map f ups') :: (string \<times> string) list)"
proof (rule sort_key_inj_key_eq)
  have "mset (concat (map f us)) = sum_mset (image_mset (\<lambda>x. mset (f x)) (mset us))" for us
    by (induction us) auto
  then show "mset (concat (map f ups)) = mset (sort_key fst (concat (map f ups')))"
    using assms(2) by simp
  have "inj_on fst (set ups)" using assms(1) by (simp add: distinct_map)
  then show "inj_on fst (set (concat (map f ups)))"
    using assms(3) by (auto simp: inj_on_def) (metis fst_conv list.set(1) empty_iff empty_set list.set_intros(1) prod.inject set_ConsD)+
qed simp

text \<open>C31: Verifying a transaction. Go visits the updates of a transaction in any order. The order does not matter: a
  transaction is accepted in every order or in none, and if it is accepted, the logged entry and what the verification
  has done with git are the same.\<close>

theorem verifyReferences_order_independent:
  assumes "distinct (map fst ups)" "mset ups = mset ups'"
  shows "let v = verifyReferences env m \<lparr>SkipVerificationFailures = skip, ReferenceUpdates = ups\<rparr>;
      v' = verifyReferences env m \<lparr>SkipVerificationFailures = skip, ReferenceUpdates = ups'\<rparr>
    in fst v = fst v' \<and> (isl (snd v) \<longleftrightarrow> isl (snd v')) \<and> (\<not> isl (snd v) \<longrightarrow> snd v = snd v')"
proof (cases "\<exists>x \<in> set ups. isl (verify_item env (repository m) skip x)")
  case True
  moreover from this have "\<exists>x \<in> set ups'. isl (verify_item env (repository m) skip x)"
    using assms(2) mset_eq_setD by blast
  ultimately have "find (\<lambda>x. isl (verify_item env (repository m) skip x)) ups \<noteq> None"
    "find (\<lambda>x. isl (verify_item env (repository m) skip x)) ups' \<noteq> None" by (auto simp: find_None_iff)
  then show ?thesis by (auto simp: verifyReferences_def verify_loop_all)
next
  case False
  moreover from this have "\<not> (\<exists>x \<in> set ups'. isl (verify_item env (repository m) skip x))"
    using assms(2) mset_eq_setD by blast
  ultimately have "find (\<lambda>x. isl (verify_item env (repository m) skip x)) ups = None"
    "find (\<lambda>x. isl (verify_item env (repository m) skip x)) ups' = None" by (auto simp: find_None_iff)
  moreover have "projr (verify_item env (repository m) skip x) = [] \<or>
      projr (verify_item env (repository m) skip x) = [(fst x, NewOID (snd x))]" if "x \<in> set ups" for x
    using False that verify_item_name [of env "repository m" skip x] by (cases "verify_item env (repository m) skip x") auto
  then have "sort_key fst (concat (map (\<lambda>x. projr (verify_item env (repository m) skip x)) ups)) =
      sort_key fst (concat (map (\<lambda>x. projr (verify_item env (repository m) skip x)) ups'))"
    by (rule sorted_entry_mset [OF assms])
  ultimately show ?thesis by (simp add: verifyReferences_def verify_loop_all)
qed


section \<open>A repository and a store\<close>

text \<open>A git and a store that keep the contracts, to run the manager on. In a flaky store \<open>failing\<close> deletions fail before
  they succeed.\<close>

record plain_repo =
  plain_refs :: refs
  plain_input :: string

definition zero_oid :: string where
  "zero_oid = ''0''"

definition plain_read :: "plain_repo \<Rightarrow> plain_repo \<times> (git_error + string)" where
  "plain_read p =
     (let cs = commands (plain_input p) in
      if cs = [] then (p, Inl (GitError ''EOF''))
      else case last cs of
             CStart \<Rightarrow> (p, Inr (''start: ok'' @ [CHR 0x0A]))
           | CPrepare \<Rightarrow> (p, Inr (''prepare: ok'' @ [CHR 0x0A]))
           | CCommit \<Rightarrow> (p\<lparr>plain_refs := apply_updates zero_oid (updates cs) (plain_refs p)\<rparr>, Inr (''commit: ok'' @ [CHR 0x0A]))
           | _ \<Rightarrow> (p, Inl (GitError ''EOF'')))"

definition plain_git :: "plain_repo process" where
  "plain_git =
     \<lparr>proc_exec = (\<lambda>p. (p\<lparr>plain_input := []\<rparr>, None)), proc_write = (\<lambda>p t. (p\<lparr>plain_input := plain_input p @ t\<rparr>, None)),
      proc_read = plain_read, proc_wait = (\<lambda>p. (p, None)), proc_stderr = (\<lambda>p. [])\<rparr>"

record plain_db =
  items :: "(bytes, LogEntry + LogIndex) gomap"
  failing :: nat

definition plain_seek :: "plain_db \<Rightarrow> bytes \<Rightarrow> bytes \<Rightarrow> bytes option" where
  "plain_seek d pre k =
     (let ks = filter (\<lambda>k'. prefix pre k' \<and> k' \<le> k) (map fst (items d)) in if ks = [] then None else Some (Max (set ks)))"

definition plain_env :: "bool \<Rightarrow> (plain_repo, plain_db, LogEntry + LogIndex) wal_env" where
  "plain_env flaky =
     \<lparr>git = plain_git, ObjectHash = (\<lambda>p. Inr zero_oid),
      ResolveRevision = (\<lambda>p n. case plain_refs p n of None \<Rightarrow> Inl ErrReferenceNotFound | Some oid \<Rightarrow> Inr oid),
      StorageName = ''s'', RelativePath = ''p'',
      MarshalEntry = (\<lambda>e. Inr (Inl e)), UnmarshalEntry = (\<lambda>b. case b of Inl e \<Rightarrow> Inr e | Inr i \<Rightarrow> Inl (WalError ''unmarshal'')),
      MarshalIndex = (\<lambda>i. Inr (Inr i)), UnmarshalIndex = (\<lambda>b. case b of Inr i \<Rightarrow> Inr i | Inl e \<Rightarrow> Inl (WalError ''unmarshal'')),
      batch_Set = (\<lambda>d k b. None), batch_Flush = (\<lambda>d k b. (d\<lparr>items := AList.update k b (items d)\<rparr>, None)),
      txn_Get = (\<lambda>d k. case map_of (items d) k of None \<Rightarrow> Inl ErrKeyNotFound | Some b \<Rightarrow> Inr b),
      txn_Delete = (\<lambda>d k. if flaky \<and> failing d > 0 then (d\<lparr>failing := failing d - 1\<rparr>, Some (WalError ''delete''))
        else (d\<lparr>items := AList.delete k (items d)\<rparr>, None)),
      iterator_Seek = (\<lambda>d pre k. Inr (plain_seek d pre k))\<rparr>"

lemma partial_mono: "partial_update zero us r r' \<Longrightarrow> set us \<subseteq> set vs \<Longrightarrow> partial_update zero vs r r'"
  unfolding partial_update_def by blast

lemma apply_updates_is_partial: "partial_update zero us r (apply_updates zero us r)"
proof (induction us arbitrary: r)
  case (Cons x us)
  obtain n oid where x: "x = (n, oid)" by (cases x)
  have "partial_update zero (x # us) r (r(n := ref_value zero oid))" by (auto simp: partial_update_def x)
  moreover have "partial_update zero (x # us) (r(n := ref_value zero oid)) (apply_updates zero (x # us) r)"
    unfolding x apply_updates_Cons by (rule partial_mono [OF Cons.IH]) auto
  ultimately show ?case by (rule partial_trans)
qed simp

lemma plain_git_ok: "git_ok plain_git zero_oid plain_refs plain_input"
proof -
  have "cs \<noteq> [] \<Longrightarrow> last cs = CCommit \<Longrightarrow> CCommit \<in> set cs" for cs by (metis last_in_set)
  then show ?thesis
    using apply_updates_is_partial
    by (auto simp: git_ok_def plain_git_def plain_read_def git_effect_def Let_def split: git_command.splits if_splits)
qed

lemma plain_seek_last: "last_key (map_of (items d)) pre k (plain_seek d pre k)"
proof -
  define ks where "ks = filter (\<lambda>k'. prefix pre k' \<and> k' \<le> k) (map fst (items d))"
  have ks: "k' \<in> set ks \<longleftrightarrow> prefix pre k' \<and> k' \<le> k \<and> map_of (items d) k' \<noteq> None" for k'
    by (auto simp: ks_def map_of_eq_None_iff)
  have seek: "plain_seek d pre k = (if ks = [] then None else Some (Max (set ks)))"
    by (simp add: plain_seek_def ks_def Let_def)
  show ?thesis
  proof (cases "ks = []")
    case True
    then show ?thesis using ks by (auto simp: last_key_def seek)
  next
    case False
    then have "Max (set ks) \<in> set ks" by (intro Max_in) simp_all
    with False show ?thesis using ks by (auto simp: last_key_def seek intro: Max_ge)
  qed
qed

lemma plain_db_ok: "db_ok (plain_env flaky) (\<lambda>d. map_of (items d))"
  unfolding db_ok_def using plain_seek_last
  by (auto simp: plain_env_def AList.update_conv' split: option.split)

lemma plain_resolve_ok: "resolve_ok (plain_env flaky) zero_oid plain_refs"
  by (simp add: resolve_ok_def plain_env_def split: option.split)

lemma plain_deletes_ok: "deletes_ok (plain_env False) (\<lambda>d. map_of (items d))"
  by (simp add: deletes_ok_def plain_env_def map_of_filter_del)

definition plain_start :: "bool \<Rightarrow> nat \<Rightarrow> (plain_repo, plain_db) wal_run" where
  "plain_start flaky k =
     Run_start (plain_env flaky) \<lparr>plain_refs = Map.empty, plain_input = []\<rparr> \<lparr>items = [], failing = k\<rparr> [] []"

definition plain_tx :: "string \<Rightarrow> string \<Rightarrow> wal_Transaction" where
  "plain_tx old new = \<lparr>SkipVerificationFailures = False, ReferenceUpdates = [(''refs/heads/x'', \<lparr>OldOID = old, NewOID = new\<rparr>)]\<rparr>"

primrec plain_exec :: "bool \<Rightarrow> wal_event \<Rightarrow> (plain_repo, plain_db) wal_run \<Rightarrow> (plain_repo, plain_db) wal_run" where
  "plain_exec flaky (Iterate sel) r = (if finished r = None then run_iteration (plain_env flaky) sel r else r)"
| "plain_exec flaky Restart r = Run_start (plain_env flaky) (repository (mgr r)) (db (mgr r)) (channels r) (requests r)"

definition plain_run :: "bool \<Rightarrow> nat \<Rightarrow> wal_event list \<Rightarrow> (plain_repo, plain_db) wal_run" where
  "plain_run flaky k evs = foldl (\<lambda>r e. plain_exec flaky e r) (plain_start flaky k) evs"

lemma plain_reachable:
  "reachable (wal_init (plain_env flaky) plain_refs (\<lambda>d. map_of (items d)) Map.empty) (wal_step (plain_env flaky)) (plain_run flaky k evs)"
proof (induction evs rule: rev_induct)
  case Nil
  have "wal_init (plain_env flaky) plain_refs (\<lambda>d. map_of (items d)) Map.empty (plain_start flaky k)"
    unfolding wal_init_def plain_start_def
    by (intro exI [of _ "\<lparr>plain_refs = Map.empty, plain_input = []\<rparr>"] exI [of _ "\<lparr>items = [], failing = k\<rparr>"]) simp
  then show ?case by (simp add: plain_run_def reach_init)
next
  case (snoc e evs)
  then show ?case
    by (cases e) (auto simp: plain_run_def intro: reach_step wal_step.intros)
qed

text \<open>A transaction, a restart before it is applied, and a second one whose expected value is outdated.\<close>

definition recovery_run :: "(plain_repo, plain_db) wal_run" where
  "recovery_run = plain_run False 0
     [Iterate (Admitted (plain_tx ''0'' ''a'')), Iterate ContextDone, Iterate (Admitted (plain_tx ''0'' ''b'')),
      Iterate (Admitted (plain_tx ''a'' ''c'')), Restart, Iterate ContextDone]"

lemma recovery_run_eval:
  "channels recovery_run = [Some None, Some (Some (Wrapped ''verify references''
       (ReferenceVerificationError ''refs/heads/x'' ''0'' ''a''))), None] \<and>
   finished recovery_run = None \<and> appliedLogIndex (mgr recovery_run) = 2 \<and> appendedLogIndex (mgr recovery_run) = 2 \<and>
   requests recovery_run = [plain_tx ''0'' ''a'', plain_tx ''0'' ''b'', plain_tx ''a'' ''c''] \<and>
   plain_refs (repository (mgr recovery_run)) ''refs/heads/x'' = Some ''c''"
  by code_simp

text \<open>The first deletion fails; two restarts later a transaction is proposed.\<close>

definition stale_run :: "(plain_repo, plain_db) wal_run" where
  "stale_run = plain_run True 1
     [Iterate (Admitted (plain_tx ''0'' ''a'')), Iterate ContextDone, Restart,
      Iterate (Admitted (plain_tx ''a'' ''b'')), Iterate ContextDone]"

lemma stale_run_eval:
  "items (db (mgr stale_run)) = [(keyLogEntry ''s:p'' 1, Inl [(''refs/heads/x'', ''a'')]), (keyAppliedLogIndex ''s:p'', Inr 2)] \<and>
   channels stale_run = [None, Some None] \<and> plain_refs (repository (mgr stale_run)) ''refs/heads/x'' = Some ''b''"
  by code_simp

lemma stale_run_next:
  "let r = plain_exec True Restart stale_run; r' = plain_exec True (Iterate (Admitted (plain_tx ''b'' ''c''))) r
   in finished r = None \<and> channels r' = [None, Some None, None]"
  by code_simp


section \<open>Properties\<close>




lemma initialize_stale:
  assumes "db_ok env kv" "0 < n" "Suc n < max_index" "repo = getRepositoryID env"
    and "kv (db m) (keyAppliedLogIndex repo) = Some b" "UnmarshalIndex env b = Inr (of_nat (Suc n))"
    and "kv (db m) (keyLogEntry repo (of_nat n)) \<noteq> None"
    and "\<And>k. prefix (keyPrefixLogEntries repo) k \<Longrightarrow> kv (db m) k \<noteq> None \<Longrightarrow> k = keyLogEntry repo (of_nat n)"
    and "initialize env m = Some (m', None)"
  shows "m' = m\<lparr>appliedLogIndex := of_nat (Suc n), appendedLogIndex := of_nat n\<rparr>"
proof -
  have get: "case txn_Get env (db m) (keyAppliedLogIndex repo) of Inr b \<Rightarrow> kv (db m) (keyAppliedLogIndex repo) = Some b
      | Inl err \<Rightarrow> error_is err ErrKeyNotFound \<longrightarrow> kv (db m) (keyAppliedLogIndex repo) = None"
    and seek: "\<And>pre k. case iterator_Seek env (db m) pre k of Inr res \<Rightarrow> last_key (kv (db m)) pre k res | Inl err \<Rightarrow> True"
    using assms(1) unfolding db_ok_def by blast+
  have found: "keyLogEntry repo (of_nat n) \<le> keyPrefixLogEntries repo @ [CHR 0xFF]"
    using keyLogEntry_found [of repo "of_nat n"] unat_index [of n] assms(3) by simp
  have init: "initialize env m = initialize_appended env (m\<lparr>appliedLogIndex := of_nat (Suc n)\<rparr>)"
    using get assms(4-6,9) by (auto simp: initialize_def readKey_def split: sum.splits if_splits)
  have "last_key (kv (db m)) (keyPrefixLogEntries repo) (keyPrefixLogEntries repo @ [CHR 0xFF]) res \<Longrightarrow>
      res = Some (keyLogEntry repo (of_nat n))" for res
    using assms(7,8) found by (cases res) (auto simp: last_key_def)
  then have "iterator_Seek env (db m) (keyPrefixLogEntries repo) (keyPrefixLogEntries repo @ [CHR 0xFF]) = Inr res \<Longrightarrow>
      res = Some (keyLogEntry repo (of_nat n))" for res
    using seek [of "keyPrefixLogEntries repo" "keyPrefixLogEntries repo @ [CHR 0xFF]"] by simp
  then show ?thesis
    using assms(9) unfolding init initialize_appended_def Let_def assms(4)
    by (fastforce split: sum.splits option.splits simp del: of_nat_Suc)
qed




theorem verifyReferences_order_independent_witness:
  "snd (verifyReferences (plain_env False) (mgr recovery_run) \<lparr>SkipVerificationFailures = True, ReferenceUpdates =
       [(''refs/heads/y'', \<lparr>OldOID = ''0'', NewOID = ''b''\<rparr>), (''refs/heads/x'', \<lparr>OldOID = ''c'', NewOID = ''d''\<rparr>)]\<rparr>) =
     Inr [(''refs/heads/x'', ''d''), (''refs/heads/y'', ''b'')] \<and>
   snd (verifyReferences (plain_env False) (mgr recovery_run) \<lparr>SkipVerificationFailures = True, ReferenceUpdates =
       [(''refs/heads/x'', \<lparr>OldOID = ''c'', NewOID = ''d''\<rparr>), (''refs/heads/y'', \<lparr>OldOID = ''0'', NewOID = ''b''\<rparr>)]\<rparr>) =
     Inr [(''refs/heads/x'', ''d''), (''refs/heads/y'', ''b'')]"
proof -
  let ?x = "(''refs/heads/x'', \<lparr>OldOID = ''c'', NewOID = ''d''\<rparr>)" and ?y = "(''refs/heads/y'', \<lparr>OldOID = ''0'', NewOID = ''b''\<rparr>)"
  have "snd (verifyReferences (plain_env False) (mgr recovery_run) \<lparr>SkipVerificationFailures = True, ReferenceUpdates = [?y, ?x]\<rparr>) =
      Inr [(''refs/heads/x'', ''d''), (''refs/heads/y'', ''b'')]"
    by code_simp
  moreover have "distinct (map fst [?y, ?x])" "mset [?y, ?x] = mset [?x, ?y]" by simp_all
  note verifyReferences_order_independent [OF this, of "plain_env False" "mgr recovery_run" True]
  ultimately show ?thesis by (simp add: Let_def)
qed

end
