(* ===== verification/CatfileQueue.thy ===== *)
theory CatfileQueue
  imports Strconv "HOL-Library.Sublist"
begin

text \<open>
  The queue of requests to a \<open>git cat-file\<close> process (\<open>git/catfile/request_queue.go\<close>) with the parser of its answers and the
  two readers that use it (\<open>object_info_reader.go\<close>, \<open>object_content_reader.go\<close>, \<open>git/object_id.go\<close>). The process is a parameter:
  what it prints for a line. The question is whether a process that is handed to the next user is in step with its
  requests; that is what the flags of the queue are for.
\<close>

section \<open>Parsing answers\<close>

datatype catfile_error =
    ErrClosed | WriteFailed string | ReadInfoLineFailed | NotFoundError | InvalidInfoLine | InvalidObjectIDLength | InvalidObjectIDChar
  | InvalidObjectSize | NotFullyRead | NoOutstandingRequest | ConcurrentReadError | DiscardNewlineFailed | EndOfFile | QueueInUse | WrongQueuePanic

record ObjectInfo =
  Oid :: string
  info_Type :: string
  info_Size :: int

abbreviation nl :: char where "nl \<equiv> CHR 0x0A"

definition flushCommand :: string where
  "flushCommand = [CHR 0x09] @ ''FLUSH'' @ [CHR 0x09]"

definition oid_char :: "char \<Rightarrow> bool" where
  "oid_char c \<longleftrightarrow> (of_char CHR ''0'' :: nat) \<le> of_char c \<and> of_char c \<le> (of_char CHR ''9'' :: nat) \<or>
     (of_char CHR ''a'' :: nat) \<le> of_char c \<and> of_char c \<le> (of_char CHR ''f'' :: nat)"

text \<open>A hash is given by the length of its hexadecimal form.\<close>

definition ValidateHex :: "nat \<Rightarrow> string \<Rightarrow> catfile_error option" where
  "ValidateHex h hex =
     (if length hex \<noteq> h then Some InvalidObjectIDLength
      else if \<not> list_all oid_char hex then Some InvalidObjectIDChar
      else None)"

definition FromHex :: "nat \<Rightarrow> string \<Rightarrow> catfile_error + string" where
  "FromHex h hex = (case ValidateHex h hex of Some err \<Rightarrow> Inl err | None \<Rightarrow> Inr hex)"

definition HasSuffix :: "string \<Rightarrow> string \<Rightarrow> bool" where
  "HasSuffix s suf \<longleftrightarrow> suffix suf s"

text \<open>The argument is what is left to read and so is the first result. The label \<open>restart\<close> is a recursive call.\<close>

function ParseObjectInfo :: "nat \<Rightarrow> bytes \<Rightarrow> bytes \<times> (catfile_error + ObjectInfo)" where
  "ParseObjectInfo h out =
     (if nl \<notin> set out then ([], Inl ReadInfoLineFailed)
      else
        (let infoLine = takeWhile (\<lambda>c. c \<noteq> nl) out; rest = drop (Suc (length infoLine)) out in
         if HasSuffix infoLine '' missing'' then
           (if prefix flushCommand infoLine then ParseObjectInfo h rest else (rest, Inl NotFoundError))
         else
           (case split_char CHR '' '' infoLine of
              [info0, info1, info2] \<Rightarrow>
                (case FromHex h info0 of
                   Inl err \<Rightarrow> (rest, Inl err)
                 | Inr oid \<Rightarrow>
                     (case Atoi info2 of
                        (sz, None) \<Rightarrow> (rest, Inr \<lparr>Oid = oid, info_Type = info1, info_Size = sz\<rparr>)
                      | (_, Some _) \<Rightarrow> (rest, Inl InvalidObjectSize)))
            | _ \<Rightarrow> (rest, Inl InvalidInfoLine))))"
  by auto
termination
  by (relation "measure (\<lambda>(h, out). length out)") (auto simp: length_drop intro: diff_less dest: length_pos_if_in_set)

declare ParseObjectInfo.simps [simp del]

section \<open>The queue\<close>

text \<open>\<open>stdin\<close> is the buffer of the writer and \<open>stdin_err\<close> its error, after which it refuses everything. \<open>partial\<close> is what the
  process has read of an incomplete line, \<open>stdout\<close> what it has printed and nobody has read; a dead process prints
  nothing any more.\<close>

record requestQueue =
  outstandingRequests :: int
  closed :: bool
  isReadingObject :: bool
  hashLen :: nat
  isObjectQueue :: bool
  stdin :: bytes
  stdin_err :: "string option"
  partial_line :: bytes
  stdout :: bytes
  alive :: bool

definition isDirty :: "requestQueue \<Rightarrow> bool" where
  "isDirty q \<longleftrightarrow> isReadingObject q \<or> outstandingRequests q \<noteq> 0"

text \<open>What a process prints for its input: \<open>git\<close> gives the answer to a line.\<close>

fun feed :: "(string \<Rightarrow> bytes) \<Rightarrow> bytes \<Rightarrow> bytes \<Rightarrow> bytes \<times> bytes" where
  "feed git line [] = (line, [])"
| "feed git line (c # cs) =
     (if c = nl then (case feed git [] cs of (p, out) \<Rightarrow> (p, git line @ out)) else feed git (line @ [c]) cs)"

text \<open>The first \<open>k\<close> bytes of the buffer reach the process.\<close>

definition pass_input :: "(string \<Rightarrow> bytes) \<Rightarrow> nat \<Rightarrow> requestQueue \<Rightarrow> requestQueue" where
  "pass_input git k q =
     (if \<not> alive q then q\<lparr>stdin := drop k (stdin q)\<rparr>
      else case feed git (partial_line q) (take k (stdin q)) of
             (p, out) \<Rightarrow> q\<lparr>stdin := drop k (stdin q), partial_line := p, stdout := stdout q @ out\<rparr>)"

text \<open>A write to a \<open>bufio.Writer\<close>. An error comes with the number of buffered bytes that got through before.\<close>

definition bufio_Write :: "(string \<Rightarrow> bytes) \<Rightarrow> (string \<times> nat) option \<Rightarrow> bytes \<Rightarrow> requestQueue \<Rightarrow> requestQueue \<times> string option" where
  "bufio_Write git failure bs q =
     (case stdin_err q of
        Some err \<Rightarrow> (q, Some err)
      | None \<Rightarrow>
          (case failure of
             None \<Rightarrow> (q\<lparr>stdin := stdin q @ bs\<rparr>, None)
           | Some (err, k) \<Rightarrow> ((pass_input git k (q\<lparr>stdin := stdin q @ bs\<rparr>))\<lparr>stdin := [], stdin_err := Some err\<rparr>, Some err)))"

text \<open>\<open>WriteByte\<close> makes room before it stores the byte.\<close>

definition bufio_WriteByte :: "(string \<Rightarrow> bytes) \<Rightarrow> (string \<times> nat) option \<Rightarrow> char \<Rightarrow> requestQueue \<Rightarrow> requestQueue \<times> string option" where
  "bufio_WriteByte git failure c q =
     (if stdin_err q = None \<and> failure = None then (q\<lparr>stdin := stdin q @ [c]\<rparr>, None) else bufio_Write git failure [] q)"

definition bufio_Flush :: "(string \<Rightarrow> bytes) \<Rightarrow> (string \<times> nat) option \<Rightarrow> requestQueue \<Rightarrow> requestQueue \<times> string option" where
  "bufio_Flush git failure q =
     (if stdin_err q = None \<and> failure = None then (pass_input git (length (stdin q)) q, None) else bufio_Write git failure [] q)"

text \<open>Every operation takes the failures of its writes.\<close>

definition requestRevision ::
    "(string \<Rightarrow> bytes) \<Rightarrow> (string \<times> nat) option \<Rightarrow> (string \<times> nat) option \<Rightarrow> string \<Rightarrow> requestQueue \<Rightarrow> requestQueue \<times> catfile_error option" where
  "requestRevision git e1 e2 revision q =
     (if closed q then (q, Some ErrClosed)
      else
        (case bufio_Write git e1 revision (q\<lparr>outstandingRequests := outstandingRequests q + 1\<rparr>) of
           (q, Some err) \<Rightarrow> (q\<lparr>outstandingRequests := outstandingRequests q - 1\<rparr>, Some (WriteFailed err))
         | (q, None) \<Rightarrow>
             (case bufio_WriteByte git e2 nl q of
                (q, Some err) \<Rightarrow> (q\<lparr>outstandingRequests := outstandingRequests q - 1\<rparr>, Some (WriteFailed err))
              | (q, None) \<Rightarrow> (q, None))))"

definition queue_Flush ::
    "(string \<Rightarrow> bytes) \<Rightarrow> (string \<times> nat) option \<Rightarrow> (string \<times> nat) option \<Rightarrow> (string \<times> nat) option \<Rightarrow> requestQueue
      \<Rightarrow> requestQueue \<times> catfile_error option" where
  "queue_Flush git e1 e2 e3 q =
     (if closed q then (q, Some ErrClosed)
      else
        (case bufio_Write git e1 flushCommand q of
           (q, Some err) \<Rightarrow> (q, Some (WriteFailed err))
         | (q, None) \<Rightarrow>
             (case bufio_WriteByte git e2 nl q of
                (q, Some err) \<Rightarrow> (q, Some (WriteFailed err))
              | (q, None) \<Rightarrow> (case bufio_Flush git e3 q of (q, err) \<Rightarrow> (q, map_option WriteFailed err)))))"

text \<open>No other reader is between the load and the decrement, so the counter is what was loaded.\<close>

definition readInfo :: "requestQueue \<Rightarrow> requestQueue \<times> (catfile_error + ObjectInfo)" where
  "readInfo q =
     (if closed q then (q, Inl ErrClosed)
      else
        (let queuedRequests = outstandingRequests q in
         if queuedRequests = 0 then (q, Inl NoOutstandingRequest)
         else
           (let q = q\<lparr>outstandingRequests := outstandingRequests q - 1\<rparr> in
            if outstandingRequests q < queuedRequests - 1 then (q, Inl ConcurrentReadError)
            else case ParseObjectInfo (hashLen q) (stdout q) of (rest, r) \<Rightarrow> (q\<lparr>stdout := rest\<rparr>, r))))"

text \<open>The reader of an object: how many bytes are left of its contents, \<open>None\<close> after the end.\<close>

type_synonym objectReader = "nat option"

definition ReadObject :: "requestQueue \<Rightarrow> requestQueue \<times> (catfile_error + ObjectInfo \<times> objectReader)" where
  "ReadObject q =
     (if \<not> isObjectQueue q then (q, Inl WrongQueuePanic)
      else if isReadingObject q then (q, Inl NotFullyRead)
      else
        (case readInfo (q\<lparr>isReadingObject := True\<rparr>) of
           (q, Inl err) \<Rightarrow> (if err = NotFoundError then q\<lparr>isReadingObject := False\<rparr> else q, Inl err)
         | (q, Inr objectInfo) \<Rightarrow> (q, Inr (objectInfo, Some (nat (info_Size objectInfo))))))"

definition ReadInfo :: "requestQueue \<Rightarrow> requestQueue \<times> (catfile_error + ObjectInfo)" where
  "ReadInfo q = (if isObjectQueue q then (q, Inl WrongQueuePanic) else readInfo q)"

text \<open>\<open>Read\<close> of an object with a buffer of \<open>n\<close> bytes; the standard output delivers at most \<open>chunk\<close> of them. When nothing is
  left to read, the process is dead.\<close>

definition discard_newline :: "requestQueue \<Rightarrow> requestQueue \<times> objectReader \<times> bytes \<times> catfile_error option" where
  "discard_newline q =
     (case stdout q of
        [] \<Rightarrow> (q, Some 0, [], Some DiscardNewlineFailed)
      | _ # rest \<Rightarrow> (q\<lparr>stdout := rest, isReadingObject := False\<rparr>, None, [], Some EndOfFile))"

definition object_Read :: "objectReader \<Rightarrow> nat \<Rightarrow> nat \<Rightarrow> requestQueue \<Rightarrow> requestQueue \<times> objectReader \<times> bytes \<times> catfile_error option" where
  "object_Read r n chunk q =
     (if closed q then (q, r, [], Some ErrClosed)
      else case r of
        None \<Rightarrow> (q, None, [], Some EndOfFile)
      | Some N \<Rightarrow>
          if N = 0 then discard_newline q
          else if n = 0 then (q, r, [], None)
          else if stdout q = [] then discard_newline q
          else (let k = min (min n N) (max 1 chunk); p = take k (stdout q)
                in (q\<lparr>stdout := drop k (stdout q)\<rparr>, Some (N - length p), p, None)))"

definition queue_close :: "requestQueue \<Rightarrow> requestQueue" where
  "queue_close q = q\<lparr>closed := True\<rparr>"

section \<open>Readers\<close>

record catfile_reader =
  queue :: requestQueue
  queueInUse :: bool

definition newReader :: "nat \<Rightarrow> bool \<Rightarrow> catfile_reader" where
  "newReader h isObj =
     \<lparr>queue = \<lparr>outstandingRequests = 0, closed = False, isReadingObject = False, hashLen = h, isObjectQueue = isObj, stdin = [],
        stdin_err = None, partial_line = [], stdout = [], alive = True\<rparr>, queueInUse = False\<rparr>"

definition reserve_queue :: "catfile_reader \<Rightarrow> catfile_reader option" where
  "reserve_queue rd = (if queueInUse rd then None else Some (rd\<lparr>queueInUse := True\<rparr>))"

definition Info :: "(string \<Rightarrow> bytes) \<Rightarrow> (nat \<Rightarrow> (string \<times> nat) option) \<Rightarrow> string \<Rightarrow> catfile_reader \<Rightarrow> catfile_reader \<times> (catfile_error + ObjectInfo)" where
  "Info git e revision rd =
     (case reserve_queue rd of
        None \<Rightarrow> (rd, Inl QueueInUse)
      | Some rd \<Rightarrow>
          (let (q, r) =
             (case requestRevision git (e 0) (e 1) revision (queue rd) of
                (q, Some err) \<Rightarrow> (q, Inl err)
              | (q, None) \<Rightarrow> (case queue_Flush git (e 2) (e 3) (e 4) q of (q, Some err) \<Rightarrow> (q, Inl err) | (q, None) \<Rightarrow> ReadInfo q))
           in (rd\<lparr>queue := q, queueInUse := False\<rparr>, r)))"

definition Object ::
    "(string \<Rightarrow> bytes) \<Rightarrow> (nat \<Rightarrow> (string \<times> nat) option) \<Rightarrow> string \<Rightarrow> catfile_reader
      \<Rightarrow> catfile_reader \<times> (catfile_error + ObjectInfo \<times> objectReader)" where
  "Object git e revision rd =
     (case reserve_queue rd of
        None \<Rightarrow> (rd, Inl QueueInUse)
      | Some rd \<Rightarrow>
          (let (q, r) =
             (case requestRevision git (e 0) (e 1) revision (queue rd) of
                (q, Some err) \<Rightarrow> (q, Inl err)
              | (q, None) \<Rightarrow> (case queue_Flush git (e 2) (e 3) (e 4) q of (q, Some err) \<Rightarrow> (q, Inl err) | (q, None) \<Rightarrow> ReadObject q))
           in (rd\<lparr>queue := q, queueInUse := False\<rparr>, r)))"


text \<open>\<open>WriteTo\<close> copies the object with a buffer of 32 KB; a writer that fails is not modelled. The result has what is copied.\<close>

function WriteTo :: "nat \<Rightarrow> objectReader \<Rightarrow> requestQueue \<Rightarrow> requestQueue \<times> objectReader \<times> bytes \<times> catfile_error option" where
  "WriteTo chunk r q =
     (case object_Read r 32768 chunk q of
        (q', r', c, Some err) \<Rightarrow> (q', r', c, if err = EndOfFile then None else Some err)
      | (q', r', c, None) \<Rightarrow> (case WriteTo chunk r' q' of (q'', r'', c', err) \<Rightarrow> (q'', r'', c @ c', err)))"
  by pat_completeness auto
termination
  by (relation "measure (\<lambda>(chunk, r, q). case r of None \<Rightarrow> 0 | Some n \<Rightarrow> n)")
    (auto simp: object_Read_def discard_newline_def Let_def split: option.splits if_splits list.splits)

declare WriteTo.simps [simp del]

section \<open>The process\<close>

text \<open>What is documented of \<open>git cat-file --batch\<close> and \<open>--batch-check\<close>: \<open>db\<close> gives the object a revision names, with its type and
  contents. Nothing has the name that is used for flushing, no revision is ambiguous, and the repository does not change.\<close>

definition cat_file_ok :: "(string \<Rightarrow> bytes) \<Rightarrow> (string \<Rightarrow> (string \<times> string \<times> bytes) option) \<Rightarrow> nat \<Rightarrow> bool \<Rightarrow> bool" where
  "cat_file_ok git db h isObj \<longleftrightarrow> db flushCommand = None \<and>
     (\<forall>r. nl \<notin> set r \<longrightarrow>
        (case db r of
           None \<Rightarrow> git r = r @ '' missing'' @ [nl]
         | Some (oid, ty, content) \<Rightarrow>
             length oid = h \<and> list_all oid_char oid \<and> CHR '' '' \<notin> set ty \<and> nl \<notin> set ty \<and> length content < 2 ^ 63 \<and>
             git r = (oid @ '' '' @ ty @ '' '' @ decstr (length content)) @ nl # (if isObj then content @ [nl] else [])))"

text \<open>A revision is one line and cannot be taken for the flush command.\<close>

definition revision_ok :: "string \<Rightarrow> bool" where
  "revision_ok r \<longleftrightarrow> nl \<notin> set r \<and> \<not> prefix flushCommand (r @ '' missing'')"

definition info_of :: "(string \<times> string \<times> bytes) option \<Rightarrow> catfile_error + ObjectInfo" where
  "info_of x = (case x of None \<Rightarrow> Inl NotFoundError | Some (oid, ty, content) \<Rightarrow> Inr \<lparr>Oid = oid, info_Type = ty, info_Size = int (length content)\<rparr>)"

definition body_of :: "bool \<Rightarrow> (string \<times> string \<times> bytes) option \<Rightarrow> bytes" where
  "body_of isObj x = (case x of Some (oid, ty, content) \<Rightarrow> if isObj then content @ [nl] else [] | None \<Rightarrow> [])"

lemma take_line: "nl \<notin> set l \<Longrightarrow> takeWhile (\<lambda>c. c \<noteq> nl) (l @ nl # s) = l"
  by (induction l) auto

lemma drop_line: "drop (Suc (length l)) (l @ c # s) = s"
  by simp

lemma parse_line:
  assumes "nl \<notin> set l"
  shows "ParseObjectInfo h (l @ nl # s) =
    (if HasSuffix l '' missing'' then if prefix flushCommand l then ParseObjectInfo h s else (s, Inl NotFoundError)
     else case split_char CHR '' '' l of
            [info0, info1, info2] \<Rightarrow>
              (case FromHex h info0 of
                 Inl err \<Rightarrow> (s, Inl err)
               | Inr oid \<Rightarrow>
                   (case Atoi info2 of
                      (sz, None) \<Rightarrow> (s, Inr \<lparr>Oid = oid, info_Type = info1, info_Size = sz\<rparr>)
                    | (_, Some _) \<Rightarrow> (s, Inl InvalidObjectSize)))
          | _ \<Rightarrow> (s, Inl InvalidInfoLine))"
  unfolding ParseObjectInfo.simps [of h "l @ nl # s"] Let_def take_line [OF assms] drop_line by simp

lemma flushCommand_line: "nl \<notin> set flushCommand"
  by (simp add: flushCommand_def)

lemma missing_line: "nl \<notin> set r \<Longrightarrow> nl \<notin> set (r @ '' missing'')"
  by simp

lemma parse_flush: "ParseObjectInfo h ((flushCommand @ '' missing'') @ nl # s) = ParseObjectInfo h s"
  using parse_line [OF missing_line [OF flushCommand_line]] by (simp add: HasSuffix_def suffix_def)

lemma parse_missing: "revision_ok r \<Longrightarrow> ParseObjectInfo h ((r @ '' missing'') @ nl # s) = (s, Inl NotFoundError)"
  using parse_line [OF missing_line, of r h s] by (simp add: revision_ok_def HasSuffix_def suffix_def)

lemma digit_chars: "c \<in> set (decstr n) \<Longrightarrow> c \<noteq> nl \<and> c \<noteq> CHR '' '' \<and> c \<noteq> CHR ''g''"
  using decstr_digits [of c n] by (auto simp: decval_def)

lemma oid_chars: "list_all oid_char oid \<Longrightarrow> CHR '' '' \<notin> set oid \<and> nl \<notin> set oid"
  by (auto simp: list_all_iff oid_char_def)

lemma last_missing: "last '' missing'' = CHR ''g''"
  by simp

lemma parse_found:
  assumes "length oid = h" "list_all oid_char oid" "CHR '' '' \<notin> set ty" "nl \<notin> set ty" "n < 2 ^ 63"
  shows "ParseObjectInfo h ((oid @ '' '' @ ty @ '' '' @ decstr n) @ nl # s) = (s, Inr \<lparr>Oid = oid, info_Type = ty, info_Size = int n\<rparr>)"
proof -
  let ?l = "oid @ '' '' @ ty @ '' '' @ decstr n"
  have l: "nl \<notin> set ?l" using oid_chars [OF assms(2)] assms(4) digit_chars by auto
  have "last ?l \<noteq> CHR ''g''" using digit_chars [of "last (decstr n)" n] by simp
  then have "?l \<noteq> zs @ '' missing''" for zs by (metis last_appendR list.discI last_missing)
  then have "\<not> HasSuffix ?l '' missing''" by (auto simp: HasSuffix_def suffix_def)
  moreover have "CHR '' '' \<notin> set (decstr n)" using digit_chars by blast
  then have "split_char CHR '' '' ?l = [oid, ty, decstr n]"
    using split_char_once [of "CHR '' ''" oid] split_char_once [OF assms(3)] split_char_none [of "CHR '' ''" "decstr n"] oid_chars [OF assms(2)] by simp
  moreover have "FromHex h oid = Inr oid" using assms(1,2) by (simp add: FromHex_def ValidateHex_def)
  ultimately show ?thesis using parse_line [OF l] Atoi_decstr [OF assms(5)] by simp
qed

text \<open>The answer to a request: one line, after which comes the body.\<close>

lemma answer_line:
  assumes "cat_file_ok git db h isObj" "r = flushCommand \<or> revision_ok r"
  obtains l where "nl \<notin> set l" "git r = l @ nl # body_of isObj (db r)"
    "\<And>s. ParseObjectInfo h (l @ nl # s) = (if r = flushCommand then ParseObjectInfo h s else (s, info_of (db r)))"
proof (cases "db r")
  case None
  have r: "nl \<notin> set r" using assms(2) flushCommand_line by (auto simp: revision_ok_def)
  then have "git r = (r @ '' missing'') @ nl # []" using assms(1) None by (fastforce simp: cat_file_ok_def)
  moreover have "ParseObjectInfo h ((r @ '' missing'') @ nl # s) = (if r = flushCommand then ParseObjectInfo h s else (s, info_of (db r)))" for s
    using parse_flush parse_missing assms(2) None by (auto simp: info_of_def)
  ultimately show ?thesis using that [of "r @ '' missing''"] missing_line [OF r] None by (simp add: body_of_def)
next
  case (Some x)
  obtain oid ty content where x: "x = (oid, ty, content)" by (metis surj_pair)
  have ok: "revision_ok r" "r \<noteq> flushCommand" using assms Some by (auto simp: cat_file_ok_def)
  then have g: "length oid = h" "list_all oid_char oid" "CHR '' '' \<notin> set ty" "nl \<notin> set ty" "length content < 2 ^ 63"
    "git r = (oid @ '' '' @ ty @ '' '' @ decstr (length content)) @ nl # (if isObj then content @ [nl] else [])"
    using assms(1) Some x unfolding cat_file_ok_def revision_ok_def by fastforce+
  show ?thesis
    by (rule that [of "oid @ '' '' @ ty @ '' '' @ decstr (length content)"])
      (use g parse_found [OF g(1-5)] oid_chars [OF g(2)] digit_chars ok(2) Some x in \<open>auto simp: info_of_def body_of_def\<close>)
qed

text \<open>Reading from a part of the answers to the requests \<open>pend\<close> answers the first of them that is not a flush.\<close>

definition pop :: "string list \<Rightarrow> string list" where
  "pop pend = tl (dropWhile (\<lambda>r. r = flushCommand) pend)"

definition oldest :: "string list \<Rightarrow> string" where
  "oldest pend = hd (dropWhile (\<lambda>r. r = flushCommand) pend)"

lemma parse_pending:
  assumes "cat_file_ok git db h isObj" "list_all (\<lambda>r. r = flushCommand \<or> revision_ok r) pend"
    and "prefix s (concat (map git pend))" "ParseObjectInfo h s = (rest, res)"
  shows "rest = [] \<and> res = Inl ReadInfoLineFailed \<or>
    (\<exists>r \<in> set pend. r \<noteq> flushCommand) \<and> res = info_of (db (oldest pend)) \<and>
    (\<exists>c. s = c @ rest \<and> concat (map git pend) = c @ body_of isObj (db (oldest pend)) @ concat (map git (pop pend)))"
  using assms(2-4)
proof (induction pend arbitrary: s)
  case Nil
  then show ?case by (simp add: ParseObjectInfo.simps [of h "[]"])
next
  case (Cons r pend)
  have r: "r = flushCommand \<or> revision_ok r" using Cons.prems(1) by simp
  obtain l where l: "nl \<notin> set l" "git r = l @ nl # body_of isObj (db r)"
    "\<And>s. ParseObjectInfo h (l @ nl # s) = (if r = flushCommand then ParseObjectInfo h s else (s, info_of (db r)))"
    by (rule answer_line [OF assms(1) r]) (rule that)
  show ?case
  proof (cases "nl \<in> set s")
    case False
    then show ?thesis using Cons.prems(3) by (simp add: ParseObjectInfo.simps [of h s])
  next
    case True
    obtain t where "s @ t = l @ nl # body_of isObj (db r) @ concat (map git pend)"
      using Cons.prems(2) l(2) by (auto simp: prefix_def)
    then obtain s' where s: "s = l @ nl # s'"
      using True l(1) by (auto simp: append_eq_append_conv2 Cons_eq_append_conv append_eq_Cons_conv)
    then have p: "prefix s' (body_of isObj (db r) @ concat (map git pend))" using Cons.prems(2) l(2) by auto
    show ?thesis
    proof (cases "r = flushCommand")
      case True
      then have b: "body_of isObj (db r) = []" using assms(1) by (simp add: cat_file_ok_def body_of_def)
      have "ParseObjectInfo h s' = (rest, res)" using Cons.prems(3) s l(3) True by simp
      then consider "rest = []" "res = Inl ReadInfoLineFailed"
        | c where "\<exists>r \<in> set pend. r \<noteq> flushCommand" "res = info_of (db (oldest pend))" "s' = c @ rest"
            "concat (map git pend) = c @ body_of isObj (db (oldest pend)) @ concat (map git (pop pend))"
        using Cons.IH [of s'] Cons.prems(1) p b by auto
      then show ?thesis
      proof cases
        case 2
        then have "s = (l @ nl # c) @ rest"
          "concat (map git (r # pend)) = (l @ nl # c) @ body_of isObj (db (oldest (r # pend))) @ concat (map git (pop (r # pend)))"
          using s l(2) b True by (simp_all add: pop_def oldest_def)
        then show ?thesis using 2(1,2) True by (auto simp: oldest_def pop_def)
      qed simp
    next
      case False
      then have "rest = s'" "res = info_of (db r)" using Cons.prems(3) s l(3) by auto
      then show ?thesis using s l(2) False by (auto simp: pop_def oldest_def intro!: exI [of _ "l @ [nl]"])
    qed
  qed
qed


lemma parse_complete:
  assumes "cat_file_ok git db h isObj" "list_all (\<lambda>r. r = flushCommand \<or> revision_ok r) pend" "\<exists>r \<in> set pend. r \<noteq> flushCommand"
  shows "ParseObjectInfo h (concat (map git pend)) = (body_of isObj (db (oldest pend)) @ concat (map git (pop pend)), info_of (db (oldest pend)))"
  using assms(2,3)
proof (induction pend)
  case (Cons r pend)
  have r: "r = flushCommand \<or> revision_ok r" using Cons.prems(1) by simp
  obtain l where l: "git r = l @ nl # body_of isObj (db r)"
    "\<And>s. ParseObjectInfo h (l @ nl # s) = (if r = flushCommand then ParseObjectInfo h s else (s, info_of (db r)))"
    by (rule answer_line [OF assms(1) r]) (rule that)
  have "r = flushCommand \<Longrightarrow> body_of isObj (db r) = []" using assms(1) by (simp add: cat_file_ok_def body_of_def)
  then show ?case using l Cons by (auto simp: pop_def oldest_def)
qed simp

section \<open>What the process has been asked\<close>

lemma feed_append: "feed git p (a @ b) = (case feed git p a of (p', out) \<Rightarrow> case feed git p' b of (p'', out') \<Rightarrow> (p'', out @ out'))"
  by (induction git p a rule: feed.induct) (auto split: prod.splits)

lemma feed_take: "feed git p s = (case feed git p (take k s) of (p', out) \<Rightarrow> case feed git p' (drop k s) of (p'', out') \<Rightarrow> (p'', out @ out'))"
  using feed_append [of git p "take k s" "drop k s"] by simp

lemma feed_no_nl: "nl \<notin> set l \<Longrightarrow> feed git p l = (p @ l, [])"
  by (induction l arbitrary: p) auto

lemma feed_line: "nl \<notin> set l \<Longrightarrow> feed git p (l @ [nl]) = ([], git (p @ l))"
  by (simp add: feed_append feed_no_nl)

text \<open>All the process will have printed once it has got what is buffered, and the incomplete line it then has.\<close>

definition produced :: "(string \<Rightarrow> bytes) \<Rightarrow> requestQueue \<Rightarrow> bytes" where
  "produced git q = stdout q @ (if alive q then snd (feed git (partial_line q) (stdin q)) else [])"

definition unfinished :: "(string \<Rightarrow> bytes) \<Rightarrow> requestQueue \<Rightarrow> string" where
  "unfinished git q = fst (feed git (partial_line q) (stdin q))"

definition in_step :: "(string \<Rightarrow> bytes) \<Rightarrow> bytes \<Rightarrow> requestQueue \<Rightarrow> bool" where
  "in_step git w q \<longleftrightarrow> prefix (produced git q) w \<and> (stdin_err q \<noteq> None \<longrightarrow> stdin q = []) \<and>
     (alive q \<and> stdin_err q = None \<longrightarrow> produced git q = w \<and> unfinished git q = [])"

lemma pass_input_produced: "produced git (pass_input git k q) = produced git q"
  by (auto simp: pass_input_def produced_def feed_take [of git "partial_line q" "stdin q" k] split: prod.splits)

lemma pass_input_unfinished: "alive q \<Longrightarrow> unfinished git (pass_input git k q) = unfinished git q"
  by (auto simp: pass_input_def unfinished_def feed_take [of git "partial_line q" "stdin q" k] split: prod.splits)

lemma pass_input_fields [simp]:
  "outstandingRequests (pass_input git k q) = outstandingRequests q" "closed (pass_input git k q) = closed q"
  "isReadingObject (pass_input git k q) = isReadingObject q" "hashLen (pass_input git k q) = hashLen q"
  "isObjectQueue (pass_input git k q) = isObjectQueue q" "stdin (pass_input git k q) = drop k (stdin q)"
  "stdin_err (pass_input git k q) = stdin_err q" "alive (pass_input git k q) = alive q"
  by (auto simp: pass_input_def split: prod.splits)

lemma pass_input_in_step: "in_step git w q \<Longrightarrow> in_step git w (pass_input git k q)"
  by (auto simp: in_step_def pass_input_produced pass_input_unfinished)

lemma produced_counters [simp]:
  "produced git (q\<lparr>outstandingRequests := n\<rparr>) = produced git q" "produced git (q\<lparr>isReadingObject := b\<rparr>) = produced git q"
  "produced git (q\<lparr>closed := c\<rparr>) = produced git q"
  "unfinished git (q\<lparr>outstandingRequests := n\<rparr>) = unfinished git q" "unfinished git (q\<lparr>isReadingObject := b\<rparr>) = unfinished git q"
  "unfinished git (q\<lparr>closed := c\<rparr>) = unfinished git q"
  by (simp_all add: produced_def unfinished_def)

lemma in_step_counters [simp]:
  "in_step git w (q\<lparr>outstandingRequests := n\<rparr>) = in_step git w q" "in_step git w (q\<lparr>isReadingObject := b\<rparr>) = in_step git w q"
  "in_step git w (q\<lparr>closed := c\<rparr>) = in_step git w q"
  by (simp_all add: in_step_def)

text \<open>A failed write is the end of the input: what the process prints afterwards is a part of what it would have printed.\<close>

lemma write_failed_produced: "prefix (produced git (q\<lparr>stdin := [], stdin_err := e\<rparr>)) (produced git q)"
  by (auto simp: produced_def)

lemma write_failed_in_step:
  assumes "bufio_Write git f bs q = (q', Some err)" "prefix (produced git (q\<lparr>stdin := stdin q @ bs\<rparr>)) w" "in_step git w q"
  shows "in_step git w q'" "stdin_err q' \<noteq> None"
proof -
  have "prefix (produced git ((pass_input git k (q\<lparr>stdin := stdin q @ bs\<rparr>))\<lparr>stdin := [], stdin_err := Some e\<rparr>)) w" for k e
    using write_failed_produced pass_input_produced assms(2) by (metis prefix_order.trans)
  then show "in_step git w q'" "stdin_err q' \<noteq> None"
    using assms(1,3) by (auto simp: bufio_Write_def in_step_def split: option.splits prod.splits)
qed

lemma bufio_Write_fields:
  "bufio_Write git f bs q = (q', e) \<Longrightarrow> outstandingRequests q' = outstandingRequests q \<and> closed q' = closed q \<and> isReadingObject q' = isReadingObject q \<and>
     hashLen q' = hashLen q \<and> isObjectQueue q' = isObjectQueue q \<and> alive q' = alive q"
  by (auto simp: bufio_Write_def split: option.splits prod.splits)

lemma bufio_Write_ok: "bufio_Write git f bs q = (q', None) \<Longrightarrow> stdin_err q = None \<and> f = None \<and> q' = q\<lparr>stdin := stdin q @ bs\<rparr>"
  by (auto simp: bufio_Write_def split: option.splits prod.splits)

lemma produced_no_nl: "nl \<notin> set l \<Longrightarrow> produced git (q\<lparr>stdin := stdin q @ l\<rparr>) = produced git q"
  by (auto simp: produced_def feed_append feed_no_nl split: prod.splits)

text \<open>A line that is written: whether or not it gets through, the process stays in step.\<close>

definition write_line :: "(string \<Rightarrow> bytes) \<Rightarrow> (string \<times> nat) option \<Rightarrow> (string \<times> nat) option \<Rightarrow> string \<Rightarrow> requestQueue \<Rightarrow> requestQueue \<times> string option" where
  "write_line git e1 e2 l q = (case bufio_Write git e1 l q of (q, Some err) \<Rightarrow> (q, Some err) | (q, None) \<Rightarrow> bufio_WriteByte git e2 nl q)"

lemma write_line_fields:
  "write_line git e1 e2 l q = (q', e) \<Longrightarrow> outstandingRequests q' = outstandingRequests q \<and> closed q' = closed q \<and> isReadingObject q' = isReadingObject q \<and>
     hashLen q' = hashLen q \<and> isObjectQueue q' = isObjectQueue q \<and> alive q' = alive q"
  by (auto simp: write_line_def bufio_WriteByte_def dest!: bufio_Write_fields split: prod.splits option.splits if_splits)

lemma write_line_in_step:
  assumes "in_step git w q" "nl \<notin> set l" "write_line git e1 e2 l q = (q', e)"
  shows "e = None \<Longrightarrow> in_step git (w @ git l) q' \<and> stdin_err q' = None \<and> stdin_err q = None" "e \<noteq> None \<Longrightarrow> in_step git w q' \<and> stdin_err q' \<noteq> None"
proof -
  let ?q = "q\<lparr>stdin := stdin q @ l\<rparr>"
  have p: "prefix (produced git ?q) w" using assms(1) produced_no_nl [OF assms(2)] by (simp add: in_step_def)
  show "in_step git w q' \<and> stdin_err q' \<noteq> None" if e: "e \<noteq> None"
  proof (cases "bufio_Write git e1 l q")
    case (Pair q1 x)
    show ?thesis
    proof (cases x)
      case None
      then have q: "q1 = ?q" "stdin_err q = None" using bufio_Write_ok Pair by blast+
      have "bufio_Write git e2 [] q1 = (q', e)"
        using e assms(3) Pair None by (auto simp: write_line_def bufio_WriteByte_def split: if_splits)
      then obtain x k where "q' = (pass_input git k ?q)\<lparr>stdin := [], stdin_err := Some x\<rparr>"
        using e q by (auto simp: bufio_Write_def split: option.splits prod.splits)
      then show ?thesis using p write_failed_produced [of git "Some x" "pass_input git k ?q"] pass_input_produced [of git k ?q]
        by (auto simp: in_step_def)
    next
      case (Some err)
      then have "bufio_Write git e1 l q = (q', Some err)" using assms(3) Pair by (simp add: write_line_def)
      then show ?thesis using write_failed_in_step [OF _ p assms(1)] by blast
    qed
  qed
  show "in_step git (w @ git l) q' \<and> stdin_err q' = None \<and> stdin_err q = None" if "e = None"
  proof -
    have q': "q' = q\<lparr>stdin := stdin q @ l @ [nl]\<rparr>" "stdin_err q = None"
      using assms(3) that bufio_Write_ok [of git e1 l q]
      by (auto simp: write_line_def bufio_WriteByte_def split: prod.splits option.splits if_splits dest!: bufio_Write_ok)
    show ?thesis
    proof (cases "alive q")
      case True
      then have u: "fst (feed git (partial_line q) (stdin q)) = []" "produced git q = w"
        using assms(1) q'(2) by (auto simp: in_step_def unfinished_def)
      show ?thesis using True u q' feed_line [OF assms(2), of git "[]"]
        by (auto simp: in_step_def produced_def unfinished_def feed_append [of git _ "stdin q"] split: prod.splits)
    next
      case False
      then show ?thesis using assms(1) q' by (auto simp: in_step_def produced_def intro: prefix_prefix)
    qed
  qed
qed


section \<open>Using the queue\<close>

text \<open>A state is the queue, what has not been read of the current object, and the lines whose answers have not been read.
  The last two are what the users of the queue have in mind; nothing in the code depends on them. A read that would wait
  is not a step. \<open>pass\<close> is a writer whose buffer is full, and \<open>die\<close> the end of the process, after which a part of what it
  printed may still be read.\<close>

type_synonym failure = "(string \<times> nat) option"

datatype queue_call =
    CallRequest failure failure string | CallFlush failure failure failure | CallReadInfo | CallReadObject | CallRead nat nat | CallClose
  | PassInput nat | ProcessDies nat

type_synonym queue_state = "requestQueue \<times> bytes option \<times> string list"

definition requests :: "string list \<Rightarrow> string list" where
  "requests pend = filter (\<lambda>r. r \<noteq> flushCommand) pend"

definition current :: "bytes option \<Rightarrow> bytes" where
  "current ob = (case ob of None \<Rightarrow> [] | Some content \<Rightarrow> content @ [nl])"

definition consumed :: "requestQueue \<Rightarrow> requestQueue \<Rightarrow> string list \<Rightarrow> string list" where
  "consumed q q' pend = (if outstandingRequests q' < outstandingRequests q then pop pend else pend)"

definition opened :: "(string \<Rightarrow> (string \<times> string \<times> bytes) option) \<Rightarrow> string list \<Rightarrow> (catfile_error + ObjectInfo \<times> objectReader) \<Rightarrow> bytes option \<Rightarrow> bytes option" where
  "opened db pend res ob = (case res of Inl _ \<Rightarrow> ob | Inr _ \<Rightarrow> map_option (\<lambda>(oid, ty, content). content) (db (oldest pend)))"

definition left :: "bytes option \<Rightarrow> objectReader \<Rightarrow> bytes option" where
  "left ob r = (case (ob, r) of (Some content, Some n) \<Rightarrow> Some (drop (length content - n) content) | _ \<Rightarrow> None)"

inductive queue_step ::
    "(string \<Rightarrow> bytes) \<Rightarrow> (string \<Rightarrow> (string \<times> string \<times> bytes) option) \<Rightarrow> queue_state \<Rightarrow> queue_call \<Rightarrow> queue_state \<Rightarrow> bool"
  for git db where
  request: "revision_ok r \<Longrightarrow> requestRevision git e1 e2 r q = (q', err) \<Longrightarrow>
    queue_step git db (q, ob, pend) (CallRequest e1 e2 r) (q', ob, if err = None then pend @ [r] else pend)"
| flush: "queue_Flush git e1 e2 e3 q = (q', err) \<Longrightarrow>
    queue_step git db (q, ob, pend) (CallFlush e1 e2 e3) (q', ob, if err = Some ErrClosed then pend else pend @ [flushCommand])"
| read_info: "ReadInfo q = (q', res) \<Longrightarrow> res = Inl ReadInfoLineFailed \<longrightarrow> \<not> alive q \<Longrightarrow>
    queue_step git db (q, ob, pend) CallReadInfo (q', ob, consumed q q' pend)"
| read_object: "ReadObject q = (q', res) \<Longrightarrow> res = Inl ReadInfoLineFailed \<longrightarrow> \<not> alive q \<Longrightarrow>
    queue_step git db (q, ob, pend) CallReadObject (q', opened db pend res ob, consumed q q' pend)"
| object_read: "object_Read (map_option length ob) n chunk q = (q', r, c, err) \<Longrightarrow> alive q \<and> stdout q = [] \<longrightarrow> ob = None \<Longrightarrow>
    queue_step git db (q, ob, pend) (CallRead n chunk) (q', left ob r, pend)"
| close: "queue_step git db (q, ob, pend) CallClose (queue_close q, ob, pend)"
| pass: "queue_step git db (q, ob, pend) (PassInput k) (pass_input git k q, ob, pend)"
| die: "queue_step git db (q, ob, pend) (ProcessDies k) (q\<lparr>alive := False, stdout := take k (stdout q)\<rparr>, ob, pend)"

inductive_cases queue_stepE: "queue_step git db s c s'"

definition queue_start :: "nat \<Rightarrow> bool \<Rightarrow> queue_state \<Rightarrow> bool" where
  "queue_start h isObj s \<longleftrightarrow> s = (queue (newReader h isObj), None, [])"

abbreviation queue_reachable where
  "queue_reachable git db h isObj \<equiv> reachable (queue_start h isObj) (queue_step git db)"

definition pending_ok :: "(string \<Rightarrow> bytes) \<Rightarrow> nat \<Rightarrow> bool \<Rightarrow> bytes \<Rightarrow> string list \<Rightarrow> requestQueue \<Rightarrow> bool" where
  "pending_ok git h isObj cur pend q \<longleftrightarrow>
     hashLen q = h \<and> isObjectQueue q = isObj \<and> list_all (\<lambda>r. r = flushCommand \<or> revision_ok r) pend \<and>
     outstandingRequests q = int (length (requests pend)) \<and> in_step git (cur @ concat (map git pend)) q"

definition queue_inv :: "(string \<Rightarrow> bytes) \<Rightarrow> nat \<Rightarrow> bool \<Rightarrow> queue_state \<Rightarrow> bool" where
  "queue_inv git h isObj s \<longleftrightarrow> (case s of (q, ob, pend) \<Rightarrow>
     pending_ok git h isObj (current ob) pend q \<and> (ob \<noteq> None \<longrightarrow> isReadingObject q \<and> isObj))"

lemma requests_simps [simp]:
  "requests [] = []" "requests (pend @ pend') = requests pend @ requests pend'"
  "requests (r # pend) = (if r = flushCommand then requests pend else r # requests pend)"
  by (simp_all add: requests_def)

lemma requests_pop: "requests pend \<noteq> [] \<Longrightarrow> requests pend = oldest pend # requests (pop pend)"
  by (induction pend) (auto simp: requests_def oldest_def pop_def)

lemma requests_set: "requests pend \<noteq> [] \<longleftrightarrow> (\<exists>r \<in> set pend. r \<noteq> flushCommand)"
  by (auto simp: requests_def filter_empty_conv)

lemma pop_ok: "list_all P pend \<Longrightarrow> list_all P (pop pend)"
  by (induction pend) (auto simp: pop_def)

lemma revision_no_flush: "revision_ok r \<Longrightarrow> r \<noteq> flushCommand"
  by (auto simp: revision_ok_def)

lemma requestRevision_line:
  assumes "write_line git e1 e2 r (q\<lparr>outstandingRequests := outstandingRequests q + 1\<rparr>) = (q1, e)"
  shows "requestRevision git e1 e2 r q =
      (if closed q then (q, Some ErrClosed)
       else if e = None then (q1, None) else (q1\<lparr>outstandingRequests := outstandingRequests q1 - 1\<rparr>, map_option WriteFailed e))"
  using assms by (auto simp: requestRevision_def write_line_def split: prod.splits option.splits)

lemma queue_Flush_line:
  assumes "write_line git e1 e2 flushCommand q = (q1, e)"
  shows "queue_Flush git e1 e2 e3 q = (if closed q then (q, Some ErrClosed)
      else if e = None then (case bufio_Flush git e3 q1 of (q, err) \<Rightarrow> (q, map_option WriteFailed err)) else (q1, map_option WriteFailed e))"
  using assms by (auto simp: queue_Flush_def write_line_def split: prod.splits option.splits)

lemma request_ok:
  assumes "pending_ok git h isObj cur pend q" "revision_ok r" "requestRevision git e1 e2 r q = (q', err)"
  shows "pending_ok git h isObj cur (if err = None then pend @ [r] else pend) q'" "isReadingObject q' = isReadingObject q"
proof -
  let ?q = "q\<lparr>outstandingRequests := outstandingRequests q + 1\<rparr>" and ?w = "cur @ concat (map git pend)"
  obtain q1 e where w: "write_line git e1 e2 r ?q = (q1, e)" by fastforce
  have i: "in_step git ?w ?q" "nl \<notin> set r" using assms(1,2) by (simp_all add: pending_ok_def revision_ok_def)
  note r = requestRevision_line [OF w]
  show "pending_ok git h isObj cur (if err = None then pend @ [r] else pend) q'" "isReadingObject q' = isReadingObject q"
    using r assms write_line_fields [OF w] write_line_in_step [OF i w]
    by (auto simp: pending_ok_def revision_no_flush split: if_splits)
qed

lemma in_step_more: "in_step git w q \<Longrightarrow> stdin_err q \<noteq> None \<Longrightarrow> in_step git (w @ v) q"
  by (auto simp: in_step_def intro: prefix_prefix)

lemma in_step_dead: "in_step git w q \<Longrightarrow> \<not> alive q \<Longrightarrow> in_step git (w @ v) q"
  by (auto simp: in_step_def intro: prefix_prefix)

lemma flush_ok:
  assumes "pending_ok git h isObj cur pend q" "queue_Flush git e1 e2 e3 q = (q', err)"
  shows "pending_ok git h isObj cur (if err = Some ErrClosed then pend else pend @ [flushCommand]) q'"
    "isReadingObject q' = isReadingObject q" "alive q' = alive q" "closed q' = closed q" "err = None \<Longrightarrow> stdin q' = [] \<and> stdin_err q' = None"
proof -
  let ?w = "cur @ concat (map git pend)"
  obtain q1 e where w: "write_line git e1 e2 flushCommand q = (q1, e)" by fastforce
  have i: "in_step git ?w q" using assms(1) by (simp add: pending_ok_def)
  note i1 = write_line_in_step [OF i flushCommand_line w]
  note r = queue_Flush_line [OF w, of e3]
  obtain q2 e' where b: "bufio_Flush git e3 q1 = (q2, e')" by fastforce
  have f: "in_step git (?w @ git flushCommand) q2 \<and> outstandingRequests q2 = outstandingRequests q1 \<and> closed q2 = closed q1 \<and> hashLen q2 = hashLen q1 \<and>
      isReadingObject q2 = isReadingObject q1 \<and> isObjectQueue q2 = isObjectQueue q1 \<and> alive q2 = alive q1 \<and> (e' = None \<longrightarrow> stdin q2 = [] \<and> stdin_err q2 = None)"
    if none: "e = None"
  proof (cases "e3 = None")
    case True
    then show ?thesis using b i1(1) [OF none] by (auto simp: bufio_Flush_def pass_input_in_step)
  next
    case False
    then obtain x k where "q2 = (pass_input git k q1)\<lparr>stdin := [], stdin_err := Some x\<rparr>" "e' \<noteq> None"
      using b i1(1) [OF none] by (auto simp: bufio_Flush_def bufio_Write_def)
    then show ?thesis using i1(1) [OF none] write_failed_produced [of git "Some x" "pass_input git k q1"] pass_input_produced [of git k q1]
      by (auto simp: in_step_def)
  qed
  have n: "in_step git (?w @ git flushCommand) q1" if "e \<noteq> None"
    using i1(2) [OF that] in_step_more by blast
  show "pending_ok git h isObj cur (if err = Some ErrClosed then pend else pend @ [flushCommand]) q'"
    "isReadingObject q' = isReadingObject q" "alive q' = alive q" "closed q' = closed q" "err = None \<Longrightarrow> stdin q' = [] \<and> stdin_err q' = None"
    using r assms write_line_fields [OF w] f n b by (auto simp: pending_ok_def split: if_splits)
qed


lemma in_step_drop:
  assumes "in_step git (c @ w) q" "stdout q = c @ s"
  shows "in_step git w (q\<lparr>stdout := s\<rparr>)"
  using assms by (auto simp: in_step_def produced_def unfinished_def)

lemma in_step_nothing: "\<not> alive q \<Longrightarrow> stdout q = [] \<Longrightarrow> (stdin_err q \<noteq> None \<longrightarrow> stdin q = []) \<Longrightarrow> in_step git w q"
  by (simp add: in_step_def produced_def)

lemma readInfo_ok:
  assumes "cat_file_ok git db h isObj" "pending_ok git h isObj [] pend q" "readInfo q = (q', res)" "res = Inl ReadInfoLineFailed \<longrightarrow> \<not> alive q"
  shows "(res = Inl ErrClosed \<or> res = Inl NoOutstandingRequest) \<and> q' = q \<or>
    requests pend \<noteq> [] \<and> outstandingRequests q' = outstandingRequests q - 1 \<and> isReadingObject q' = isReadingObject q \<and>
      (res = Inl ReadInfoLineFailed \<and> pending_ok git h isObj [] (pop pend) q' \<or>
       res = info_of (db (oldest pend)) \<and> pending_ok git h isObj (body_of isObj (db (oldest pend))) (pop pend) q')"
proof (cases "closed q \<or> outstandingRequests q = 0")
  case True
  then show ?thesis using assms(3) by (auto simp: readInfo_def split: if_splits)
next
  case False
  let ?p = "\<lambda>r. r = flushCommand \<or> revision_ok r"
  have i: "in_step git (concat (map git pend)) q" "hashLen q = h" "list_all ?p pend" "requests pend \<noteq> []"
    using assms(2) False by (auto simp: pending_ok_def)
  obtain rest where p: "ParseObjectInfo h (stdout q) = (rest, res)" and q': "q' = q\<lparr>outstandingRequests := outstandingRequests q - 1, stdout := rest\<rparr>"
    using assms(3) False i(2) by (auto simp: readInfo_def Let_def split: prod.splits)
  have n: "outstandingRequests q' = int (length (requests (pop pend)))"
    using assms(2) requests_pop [OF i(4)] q' by (simp add: pending_ok_def)
  have q'': "q' = (q\<lparr>stdout := rest\<rparr>)\<lparr>outstandingRequests := outstandingRequests q - 1\<rparr>" by (simp add: q')
  have fields: "outstandingRequests q' = outstandingRequests q - 1" "isReadingObject q' = isReadingObject q" "hashLen q' = h" "isObjectQueue q' = isObj"
    "list_all ?p (pop pend)"
    using assms(2) pop_ok [OF i(3)] by (simp_all add: q' pending_ok_def)
  have "prefix (stdout q) (concat (map git pend))" using i(1) by (auto simp: in_step_def produced_def dest: append_prefixD)
  from parse_pending [OF assms(1) i(3) this p] show ?thesis
  proof
    assume f: "rest = [] \<and> res = Inl ReadInfoLineFailed"
    then have "in_step git (concat (map git (pop pend))) q'"
      using assms(4) i(1) q' by (intro in_step_nothing) (auto simp: in_step_def)
    then have "pending_ok git h isObj [] (pop pend) q'" using n fields by (simp add: pending_ok_def)
    then show ?thesis using f i(4) fields by blast
  next
    assume f: "(\<exists>r\<in>set pend. r \<noteq> flushCommand) \<and> res = info_of (db (oldest pend)) \<and>
      (\<exists>c. stdout q = c @ rest \<and> concat (map git pend) = c @ body_of isObj (db (oldest pend)) @ concat (map git (pop pend)))"
    then have "in_step git (body_of isObj (db (oldest pend)) @ concat (map git (pop pend))) (q\<lparr>stdout := rest\<rparr>)"
      using in_step_drop i(1) by metis
    then have "in_step git (body_of isObj (db (oldest pend)) @ concat (map git (pop pend))) q'"
      unfolding q'' by (simp only: in_step_counters)
    then have "pending_ok git h isObj (body_of isObj (db (oldest pend))) (pop pend) q'" using n fields by (simp add: pending_ok_def)
    then show ?thesis using f i(4) fields by blast
  qed
qed

lemma pending_ok_counters [simp]:
  "pending_ok git h isObj cur pend (q\<lparr>isReadingObject := b\<rparr>) = pending_ok git h isObj cur pend q"
  "pending_ok git h isObj cur pend (q\<lparr>closed := c\<rparr>) = pending_ok git h isObj cur pend q"
  by (simp_all add: pending_ok_def)

lemma info_of_errors [simp]: "info_of x \<noteq> Inl ErrClosed" "info_of x \<noteq> Inl NoOutstandingRequest" "info_of x \<noteq> Inl ReadInfoLineFailed" "info_of x \<noteq> Inl NotFullyRead" "info_of x \<noteq> Inl WrongQueuePanic"
  by (auto simp: info_of_def split: option.splits)

text \<open>What a read of an object does: \<open>reader_of\<close> is the reader it returns for an object of the database.\<close>

definition reader_of :: "(string \<times> string \<times> bytes) option \<Rightarrow> catfile_error + ObjectInfo \<times> objectReader" where
  "reader_of x = (case x of
       None \<Rightarrow> Inl NotFoundError
     | Some (oid, ty, content) \<Rightarrow> Inr (\<lparr>Oid = oid, info_Type = ty, info_Size = int (length content)\<rparr>, Some (length content)))"

lemma ReadObject_ok:
  assumes "cat_file_ok git db h isObj" "queue_inv git h isObj (q, ob, pend)" "ReadObject q = (q', res)" "res = Inl ReadInfoLineFailed \<longrightarrow> \<not> alive q"
  shows "queue_inv git h isObj (q', opened db pend res ob, consumed q q' pend)"
    "(\<exists>x. res = Inr x) \<or> res = Inl NotFoundError \<Longrightarrow> ob = None \<and> requests pend \<noteq> [] \<and> res = reader_of (db (oldest pend))"
proof -
  have "queue_inv git h isObj (q', opened db pend res ob, consumed q q' pend) \<and>
    ((\<exists>x. res = Inr x) \<or> res = Inl NotFoundError \<longrightarrow> ob = None \<and> requests pend \<noteq> [] \<and> res = reader_of (db (oldest pend)))"
  proof (cases "isObjectQueue q \<and> \<not> isReadingObject q")
    case False
    then have "q' = q" "res = Inl WrongQueuePanic \<or> res = Inl NotFullyRead" using assms(3) by (auto simp: ReadObject_def split: if_splits)
    then show ?thesis using assms(2) by (auto simp: opened_def consumed_def)
  next
    case True
    then have o: "ob = None" "isObj" using assms(2) by (auto simp: queue_inv_def pending_ok_def)
    obtain q1 r1 where ri: "readInfo (q\<lparr>isReadingObject := True\<rparr>) = (q1, r1)" by fastforce
    have p: "pending_ok git h isObj [] pend (q\<lparr>isReadingObject := True\<rparr>)" using assms(2) o by (simp add: queue_inv_def current_def)
    have r: "q' = (if r1 = Inl NotFoundError then q1\<lparr>isReadingObject := False\<rparr> else q1)"
        "res = (case r1 of Inl err \<Rightarrow> Inl err | Inr i \<Rightarrow> Inr (i, Some (nat (info_Size i))))"
      using assms(3) True ri by (auto simp: ReadObject_def split: sum.splits if_splits)
    have "r1 = Inl ReadInfoLineFailed \<longrightarrow> \<not> alive (q\<lparr>isReadingObject := True\<rparr>)" using assms(4) r(2) by auto
    from readInfo_ok [OF assms(1) p ri this] show ?thesis
    proof (elim disjE conjE)
      assume "r1 = info_of (db (oldest pend))" "pending_ok git h isObj (body_of isObj (db (oldest pend))) (pop pend) q1"
        "requests pend \<noteq> []" "outstandingRequests q1 = outstandingRequests (q\<lparr>isReadingObject := True\<rparr>) - 1" "isReadingObject q1 = isReadingObject (q\<lparr>isReadingObject := True\<rparr>)"
      then show ?thesis using r o
        by (cases "db (oldest pend)") (auto simp: info_of_def body_of_def queue_inv_def opened_def consumed_def current_def reader_of_def)
    qed (use r o p in \<open>auto simp: queue_inv_def opened_def consumed_def current_def\<close>)
  qed
  then show "queue_inv git h isObj (q', opened db pend res ob, consumed q q' pend)"
    "(\<exists>x. res = Inr x) \<or> res = Inl NotFoundError \<Longrightarrow> ob = None \<and> requests pend \<noteq> [] \<and> res = reader_of (db (oldest pend))" by blast+
qed

lemma ReadInfo_ok:
  assumes "cat_file_ok git db h isObj" "queue_inv git h isObj (q, ob, pend)" "ReadInfo q = (q', res)" "res = Inl ReadInfoLineFailed \<longrightarrow> \<not> alive q"
  shows "queue_inv git h isObj (q', ob, consumed q q' pend)"
    "(\<exists>x. res = Inr x) \<or> res = Inl NotFoundError \<Longrightarrow> requests pend \<noteq> [] \<and> res = info_of (db (oldest pend))"
proof -
  have "queue_inv git h isObj (q', ob, consumed q q' pend) \<and>
    ((\<exists>x. res = Inr x) \<or> res = Inl NotFoundError \<longrightarrow> requests pend \<noteq> [] \<and> res = info_of (db (oldest pend)))"
  proof (cases "isObjectQueue q")
    case True
    then show ?thesis using assms(2,3) by (auto simp: ReadInfo_def consumed_def)
  next
    case False
    then have o: "ob = None" "\<not> isObj" using assms(2) by (auto simp: queue_inv_def pending_ok_def)
    then have p: "pending_ok git h isObj [] pend q" "readInfo q = (q', res)" using assms(2,3) False by (simp_all add: queue_inv_def current_def ReadInfo_def)
    have b: "body_of isObj x = []" for x using o by (simp add: body_of_def split: option.splits)
    from readInfo_ok [OF assms(1) p assms(4)] show ?thesis
      by (elim disjE conjE) (use o p b in \<open>auto simp: queue_inv_def consumed_def current_def\<close>)
  qed
  then show "queue_inv git h isObj (q', ob, consumed q q' pend)"
    "(\<exists>x. res = Inr x) \<or> res = Inl NotFoundError \<Longrightarrow> requests pend \<noteq> [] \<and> res = info_of (db (oldest pend))" by blast+
qed


lemma object_Read_ok:
  assumes "queue_inv git h isObj (q, Some content, pend)" "object_Read (Some (length content)) n chunk q = (q', r, c, err)" "alive q \<longrightarrow> stdout q \<noteq> []"
  shows "queue_inv git h isObj (q', left (Some content) r, pend)" "c = take (length c) content" "err = Some EndOfFile \<Longrightarrow> content = [] \<and> \<not> isReadingObject q'"
proof -
  let ?w = "concat (map git pend)"
  have i: "in_step git ((content @ [nl]) @ ?w) q" "isReadingObject q" "isObj" and p: "pending_ok git h isObj (content @ [nl]) pend q"
    using assms(1) by (simp_all add: queue_inv_def pending_ok_def current_def)
  have pre: "prefix (stdout q) ((content @ [nl]) @ ?w)" using i(1) by (auto simp: in_step_def produced_def dest: append_prefixD)
  have dead: "pending_ok git h isObj cur pend q" if "stdout q = []" for cur
    using that assms(3) p by (auto simp: pending_ok_def in_step_def produced_def)
  have "queue_inv git h isObj (q', left (Some content) r, pend) \<and> c = take (length c) content \<and> (err = Some EndOfFile \<longrightarrow> content = [] \<and> \<not> isReadingObject q')"
  proof (cases "closed q \<or> (content \<noteq> [] \<and> n = 0)")
    case True
    then have "q' = q" "r = Some (length content)" "c = []" "err \<noteq> Some EndOfFile" using assms(2) by (auto simp: object_Read_def split: if_splits)
    then show ?thesis using assms(1) by (simp add: left_def)
  next
    case False
    show ?thesis
    proof (cases "stdout q = []")
      case True
      then have "q' = q" "r = Some 0" "c = []" "err \<noteq> Some EndOfFile" using assms(2) False by (auto simp: object_Read_def discard_newline_def split: if_splits)
      then show ?thesis using dead [OF True] i by (simp add: left_def queue_inv_def)
    next
      case stdout: False
      show ?thesis
      proof (cases "content = []")
        case True
        then obtain rest where rest: "stdout q = [nl] @ rest" using pre stdout by (cases "stdout q") auto
        then have "q' = q\<lparr>stdout := rest, isReadingObject := False\<rparr>" "r = None" "c = []"
          using assms(2) False True by (auto simp: object_Read_def discard_newline_def split: if_splits)
        moreover have "in_step git ?w (q\<lparr>stdout := rest\<rparr>)" using in_step_drop [of git "[nl]" ?w q rest] rest i(1) True by simp
        ultimately show ?thesis using True p by (auto simp: left_def queue_inv_def current_def pending_ok_def)
      next
        case content: False
        define k where "k = min (min n (length content)) (max 1 chunk)"
        have q': "q' = q\<lparr>stdout := drop k (stdout q)\<rparr>" "c = take k (stdout q)" "r = Some (length content - length c)" "err = None"
          using assms(2) False stdout content by (auto simp: object_Read_def Let_def k_def split: if_splits)
        have l: "length c \<le> length content" using q'(2) by (simp add: k_def)
        obtain zs where "content @ nl # ?w = stdout q @ zs" using pre by (auto simp: prefix_def)
        then have "content @ nl # ?w = c @ drop k (stdout q) @ zs" using q'(2) by simp
        then have "take (length c) (content @ nl # ?w) = c" by simp
        then have c: "c = take (length c) content" using l by simp
        then have e: "(content @ [nl]) @ ?w = c @ (drop (length c) content @ [nl]) @ ?w" by (metis append.assoc append_take_drop_id)
        have "stdout q = c @ drop k (stdout q)" by (simp add: q'(2))
        from in_step_drop [OF _ this] i(1) e have "in_step git ((drop (length c) content @ [nl]) @ ?w) q'" unfolding q'(1) by metis
        then have "pending_ok git h isObj (drop (length c) content @ [nl]) pend q'" using p q'(1) by (simp add: pending_ok_def)
        moreover have "left (Some content) r = Some (drop (length c) content)" using l q'(3) by (simp add: left_def)
        moreover have "isReadingObject q'" using q'(1) i(2) by simp
        ultimately show ?thesis using c i(3) q'(4) by (simp add: queue_inv_def current_def)
      qed
    qed
  qed
  then show "queue_inv git h isObj (q', left (Some content) r, pend)" "c = take (length c) content" "err = Some EndOfFile \<Longrightarrow> content = [] \<and> \<not> isReadingObject q'" by blast+
qed

lemma object_Read_ended: "object_Read None n chunk q = (q', r, c, err) \<Longrightarrow> q' = q \<and> r = None \<and> c = [] \<and> err \<noteq> None"
  by (auto simp: object_Read_def split: if_splits)

lemma in_step_dies: "in_step git w q \<Longrightarrow> in_step git w (q\<lparr>alive := False, stdout := take k (stdout q)\<rparr>)"
  by (auto simp: in_step_def produced_def dest: append_prefixD intro: prefix_order.trans [OF take_is_prefix])

lemma queue_inv_step:
  assumes "cat_file_ok git db h isObj" "queue_inv git h isObj s" "queue_step git db s c s'"
  shows "queue_inv git h isObj s'"
  using assms(3)
proof (cases rule: queue_step.cases)
  case (request r e1 e2 q q' err ob pend)
  then show ?thesis using request_ok [of git h isObj "current ob" pend q r e1 e2 q' err] assms(2) by (simp add: queue_inv_def)
next
  case (flush e1 e2 e3 q q' err ob pend)
  then show ?thesis using flush_ok [of git h isObj "current ob" pend q e1 e2 e3 q' err] assms(2) by (simp add: queue_inv_def)
next
  case (read_info q q' res ob pend)
  then show ?thesis using ReadInfo_ok(1) [OF assms(1)] assms(2) by simp
next
  case (read_object q q' res ob pend)
  then show ?thesis using ReadObject_ok(1) [OF assms(1)] assms(2) by simp
next
  case (object_read ob n chunk q q' r c err pend)
  then show ?thesis using object_Read_ok(1) [of git h isObj q _ pend n chunk q' r c err] object_Read_ended [of n chunk q q' r c err] assms(2)
    by (cases ob) (auto simp: left_def)
next
  case (close q ob pend)
  then show ?thesis using assms(2) by (simp add: queue_inv_def queue_close_def)
next
  case (pass q ob pend k)
  then show ?thesis using assms(2) by (simp add: queue_inv_def pending_ok_def pass_input_in_step)
next
  case (die q ob pend k)
  then show ?thesis using assms(2) in_step_dies [of git _ q k] by (simp add: queue_inv_def pending_ok_def)
qed

lemma queue_inv_start: "queue_start h isObj s \<Longrightarrow> queue_inv git h isObj s"
  by (simp add: queue_start_def newReader_def queue_inv_def pending_ok_def in_step_def produced_def unfinished_def current_def)

interpretation cfq: invariant_of "queue_start h isObj" "queue_step git db" "\<lambda>s. cat_file_ok git db h isObj \<longrightarrow> queue_inv git h isObj s"
  for git db h isObj
  by unfold_locales (auto intro: queue_inv_start queue_inv_step)

lemma reachable_queue_inv: "cat_file_ok git db h isObj \<Longrightarrow> queue_reachable git db h isObj s \<Longrightarrow> queue_inv git h isObj s"
  using cfq.reachable_inv by blast


section \<open>Reused processes\<close>

definition usable :: "requestQueue \<Rightarrow> bool" where
  "usable q \<longleftrightarrow> alive q \<and> \<not> closed q \<and> stdin_err q = None"

lemma write_line_success:
  "stdin_err q = None \<Longrightarrow> write_line git None None l q = (q\<lparr>stdin := stdin q @ l @ [nl]\<rparr>, None)"
  by (simp add: write_line_def bufio_Write_def bufio_WriteByte_def)

lemma request_success:
  "usable q \<Longrightarrow> requestRevision git None None r q = (q\<lparr>stdin := stdin q @ r @ [nl], outstandingRequests := outstandingRequests q + 1\<rparr>, None)"
  by (simp add: usable_def requestRevision_def bufio_Write_def bufio_WriteByte_def)

lemma flush_success: "usable q \<Longrightarrow> \<exists>q'. queue_Flush git None None None q = (q', None)"
  by (simp add: usable_def queue_Flush_def bufio_Write_def bufio_WriteByte_def bufio_Flush_def)

lemma asked_alone:
  assumes "requests pend = []" "revision_ok r"
  shows "oldest (pend @ [r] @ [flushCommand]) = r" "requests (pop (pend @ [r] @ [flushCommand])) = []"
  using requests_pop [of "pend @ [r] @ [flushCommand]"] assms revision_no_flush [OF assms(2)] by auto

text \<open>A request and a flush on a process that is not dirty: everything is printed, and the answer is the next to read.\<close>

lemma asked:
  assumes "cat_file_ok git db h isObj" "queue_reachable git db h isObj (q, ob, pend)" "\<not> isDirty q" "usable q" "revision_ok r"
  obtains q1 q2 where "requestRevision git None None r q = (q1, None)" "queue_Flush git None None None q1 = (q2, None)"
    "queue_reachable git db h isObj (q2, None, pend @ [r] @ [flushCommand])" "usable q2" "requests pend = []" "\<not> isReadingObject q2"
    "outstandingRequests q2 = 1" "isObjectQueue q2 = isObj" "stdin q2 = []"
    "ParseObjectInfo (hashLen q2) (stdout q2) = (body_of isObj (db r) @ concat (map git (pop (pend @ [r] @ [flushCommand]))), info_of (db r))"
proof -
  have i: "queue_inv git h isObj (q, ob, pend)" using reachable_queue_inv assms(1,2) by blast
  then have o: "ob = None" "requests pend = []" using assms(3) by (auto simp: queue_inv_def pending_ok_def isDirty_def)
  obtain q1 where q1: "requestRevision git None None r q = (q1, None)" "usable q1" "outstandingRequests q1 = 1"
    using request_success [OF assms(4)] assms(3,4) by (simp add: usable_def isDirty_def)
  then obtain q2 where q2: "queue_Flush git None None None q1 = (q2, None)" using flush_success by blast
  have "queue_reachable git db h isObj (q1, None, pend @ [r])"
    using reach_step [OF assms(2) queue_step.request [OF assms(5) q1(1)]] o by simp
  from reach_step [OF this queue_step.flush [OF q2]] have r2: "queue_reachable git db h isObj (q2, None, pend @ [r] @ [flushCommand])" by simp
  have i1: "pending_ok git h isObj [] (pend @ [r]) q1" "isReadingObject q1 = isReadingObject q"
    using request_ok [of git h isObj "[]" pend q r None None q1 None] i o q1(1) assms(5) by (simp_all add: queue_inv_def current_def)
  note f = flush_ok [OF i1(1) q2]
  have u: "usable q2" "stdin q2 = []" using f(3,4,5) q1(2) by (simp_all add: usable_def)
  have p: "pending_ok git h isObj [] (pend @ [r] @ [flushCommand]) q2" using f(1) by simp
  then have s: "stdout q2 = concat (map git (pend @ [r] @ [flushCommand]))" "hashLen q2 = h" "list_all (\<lambda>r. r = flushCommand \<or> revision_ok r) (pend @ [r] @ [flushCommand])"
    using u by (simp_all add: pending_ok_def in_step_def produced_def usable_def)
  have "\<exists>x \<in> set (pend @ [r] @ [flushCommand]). x \<noteq> flushCommand" using revision_no_flush [OF assms(5)] by simp
  from parse_complete [OF assms(1) s(3) this] have
    "ParseObjectInfo (hashLen q2) (stdout q2) = (body_of isObj (db r) @ concat (map git (pop (pend @ [r] @ [flushCommand]))), info_of (db r))"
    unfolding s(1,2) asked_alone(1) [OF o(2) assms(5)] .
  then show ?thesis
    using that [OF q1(1) q2 r2 u(1) o(2)] f(2) i1(2) p o(2) assms(3) u(2) revision_no_flush [OF assms(5)] by (auto simp: pending_ok_def isDirty_def)
qed

lemma ReadInfo_answers:
  assumes "usable q" "outstandingRequests q = 1" "\<not> isObjectQueue q" "ParseObjectInfo (hashLen q) (stdout q) = (rest, res)"
  shows "ReadInfo q = (q\<lparr>outstandingRequests := 0, stdout := rest\<rparr>, res)"
  using assms by (simp add: usable_def ReadInfo_def readInfo_def)

lemma ReadObject_answers:
  assumes "usable q" "outstandingRequests q = 1" "isObjectQueue q" "\<not> isReadingObject q" "ParseObjectInfo (hashLen q) (stdout q) = (rest, info_of x)"
  shows "ReadObject q = (q\<lparr>outstandingRequests := 0, isReadingObject := x \<noteq> None, stdout := rest\<rparr>, reader_of x)"
  using assms by (cases x) (auto simp: usable_def ReadObject_def readInfo_def info_of_def reader_of_def)

lemma WriteTo_content:
  assumes "stdout q = content @ c # rest" "\<not> closed q" "queue_reachable git db h isObj (q, Some content, pend)"
  shows "WriteTo chunk (Some (length content)) q = (q\<lparr>stdout := rest, isReadingObject := False\<rparr>, None, content, None) \<and>
    queue_reachable git db h isObj (q\<lparr>stdout := rest, isReadingObject := False\<rparr>, None, pend)"
  using assms
proof (induction "length content" arbitrary: content q rule: less_induct)
  case less
  show ?case
  proof (cases "content = []")
    case True
    then have o: "object_Read (Some (length content)) n chunk q = (q\<lparr>stdout := rest, isReadingObject := False\<rparr>, None, [], Some EndOfFile)" for n
      using less.prems(1,2) by (simp add: object_Read_def discard_newline_def)
    have "queue_reachable git db h isObj (q\<lparr>stdout := rest, isReadingObject := False\<rparr>, left (Some content) None, pend)"
      by (rule reach_step [OF less.prems(3) queue_step.object_read]) (use o [of 0] less.prems(1) in auto)
    then show ?thesis using o [of 32768] True by (subst WriteTo.simps) (simp add: left_def)
  next
    case False
    define k where "k = min (min 32768 (length content)) (max 1 chunk)"
    have k: "0 < k" "k \<le> length content" using False by (auto simp: k_def)
    let ?q = "q\<lparr>stdout := drop k content @ c # rest\<rparr>"
    have o: "object_Read (Some (length content)) 32768 chunk q = (?q, Some (length (drop k content)), take k content, None)"
      using less.prems(1,2) False k by (simp add: object_Read_def Let_def k_def)
    have "queue_reachable git db h isObj (?q, left (Some content) (Some (length (drop k content))), pend)"
      by (rule reach_step [OF less.prems(3) queue_step.object_read]) (use o less.prems(1) False in auto)
    then have r: "queue_reachable git db h isObj (?q, Some (drop k content), pend)" using k by (simp add: left_def)
    have "length (drop k content) < length content" using k False by simp
    from less.hyps [OF this _ _ r] show ?thesis using o less.prems(2) by (subst WriteTo.simps) simp
  qed
qed


lemma reader_of_answers: "reader_of x \<noteq> Inl ReadInfoLineFailed"
  by (cases x) (auto simp: reader_of_def)

text \<open>C37: The answers are those of the requests, in their order. In whatever way a queue has been used, and whatever failed, a
  result that \<open>ReadInfo\<close> or \<open>ReadObject\<close> returns, the error that there is no such object included, is what the repository has for
  the oldest request that has not been answered, and the bytes read from an object are the next ones of its contents,
  which ends only when all of them have been read, also if the process dies in between.\<close>

theorem reads_answer_requests:
  assumes "cat_file_ok git db h isObj" "queue_reachable git db h isObj (q, ob, pend)"
  shows "(\<forall>q' res. ReadInfo q = (q', res) \<and> ((\<exists>i. res = Inr i) \<or> res = Inl NotFoundError) \<longrightarrow>
           requests pend \<noteq> [] \<and> res = info_of (db (hd (requests pend)))) \<and>
    (\<forall>q' res. ReadObject q = (q', res) \<and> ((\<exists>i. res = Inr i) \<or> res = Inl NotFoundError) \<longrightarrow>
           ob = None \<and> requests pend \<noteq> [] \<and> res = reader_of (db (hd (requests pend)))) \<and>
    (\<forall>content n chunk q' r c err. ob = Some content \<and> (alive q \<longrightarrow> stdout q \<noteq> []) \<and> object_Read (Some (length content)) n chunk q = (q', r, c, err) \<longrightarrow>
           prefix c content \<and> (err = Some EndOfFile \<longrightarrow> content = [] \<and> \<not> isReadingObject q'))"
proof -
  have i: "queue_inv git h isObj (q, ob, pend)" using reachable_queue_inv assms by blast
  have "requests pend \<noteq> [] \<and> res = info_of (db (hd (requests pend)))"
    if "ReadInfo q = (q', res)" "(\<exists>i. res = Inr i) \<or> res = Inl NotFoundError" for q' res
    using ReadInfo_ok(2) [OF assms(1) i that(1) _ that(2)] that(2) requests_pop [of pend] by (auto simp: list.expand)
  moreover have "ob = None \<and> requests pend \<noteq> [] \<and> res = reader_of (db (hd (requests pend)))"
    if "ReadObject q = (q', res)" "(\<exists>i. res = Inr i) \<or> res = Inl NotFoundError" for q' res
    using ReadObject_ok(2) [OF assms(1) i that(1) _ that(2)] that(2) requests_pop [of pend] by (auto simp: list.expand)
  moreover have "prefix c content \<and> (err = Some EndOfFile \<longrightarrow> content = [] \<and> \<not> isReadingObject q')"
    if "ob = Some content" "alive q \<longrightarrow> stdout q \<noteq> []" "object_Read (Some (length content)) n chunk q = (q', r, c, err)" for content n chunk q' r c err
    using object_Read_ok(2,3) [of git h isObj q content pend n chunk q' r c err] i that by (metis take_is_prefix)
  ultimately show ?thesis by blast
qed

text \<open>A process that is not dirty can be reused for object information. Whatever it has been used for, if it runs, is not closed
  and its input has not failed, \<open>Info\<close> returns what the repository has for its revision, and leaves the process as clean.\<close>

lemma clean_info_reader:
  assumes "cat_file_ok git db h False" "queue_reachable git db h False (q, ob, pend)" "\<not> isDirty q" "usable q" "revision_ok r"
  shows "\<exists>q' pend'. Info git (\<lambda>_. None) r \<lparr>queue = q, queueInUse = False\<rparr> = (\<lparr>queue = q', queueInUse = False\<rparr>, info_of (db r)) \<and>
    queue_reachable git db h False (q', None, pend') \<and> \<not> isDirty q' \<and> usable q'"
proof (rule asked [OF assms])
  fix q1 q2
  assume a: "requestRevision git None None r q = (q1, None)" "queue_Flush git None None None q1 = (q2, None)"
    "queue_reachable git db h False (q2, None, pend @ [r] @ [flushCommand])" "usable q2" "\<not> isReadingObject q2" "outstandingRequests q2 = 1"
    "isObjectQueue q2 = False" "ParseObjectInfo (hashLen q2) (stdout q2) = (body_of False (db r) @ concat (map git (pop (pend @ [r] @ [flushCommand]))), info_of (db r))"
  then obtain rest where ri: "ReadInfo q2 = (q2\<lparr>outstandingRequests := 0, stdout := rest\<rparr>, info_of (db r))" using ReadInfo_answers by blast
  let ?q = "q2\<lparr>outstandingRequests := 0, stdout := rest\<rparr>"
  have "Info git (\<lambda>_. None) r \<lparr>queue = q, queueInUse = False\<rparr> = (\<lparr>queue = ?q, queueInUse = False\<rparr>, info_of (db r))"
    using a(1,2) ri by (simp add: Info_def reserve_queue_def)
  moreover have "\<not> isDirty ?q" "usable ?q" using a(4,5) by (simp_all add: isDirty_def usable_def)
  moreover have "queue_reachable git db h False (?q, None, consumed q2 ?q (pend @ [r] @ [flushCommand]))"
    using reach_step [OF a(3) queue_step.read_info [OF ri]] by simp
  ultimately show ?thesis by blast
qed

text \<open>A process that is not dirty can be reused for objects. Whatever it has been used for, if it runs, is not closed and its
  input has not failed, \<open>Object\<close> returns the object of its revision. When the object is there, \<open>WriteTo\<close> gives its contents,
  whatever parts the output comes in; then the process is clean again. It is clean at once when there is no object.\<close>

lemma clean_object_reader:
  assumes "cat_file_ok git db h True" "queue_reachable git db h True (q, ob, pend)" "\<not> isDirty q" "usable q" "revision_ok r"
  shows "\<exists>q'. Object git (\<lambda>_. None) r \<lparr>queue = q, queueInUse = False\<rparr> = (\<lparr>queue = q', queueInUse = False\<rparr>, reader_of (db r)) \<and>
    (case db r of
       None \<Rightarrow> \<not> isDirty q' \<and> usable q'
     | Some (oid, ty, content) \<Rightarrow>
         \<exists>q'' pend'. WriteTo chunk (Some (length content)) q' = (q'', None, content, None) \<and>
           queue_reachable git db h True (q'', None, pend') \<and> \<not> isDirty q'' \<and> usable q'')"
proof (rule asked [OF assms])
  fix q1 q2 :: requestQueue
  let ?p = "pop (pend @ [r] @ [flushCommand])"
  let ?q = "q2\<lparr>outstandingRequests := 0, isReadingObject := db r \<noteq> None, stdout := body_of True (db r) @ concat (map git ?p)\<rparr>"
  assume a: "requestRevision git None None r q = (q1, None)" "queue_Flush git None None None q1 = (q2, None)"
    "queue_reachable git db h True (q2, None, pend @ [r] @ [flushCommand])" "usable q2" "requests pend = []" "\<not> isReadingObject q2" "outstandingRequests q2 = 1"
    "isObjectQueue q2 = True" "ParseObjectInfo (hashLen q2) (stdout q2) = (body_of True (db r) @ concat (map git ?p), info_of (db r))"
  then have ro: "ReadObject q2 = (?q, reader_of (db r))" using ReadObject_answers by blast
  have ob: "Object git (\<lambda>_. None) r \<lparr>queue = q, queueInUse = False\<rparr> = (\<lparr>queue = ?q, queueInUse = False\<rparr>, reader_of (db r))"
    using a(1,2) ro by (simp add: Object_def reserve_queue_def)
  have "reader_of (db r) = Inl ReadInfoLineFailed \<longrightarrow> \<not> alive q2" by (simp add: reader_of_answers)
  note st = queue_step.read_object [of q2 ?q "reader_of (db r)" git db None "pend @ [r] @ [flushCommand]", OF ro this]
  from reach_step [OF a(3), OF st] have re: "queue_reachable git db h True (?q, opened db (pend @ [r] @ [flushCommand]) (reader_of (db r)) None, ?p)"
    using a(7) by (simp add: consumed_def)
  show ?thesis
  proof (cases "db r")
    case None
    then have "\<not> isDirty ?q" "usable ?q" using a(4) by (simp_all add: isDirty_def usable_def)
    then show ?thesis using ob None by auto
  next
    case (Some x)
    obtain oid ty content where x: "x = (oid, ty, content)" by (metis surj_pair)
    have "opened db (pend @ [r] @ [flushCommand]) (reader_of (db r)) None = Some content"
      using asked_alone(1) [OF a(5) assms(5)] Some x by (simp add: opened_def reader_of_def)
    with re have "queue_reachable git db h True (?q, Some content, ?p)" by simp
    moreover have "stdout ?q = content @ nl # concat (map git ?p)" "\<not> closed ?q" using Some x a(4) by (simp_all add: body_of_def usable_def)
    ultimately have w: "WriteTo chunk (Some (length content)) ?q = (?q\<lparr>stdout := concat (map git ?p), isReadingObject := False\<rparr>, None, content, None)"
      "queue_reachable git db h True (?q\<lparr>stdout := concat (map git ?p), isReadingObject := False\<rparr>, None, ?p)"
      using WriteTo_content by blast+
    moreover have "\<not> isDirty (?q\<lparr>stdout := concat (map git ?p), isReadingObject := False\<rparr>)" "usable (?q\<lparr>stdout := concat (map git ?p), isReadingObject := False\<rparr>)"
      using a(4) by (simp_all add: isDirty_def usable_def)
    ultimately have "\<exists>q'' pend'. WriteTo chunk (Some (length content)) ?q = (q'', None, content, None) \<and>
           queue_reachable git db h True (q'', None, pend') \<and> \<not> isDirty q'' \<and> usable q''" by blast
    then show ?thesis using ob unfolding Some x by fastforce
  qed
qed


section \<open>A repository with one object\<close>

definition demo_db :: "string \<Rightarrow> (string \<times> string \<times> bytes) option" where
  "demo_db r = (if r = ''a'' then Some (''ab'', ''blob'', ''hi'') else None)"

definition demo_git :: "bool \<Rightarrow> string \<Rightarrow> bytes" where
  "demo_git isObj r = (case demo_db r of
       None \<Rightarrow> r @ '' missing'' @ [nl]
     | Some (oid, ty, content) \<Rightarrow> (oid @ '' '' @ ty @ '' '' @ decstr (length content)) @ nl # (if isObj then content @ [nl] else []))"

lemma demo_git_ok: "cat_file_ok (demo_git isObj) demo_db 2 isObj"
  by (auto simp: cat_file_ok_def demo_git_def demo_db_def flushCommand_def oid_char_def)

lemma new_queue_reachable: "queue_reachable git db h isObj (queue (newReader h isObj), None, [])"
  by (rule reach_init) (simp add: queue_start_def)

lemma new_reader_clean: "\<not> isDirty (queue (newReader h isObj)) \<and> usable (queue (newReader h isObj))"
  by (simp add: newReader_def isDirty_def usable_def)

lemma demo_revision: "revision_ok ''a''"
  by (simp add: revision_ok_def flushCommand_def)

definition demo_requested :: requestQueue where
  "demo_requested = fst (requestRevision (demo_git True) None None ''a'' (queue (newReader 2 True)))"

definition demo_flushed :: requestQueue where
  "demo_flushed = fst (queue_Flush (demo_git True) None None None demo_requested)"

lemma demo_reachable: "queue_reachable (demo_git True) demo_db 2 True (demo_flushed, None, [''a'', flushCommand])"
proof -
  have "snd (requestRevision (demo_git True) None None ''a'' (queue (newReader 2 True))) = None"
    "snd (queue_Flush (demo_git True) None None None demo_requested) = None" by code_simp+
  then have "requestRevision (demo_git True) None None ''a'' (queue (newReader 2 True)) = (demo_requested, None)"
    "queue_Flush (demo_git True) None None None demo_requested = (demo_flushed, None)"
    by (simp_all add: demo_requested_def demo_flushed_def prod_eq_iff)
  from reach_step [OF reach_step [OF new_queue_reachable, OF queue_step.request [OF demo_revision this(1)]], OF queue_step.flush [OF this(2)]]
  show ?thesis by simp
qed

theorem reads_answer_requests_witness:
  "snd (ReadObject demo_flushed) = Inr (\<lparr>Oid = ''ab'', info_Type = ''blob'', info_Size = 2\<rparr>, Some 2)"
proof -
  obtain q' res where r: "ReadObject demo_flushed = (q', res)" by fastforce
  have out: "stdout demo_flushed = (''ab'' @ '' '' @ ''blob'' @ '' '' @ decstr 2) @ nl # ''hi'' @ [nl] @ demo_git True flushCommand" by code_simp
  have q: "usable demo_flushed" "outstandingRequests demo_flushed = 1" "isObjectQueue demo_flushed" "\<not> isReadingObject demo_flushed" "hashLen demo_flushed = 2"
    by code_simp+
  have "ParseObjectInfo 2 (stdout demo_flushed) = (''hi'' @ [nl] @ demo_git True flushCommand, info_of (Some (''ab'', ''blob'', ''hi'')))"
    unfolding out by (subst parse_found) (simp_all add: info_of_def oid_char_def)
  then have "\<exists>i. res = Inr i" using r ReadObject_answers [OF q(1-4)] q(5) by (auto simp: reader_of_def)
  then have "res = reader_of (demo_db (hd (requests [''a'', flushCommand])))"
    using reads_answer_requests [OF demo_git_ok demo_reachable] r by blast
  then show ?thesis using r by (simp add: flushCommand_def demo_db_def reader_of_def)
qed

end
