(* ===== verification/ProcessCache.thy ===== *)
theory ProcessCache
  imports CatfileQueue "HOL-Library.Multiset"
begin

text \<open>
  The cache of \<open>git cat-file\<close> processes (\<open>git/catfile/cache.go\<close>): processes are kept for the session and repository they were
  created for, are handed out to one user at a time, and are closed when they are dirty, expired, replaced or too many.
  Together with \<open>CatfileQueue\<close> it is shown that whoever gets a process from the cache gets right answers from it.
\<close>

section \<open>Processes\<close>

record GitRepo =
  StorageName :: string
  RelativePath :: string
  GitObjectDirectory :: string
  GitAlternateObjectDirectories :: "string list"

record key =
  sessionID :: string
  repoStorage :: string
  repoRelPath :: string
  repoObjDir :: string
  repoAltDir :: string

text \<open>\<open>strings.Join\<close>.\<close>

fun Join :: "string list \<Rightarrow> string \<Rightarrow> string" where
  "Join [] sep = []"
| "Join [s] sep = s"
| "Join (s # ss) sep = s @ sep @ Join ss sep"

definition newCacheKey :: "string \<Rightarrow> GitRepo \<Rightarrow> key option" where
  "newCacheKey session repo =
     (if session = [] then None
      else Some \<lparr>sessionID = session, repoStorage = StorageName repo, repoRelPath = RelativePath repo, repoObjDir = GitObjectDirectory repo,
                 repoAltDir = Join (GitAlternateObjectDirectories repo) '',''\<rparr>)"

text \<open>A process is a position in the list of all processes that were created; a cancel function is known by the process it
  closes.\<close>

record entry =
  entry_key :: key
  entry_value :: nat
  expiry :: int
  entry_cancel :: nat

record processes =
  maxLen :: nat
  entries :: "entry list"

datatype pool = ObjectReaders | ObjectInfoReaders

record ProcessCache =
  ttl :: int
  objectReaders :: processes
  objectInfoReaders :: processes
  catfileCacheCounter :: "string \<Rightarrow> int"
  currentCatfileProcesses :: int
  totalCatfileProcesses :: int
  catfileCacheMembers :: "string \<Rightarrow> int"
  procs :: "catfile_reader list"

definition defaultBatchfileTTL :: int where
  "defaultBatchfileTTL = 10 * 1000000000"

definition defaultMaxLen :: int where
  "defaultMaxLen = 100"

definition newCache :: "int \<Rightarrow> int \<Rightarrow> ProcessCache" where
  "newCache t maxlen =
     (let maxlen = (if maxlen \<le> 0 then defaultMaxLen else maxlen) in
      \<lparr>ttl = t, objectReaders = \<lparr>maxLen = nat maxlen, entries = []\<rparr>, objectInfoReaders = \<lparr>maxLen = nat maxlen, entries = []\<rparr>,
       catfileCacheCounter = (\<lambda>_. 0), currentCatfileProcesses = 0, totalCatfileProcesses = 0, catfileCacheMembers = (\<lambda>_. 0), procs = []\<rparr>)"

definition processes_of :: "pool \<Rightarrow> ProcessCache \<Rightarrow> processes" where
  "processes_of p c = (case p of ObjectReaders \<Rightarrow> objectReaders c | ObjectInfoReaders \<Rightarrow> objectInfoReaders c)"

definition set_entries :: "pool \<Rightarrow> entry list \<Rightarrow> ProcessCache \<Rightarrow> ProcessCache" where
  "set_entries p es c =
     (case p of
        ObjectReaders \<Rightarrow> c\<lparr>objectReaders := (objectReaders c)\<lparr>entries := es\<rparr>\<rparr>
      | ObjectInfoReaders \<Rightarrow> c\<lparr>objectInfoReaders := (objectInfoReaders c)\<lparr>entries := es\<rparr>\<rparr>)"

section \<open>Closing a process\<close>

definition reader_close :: "catfile_reader \<Rightarrow> catfile_reader" where
  "reader_close rd = rd\<lparr>queue := queue_close (queue rd)\<rparr>"

text \<open>Cancelling the context of a process kills it.\<close>

definition kill :: "catfile_reader \<Rightarrow> catfile_reader" where
  "kill rd = rd\<lparr>queue := (queue rd)\<lparr>alive := False\<rparr>\<rparr>"

definition close_value :: "nat \<Rightarrow> ProcessCache \<Rightarrow> ProcessCache" where
  "close_value i c = c\<lparr>procs := (procs c)[i := reader_close (procs c ! i)]\<rparr>"

definition closeProcess :: "nat \<Rightarrow> ProcessCache \<Rightarrow> ProcessCache" where
  "closeProcess i c =
     (let c = c\<lparr>procs := (procs c)[i := kill (procs c ! i)]\<rparr>;
          c = close_value i c
      in c\<lparr>currentCatfileProcesses := currentCatfileProcesses c - 1\<rparr>)"

section \<open>Entries\<close>

fun lookup_from :: "nat \<Rightarrow> entry list \<Rightarrow> key \<Rightarrow> nat option" where
  "lookup_from i [] k = None"
| "lookup_from i (ent # es) k = (if entry_key ent = k then Some i else lookup_from (Suc i) es k)"

definition lookup_entry :: "pool \<Rightarrow> key \<Rightarrow> ProcessCache \<Rightarrow> nat option" where
  "lookup_entry p k c = lookup_from 0 (entries (processes_of p c)) k"

definition delete_entry :: "pool \<Rightarrow> nat \<Rightarrow> bool \<Rightarrow> ProcessCache \<Rightarrow> ProcessCache" where
  "delete_entry p i wantClose c =
     (let ent = entries (processes_of p c) ! i;
          c = (if wantClose then close_value (entry_value ent) (closeProcess (entry_cancel ent) c) else c);
          es = entries (processes_of p c)
      in set_entries p (take i es @ drop (Suc i) es) c)"

definition evictHead :: "pool \<Rightarrow> ProcessCache \<Rightarrow> ProcessCache" where
  "evictHead p c = delete_entry p 0 True c"

definition EntryCount :: "pool \<Rightarrow> ProcessCache \<Rightarrow> nat" where
  "EntryCount p c = length (entries (processes_of p c))"

lemma entries_evictHead [simp]: "entries (processes_of p (evictHead p c)) = tl (entries (processes_of p c))"
  by (cases p) (auto simp: evictHead_def delete_entry_def processes_of_def set_entries_def closeProcess_def close_value_def Let_def drop_Suc)

function evict_over :: "pool \<Rightarrow> ProcessCache \<Rightarrow> ProcessCache" where
  "evict_over p c = (if EntryCount p c > maxLen (processes_of p c) then evict_over p (evictHead p c) else c)"
  by auto
termination
  by (relation "measure (\<lambda>(p, c). EntryCount p c)") (auto simp: EntryCount_def)

definition Add :: "pool \<Rightarrow> key \<Rightarrow> nat \<Rightarrow> int \<Rightarrow> nat \<Rightarrow> ProcessCache \<Rightarrow> ProcessCache \<times> bool" where
  "Add p k v t cancel c =
     (let (c, replacedExisting) = (case lookup_entry p k c of Some i \<Rightarrow> (delete_entry p i True c, True) | None \<Rightarrow> (c, False));
          ent = \<lparr>entry_key = k, entry_value = v, expiry = t, entry_cancel = cancel\<rparr>;
          c = set_entries p (entries (processes_of p c) @ [ent]) c
      in (evict_over p c, replacedExisting))"

definition Checkout :: "pool \<Rightarrow> key \<Rightarrow> ProcessCache \<Rightarrow> ProcessCache \<times> entry option" where
  "Checkout p k c =
     (case lookup_entry p k c of
        None \<Rightarrow> (c, None)
      | Some i \<Rightarrow> (let ent = entries (processes_of p c) ! i in (delete_entry p i False c, Some ent)))"

function EnforceTTL :: "pool \<Rightarrow> int \<Rightarrow> ProcessCache \<Rightarrow> ProcessCache" where
  "EnforceTTL p now c =
     (if EntryCount p c > 0 \<and> now > expiry (entries (processes_of p c) ! 0) then EnforceTTL p now (evictHead p c) else c)"
  by auto
termination
  by (relation "measure (\<lambda>(p, now, c). EntryCount p c)") (auto simp: EntryCount_def)

function Evict_processes :: "pool \<Rightarrow> ProcessCache \<Rightarrow> ProcessCache" where
  "Evict_processes p c = (if EntryCount p c > 0 then Evict_processes p (evictHead p c) else c)"
  by auto
termination
  by (relation "measure (\<lambda>(p, c). EntryCount p c)") (auto simp: EntryCount_def)

declare evict_over.simps [simp del] EnforceTTL.simps [simp del] Evict_processes.simps [simp del]

section \<open>The cache\<close>

definition reportCacheMembers :: "ProcessCache \<Rightarrow> ProcessCache" where
  "reportCacheMembers c =
     c\<lparr>catfileCacheMembers := (catfileCacheMembers c)(''object_reader'' := int (EntryCount ObjectReaders c),
                                                   ''object_info_reader'' := int (EntryCount ObjectInfoReaders c))\<rparr>"

definition count_cache :: "string \<Rightarrow> ProcessCache \<Rightarrow> ProcessCache" where
  "count_cache label c = c\<lparr>catfileCacheCounter := (catfileCacheCounter c)(label := catfileCacheCounter c label + 1)\<rparr>"

text \<open>What the user of a process calls in the end.\<close>

datatype cancel_func = ReturnToCache pool key nat nat | CloseProcess nat

text \<open>A process can always be looked at: the value is never nil.\<close>

definition returnToCache :: "int \<Rightarrow> pool \<Rightarrow> key \<Rightarrow> nat \<Rightarrow> nat \<Rightarrow> ProcessCache \<Rightarrow> ProcessCache" where
  "returnToCache now p k v cancel c =
     reportCacheMembers
       (if closed (queue (procs c ! v)) then closeProcess cancel c
        else if isDirty (queue (procs c ! v)) then close_value v (count_cache ''dirty'' (closeProcess cancel c))
        else case Add p k v (now + ttl c) cancel c of (c, replaced) \<Rightarrow> if replaced then count_cache ''duplicate'' c else c)"

definition run_cancel :: "int \<Rightarrow> cancel_func \<Rightarrow> ProcessCache \<Rightarrow> ProcessCache" where
  "run_cancel now f c = (case f of ReturnToCache p k v cancel \<Rightarrow> returnToCache now p k v cancel c | CloseProcess i \<Rightarrow> closeProcess i c)"

definition getOrCreateProcess ::
    "string \<Rightarrow> GitRepo \<Rightarrow> pool \<Rightarrow> (string + catfile_reader) \<Rightarrow> ProcessCache \<Rightarrow> ProcessCache \<times> (string + nat \<times> cancel_func)" where
  "getOrCreateProcess session repo p create c =
     (let (c, cached) =
        (case newCacheKey session repo of
           None \<Rightarrow> (c, None)
         | Some cacheKey \<Rightarrow>
             (case Checkout p cacheKey c of
                (c, Some ent) \<Rightarrow> (count_cache ''hit'' c, Some (entry_value ent, ReturnToCache p cacheKey (entry_value ent) (entry_cancel ent)))
              | (c, None) \<Rightarrow> (count_cache ''miss'' c, None)));
        (c, r) =
        (case cached of
           Some x \<Rightarrow> (c, Inr x)
         | None \<Rightarrow>
             (case create of
                Inl err \<Rightarrow> (c, Inl err)
              | Inr rd \<Rightarrow>
                  (let process = length (procs c);
                       c = c\<lparr>procs := procs c @ [rd], totalCatfileProcesses := totalCatfileProcesses c + 1,
                             currentCatfileProcesses := currentCatfileProcesses c + 1\<rparr>
                   in (c, Inr (process, case newCacheKey session repo of
                                          None \<Rightarrow> CloseProcess process
                                        | Some cacheKey \<Rightarrow> ReturnToCache p cacheKey process process)))))
      in (reportCacheMembers c, r))"

text \<open>Starting a process and asking for the hash of the repository can fail.\<close>

definition new_reader :: "pool \<Rightarrow> string option \<Rightarrow> (string + nat) \<Rightarrow> string + catfile_reader" where
  "new_reader p exec objectHash =
     (case exec of
        Some err \<Rightarrow> Inl err
      | None \<Rightarrow> (case objectHash of Inl err \<Rightarrow> Inl (''detecting object hash: '' @ err) | Inr h \<Rightarrow> Inr (newReader h (p = ObjectReaders))))"

definition ObjectReader ::
    "string \<Rightarrow> GitRepo \<Rightarrow> string option \<Rightarrow> (string + nat) \<Rightarrow> ProcessCache \<Rightarrow> ProcessCache \<times> (string + nat \<times> cancel_func)" where
  "ObjectReader session repo exec objectHash c =
     (case getOrCreateProcess session repo ObjectReaders (new_reader ObjectReaders exec objectHash) c of (c, r) \<Rightarrow> (c, r))"

definition ObjectInfoReader ::
    "string \<Rightarrow> GitRepo \<Rightarrow> string option \<Rightarrow> (string + nat) \<Rightarrow> ProcessCache \<Rightarrow> ProcessCache \<times> (string + nat \<times> cancel_func)" where
  "ObjectInfoReader session repo exec objectHash c =
     (case getOrCreateProcess session repo ObjectInfoReaders (new_reader ObjectInfoReaders exec objectHash) c of (c, r) \<Rightarrow> (c, r))"

definition cache_Evict :: "ProcessCache \<Rightarrow> ProcessCache" where
  "cache_Evict c = Evict_processes ObjectInfoReaders (Evict_processes ObjectReaders c)"

text \<open>One tick of the monitor; the clock is read twice.\<close>

definition monitor_tick :: "int \<Rightarrow> int \<Rightarrow> ProcessCache \<Rightarrow> ProcessCache" where
  "monitor_tick now1 now2 c = reportCacheMembers (EnforceTTL ObjectInfoReaders now2 (EnforceTTL ObjectReaders now1 c))"


section \<open>Using the cache\<close>

text \<open>What the users of the processes have in mind: what each process was created for, and the state of its queue. Users only use
  the processes they hold; processes may die and read their input at any time.\<close>

record usage =
  use_pool :: pool
  use_key :: "key option"
  use_repo :: GitRepo
  use_object :: "bytes option"
  use_pending :: "string list"

type_synonym cache_state = "ProcessCache \<times> cancel_func list \<times> usage list"

datatype cache_call =
    CallGet pool string GitRepo "string option" "string + nat" | CallCancel nat int | CallTick int int | CallEvict | CallUse nat queue_call

definition process_of :: "cancel_func \<Rightarrow> nat" where
  "process_of f = (case f of ReturnToCache p k v cancel \<Rightarrow> v | CloseProcess i \<Rightarrow> i)"

definition hold :: "(string + nat \<times> cancel_func) \<Rightarrow> cancel_func list \<Rightarrow> cancel_func list" where
  "hold r held = (case r of Inl _ \<Rightarrow> held | Inr (i, f) \<Rightarrow> held @ [f])"

definition started :: "pool \<Rightarrow> string \<Rightarrow> GitRepo \<Rightarrow> ProcessCache \<Rightarrow> ProcessCache \<Rightarrow> usage list \<Rightarrow> usage list" where
  "started p session repo c c' us =
     (if length (procs c) < length (procs c')
      then us @ [\<lparr>use_pool = p, use_key = newCacheKey session repo, use_repo = repo, use_object = None, use_pending = []\<rparr>] else us)"

text \<open>The keys tell repositories apart only if no alternate object directory contains a comma or is empty.\<close>

definition repo_ok :: "GitRepo \<Rightarrow> bool" where
  "repo_ok repo \<longleftrightarrow> list_all (\<lambda>d. d \<noteq> [] \<and> CHR '','' \<notin> set d) (GitAlternateObjectDirectories repo)"

definition unattended :: "queue_call \<Rightarrow> bool" where
  "unattended call \<longleftrightarrow> (case call of PassInput k \<Rightarrow> True | ProcessDies k \<Rightarrow> True | _ \<Rightarrow> False)"

type_synonym repositories = "(GitRepo \<Rightarrow> bool \<Rightarrow> string \<Rightarrow> bytes) \<times> (GitRepo \<Rightarrow> string \<Rightarrow> (string \<times> string \<times> bytes) option) \<times> (GitRepo \<Rightarrow> nat)"

definition repositories_ok :: "repositories \<Rightarrow> bool" where
  "repositories_ok R \<longleftrightarrow> (case R of (git, db, h) \<Rightarrow> \<forall>repo isObj. cat_file_ok (git repo isObj) (db repo) (h repo) isObj)"

definition git_of :: "repositories \<Rightarrow> usage \<Rightarrow> string \<Rightarrow> bytes" where
  "git_of R u = fst R (use_repo u) (use_pool u = ObjectReaders)"

definition db_of :: "repositories \<Rightarrow> usage \<Rightarrow> string \<Rightarrow> (string \<times> string \<times> bytes) option" where
  "db_of R u = fst (snd R) (use_repo u)"

definition hash_of :: "repositories \<Rightarrow> GitRepo \<Rightarrow> nat" where
  "hash_of R repo = snd (snd R) repo"

inductive cache_step :: "repositories \<Rightarrow> cache_state \<Rightarrow> cache_call \<Rightarrow> cache_state \<Rightarrow> bool" for R where
  get: "repo_ok repo \<Longrightarrow> objectHash = Inr (hash_of R repo) \<or> (\<exists>e. objectHash = Inl e) \<Longrightarrow>
    getOrCreateProcess session repo p (new_reader p exec objectHash) c = (c', r) \<Longrightarrow>
    cache_step R (c, held, us) (CallGet p session repo exec objectHash) (c', hold r held, started p session repo c c' us)"
| cancel: "i < length held \<Longrightarrow>
    cache_step R (c, held, us) (CallCancel i now) (run_cancel now (held ! i) c, take i held @ drop (Suc i) held, us)"
| tick: "cache_step R (c, held, us) (CallTick now1 now2) (monitor_tick now1 now2 c, held, us)"
| evict: "cache_step R (c, held, us) CallEvict (cache_Evict c, held, us)"
| run: "i < length us \<Longrightarrow> i \<in> set (map process_of held) \<or> unattended call \<Longrightarrow> call \<noteq> CallClose \<Longrightarrow>
    queue_step (git_of R (us ! i)) (db_of R (us ! i)) (queue (procs c ! i), use_object (us ! i), use_pending (us ! i)) call (q', ob', pend') \<Longrightarrow>
    cache_step R (c, held, us) (CallUse i call)
      (c\<lparr>procs := (procs c)[i := (procs c ! i)\<lparr>queue := q'\<rparr>]\<rparr>, held, us[i := (us ! i)\<lparr>use_object := ob', use_pending := pend'\<rparr>])"

definition cache_start :: "cache_state \<Rightarrow> bool" where
  "cache_start s \<longleftrightarrow> (\<exists>t n. s = (newCache t n, [], []))"

abbreviation cache_reachable where
  "cache_reachable R \<equiv> reachable cache_start (cache_step R)"

section \<open>Who has which process\<close>

abbreviation ents :: "pool \<Rightarrow> ProcessCache \<Rightarrow> entry list" where
  "ents p c \<equiv> entries (processes_of p c)"

definition owned :: "ProcessCache \<Rightarrow> cancel_func list \<Rightarrow> nat list" where
  "owned c held = map entry_value (ents ObjectReaders c) @ map entry_value (ents ObjectInfoReaders c) @ map process_of held"

definition open_procs :: "ProcessCache \<Rightarrow> nat set" where
  "open_procs c = {i. i < length (procs c) \<and> \<not> closed (queue (procs c ! i))}"

definition use_ok :: "repositories \<Rightarrow> catfile_reader \<Rightarrow> usage \<Rightarrow> bool" where
  "use_ok R rd u \<longleftrightarrow> \<not> queueInUse rd \<and> repo_ok (use_repo u) \<and> (use_key u = None \<or> (\<exists>s. use_key u = newCacheKey s (use_repo u))) \<and>
     queue_reachable (git_of R u) (db_of R u) (hash_of R (use_repo u)) (use_pool u = ObjectReaders) (queue rd, use_object u, use_pending u)"

definition entry_ok :: "usage list \<Rightarrow> ProcessCache \<Rightarrow> pool \<Rightarrow> entry \<Rightarrow> bool" where
  "entry_ok us c p e \<longleftrightarrow> entry_cancel e = entry_value e \<and> use_pool (us ! entry_value e) = p \<and> use_key (us ! entry_value e) = Some (entry_key e) \<and>
     \<not> isDirty (queue (procs c ! entry_value e))"

definition held_ok :: "usage list \<Rightarrow> cancel_func \<Rightarrow> bool" where
  "held_ok us f \<longleftrightarrow> (case f of ReturnToCache p k v cancel \<Rightarrow> cancel = v \<and> use_pool (us ! v) = p \<and> use_key (us ! v) = Some k | CloseProcess v \<Rightarrow> True)"

definition cache_inv :: "repositories \<Rightarrow> cache_state \<Rightarrow> bool" where
  "cache_inv R s \<longleftrightarrow> (case s of (c, held, us) \<Rightarrow>
     mset (owned c held) = mset_set (open_procs c) \<and> currentCatfileProcesses c = int (card (open_procs c)) \<and>
     (\<forall>p. distinct (map entry_key (ents p c)) \<and> list_all (entry_ok us c p) (ents p c)) \<and> list_all (held_ok us) held \<and>
     list_all2 (use_ok R) (procs c) us)"

definition bounded :: "ProcessCache \<Rightarrow> bool" where
  "bounded c \<longleftrightarrow> (\<forall>p. length (ents p c) \<le> maxLen (processes_of p c))"

lemma ents_set_entries [simp]: "ents p' (set_entries p es c) = (if p' = p then es else ents p' c)"
  by (cases p; cases p') (simp_all add: processes_of_def set_entries_def)

lemma set_entries_simps [simp]:
  "procs (set_entries p es c) = procs c" "currentCatfileProcesses (set_entries p es c) = currentCatfileProcesses c"
  "maxLen (processes_of p' (set_entries p es c)) = maxLen (processes_of p' c)" "open_procs (set_entries p es c) = open_procs c"
  "ttl (set_entries p es c) = ttl c"
  by (cases p; cases p'; simp add: processes_of_def set_entries_def open_procs_def)+

lemma processes_of_update [simp]:
  "processes_of p (c\<lparr>procs := x\<rparr>) = processes_of p c" "processes_of p (c\<lparr>currentCatfileProcesses := n\<rparr>) = processes_of p c"
  "processes_of p (c\<lparr>totalCatfileProcesses := n\<rparr>) = processes_of p c" "processes_of p (c\<lparr>catfileCacheCounter := f\<rparr>) = processes_of p c"
  "processes_of p (c\<lparr>catfileCacheMembers := f\<rparr>) = processes_of p c"
  by (cases p; simp add: processes_of_def)+

lemma owned_entries:
  assumes "mset es + M = mset (ents p c)"
  shows "mset (owned (set_entries p es c) held) + image_mset entry_value M = mset (owned c held)"
  using assms [symmetric] by (cases p) (simp_all add: owned_def)

lemma finite_open_procs [simp]: "finite (open_procs c)"
  by (simp add: open_procs_def)


lemma mset_remove_nth: "i < length xs \<Longrightarrow> add_mset (xs ! i) (mset (take i xs @ drop (Suc i) xs)) = mset xs"
  by (subst id_take_nth_drop [of i xs]) simp_all

lemma set_remove_nth: "set (take i xs @ drop (Suc i) xs) \<subseteq> set xs"
  using set_take_subset [of i xs] set_drop_subset [of "Suc i" xs] by auto

lemma distinct_remove_nth: "distinct (map f xs) \<Longrightarrow> distinct (map f (take i xs @ drop (Suc i) xs))"
proof (cases "i < length xs")
  case True
  assume "distinct (map f xs)"
  then have "distinct (map f (take i xs @ xs ! i # drop (Suc i) xs))" using id_take_nth_drop [OF True] by metis
  then show ?thesis by auto
qed simp

lemma closeProcess_simps [simp]:
  "ents p (closeProcess v c) = ents p c" "maxLen (processes_of p (closeProcess v c)) = maxLen (processes_of p c)" "ttl (closeProcess v c) = ttl c"
  "currentCatfileProcesses (closeProcess v c) = currentCatfileProcesses c - 1" "length (procs (closeProcess v c)) = length (procs c)"
  by (simp_all add: closeProcess_def close_value_def Let_def)

lemma procs_closeProcess: "v < length (procs c) \<Longrightarrow> procs (closeProcess v c) = (procs c)[v := reader_close (kill (procs c ! v))]"
  by (simp add: closeProcess_def close_value_def Let_def)

lemma closeProcess_commutes: "set_entries p es (closeProcess v c) = closeProcess v (set_entries p es c)"
  by (cases p) (simp_all add: set_entries_def closeProcess_def close_value_def Let_def)

lemma close_again: "v < length (procs c) \<Longrightarrow> close_value v (closeProcess v c) = closeProcess v c"
  by (simp add: closeProcess_def close_value_def Let_def reader_close_def queue_close_def kill_def)

lemma open_procs_close: "v < length (procs c) \<Longrightarrow> open_procs (closeProcess v c) = open_procs c - {v}"
  by (auto simp: open_procs_def procs_closeProcess nth_list_update reader_close_def queue_close_def split: if_splits)

lemma isDirty_close [simp]: "isDirty (queue (reader_close (kill rd))) = isDirty (queue rd)"
  by (simp add: reader_close_def kill_def queue_close_def isDirty_def)

lemma use_ok_close: "use_ok R rd u \<Longrightarrow> use_ok R (reader_close (kill rd)) u"
proof -
  assume u: "use_ok R rd u"
  let ?r = "queue_reachable (git_of R u) (db_of R u) (hash_of R (use_repo u)) (use_pool u = ObjectReaders)"
  have "?r (queue rd, use_object u, use_pending u)" using u by (simp add: use_ok_def)
  from reach_step [OF this, OF queue_step.die [of _ _ _ _ _ "length (stdout (queue rd))"]]
  have "?r ((queue rd)\<lparr>alive := False, stdout := stdout (queue rd)\<rparr>, use_object u, use_pending u)" by simp
  moreover have "(queue rd)\<lparr>alive := False, stdout := stdout (queue rd)\<rparr> = (queue rd)\<lparr>alive := False\<rparr>" by simp
  ultimately have d: "?r ((queue rd)\<lparr>alive := False\<rparr>, use_object u, use_pending u)" by simp
  have "?r (queue_close ((queue rd)\<lparr>alive := False\<rparr>), use_object u, use_pending u)" by (rule reach_step [OF d, OF queue_step.close])
  then show ?thesis using u by (simp add: use_ok_def reader_close_def kill_def)
qed

lemma mset_set_remove:
  assumes "finite A" "add_mset v M = mset_set A"
  shows "v \<in> A" "M = mset_set (A - {v})"
proof -
  show v: "v \<in> A" using assms by (metis elem_mset_set union_single_eq_member)
  show "M = mset_set (A - {v})" using assms mset_set.remove [OF assms(1) v] by simp
qed

lemma owned_procs: "cache_inv R (c, held, us) \<Longrightarrow> set (owned c held) = open_procs c \<and> length us = length (procs c)"
  by (auto simp: cache_inv_def list_all2_lengthD dest: arg_cong [of _ _ set_mset])

text \<open>A process that is taken out and closed.\<close>

lemma close_inv:
  assumes "cache_inv R (c, held, us)" "mset (owned c held) = add_mset v (mset (owned c0 held0))" "procs c0 = procs c"
    "currentCatfileProcesses c0 = currentCatfileProcesses c"
    and sub: "\<And>p. set (ents p c0) \<subseteq> set (ents p c) \<and> distinct (map entry_key (ents p c0))" "set held0 \<subseteq> set held"
  shows "cache_inv R (closeProcess v c0, held0, us)"
proof -
  have o: "open_procs c0 = open_procs c" using assms(3) by (simp add: open_procs_def)
  have v: "v \<in> open_procs c" "mset (owned c0 held0) = mset_set (open_procs c - {v})"
    using mset_set_remove [OF finite_open_procs] assms(1,2) by (auto simp: cache_inv_def)
  then have l: "v < length (procs c)" by (simp add: open_procs_def)
  have "owned (closeProcess v c0) held0 = owned c0 held0" by (simp add: owned_def)
  then have 1: "mset (owned (closeProcess v c0) held0) = mset_set (open_procs (closeProcess v c0))"
    using v(2) open_procs_close [of v c0] l assms(3) o by simp
  have 2: "currentCatfileProcesses (closeProcess v c0) = int (card (open_procs (closeProcess v c0)))"
    using assms(1,3,4) v(1) l o card_Suc_Diff1 [OF finite_open_procs v(1)] by (simp add: open_procs_close cache_inv_def)
  have e: "entry_ok us (closeProcess v c0) p e" if "e \<in> set (ents p c0)" for p e
  proof -
    have "entry_ok us c p e" using that sub(1) assms(1) by (auto simp: cache_inv_def list_all_iff)
    then show ?thesis using l assms(3) by (cases "entry_value e = v") (simp_all add: entry_ok_def procs_closeProcess)
  qed
  have u: "list_all2 (use_ok R) (procs c) us" using assms(1) by (simp add: cache_inv_def)
  then have "use_ok R (reader_close (kill (procs c ! v))) (us ! v)" using l by (auto simp: list_all2_conv_all_nth intro: use_ok_close)
  then have 3: "list_all2 (use_ok R) (procs (closeProcess v c0)) us"
    using list_all2_update_cong [OF u, of _ "us ! v" v] l assms(3) by (simp add: procs_closeProcess)
  show ?thesis using 1 2 3 e sub assms(1) by (auto simp: cache_inv_def list_all_iff)
qed

lemma entry_in_pool:
  assumes "cache_inv R (c, held, us)" "i < length (ents p c)"
  shows "entry_ok us c p (ents p c ! i)" "entry_value (ents p c ! i) \<in> open_procs c"
proof -
  show "entry_ok us c p (ents p c ! i)" using assms by (auto simp: cache_inv_def list_all_length)
  have "entry_value (ents p c ! i) \<in> set (owned c held)" using assms(2) by (cases p) (auto simp: owned_def)
  then show "entry_value (ents p c ! i) \<in> open_procs c" using owned_procs [OF assms(1)] by simp
qed

definition removed :: "pool \<Rightarrow> nat \<Rightarrow> ProcessCache \<Rightarrow> ProcessCache" where
  "removed p i c = set_entries p (take i (ents p c) @ drop (Suc i) (ents p c)) c"

lemma owned_removed: "i < length (ents p c) \<Longrightarrow> mset (owned c held) = add_mset (entry_value (ents p c ! i)) (mset (owned (removed p i c) held))"
  using owned_entries [of "take i (ents p c) @ drop (Suc i) (ents p c)" "{#ents p c ! i#}" p c held] mset_remove_nth [of i "ents p c"]
  by (simp add: removed_def)

lemma removed_simps [simp]:
  "procs (removed p i c) = procs c" "currentCatfileProcesses (removed p i c) = currentCatfileProcesses c"
  "maxLen (processes_of p' (removed p i c)) = maxLen (processes_of p' c)" "ttl (removed p i c) = ttl c" "open_procs (removed p i c) = open_procs c"
  by (simp_all add: removed_def)

lemma ents_removed: "ents p' (removed p i c) = (if p' = p then take i (ents p c) @ drop (Suc i) (ents p c) else ents p' c)"
  by (simp add: removed_def)

lemma removed_subset:
  "cache_inv R (c, held, us) \<Longrightarrow> set (ents p' (removed p i c)) \<subseteq> set (ents p' c) \<and> distinct (map entry_key (ents p' (removed p i c)))"
  using set_remove_nth [of i "ents p c"] distinct_remove_nth [of entry_key "ents p c" i] by (auto simp: ents_removed cache_inv_def)

lemma delete_closes:
  assumes "cache_inv R (c, held, us)" "i < length (ents p c)"
  shows "delete_entry p i True c = closeProcess (entry_value (ents p c ! i)) (removed p i c)" "cache_inv R (delete_entry p i True c, held, us)"
proof -
  let ?v = "entry_value (ents p c ! i)"
  have "entry_cancel (ents p c ! i) = ?v" "?v < length (procs c)" using entry_in_pool [OF assms] by (simp_all add: entry_ok_def open_procs_def)
  then show d: "delete_entry p i True c = closeProcess ?v (removed p i c)"
    by (simp add: delete_entry_def close_again closeProcess_commutes removed_def Let_def)
  show "cache_inv R (delete_entry p i True c, held, us)"
    unfolding d by (rule close_inv [OF assms(1) owned_removed [OF assms(2)]]) (use removed_subset [OF assms(1)] in auto)
qed

lemma cancel_closes:
  assumes "cache_inv R (c, held, us)" "i < length held"
  shows "cache_inv R (closeProcess (process_of (held ! i)) c, take i held @ drop (Suc i) held, us)"
proof (rule close_inv [OF assms(1)])
  show "mset (owned c held) = add_mset (process_of (held ! i)) (mset (owned c (take i held @ drop (Suc i) held)))"
    using arg_cong [OF mset_remove_nth [OF assms(2)], of "image_mset process_of"] by (simp add: owned_def take_map drop_map)
qed (use assms(1) set_remove_nth [of i held] in \<open>auto simp: cache_inv_def\<close>)


section \<open>Operations\<close>

definition keeps :: "pool \<Rightarrow> ProcessCache \<Rightarrow> ProcessCache \<Rightarrow> bool" where
  "keeps p c c' \<longleftrightarrow> (\<forall>p'. (p' \<noteq> p \<longrightarrow> ents p' c' = ents p' c) \<and> maxLen (processes_of p' c') = maxLen (processes_of p' c)) \<and>
     length (procs c') = length (procs c) \<and> length (ents p c') \<le> length (ents p c)"

lemma keeps_refl: "keeps p c c"
  by (simp add: keeps_def)

lemma keeps_trans: "keeps p c c' \<Longrightarrow> keeps p c' c'' \<Longrightarrow> keeps p c c''"
  by (auto simp: keeps_def)

lemma keeps_bounded: "keeps p c c' \<Longrightarrow> bounded c \<Longrightarrow> bounded c'"
  unfolding keeps_def bounded_def by (metis order_trans)

lemma delete_keeps:
  assumes "cache_inv R (c, held, us)" "i < length (ents p c)"
  shows "keeps p c (delete_entry p i True c)" "ents p (delete_entry p i True c) = take i (ents p c) @ drop (Suc i) (ents p c)"
  using delete_closes(1) [OF assms] by (simp_all add: keeps_def ents_removed)

lemma evictHead_inv:
  assumes "cache_inv R (c, held, us)" "0 < EntryCount p c"
  shows "cache_inv R (evictHead p c, held, us)" "keeps p c (evictHead p c)"
  using delete_closes(2) [OF assms(1), of 0 p] delete_keeps(1) [OF assms(1), of 0 p] assms(2) by (simp_all add: evictHead_def EntryCount_def)

lemma evict_over_inv:
  "cache_inv R (c, held, us) \<Longrightarrow> cache_inv R (evict_over p c, held, us) \<and> keeps p c (evict_over p c) \<and> length (ents p (evict_over p c)) \<le> maxLen (processes_of p c)"
proof (induction p c rule: evict_over.induct)
  case (1 p c)
  show ?case
  proof (cases "maxLen (processes_of p c) < EntryCount p c")
    case True
    then have "0 < EntryCount p c" by simp
    note h = evictHead_inv [OF "1.prems" this]
    show ?thesis using "1.IH" [OF True h(1)] h(2) keeps_trans True evict_over.simps [of p c] by (metis keeps_def)
  next
    case False
    then show ?thesis using "1.prems" evict_over.simps [of p c] by (simp add: keeps_refl EntryCount_def)
  qed
qed

lemma EnforceTTL_inv: "cache_inv R (c, held, us) \<Longrightarrow> cache_inv R (EnforceTTL p now c, held, us) \<and> keeps p c (EnforceTTL p now c)"
proof (induction p now c rule: EnforceTTL.induct)
  case (1 p now c)
  show ?case
  proof (cases "0 < EntryCount p c \<and> expiry (ents p c ! 0) < now")
    case True
    note h = evictHead_inv [OF "1.prems" conjunct1 [OF True]]
    show ?thesis using "1.IH" [OF True h(1)] h(2) keeps_trans True EnforceTTL.simps [of p now c] by metis
  next
    case False
    then show ?thesis using "1.prems" EnforceTTL.simps [of p now c] by (auto simp: keeps_refl)
  qed
qed

lemma Evict_inv: "cache_inv R (c, held, us) \<Longrightarrow> cache_inv R (Evict_processes p c, held, us) \<and> keeps p c (Evict_processes p c)"
proof (induction p c rule: Evict_processes.induct)
  case (1 p c)
  show ?case
  proof (cases "0 < EntryCount p c")
    case True
    note h = evictHead_inv [OF "1.prems" True]
    show ?thesis using "1.IH" [OF True h(1)] h(2) keeps_trans True Evict_processes.simps [of p c] by metis
  next
    case False
    then show ?thesis using "1.prems" Evict_processes.simps [of p c] by (simp add: keeps_refl)
  qed
qed

lemma metrics [simp]:
  "ents p (count_cache l c) = ents p c" "ents p (reportCacheMembers c) = ents p c" "procs (count_cache l c) = procs c" "procs (reportCacheMembers c) = procs c"
  "maxLen (processes_of p (count_cache l c)) = maxLen (processes_of p c)" "maxLen (processes_of p (reportCacheMembers c)) = maxLen (processes_of p c)"
  "currentCatfileProcesses (count_cache l c) = currentCatfileProcesses c" "currentCatfileProcesses (reportCacheMembers c) = currentCatfileProcesses c"
  by (simp_all add: count_cache_def reportCacheMembers_def)

lemma entry_ok_updates [simp]: "entry_ok us (set_entries p es c) = entry_ok us c" "entry_ok us (count_cache l c) = entry_ok us c" "entry_ok us (reportCacheMembers c) = entry_ok us c"
  by (intro ext, simp add: entry_ok_def)+

lemma metrics_inv [simp]:
  "cache_inv R (count_cache l c, held, us) = cache_inv R (c, held, us)" "cache_inv R (reportCacheMembers c, held, us) = cache_inv R (c, held, us)"
  "bounded (count_cache l c) = bounded c" "bounded (reportCacheMembers c) = bounded c"
  by (simp_all add: cache_inv_def owned_def open_procs_def bounded_def)

lemma lookup_from_Some: "lookup_from n es k = Some j \<Longrightarrow> n \<le> j \<and> j - n < length es \<and> entry_key (es ! (j - n)) = k"
proof (induction es arbitrary: n)
  case (Cons e es)
  show ?case
  proof (cases "entry_key e = k")
    case False
    then have "Suc n \<le> j \<and> j - Suc n < length es \<and> entry_key (es ! (j - Suc n)) = k" using Cons.IH [of "Suc n"] Cons.prems by simp
    then show ?thesis by (auto simp: nth_Cons')
  qed (use Cons.prems in auto)
qed simp

lemma lookup_from_None: "lookup_from n es k = None \<Longrightarrow> k \<notin> entry_key ` set es"
  by (induction es arbitrary: n) (auto split: if_splits)

lemma lookup_entry_Some: "lookup_entry p k c = Some i \<Longrightarrow> i < length (ents p c) \<and> entry_key (ents p c ! i) = k"
  using lookup_from_Some [of 0 "ents p c" k i] by (simp add: lookup_entry_def)

lemma lookup_entry_None: "lookup_entry p k c = None \<Longrightarrow> k \<notin> entry_key ` set (ents p c)"
  by (simp add: lookup_entry_def lookup_from_None)

lemma removed_key: "distinct (map f xs) \<Longrightarrow> i < length xs \<Longrightarrow> f (xs ! i) \<notin> f ` set (take i xs @ drop (Suc i) xs)"
proof -
  assume "distinct (map f xs)" "i < length xs"
  then have "distinct (map f (take i xs @ xs ! i # drop (Suc i) xs))" using id_take_nth_drop by metis
  then show ?thesis by auto
qed

text \<open>A process that is handed out, and one that comes back.\<close>

lemma checkout_inv:
  assumes "cache_inv R (c, held, us)" "lookup_entry p k c = Some i" "v = entry_value (ents p c ! i)"
  shows "cache_inv R (removed p i c, held @ [ReturnToCache p k v v], us)" "v \<notin> set (map process_of held)" "v \<in> open_procs c"
    "use_pool (us ! v) = p" "use_key (us ! v) = Some k" "\<not> isDirty (queue (procs c ! v))" "entry_cancel (ents p c ! i) = v"
proof -
  have i: "i < length (ents p c)" "entry_key (ents p c ! i) = k" using lookup_entry_Some [OF assms(2)] by simp_all
  note e = entry_in_pool [OF assms(1) i(1)]
  show ok: "v \<in> open_procs c" "use_pool (us ! v) = p" "use_key (us ! v) = Some k" "\<not> isDirty (queue (procs c ! v))" "entry_cancel (ents p c ! i) = v"
    using e i(2) assms(3) by (simp_all add: entry_ok_def)
  have o: "mset (owned c held) = add_mset v (mset (owned (removed p i c) held))" using owned_removed [OF i(1)] assms(3) by simp
  have "mset (owned (removed p i c) (held @ [ReturnToCache p k v v])) = mset (owned c held)" using o by (simp add: owned_def process_of_def)
  then show "cache_inv R (removed p i c, held @ [ReturnToCache p k v v], us)"
    using assms(1) removed_subset [OF assms(1), of _ p i] ok by (fastforce simp: cache_inv_def list_all_iff entry_ok_def held_ok_def)
  have "mset (owned c held) = mset_set (open_procs c)" using assms(1) by (simp add: cache_inv_def)
  then have "v \<notin> set (owned (removed p i c) held)"
    using o mset_set_remove [OF finite_open_procs, of v "mset (owned (removed p i c) held)" c] by (metis DiffE elem_mset_set finite_Diff finite_open_procs insertI1 set_mset_mset)
  then show "v \<notin> set (map process_of held)" by (simp add: owned_def)
qed

lemma return_inv:
  assumes "cache_inv R (c, held, us)" "i < length held" "held ! i = ReturnToCache p k v v" "\<not> isDirty (queue (procs c ! v))" "k \<notin> entry_key ` set (ents p c)"
  shows "cache_inv R (set_entries p (ents p c @ [\<lparr>entry_key = k, entry_value = v, expiry = t, entry_cancel = v\<rparr>]) c, take i held @ drop (Suc i) held, us)"
proof -
  let ?e = "\<lparr>entry_key = k, entry_value = v, expiry = t, entry_cancel = v\<rparr>" and ?held = "take i held @ drop (Suc i) held"
  let ?c = "set_entries p (ents p c @ [?e]) c"
  have h: "held_ok us (held ! i)" using assms(1,2) by (auto simp: cache_inv_def list_all_length)
  have "mset (owned ?c ?held) = add_mset v (mset (owned c ?held))" by (cases p) (simp_all add: owned_def)
  also have "\<dots> = mset (owned c held)"
    using arg_cong [OF mset_remove_nth [OF assms(2)], of "image_mset process_of"] assms(3) by (simp add: owned_def process_of_def)
  finally have o: "mset (owned ?c ?held) = mset (owned c held)" .
  have "entry_ok us c p ?e" using h assms(3,4) by (simp add: entry_ok_def held_ok_def)
  then have e: "distinct (map entry_key (ents p' ?c)) \<and> list_all (entry_ok us ?c p') (ents p' ?c)" for p'
    using assms(1,5) by (auto simp: cache_inv_def entry_ok_def)
  show ?thesis using o e assms(1) set_remove_nth [of i held] by (auto simp: cache_inv_def list_all_iff)
qed

lemma Add_inv:
  assumes "cache_inv R (c, held, us)" "i < length held" "held ! i = ReturnToCache p k v v" "\<not> isDirty (queue (procs c ! v))" "Add p k v t v c = (c', rep)"
  shows "cache_inv R (c', take i held @ drop (Suc i) held, us)" "bounded c \<Longrightarrow> bounded c'"
proof -
  define c1 where "c1 = (case lookup_entry p k c of Some j \<Rightarrow> delete_entry p j True c | None \<Rightarrow> c)"
  define c2 where "c2 = set_entries p (ents p c1 @ [\<lparr>entry_key = k, entry_value = v, expiry = t, entry_cancel = v\<rparr>]) c1"
  have c': "c' = evict_over p c2" using assms(5) by (auto simp: Add_def c1_def c2_def Let_def split: option.splits)
  have c1: "cache_inv R (c1, held, us) \<and> \<not> isDirty (queue (procs c1 ! v)) \<and> k \<notin> entry_key ` set (ents p c1) \<and> keeps p c c1"
  proof (cases "lookup_entry p k c")
    case None
    then show ?thesis using assms(1,4) lookup_entry_None [OF None] by (simp add: c1_def keeps_refl)
  next
    case (Some j)
    then have j: "j < length (ents p c)" "entry_key (ents p c ! j) = k" using lookup_entry_Some by blast+
    have "distinct (map entry_key (ents p c))" using assms(1) by (simp add: cache_inv_def)
    from removed_key [OF this j(1)] j(2) have "k \<notin> entry_key ` set (ents p (delete_entry p j True c))" using delete_keeps(2) [OF assms(1) j(1)] by simp
    moreover have "\<not> isDirty (queue (procs (delete_entry p j True c) ! v))"
      using assms(4) entry_in_pool(2) [OF assms(1) j(1)] delete_closes(1) [OF assms(1) j(1)]
      by (cases "v = entry_value (ents p c ! j)") (simp_all add: procs_closeProcess open_procs_def)
    ultimately show ?thesis using delete_closes(2) [OF assms(1) j(1)] delete_keeps(1) [OF assms(1) j(1)] Some by (simp add: c1_def)
  qed
  then have c2: "cache_inv R (c2, take i held @ drop (Suc i) held, us)" using return_inv assms(2,3) by (simp add: c2_def)
  note ev = evict_over_inv [OF c2, of p]
  then show "cache_inv R (c', take i held @ drop (Suc i) held, us)" using c' by simp
  show "bounded c'" if b: "bounded c"
  proof -
    have "length (ents p' c') \<le> maxLen (processes_of p' c')" for p'
    proof (cases "p' = p")
      case False
      have "bounded c1" using keeps_bounded b c1 by blast
      then have "length (ents p' c2) \<le> maxLen (processes_of p' c2)" using False by (simp add: c2_def bounded_def)
      then show ?thesis using ev False c' by (simp add: keeps_def)
    qed (use ev c' in \<open>simp add: keeps_def\<close>)
    then show ?thesis by (simp add: bounded_def)
  qed
qed


lemma close_value_count: "close_value v (count_cache l c) = count_cache l (close_value v c)"
  by (simp add: close_value_def count_cache_def)

lemma bounded_close [simp]: "bounded (closeProcess v c) = bounded c"
  by (simp add: bounded_def)

lemma held_open:
  assumes "cache_inv R (c, held, us)" "f \<in> set held"
  shows "process_of f \<in> open_procs c" "process_of f < length us" "process_of f < length (procs c)"
proof -
  have "process_of f \<in> set (owned c held)" using assms(2) by (auto simp: owned_def)
  then show "process_of f \<in> open_procs c" "process_of f < length us" "process_of f < length (procs c)"
    using owned_procs [OF assms(1)] by (auto simp: open_procs_def)
qed

lemma run_cancel_inv:
  assumes "cache_inv R (c, held, us)" "i < length held"
  shows "cache_inv R (run_cancel now (held ! i) c, take i held @ drop (Suc i) held, us)" "bounded c \<Longrightarrow> bounded (run_cancel now (held ! i) c)"
proof -
  note close = cancel_closes [OF assms]
  have "cache_inv R (run_cancel now (held ! i) c, take i held @ drop (Suc i) held, us) \<and> (bounded c \<longrightarrow> bounded (run_cancel now (held ! i) c))"
  proof (cases "held ! i")
    case (ReturnToCache p k v cn)
    have "held_ok us (held ! i)" using assms by (auto simp: cache_inv_def list_all_length)
    then have cn: "cn = v" using ReturnToCache by (simp add: held_ok_def)
    have v: "v < length (procs c)" "process_of (held ! i) = v" using held_open(3) [OF assms(1) nth_mem [OF assms(2)]] ReturnToCache by (simp_all add: process_of_def)
    obtain c' rep where a: "Add p k v (now + ttl c) v c = (c', rep)" by fastforce
    show ?thesis
    proof (cases "closed (queue (procs c ! v)) \<or> isDirty (queue (procs c ! v))")
      case True
      then show ?thesis using close v cn ReturnToCache by (auto simp: run_cancel_def returnToCache_def close_value_count close_again)
    next
      case False
      note ad = Add_inv [OF assms(1,2) _ _ a]
      show ?thesis using ad False cn a ReturnToCache by (auto simp: run_cancel_def returnToCache_def)
    qed
  next
    case (CloseProcess v)
    then show ?thesis using close by (simp add: run_cancel_def process_of_def)
  qed
  then show "cache_inv R (run_cancel now (held ! i) c, take i held @ drop (Suc i) held, us)" "bounded c \<Longrightarrow> bounded (run_cancel now (held ! i) c)" by blast+
qed

definition created :: "catfile_reader \<Rightarrow> ProcessCache \<Rightarrow> ProcessCache" where
  "created rd c = c\<lparr>procs := procs c @ [rd], totalCatfileProcesses := totalCatfileProcesses c + 1, currentCatfileProcesses := currentCatfileProcesses c + 1\<rparr>"

lemma created_inv:
  assumes "cache_inv R (c, held, us)" "use_ok R rd u" "\<not> closed (queue rd)" "process_of f = length (procs c)" "held_ok (us @ [u]) f"
  shows "cache_inv R (created rd c, held @ [f], us @ [u])"
proof -
  let ?n = "length (procs c)"
  have us: "length us = ?n" "set (owned c held) = open_procs c" using owned_procs [OF assms(1)] by simp_all
  have o: "open_procs (created rd c) = insert ?n (open_procs c)" "?n \<notin> open_procs c"
    using assms(3) by (auto simp: open_procs_def created_def nth_append less_Suc_eq)
  have "mset (owned (created rd c) (held @ [f])) = add_mset ?n (mset (owned c held))" using assms(4) by (simp add: owned_def created_def)
  then have 1: "mset (owned (created rd c) (held @ [f])) = mset_set (open_procs (created rd c))"
    "currentCatfileProcesses (created rd c) = int (card (open_procs (created rd c)))"
    using assms(1) o by (simp_all add: cache_inv_def created_def)
  have e: "entry_ok (us @ [u]) (created rd c) p e" if "e \<in> set (ents p c)" for p e
  proof -
    have "entry_value e \<in> set (owned c held)" using that by (cases p) (auto simp: owned_def)
    then have "entry_value e < ?n" using us(2) by (simp add: open_procs_def)
    then show ?thesis using that assms(1) us(1) by (auto simp: cache_inv_def list_all_iff entry_ok_def created_def nth_append)
  qed
  have h: "held_ok (us @ [u]) g" if "g \<in> set held" for g
  proof -
    have "held_ok us g" "process_of g < length us" using that assms(1) held_open(2) by (auto simp: cache_inv_def list_all_iff)
    then show ?thesis by (cases g) (simp_all add: held_ok_def process_of_def nth_append)
  qed
  have "ents p (created rd c) = ents p c" "procs (created rd c) = procs c @ [rd]" for p by (simp_all add: created_def)
  then show ?thesis using 1 e h assms(1,2,5) by (auto simp: cache_inv_def list_all_iff intro: list_all2_appendI)
qed

lemma newReader_use_ok:
  assumes "repo_ok repo" "objectHash = Inr (hash_of R repo) \<or> (\<exists>e. objectHash = Inl e)" "new_reader p exec objectHash = Inr rd"
  shows "use_ok R rd \<lparr>use_pool = p, use_key = newCacheKey session repo, use_repo = repo, use_object = None, use_pending = []\<rparr>" "\<not> closed (queue rd)"
proof -
  have rd: "rd = newReader (hash_of R repo) (p = ObjectReaders)" using assms(2,3) by (auto simp: new_reader_def split: option.splits)
  then show "\<not> closed (queue rd)" by (simp add: newReader_def)
  show "use_ok R rd \<lparr>use_pool = p, use_key = newCacheKey session repo, use_repo = repo, use_object = None, use_pending = []\<rparr>"
    using assms(1) new_queue_reachable rd by (auto simp: use_ok_def newReader_def)
qed

text \<open>The cases of a call: a process is found, cannot be created, or is created.\<close>

lemma getOrCreateProcess_cases:
  assumes "getOrCreateProcess session repo p create c = (c', r)"
  obtains (hit) k i ent where "newCacheKey session repo = Some k" "lookup_entry p k c = Some i" "ent = ents p c ! i"
      "c' = reportCacheMembers (count_cache ''hit'' (removed p i c))" "r = Inr (entry_value ent, ReturnToCache p k (entry_value ent) (entry_cancel ent))"
  | (failed) err c1 where "create = Inl err" "r = Inl err" "c' = reportCacheMembers c1" "c1 = c \<or> c1 = count_cache ''miss'' c"
  | (new) rd f c1 where "create = Inr rd" "c' = reportCacheMembers (created rd c1)" "c1 = c \<or> c1 = count_cache ''miss'' c"
      "r = Inr (length (procs c), f)"
      "f = (case newCacheKey session repo of None \<Rightarrow> CloseProcess (length (procs c)) | Some k \<Rightarrow> ReturnToCache p k (length (procs c)) (length (procs c)))"
proof (cases "newCacheKey session repo")
  case None
  show ?thesis
  proof (cases create)
    case (Inl err)
    then show ?thesis using assms None failed [of err c] by (simp add: getOrCreateProcess_def)
  next
    case (Inr rd)
    then show ?thesis using assms None new [of rd c] by (simp add: getOrCreateProcess_def created_def Let_def)
  qed
next
  case k: (Some k)
  show ?thesis
  proof (cases "lookup_entry p k c")
    case None
    show ?thesis
    proof (cases create)
      case (Inl err)
      then show ?thesis using assms None k failed [of err "count_cache ''miss'' c"] by (simp add: getOrCreateProcess_def Checkout_def)
    next
      case (Inr rd)
      then show ?thesis using assms None k new [of rd "count_cache ''miss'' c"] by (simp add: getOrCreateProcess_def Checkout_def created_def count_cache_def Let_def)
    qed
  next
    case (Some i)
    have "delete_entry p i False c = removed p i c" by (simp add: delete_entry_def removed_def Let_def)
    then show ?thesis using assms Some k hit [OF k Some refl] by (simp add: getOrCreateProcess_def Checkout_def Let_def)
  qed
qed

lemma get_inv:
  assumes "cache_inv R (c, held, us)" "repo_ok repo" "objectHash = Inr (hash_of R repo) \<or> (\<exists>e. objectHash = Inl e)"
    "getOrCreateProcess session repo p (new_reader p exec objectHash) c = (c', r)"
  shows "cache_inv R (c', hold r held, started p session repo c c' us)" "bounded c \<Longrightarrow> bounded c'"
proof -
  have "cache_inv R (c', hold r held, started p session repo c c' us) \<and> (bounded c \<longrightarrow> bounded c')"
    using assms(4)
  proof (cases rule: getOrCreateProcess_cases)
    case (hit k i ent)
    note ch = checkout_inv [OF assms(1) hit(2) refl]
    have "length (ents p (removed p i c)) \<le> length (ents p c)" by (simp add: ents_removed)
    then have "bounded c \<longrightarrow> bounded (removed p i c)" by (auto simp: bounded_def ents_removed split: if_splits intro: order_trans)
    then show ?thesis using ch(1,7) hit by (simp add: hold_def started_def)
  next
    case (failed err c1)
    then show ?thesis using assms(1) by (auto simp: hold_def started_def)
  next
    case (new rd f c1)
    let ?u = "\<lparr>use_pool = p, use_key = newCacheKey session repo, use_repo = repo, use_object = None, use_pending = []\<rparr>"
    have c1: "cache_inv R (c1, held, us)" "procs c1 = procs c" "bounded c1 = bounded c" using new(3) assms(1) by auto
    have l: "length us = length (procs c)" using owned_procs [OF assms(1)] by simp
    have f: "process_of f = length (procs c1)" "held_ok (us @ [?u]) f"
      using new(5) l c1(2) by (auto simp: process_of_def held_ok_def nth_append split: option.splits)
    from created_inv [OF c1(1) newReader_use_ok [OF assms(2,3) new(1)] f] have "cache_inv R (created rd c1, held @ [f], us @ [?u])" .
    moreover have "length (procs c') = Suc (length (procs c))" using new(2) c1(2) by (simp add: created_def)
    moreover have "bounded (created rd c1) = bounded c1" by (simp add: bounded_def created_def)
    ultimately show ?thesis using new(2,4) c1 by (simp add: hold_def started_def)
  qed
  then show "cache_inv R (c', hold r held, started p session repo c c' us)" "bounded c \<Longrightarrow> bounded c'" by blast+
qed


lemma queue_step_closed:
  assumes "queue_step git db s call s'" "call \<noteq> CallClose"
  shows "closed (fst s') = closed (fst s)"
  using assms(1)
proof (cases rule: queue_step.cases)
  case (request r e1 e2 q q' err ob pend)
  then show ?thesis
    by (auto simp: requestRevision_def bufio_WriteByte_def split: if_splits prod.splits option.splits dest!: bufio_Write_fields)
next
  case (flush e1 e2 e3 q q' err ob pend)
  then show ?thesis
    by (auto simp: queue_Flush_def bufio_WriteByte_def bufio_Flush_def split: if_splits prod.splits option.splits dest!: bufio_Write_fields)
next
  case (read_info q q' res ob pend)
  then show ?thesis by (auto simp: ReadInfo_def readInfo_def Let_def split: if_splits prod.splits)
next
  case (read_object q q' res ob pend)
  then show ?thesis by (auto simp: ReadObject_def readInfo_def Let_def split: if_splits prod.splits sum.splits)
next
  case (object_read ob n chunk q q' r c err pend)
  then show ?thesis by (auto simp: object_Read_def discard_newline_def Let_def split: if_splits option.splits list.splits)
qed (use assms(2) in auto)

lemma unattended_dirty: "queue_step git db s call s' \<Longrightarrow> unattended call \<Longrightarrow> isDirty (fst s') = isDirty (fst s)"
  by (erule queue_step.cases) (auto simp: unattended_def isDirty_def)

lemma owned_distinct: "cache_inv R (c, held, us) \<Longrightarrow> distinct (owned c held)"
  by (auto simp: cache_inv_def distinct_count_atmost_1 count_mset_set dest!: arg_cong [of _ _ set_mset])

lemma run_inv:
  assumes "cache_inv R (c, held, us)" "i < length us" "i \<in> set (map process_of held) \<or> unattended call" "call \<noteq> CallClose"
    "queue_step (git_of R (us ! i)) (db_of R (us ! i)) (queue (procs c ! i), use_object (us ! i), use_pending (us ! i)) call (q', ob', pend')"
  shows "cache_inv R (c\<lparr>procs := (procs c)[i := (procs c ! i)\<lparr>queue := q'\<rparr>]\<rparr>, held, us[i := (us ! i)\<lparr>use_object := ob', use_pending := pend'\<rparr>])"
proof -
  let ?c = "c\<lparr>procs := (procs c)[i := (procs c ! i)\<lparr>queue := q'\<rparr>]\<rparr>" and ?us = "us[i := (us ! i)\<lparr>use_object := ob', use_pending := pend'\<rparr>]"
  have i: "i < length (procs c)" using owned_procs [OF assms(1)] assms(2) by simp
  have "open_procs ?c = open_procs c" using queue_step_closed [OF assms(5,4)] i by (auto simp: open_procs_def nth_list_update)
  moreover have "owned ?c held = owned c held" by (simp add: owned_def)
  moreover have "entry_ok ?us ?c p e" if e: "e \<in> set (ents p c)" for p e
  proof -
    have ok: "entry_ok us c p e" using e assms(1) by (auto simp: cache_inv_def list_all_iff)
    have "isDirty q' = isDirty (queue (procs c ! i))" if v: "entry_value e = i"
    proof -
      have "i \<notin> set (map process_of held)" using e v owned_distinct [OF assms(1)] by (cases p) (auto simp: owned_def)
      then show ?thesis using assms(3) unattended_dirty [OF assms(5)] by simp
    qed
    then show ?thesis using ok i assms(2) by (auto simp: entry_ok_def nth_list_update)
  qed
  moreover have "held_ok ?us f" if "f \<in> set held" for f
  proof -
    have "held_ok us f" using that assms(1) by (auto simp: cache_inv_def list_all_iff)
    then show ?thesis using assms(2) by (cases f) (auto simp: held_ok_def nth_list_update)
  qed
  moreover have "list_all2 (use_ok R) (procs ?c) ?us"
  proof -
    have u: "list_all2 (use_ok R) (procs c) us" using assms(1) by (simp add: cache_inv_def)
    then have o: "use_ok R (procs c ! i) (us ! i)" using i by (auto simp: list_all2_conv_all_nth)
    let ?r = "queue_reachable (git_of R (us ! i)) (db_of R (us ! i)) (hash_of R (use_repo (us ! i))) (use_pool (us ! i) = ObjectReaders)"
    have r: "?r (queue (procs c ! i), use_object (us ! i), use_pending (us ! i))" using o by (simp add: use_ok_def)
    have "?r (q', ob', pend')" by (rule reach_step [OF r, OF assms(5)])
    then have "use_ok R ((procs c ! i)\<lparr>queue := q'\<rparr>) ((us ! i)\<lparr>use_object := ob', use_pending := pend'\<rparr>)"
      using o by (simp add: use_ok_def git_of_def db_of_def)
    then show ?thesis using list_all2_update_cong [OF u] by simp
  qed
  ultimately show ?thesis using assms(1) by (auto simp: cache_inv_def list_all_iff)
qed

lemma cache_inv_step:
  assumes "cache_inv R s \<and> bounded (fst s)" "cache_step R s call s'"
  shows "cache_inv R s' \<and> bounded (fst s')"
  using assms(2)
proof (cases rule: cache_step.cases)
  case (get repo objectHash session p exec c c' r held us)
  then show ?thesis using get_inv [OF _ get(4,5,6), of held us] assms(1) by simp
next
  case (cancel i held c us now)
  then show ?thesis using run_cancel_inv [of R c held us i now] assms(1) by simp
next
  case (tick c held us now1 now2)
  let ?c = "EnforceTTL ObjectReaders now1 c"
  have "cache_inv R (?c, held, us) \<and> keeps ObjectReaders c ?c" using EnforceTTL_inv [of R c held us] assms(1) tick by simp
  moreover from this have "cache_inv R (EnforceTTL ObjectInfoReaders now2 ?c, held, us) \<and> keeps ObjectInfoReaders ?c (EnforceTTL ObjectInfoReaders now2 ?c)"
    using EnforceTTL_inv by blast
  ultimately show ?thesis using tick assms(1) keeps_bounded by (auto simp: monitor_tick_def)
next
  case (evict c held us)
  let ?c = "Evict_processes ObjectReaders c"
  have "cache_inv R (?c, held, us) \<and> keeps ObjectReaders c ?c" using Evict_inv [of R c held us] assms(1) evict by simp
  moreover from this have "cache_inv R (Evict_processes ObjectInfoReaders ?c, held, us) \<and> keeps ObjectInfoReaders ?c (Evict_processes ObjectInfoReaders ?c)"
    using Evict_inv by blast
  ultimately show ?thesis using evict assms(1) keeps_bounded by (auto simp: cache_Evict_def)
next
  case (run i us held cl c q' ob' pend')
  then show ?thesis using run_inv [of R c held us i cl q' ob' pend'] assms(1) by (auto simp: bounded_def)
qed

lemma cache_inv_start: "cache_start s \<Longrightarrow> cache_inv R s \<and> bounded (fst s)"
  by (auto simp: cache_start_def cache_inv_def bounded_def newCache_def owned_def open_procs_def processes_of_def Let_def split: pool.splits)

interpretation pca: invariant_of cache_start "cache_step R" "\<lambda>s. cache_inv R s \<and> bounded (fst s)" for R
  by unfold_locales (use cache_inv_start cache_inv_step in blast)+

lemma Join_split: "xs \<noteq> [] \<Longrightarrow> list_all (\<lambda>d. c \<notin> set d) xs \<Longrightarrow> split_char c (Join xs [c]) = xs"
  by (induction xs "[c]" rule: Join.induct) (auto simp: split_char_none split_char_once)

lemma key_repo:
  assumes "repo_ok a" "repo_ok b" "newCacheKey s a = Some k" "newCacheKey t b = Some k"
  shows "a = b"
proof -
  let ?a = "GitAlternateObjectDirectories a" and ?b = "GitAlternateObjectDirectories b"
  have no: "list_all (\<lambda>d. CHR '','' \<notin> set d) ?a" "list_all (\<lambda>d. CHR '','' \<notin> set d) ?b" using assms(1,2) by (auto simp: repo_ok_def list_all_iff)
  have e: "Join ?a '','' = Join ?b '',''" using assms(3,4) by (auto simp: newCacheKey_def split: if_splits)
  have n: "xs = [] \<longleftrightarrow> Join xs '','' = []" if "list_all (\<lambda>d. d \<noteq> []) xs" for xs using that by (induction xs "'',''" rule: Join.induct) auto
  have "?a = []  \<longleftrightarrow> ?b = []" using n [of ?a] n [of ?b] e assms(1,2) by (simp add: repo_ok_def list_all_iff)
  then have "?a = ?b" using Join_split [OF _ no(1)] Join_split [OF _ no(2)] e by metis
  then show ?thesis using assms(3,4) by (auto simp: newCacheKey_def split: if_splits)
qed


section \<open>What the cache guarantees\<close>

lemma handed_out:
  assumes "cache_inv R (c, held, us)" "repo_ok repo" "objectHash = Inr (hash_of R repo) \<or> (\<exists>e. objectHash = Inl e)"
    "getOrCreateProcess session repo p (new_reader p exec objectHash) c = (c', Inr (i, f))" "u = started p session repo c c' us ! i"
  shows "i \<notin> set (map process_of held)" "i \<in> open_procs c'" "\<not> isDirty (queue (procs c' ! i))" "use_ok R (procs c' ! i) u" "use_pool u = p" "use_repo u = repo"
proof -
  have l: "length us = length (procs c)" using owned_procs [OF assms(1)] by simp
  have uk: "list_all2 (use_ok R) (procs c) us" using assms(1) by (simp add: cache_inv_def)
  have "i \<notin> set (map process_of held) \<and> i \<in> open_procs c' \<and> \<not> isDirty (queue (procs c' ! i)) \<and> use_ok R (procs c' ! i) u \<and> use_pool u = p \<and> use_repo u = repo"
    using assms(4)
  proof (cases rule: getOrCreateProcess_cases)
    case (hit k j ent)
    note ch = checkout_inv [OF assms(1) hit(2) refl]
    have i: "i = entry_value (ents p c ! j)" "procs c' = procs c" "u = us ! i" using hit assms(5) by (auto simp: started_def)
    have o: "open_procs c' = open_procs c" using i(2) by (simp add: open_procs_def)
    have ok: "use_ok R (procs c ! i) (us ! i)" using uk ch(3) i(1) l by (auto simp: list_all2_conv_all_nth open_procs_def)
    then obtain s where "newCacheKey s (use_repo (us ! i)) = Some k" "repo_ok (use_repo (us ! i))" using ch(5) i(1) by (auto simp: use_ok_def)
    then have "use_repo (us ! i) = repo" using key_repo assms(2) hit(1) by blast
    then show ?thesis using ch i o ok by simp
  next
    case (new rd g c1)
    have c1: "procs c1 = procs c" using new(3) by auto
    have i: "i = length (procs c)" "procs c' = procs c @ [rd]" using new c1 by (simp_all add: created_def)
    then have u: "u = \<lparr>use_pool = p, use_key = newCacheKey session repo, use_repo = repo, use_object = None, use_pending = []\<rparr>"
      using assms(5) l by (simp add: started_def nth_append)
    have "i \<notin> set (map process_of held)" using held_open(3) [OF assms(1)] i(1) by fastforce
    moreover have "rd = newReader (hash_of R repo) (p = ObjectReaders)" using new(1) assms(3) by (auto simp: new_reader_def split: option.splits)
    ultimately show ?thesis using newReader_use_ok [OF assms(2,3) new(1)] i u new_reader_clean by (auto simp: open_procs_def)
  qed simp
  then show "i \<notin> set (map process_of held)" "i \<in> open_procs c'" "\<not> isDirty (queue (procs c' ! i))" "use_ok R (procs c' ! i) u" "use_pool u = p" "use_repo u = repo" by blast+
qed

lemma reader_eta: "\<not> queueInUse rd \<Longrightarrow> rd = \<lparr>queue = queue rd, queueInUse = False\<rparr>"
  by simp

text \<open>C38: No process is lost or shared. In every state of the cache, whatever its users and the monitor do and whichever processes
  die, every process that is not closed is in one place, which is an entry of one of the two lists or the hand of one user;
  all other processes are closed. The gauge of processes counts them exactly. A list has no more entries than it may have
  and no key twice, and the processes in it are clean.\<close>

theorem processes_owned_once:
  assumes "cache_reachable R (c, held, us)"
  shows "distinct (owned c held) \<and> set (owned c held) = open_procs c \<and> currentCatfileProcesses c = int (card (open_procs c)) \<and>
    length (ents p c) \<le> maxLen (processes_of p c) \<and> distinct (map entry_key (ents p c)) \<and>
    list_all (\<lambda>e. \<not> isDirty (queue (procs c ! entry_value e))) (ents p c)"
proof -
  have i: "cache_inv R (c, held, us)" "bounded c" using pca.reachable_inv [OF assms] by simp_all
  then have "list_all (\<lambda>e. \<not> isDirty (queue (procs c ! entry_value e))) (ents p c)" by (auto simp: cache_inv_def list_all_iff entry_ok_def)
  then show ?thesis using owned_distinct [OF i(1)] owned_procs [OF i(1)] i by (simp add: cache_inv_def bounded_def)
qed

text \<open>C39: Who asks the cache for a reader of object information gets right answers, from a process nobody else has. Whatever the
  process was used for before, if it runs and its input has not failed, \<open>Info\<close> returns what the repository of the caller has
  for the revision: a cached process belongs to the same repository and is in step with its requests.\<close>

theorem info_reader_answers:
  assumes "repositories_ok (git, db, h)" "cache_reachable (git, db, h) (c, held, us)" "repo_ok repo"
    and "ObjectInfoReader session repo exec (Inr (h repo)) c = (c', Inr (i, f))"
    and "alive (queue (procs c' ! i))" "stdin_err (queue (procs c' ! i)) = None" "revision_ok r"
  shows "i \<notin> set (map process_of held) \<and> (\<exists>rd'. Info (git repo False) (\<lambda>_. None) r (procs c' ! i) = (rd', info_of (db repo r)) \<and> \<not> isDirty (queue rd'))"
proof -
  let ?R = "(git, db, h)" and ?q = "queue (procs c' ! i)"
  let ?u = "started ObjectInfoReaders session repo c c' us ! i"
  have "cache_inv ?R (c, held, us)" using pca.reachable_inv [OF assms(2)] by simp
  moreover have "getOrCreateProcess session repo ObjectInfoReaders (new_reader ObjectInfoReaders exec (Inr (h repo))) c = (c', Inr (i, f))"
    using assms(4) by (simp add: ObjectInfoReader_def split: prod.splits)
  ultimately have o: "i \<notin> set (map process_of held)" "i \<in> open_procs c'" "\<not> isDirty ?q" "use_ok ?R (procs c' ! i) ?u" "use_pool ?u = ObjectInfoReaders" "use_repo ?u = repo"
    using handed_out [of ?R c held us repo "Inr (h repo)" session ObjectInfoReaders exec c' i f ?u] assms(3) by (simp_all add: hash_of_def)
  then have r: "queue_reachable (git repo False) (db repo) (h repo) False (?q, use_object ?u, use_pending ?u)" "\<not> queueInUse (procs c' ! i)"
    by (simp_all add: use_ok_def git_of_def db_of_def hash_of_def)
  have "usable ?q" using assms(5,6) o(2) by (simp add: usable_def open_procs_def)
  moreover have "cat_file_ok (git repo False) (db repo) (h repo) False" using assms(1) by (simp add: repositories_ok_def)
  ultimately show ?thesis using clean_info_reader [OF _ r(1) o(3) _ assms(7)] reader_eta [OF r(2)] o(1) by (metis catfile_reader.select_convs(1))
qed

text \<open>C40: Who asks the cache for a reader of objects gets the right objects, from a process nobody else has. Whatever the process
  was used for before, if it runs and its input has not failed, \<open>Object\<close> returns the object the repository of the caller has
  for the revision, and \<open>WriteTo\<close> then its contents.\<close>

theorem object_reader_answers:
  assumes "repositories_ok (git, db, h)" "cache_reachable (git, db, h) (c, held, us)" "repo_ok repo"
    and "ObjectReader session repo exec (Inr (h repo)) c = (c', Inr (i, f))"
    and "alive (queue (procs c' ! i))" "stdin_err (queue (procs c' ! i)) = None" "revision_ok r" "db repo r = Some (oid, ty, content)"
  shows "i \<notin> set (map process_of held) \<and>
    (\<exists>rd' q''. Object (git repo True) (\<lambda>_. None) r (procs c' ! i) =
        (rd', Inr (\<lparr>Oid = oid, info_Type = ty, info_Size = int (length content)\<rparr>, Some (length content))) \<and>
      WriteTo chunk (Some (length content)) (queue rd') = (q'', None, content, None) \<and> \<not> isDirty q'')"
proof -
  let ?R = "(git, db, h)" and ?q = "queue (procs c' ! i)"
  let ?u = "started ObjectReaders session repo c c' us ! i"
  have "cache_inv ?R (c, held, us)" using pca.reachable_inv [OF assms(2)] by simp
  moreover have "getOrCreateProcess session repo ObjectReaders (new_reader ObjectReaders exec (Inr (h repo))) c = (c', Inr (i, f))"
    using assms(4) by (simp add: ObjectReader_def split: prod.splits)
  ultimately have o: "i \<notin> set (map process_of held)" "i \<in> open_procs c'" "\<not> isDirty ?q" "use_ok ?R (procs c' ! i) ?u" "use_pool ?u = ObjectReaders" "use_repo ?u = repo"
    using handed_out [of ?R c held us repo "Inr (h repo)" session ObjectReaders exec c' i f ?u] assms(3) by (simp_all add: hash_of_def)
  then have r: "queue_reachable (git repo True) (db repo) (h repo) True (?q, use_object ?u, use_pending ?u)" "\<not> queueInUse (procs c' ! i)"
    by (simp_all add: use_ok_def git_of_def db_of_def hash_of_def)
  have u: "usable ?q" using assms(5,6) o(2) by (simp add: usable_def open_procs_def)
  have "cat_file_ok (git repo True) (db repo) (h repo) True" using assms(1) by (simp add: repositories_ok_def)
  from clean_object_reader [OF this r(1) o(3) u assms(7), of chunk] obtain q' q'' where
    "Object (git repo True) (\<lambda>_. None) r \<lparr>queue = ?q, queueInUse = False\<rparr> = (\<lparr>queue = q', queueInUse = False\<rparr>, reader_of (db repo r))"
    "WriteTo chunk (Some (length content)) q' = (q'', None, content, None)" "\<not> isDirty q''"
    using assms(8) by auto
  moreover have "\<lparr>queue = ?q, queueInUse = False\<rparr> = procs c' ! i" using reader_eta [OF r(2)] by simp
  ultimately show ?thesis using o(1) assms(8) by (auto simp: reader_of_def)
qed


section \<open>The time to live\<close>

lemma EnforceTTL_entries: "ents p (EnforceTTL p now c) = dropWhile (\<lambda>e. expiry e < now) (ents p c)"
proof (induction p now c rule: EnforceTTL.induct)
  case (1 p now c)
  then show ?case using EnforceTTL.simps [of p now c] by (cases "ents p c") (auto simp: EntryCount_def)
qed

lemma dropWhile_sorted: "sorted (map f xs) \<Longrightarrow> dropWhile (\<lambda>x. f x < t) xs = filter (\<lambda>x. t \<le> f x) xs"
proof (induction xs)
  case (Cons x xs)
  show ?case
  proof (cases "f x < t")
    case False
    then have "filter (\<lambda>x. t \<le> f x) (x # xs) = x # xs" using Cons.prems by (intro filter_True) auto
    then show ?thesis using False by simp
  qed (use Cons in auto)
qed simp

text \<open>\<open>EnforceTTL\<close> evicts exactly the entries that have expired, and closes their processes, if the entries are in the order of
  their times, as they are when they are added in the order in which the clock is read.\<close>

lemma expired_are_evicted:
  assumes "cache_reachable R (c, held, us)" "sorted (map expiry (ents p c))"
  shows "ents p (EnforceTTL p now c) = filter (\<lambda>e. now \<le> expiry e) (ents p c) \<and>
    (\<forall>e \<in> set (ents p c). expiry e < now \<longrightarrow> closed (queue (procs (EnforceTTL p now c) ! entry_value e)))"
proof -
  let ?c = "EnforceTTL p now c"
  have i: "cache_inv R (c, held, us)" using pca.reachable_inv [OF assms(1)] by simp
  have t: "cache_inv R (?c, held, us)" "keeps p c ?c" using EnforceTTL_inv [OF i] by simp_all
  have e: "ents p ?c = filter (\<lambda>e. now \<le> expiry e) (ents p c)" using EnforceTTL_entries dropWhile_sorted [OF assms(2)] by simp
  have "closed (queue (procs ?c ! entry_value x))" if x: "x \<in> set (ents p c)" "expiry x < now" for x
  proof -
    have d: "distinct (owned c held)" using owned_distinct [OF i] .
    then have inj: "inj_on entry_value (set (ents p c))" by (cases p) (simp_all add: owned_def distinct_map)
    have "entry_value y \<noteq> entry_value x" if "y \<in> set (ents p ?c)" for y
    proof -
      have y: "y \<in> set (ents p c)" "now \<le> expiry y" using that by (simp_all add: e)
      show ?thesis using inj_onD [OF inj _ y(1) x(1)] y(2) x(2) by auto
    qed
    then have "entry_value x \<notin> entry_value ` set (ents p ?c)" by (metis imageE)
    moreover have "entry_value x \<notin> entry_value ` set (ents p' c)" if "p' \<noteq> p" for p'
      using x(1) d that by (cases p; cases p') (auto simp: owned_def)
    moreover have "ents p' ?c = ents p' c" if "p' \<noteq> p" for p' using t(2) that by (simp add: keeps_def)
    ultimately have "entry_value x \<notin> entry_value ` set (ents p' ?c)" for p' by metis
    moreover have "entry_value x \<notin> set (map process_of held)" using x(1) d by (cases p) (auto simp: owned_def)
    ultimately have "entry_value x \<notin> set (owned ?c held)" by (simp add: owned_def)
    moreover have "entry_value x \<in> set (owned c held)" using x(1) by (cases p) (auto simp: owned_def)
    ultimately show ?thesis using owned_procs [OF i] owned_procs [OF t(1)] t(2) by (auto simp: open_procs_def keeps_def)
  qed
  then show ?thesis using e by blast
qed

section \<open>A cache with one process\<close>

definition demo_repo :: GitRepo where
  "demo_repo = \<lparr>StorageName = ''default'', RelativePath = ''r.git'', GitObjectDirectory = [], GitAlternateObjectDirectories = []\<rparr>"

definition demo_key :: key where
  "demo_key = \<lparr>sessionID = ''s'', repoStorage = ''default'', repoRelPath = ''r.git'', repoObjDir = [], repoAltDir = []\<rparr>"

definition demo_first :: ProcessCache where
  "demo_first = fst (getOrCreateProcess ''s'' demo_repo ObjectInfoReaders (new_reader ObjectInfoReaders None (Inr 2)) (newCache 10 1))"

definition demo_cached :: ProcessCache where
  "demo_cached = run_cancel 0 (ReturnToCache ObjectInfoReaders demo_key 0 0) demo_first"

lemma demo_repositories: "repositories_ok (\<lambda>_. demo_git, \<lambda>_. demo_db, \<lambda>_. 2)" "repo_ok demo_repo"
  using demo_git_ok by (simp_all add: repositories_ok_def repo_ok_def demo_repo_def)

lemma demo_empty: "cache_reachable R (newCache 10 1, [], [])"
  by (rule reach_init) (auto simp: cache_start_def)

lemma demo_cached_reachable: "\<exists>us. cache_reachable (\<lambda>_. demo_git, \<lambda>_. demo_db, \<lambda>_. 2) (demo_cached, [], us)"
proof -
  have "snd (getOrCreateProcess ''s'' demo_repo ObjectInfoReaders (new_reader ObjectInfoReaders None (Inr 2)) (newCache 10 1)) =
      Inr (0, ReturnToCache ObjectInfoReaders demo_key 0 0)" by code_simp
  then have g: "getOrCreateProcess ''s'' demo_repo ObjectInfoReaders (new_reader ObjectInfoReaders None (Inr 2)) (newCache 10 1) =
      (demo_first, Inr (0, ReturnToCache ObjectInfoReaders demo_key 0 0))" by (simp add: demo_first_def prod_eq_iff)
  have "Inr 2 = Inr (hash_of (\<lambda>_. demo_git, \<lambda>_. demo_db, \<lambda>_. 2) demo_repo) \<or> (\<exists>e. Inr 2 = (Inl e :: string + nat))" by (simp add: hash_of_def)
  from reach_step [OF demo_empty, OF cache_step.get [OF demo_repositories(2) this g]]
  obtain us where "cache_reachable (\<lambda>_. demo_git, \<lambda>_. demo_db, \<lambda>_. 2) (demo_first, [ReturnToCache ObjectInfoReaders demo_key 0 0], us)"
    by (auto simp: hold_def)
  from reach_step [OF this, OF cache_step.cancel [of 0 _ _ _ _ 0]] show ?thesis by (auto simp: demo_cached_def)
qed

theorem processes_owned_once_witness:
  "set (owned demo_cached []) = open_procs demo_cached \<and> distinct (owned demo_cached []) \<and> owned demo_cached [] = [0] \<and> currentCatfileProcesses demo_cached = 1"
proof -
  obtain us where us: "cache_reachable (\<lambda>_. demo_git, \<lambda>_. demo_db, \<lambda>_. 2) (demo_cached, [], us)" using demo_cached_reachable by blast
  have "owned demo_cached [] = [0]" "currentCatfileProcesses demo_cached = 1" by code_simp+
  then show ?thesis using processes_owned_once [OF us] by simp
qed

theorem info_reader_answers_witness:
  "\<exists>c' f. ObjectInfoReader ''s'' demo_repo None (Inr 2) demo_cached = (c', Inr (0, f)) \<and>
     snd (Info (demo_git False) (\<lambda>_. None) ''a'' (procs c' ! 0)) = Inr \<lparr>Oid = ''ab'', info_Type = ''blob'', info_Size = 2\<rparr>"
proof -
  obtain us where us: "cache_reachable (\<lambda>_. demo_git, \<lambda>_. demo_db, \<lambda>_. 2) (demo_cached, [], us)" using demo_cached_reachable by blast
  let ?g = "ObjectInfoReader ''s'' demo_repo None (Inr 2) demo_cached"
  have s: "snd ?g = Inr (0, ReturnToCache ObjectInfoReaders demo_key 0 0)" by code_simp
  have g: "?g = (fst ?g, Inr (0, ReturnToCache ObjectInfoReaders demo_key 0 0))" by (simp add: prod_eq_iff s)
  have q: "alive (queue (procs (fst ?g) ! 0))" "stdin_err (queue (procs (fst ?g) ! 0)) = None" by code_simp+
  from info_reader_answers [OF demo_repositories(1) us demo_repositories(2) g q demo_revision]
  have "snd (Info (demo_git False) (\<lambda>_. None) ''a'' (procs (fst ?g) ! 0)) = info_of (demo_db ''a'')" by auto
  then show ?thesis using g by (auto simp: info_of_def demo_db_def)
qed

theorem object_reader_answers_witness:
  "\<exists>c' f rd'. ObjectReader ''s'' demo_repo None (Inr 2) (newCache 10 1) = (c', Inr (0, f)) \<and>
     Object (demo_git True) (\<lambda>_. None) ''a'' (procs c' ! 0) = (rd', Inr (\<lparr>Oid = ''ab'', info_Type = ''blob'', info_Size = 2\<rparr>, Some 2)) \<and>
     fst (snd (snd (WriteTo 1 (Some 2) (queue rd')))) = ''hi''"
proof -
  let ?g = "ObjectReader ''s'' demo_repo None (Inr 2) (newCache 10 1)"
  have s: "snd ?g = Inr (0, ReturnToCache ObjectReaders demo_key 0 0)" by code_simp
  have g: "?g = (fst ?g, Inr (0, ReturnToCache ObjectReaders demo_key 0 0))" by (simp add: prod_eq_iff s)
  have q: "alive (queue (procs (fst ?g) ! 0))" "stdin_err (queue (procs (fst ?g) ! 0)) = None" by code_simp+
  have "demo_db ''a'' = Some (''ab'', ''blob'', ''hi'')" by (simp add: demo_db_def)
  from object_reader_answers [OF demo_repositories(1) demo_empty demo_repositories(2) g q demo_revision this, of 1]
  obtain rd' q'' where "Object (demo_git True) (\<lambda>_. None) ''a'' (procs (fst ?g) ! 0) = (rd', Inr (\<lparr>Oid = ''ab'', info_Type = ''blob'', info_Size = 2\<rparr>, Some 2))"
    "WriteTo 1 (Some 2) (queue rd') = (q'', None, ''hi'', None)" by (auto simp: numeral_2_eq_2)
  then show ?thesis using g by (metis fst_conv snd_conv)
qed

end
