(* ===== verification/MachineProvider.thy ===== *)
theory MachineProvider
  imports Prelude
begin

text \<open>
  The provider of virtual machines for jobs, \<open>executors/docker/machine\<close> of GitLab Runner, with the settings of
  \<open>common/config.go\<close> it reads: a pool of machines that is created, handed out, taken back and removed by many
  goroutines at once. The details of a machine are shared by pointer, so they are cells of a heap. The functions are
  written over the docker-machine command and the clock; \<open>MachinePool\<close> looks at their interleavings.
\<close>

section \<open>Settings\<close>

text \<open>A scale factor is used in two ways: it is compared with zero, and \<open>int(float64(n) * factor)\<close> is taken.\<close>

record scale_factor =
  sf_positive :: bool
  sf_times :: "int \<Rightarrow> int"

record DockerMachineAutoscaling =
  as_InPeriod :: "int \<Rightarrow> bool"
  as_IdleCount :: int
  as_IdleScaleFactor :: scale_factor
  as_IdleCountMin :: int
  as_IdleTime :: int

record DockerMachine =
  MaxGrowthRate :: int
  IdleCount :: int
  IdleScaleFactor :: scale_factor
  IdleCountMin :: int
  IdleTime :: int
  MaxBuilds :: int
  MachineName :: string
  AutoscalingConfigs :: "DockerMachineAutoscaling list"

record RunnerConfig =
  Token :: string
  Limit :: int
  Machine :: DockerMachine

definition getActiveAutoscalingConfig :: "DockerMachine \<Rightarrow> int \<Rightarrow> DockerMachineAutoscaling option" where
  "getActiveAutoscalingConfig c now =
     foldl (\<lambda>activeConf conf. if as_InPeriod conf now then Some conf else activeConf) None (AutoscalingConfigs c)"

definition GetIdleCount :: "DockerMachine \<Rightarrow> int \<Rightarrow> int" where
  "GetIdleCount c now = (case getActiveAutoscalingConfig c now of Some a \<Rightarrow> as_IdleCount a | None \<Rightarrow> IdleCount c)"

definition GetIdleCountMin :: "DockerMachine \<Rightarrow> int \<Rightarrow> int" where
  "GetIdleCountMin c now = (case getActiveAutoscalingConfig c now of Some a \<Rightarrow> as_IdleCountMin a | None \<Rightarrow> IdleCountMin c)"

definition GetIdleScaleFactor :: "DockerMachine \<Rightarrow> int \<Rightarrow> scale_factor" where
  "GetIdleScaleFactor c now =
     (case getActiveAutoscalingConfig c now of Some a \<Rightarrow> as_IdleScaleFactor a | None \<Rightarrow> IdleScaleFactor c)"

definition GetIdleTime :: "DockerMachine \<Rightarrow> int \<Rightarrow> int" where
  "GetIdleTime c now = (case getActiveAutoscalingConfig c now of Some a \<Rightarrow> as_IdleTime a | None \<Rightarrow> IdleTime c)"

section \<open>Details of machines and their numbers\<close>

datatype machineState =
  machineStateIdle | machineStateAcquired | machineStateCreating | machineStateUsed | machineStateRemoving

record machineDetails =
  Name :: string
  Created :: int
  Used :: int
  UsedCount :: int
  State :: machineState
  Reason :: string
  RetryCount :: int
  LastSeen :: int

definition isPersistedOnDisk :: "machineDetails \<Rightarrow> bool" where
  "isPersistedOnDisk m \<longleftrightarrow> State m \<noteq> machineStateCreating"

definition isUsed :: "machineDetails \<Rightarrow> bool" where
  "isUsed m \<longleftrightarrow> State m \<noteq> machineStateIdle"

definition isStuckOnRemove :: "machineDetails \<Rightarrow> bool" where
  "isStuckOnRemove m \<longleftrightarrow> State m = machineStateRemoving \<and> RetryCount m \<ge> 3"

definition isDead :: "int \<Rightarrow> machineDetails \<Rightarrow> bool" where
  "isDead now m \<longleftrightarrow> State m = machineStateIdle \<and> now - LastSeen m > 20 * 60 * 1000000000"

definition canBeUsed :: "machineDetails \<Rightarrow> bool" where
  "canBeUsed m \<longleftrightarrow> State m = machineStateAcquired"

record machinesData =
  d_Acquired :: int
  d_Creating :: int
  d_Idle :: int
  d_Used :: int
  d_Removing :: int
  d_StuckOnRemoving :: int

definition InUse :: "machinesData \<Rightarrow> int" where
  "InUse d = d_Used d"

definition Available :: "machinesData \<Rightarrow> int" where
  "Available d = d_Acquired d + d_Creating d + d_Idle d"

definition Total :: "machinesData \<Rightarrow> int" where
  "Total d = d_Acquired d + d_Creating d + d_Idle d + d_Used d + d_Removing d + d_StuckOnRemoving d"

definition data_Add :: "machinesData \<Rightarrow> machineDetails \<Rightarrow> machinesData" where
  "data_Add d m =
     (case State m of
        machineStateIdle \<Rightarrow> d\<lparr>d_Idle := d_Idle d + 1\<rparr>
      | machineStateCreating \<Rightarrow> d\<lparr>d_Creating := d_Creating d + 1\<rparr>
      | machineStateAcquired \<Rightarrow> d\<lparr>d_Acquired := d_Acquired d + 1\<rparr>
      | machineStateUsed \<Rightarrow> d\<lparr>d_Used := d_Used d + 1\<rparr>
      | machineStateRemoving \<Rightarrow>
          if isStuckOnRemove m then d\<lparr>d_StuckOnRemoving := d_StuckOnRemoving d + 1\<rparr> else d\<lparr>d_Removing := d_Removing d + 1\<rparr>)"

definition no_machines :: machinesData where
  "no_machines = \<lparr>d_Acquired = 0, d_Creating = 0, d_Idle = 0, d_Used = 0, d_Removing = 0, d_StuckOnRemoving = 0\<rparr>"

section \<open>Limits\<close>

datatype removeIdleReason =
  dontRemoveIdleMachine | removeIdleReasonTooManyBuilds | removeIdleReasonTooManyMachines | removeIdleReasonTooManyIdleMachines

definition reason_text :: "removeIdleReason \<Rightarrow> string" where
  "reason_text r =
     (case r of
        dontRemoveIdleMachine \<Rightarrow> ''don'' @ [CHR 0x27] @ ''t remote''
      | removeIdleReasonTooManyBuilds \<Rightarrow> ''too many builds''
      | removeIdleReasonTooManyMachines \<Rightarrow> ''too many machines''
      | removeIdleReasonTooManyIdleMachines \<Rightarrow> ''too many idle machines'')"

text \<open>\<open>now\<close> is the time at which a limit is checked.\<close>

definition machinesGrowthExceeded :: "RunnerConfig \<Rightarrow> machinesData \<Rightarrow> bool" where
  "machinesGrowthExceeded c d \<longleftrightarrow> \<not> MaxGrowthRate (Machine c) \<le> 0 \<and> d_Creating d \<ge> MaxGrowthRate (Machine c)"

definition totalMachinesExceeded :: "RunnerConfig \<Rightarrow> machinesData \<Rightarrow> bool" where
  "totalMachinesExceeded c d \<longleftrightarrow> \<not> Limit c \<le> 0 \<and> Total d \<ge> Limit c"

definition idleMachinesExceeded :: "RunnerConfig \<Rightarrow> int \<Rightarrow> machinesData \<Rightarrow> bool" where
  "idleMachinesExceeded c now d \<longleftrightarrow> Available d \<ge> GetIdleCount (Machine c) now"

definition idleCountMinFulfilled :: "RunnerConfig \<Rightarrow> int \<Rightarrow> machinesData \<Rightarrow> bool" where
  "idleCountMinFulfilled c now d \<longleftrightarrow>
     (let m = GetIdleCountMin (Machine c) now;
          m = (if sf_positive (GetIdleScaleFactor (Machine c) now) \<and> m < 1 then 1 else m)
      in Available d \<ge> m)"

definition idleMachinesScaleFactorExceeded :: "RunnerConfig \<Rightarrow> int \<Rightarrow> machinesData \<Rightarrow> bool" where
  "idleMachinesScaleFactorExceeded c now d \<longleftrightarrow>
     (let f = GetIdleScaleFactor (Machine c) now in sf_positive f \<and> Available d \<ge> sf_times f (InUse d))"

definition composedIdleMachinesExceeded :: "RunnerConfig \<Rightarrow> int \<Rightarrow> machinesData \<Rightarrow> bool" where
  "composedIdleMachinesExceeded c now d \<longleftrightarrow>
     idleMachinesExceeded c now d \<or> idleCountMinFulfilled c now d \<and> idleMachinesScaleFactorExceeded c now d"

definition machineUsageCountExceeded :: "RunnerConfig \<Rightarrow> machineDetails \<Rightarrow> bool" where
  "machineUsageCountExceeded c m \<longleftrightarrow> \<not> MaxBuilds (Machine c) \<le> 0 \<and> UsedCount m \<ge> MaxBuilds (Machine c)"

definition idleTimeExceeded :: "RunnerConfig \<Rightarrow> int \<Rightarrow> machineDetails \<Rightarrow> bool" where
  "idleTimeExceeded c now m \<longleftrightarrow> now - Used m > 1000000000 * GetIdleTime (Machine c) now"

definition canCreateIdle :: "RunnerConfig \<Rightarrow> int \<Rightarrow> machinesData \<Rightarrow> bool" where
  "canCreateIdle c now d \<longleftrightarrow>
     \<not> (machinesGrowthExceeded c d \<or> totalMachinesExceeded c d \<or> composedIdleMachinesExceeded c now d)"

definition shouldRemoveIdle :: "RunnerConfig \<Rightarrow> int \<Rightarrow> machinesData \<Rightarrow> machineDetails \<Rightarrow> removeIdleReason" where
  "shouldRemoveIdle c now d m =
     (if State m \<noteq> machineStateIdle then dontRemoveIdleMachine
      else if machineUsageCountExceeded c m then removeIdleReasonTooManyBuilds
      else if totalMachinesExceeded c d then removeIdleReasonTooManyMachines
      else if idleTimeExceeded c now m \<and> composedIdleMachinesExceeded c now d then removeIdleReasonTooManyIdleMachines
      else dontRemoveIdleMachine)"


section \<open>The provider\<close>

text \<open>The docker-machine command, the clock and the names of machines (\<open>name.go\<close>). Every call may change the world.\<close>

record 'w docker_machine =
  mc_Now :: "'w \<Rightarrow> 'w \<times> int"
  mc_newMachineName :: "RunnerConfig \<Rightarrow> 'w \<Rightarrow> 'w \<times> string"
  mc_matchesMachineFilter :: "RunnerConfig \<Rightarrow> string \<Rightarrow> bool"
  mc_List :: "'w \<Rightarrow> 'w \<times> (string + string list)"
  mc_CanConnect :: "'w \<Rightarrow> string \<Rightarrow> bool \<Rightarrow> 'w \<times> bool"
  mc_Exist :: "'w \<Rightarrow> string \<Rightarrow> 'w \<times> bool"
  mc_Create :: "'w \<Rightarrow> string \<Rightarrow> 'w \<times> string option"
  mc_Stop :: "'w \<Rightarrow> string \<Rightarrow> 'w \<times> string option"
  mc_Remove :: "'w \<Rightarrow> string \<Rightarrow> 'w \<times> string option"
  mc_Credentials :: "'w \<Rightarrow> string \<Rightarrow> 'w \<times> string option"

text \<open>The signal of a coordinator only makes a waiting goroutine look earlier at what it looks at every second anyway.\<close>

record runnerMachinesCoordinator =
  growing :: int
  available :: u64

definition newRunnerMachinesCoordinator :: runnerMachinesCoordinator where
  "newRunnerMachinesCoordinator = \<lparr>growing = 0, available = 0\<rparr>"

datatype creation_phase = WaitingForCapacity | CreatingMachine | LeavingCapacity

text \<open>A goroutine that creates a machine: the cell of its details, the coordinator it waits for, the capacity and the
  state the machine gets.\<close>

record creation =
  cr_details :: nat
  cr_token :: string
  cr_maxGrowth :: int
  cr_state :: machineState
  cr_phase :: creation_phase

text \<open>\<open>details\<close> and \<open>runners\<close> are the maps of the code; \<open>creations\<close> and \<open>removals\<close> are the goroutines it has started.\<close>

record machineProvider =
  heap :: "machineDetails list"
  details :: "(string, nat) gomap"
  runners :: "(string, runnerMachinesCoordinator) gomap"
  creations :: "creation list"
  removals :: "nat list"

definition newMachineProvider :: machineProvider where
  "newMachineProvider = \<lparr>heap = [], details = [], runners = [], creations = [], removals = []\<rparr>"

definition set_details :: "nat \<Rightarrow> (machineDetails \<Rightarrow> machineDetails) \<Rightarrow> machineProvider \<Rightarrow> machineProvider" where
  "set_details q f m = m\<lparr>heap := (heap m)[q := f (heap m ! q)]\<rparr>"

text \<open>A missing machine is \<open>NilPanic\<close> where the code follows a nil pointer.\<close>

datatype machine_error = MissingOptions | NoFreeExecutor | MachineError string | NilPanic

definition ensureDetails :: "'w docker_machine \<Rightarrow> string \<Rightarrow> machineProvider \<times> 'w \<Rightarrow> (machineProvider \<times> 'w) \<times> nat" where
  "ensureDetails D name st =
     (case st of (m, w) \<Rightarrow>
        (case map_of (details m) name of
           Some q \<Rightarrow> ((m, w), q)
         | None \<Rightarrow>
             (case mc_Now D w of (w, now) \<Rightarrow>
                ((m\<lparr>heap := heap m @ [\<lparr>Name = name, Created = now, Used = now, UsedCount = 1, State = machineStateIdle,
                      Reason = '''', RetryCount = 0, LastSeen = now\<rparr>],
                    details := AList.update name (length (heap m)) (details m)\<rparr>, w), length (heap m)))))"

definition tryAcquireMachineDetails :: "nat \<Rightarrow> machineProvider \<Rightarrow> machineProvider \<times> nat option" where
  "tryAcquireMachineDetails q m =
     (if isUsed (heap m ! q) then (m, None) else (set_details q (\<lambda>d. d\<lparr>State := machineStateAcquired\<rparr>) m, Some q))"

text \<open>\<open>machineDetails(name, true)\<close>; without the flag the function is \<open>ensureDetails\<close>.\<close>

definition machineDetails_acquire ::
    "'w docker_machine \<Rightarrow> string \<Rightarrow> machineProvider \<times> 'w \<Rightarrow> (machineProvider \<times> 'w) \<times> nat option" where
  "machineDetails_acquire D name st =
     (case ensureDetails D name st of ((m, w), q) \<Rightarrow> (case tryAcquireMachineDetails q m of (m, r) \<Rightarrow> ((m, w), r)))"

definition coordinator_of :: "string \<Rightarrow> machineProvider \<Rightarrow> machineProvider" where
  "coordinator_of token m =
     (case map_of (runners m) token of
        Some _ \<Rightarrow> m
      | None \<Rightarrow> m\<lparr>runners := AList.update token newRunnerMachinesCoordinator (runners m)\<rparr>)"

definition set_coordinator :: "string \<Rightarrow> (runnerMachinesCoordinator \<Rightarrow> runnerMachinesCoordinator) \<Rightarrow> machineProvider \<Rightarrow> machineProvider" where
  "set_coordinator token f m =
     (case map_of (runners m) token of None \<Rightarrow> m | Some r \<Rightarrow> m\<lparr>runners := AList.update token (f r) (runners m)\<rparr>)"

definition addAvailableMachine :: "string \<Rightarrow> machineProvider \<Rightarrow> machineProvider" where
  "addAvailableMachine token = set_coordinator token (\<lambda>r. r\<lparr>available := available r + 1\<rparr>)"

definition getAvailableMachine :: "string \<Rightarrow> machineProvider \<Rightarrow> machineProvider \<times> bool" where
  "getAvailableMachine token m =
     (case map_of (runners m) token of
        None \<Rightarrow> (m, False)
      | Some r \<Rightarrow> if available r = 0 then (m, False)
                  else (set_coordinator token (\<lambda>r. r\<lparr>available := available r - 1\<rparr>) m, True))"

section \<open>Removing machines\<close>

definition provider_remove :: "'w docker_machine \<Rightarrow> string \<Rightarrow> string \<Rightarrow> machineProvider \<times> 'w \<Rightarrow> (machineProvider \<times> 'w) \<times> string option" where
  "provider_remove D machineName reason st =
     (case st of (m, w) \<Rightarrow>
        (case map_of (details m) machineName of
           None \<Rightarrow> ((m, w), Some ''machine not found'')
         | Some q \<Rightarrow>
             (case mc_Now D w of (w, now) \<Rightarrow>
                (((set_details q (\<lambda>d. d\<lparr>Reason := reason, State := machineStateRemoving, RetryCount := 0, Used := now\<rparr>) m)
                    \<lparr>removals := removals m @ [q]\<rparr>, w), None))))"

definition removeMachine :: "'w docker_machine \<Rightarrow> nat \<Rightarrow> machineProvider \<times> 'w \<Rightarrow> (machineProvider \<times> 'w) \<times> string option" where
  "removeMachine D q st =
     (case st of (m, w) \<Rightarrow>
        (case mc_Exist D w (Name (heap m ! q)) of
           (w, False) \<Rightarrow> ((m, w), None)
         | (w, True) \<Rightarrow>
             (case mc_Stop D w (Name (heap m ! q)) of (w, _) \<Rightarrow>
                (case mc_Remove D w (Name (heap m ! q)) of
                   (w, None) \<Rightarrow> ((m, w), None)
                 | (w, Some err) \<Rightarrow> ((set_details q (\<lambda>d. d\<lparr>RetryCount := RetryCount d + 1\<rparr>) m, w), Some err)))))"

text \<open>One round of the loop of \<open>finalizeRemoval\<close>, which never gives up.\<close>

definition finalizeRemoval_round :: "'w docker_machine \<Rightarrow> nat \<Rightarrow> machineProvider \<times> 'w \<Rightarrow> machineProvider \<times> 'w" where
  "finalizeRemoval_round D q st =
     (case removeMachine D q st of
        ((m, w), Some _) \<Rightarrow> (m, w)
      | ((m, w), None) \<Rightarrow> (m\<lparr>details := AList.delete (Name (heap m ! q)) (details m), removals := remove1 q (removals m)\<rparr>, w))"

section \<open>Creating machines\<close>

definition begin_creation :: "'w docker_machine \<Rightarrow> RunnerConfig \<Rightarrow> machineState \<Rightarrow> nat \<Rightarrow> machineProvider \<times> 'w \<Rightarrow> machineProvider \<times> 'w" where
  "begin_creation D c state q st =
     (case st of (m, w) \<Rightarrow>
        (case mc_Now D w of (w, now) \<Rightarrow>
           (let m = set_details q (\<lambda>d. d\<lparr>State := machineStateCreating, UsedCount := 0, RetryCount := 0, LastSeen := now\<rparr>) m;
                m = coordinator_of (Token c) m
            in (m\<lparr>creations := creations m @ [\<lparr>cr_details = q, cr_token = Token c, cr_maxGrowth = MaxGrowthRate (Machine c),
                  cr_state = state, cr_phase = WaitingForCapacity\<rparr>]\<rparr>, w))))"

definition provider_create ::
    "'w docker_machine \<Rightarrow> RunnerConfig \<Rightarrow> machineState \<Rightarrow> machineProvider \<times> 'w \<Rightarrow> (machineProvider \<times> 'w) \<times> nat option" where
  "provider_create D c state st =
     (case st of (m, w) \<Rightarrow>
        (case mc_newMachineName D c w of (w, name) \<Rightarrow>
           (case machineDetails_acquire D name (m, w) of
              (st, None) \<Rightarrow> (st, None)
            | (st, Some q) \<Rightarrow> (begin_creation D c state q st, Some q))))"

text \<open>A creation enters \<open>waitForGrowthCapacity\<close>, creates its machine and leaves.\<close>

definition growth_capacity :: "machineProvider \<Rightarrow> creation \<Rightarrow> bool" where
  "growth_capacity m cr \<longleftrightarrow>
     \<not> (cr_maxGrowth cr \<noteq> 0 \<and> (case map_of (runners m) (cr_token cr) of None \<Rightarrow> False | Some r \<Rightarrow> growing r \<ge> cr_maxGrowth cr))"

definition set_phase :: "nat \<Rightarrow> creation_phase \<Rightarrow> machineProvider \<Rightarrow> machineProvider" where
  "set_phase i p m = m\<lparr>creations := (creations m)[i := (creations m ! i)\<lparr>cr_phase := p\<rparr>]\<rparr>"

definition enter_growth :: "nat \<Rightarrow> machineProvider \<Rightarrow> machineProvider" where
  "enter_growth i m = set_phase i CreatingMachine (set_coordinator (cr_token (creations m ! i)) (\<lambda>r. r\<lparr>growing := growing r + 1\<rparr>) m)"

definition leave_growth :: "nat \<Rightarrow> machineProvider \<Rightarrow> machineProvider" where
  "leave_growth i m =
     (set_coordinator (cr_token (creations m ! i)) (\<lambda>r. r\<lparr>growing := growing r - 1\<rparr>) m)
       \<lparr>creations := take i (creations m) @ drop (Suc i) (creations m)\<rparr>"

definition createWithGrowthCapacity :: "'w docker_machine \<Rightarrow> nat \<Rightarrow> machineProvider \<times> 'w \<Rightarrow> (machineProvider \<times> 'w) \<times> string option" where
  "createWithGrowthCapacity D i st =
     (case st of (m, w) \<Rightarrow>
        (let cr = creations m ! i; q = cr_details cr in
         case mc_Create D w (Name (heap m ! q)) of
           (w, Some err) \<Rightarrow>
             (case provider_remove D (Name (heap m ! q)) ''Failed to create'' (m, w) of
                ((m, w), _) \<Rightarrow> ((set_phase i LeavingCapacity m, w), Some err))
         | (w, None) \<Rightarrow>
             (case mc_Now D w of (w, now) \<Rightarrow>
                ((set_phase i LeavingCapacity
                    (addAvailableMachine (cr_token cr) (set_details q (\<lambda>d. d\<lparr>State := cr_state cr, Used := now\<rparr>) m)), w), None))))"


text \<open>The idle counts a configuration can have, whatever the time; \<open>createMachines\<close> ends because it stays below them.\<close>

definition max_IdleCount :: "DockerMachine \<Rightarrow> int" where
  "max_IdleCount c = foldr max (map as_IdleCount (AutoscalingConfigs c)) (IdleCount c)"

lemma active_in_configs: "getActiveAutoscalingConfig c now = Some a \<Longrightarrow> a \<in> set (AutoscalingConfigs c)"
proof -
  have "foldl (\<lambda>x conf. if as_InPeriod conf now then Some conf else x) y cs = Some a \<Longrightarrow> a \<in> set cs \<or> y = Some a" for y cs
    by (induction cs arbitrary: y) (auto split: if_splits)
  then show "getActiveAutoscalingConfig c now = Some a \<Longrightarrow> a \<in> set (AutoscalingConfigs c)"
    by (fastforce simp: getActiveAutoscalingConfig_def)
qed

lemma foldr_max_ge: "x \<in> set xs \<Longrightarrow> (x :: int) \<le> foldr max xs y" "y \<le> foldr max xs y"
  by (induction xs) auto

lemma GetIdleCount_le: "GetIdleCount c now \<le> max_IdleCount c"
  using active_in_configs [of c now] foldr_max_ge
  by (fastforce simp: GetIdleCount_def max_IdleCount_def split: option.split)

lemma canCreateIdle_below: "canCreateIdle c now d \<Longrightarrow> Available d < max_IdleCount (Machine c)"
  using GetIdleCount_le [of "Machine c" now]
  by (auto simp: canCreateIdle_def composedIdleMachinesExceeded_def idleMachinesExceeded_def)

function createMachines ::
    "'w docker_machine \<Rightarrow> RunnerConfig \<Rightarrow> machinesData \<Rightarrow> machineProvider \<times> 'w \<Rightarrow> (machineProvider \<times> 'w) \<times> machinesData option" where
  "createMachines D c data (m, w) =
     (case mc_Now D w of (w, now) \<Rightarrow>
        if \<not> canCreateIdle c now data then ((m, w), Some data)
        else case provider_create D c machineStateIdle (m, w) of
               (st, None) \<Rightarrow> (st, None)
             | (st, Some _) \<Rightarrow> createMachines D c (data\<lparr>d_Creating := d_Creating data + 1\<rparr>) st)"
  by pat_completeness auto
termination
  by (relation "measure (\<lambda>(D, c, data, st). nat (max_IdleCount (Machine c) - Available data))")
    (auto simp: Available_def dest!: canCreateIdle_below)

declare createMachines.simps [simp del]

section \<open>Finding machines\<close>

fun find_free :: "'w docker_machine \<Rightarrow> bool \<Rightarrow> string list \<Rightarrow> machineProvider \<times> 'w \<Rightarrow> (machineProvider \<times> 'w) \<times> nat option" where
  "find_free D skipCache [] st = (st, None)"
| "find_free D skipCache (name # rest) st =
     (case machineDetails_acquire D name st of
        (st, None) \<Rightarrow> find_free D skipCache rest st
      | ((m, w), Some q) \<Rightarrow>
          (case mc_CanConnect D w name skipCache of
             (w, True) \<Rightarrow> ((m, w), Some q)
           | (w, False) \<Rightarrow> find_free D skipCache rest (fst (provider_remove D name ''machine is unavailable'' (m, w)))))"

definition findFreeMachine :: "'w docker_machine \<Rightarrow> bool \<Rightarrow> string list \<Rightarrow> machineProvider \<times> 'w \<Rightarrow> (machineProvider \<times> 'w) \<times> nat option" where
  "findFreeMachine D skipCache machines st = find_free D skipCache (rev machines) st"

definition intermediateMachineList :: "machineProvider \<Rightarrow> string list \<Rightarrow> string list" where
  "intermediateMachineList m excluded =
     filter (\<lambda>n. n \<notin> set excluded)
       (map Name (filter (\<lambda>d. \<not> isPersistedOnDisk d) (map (\<lambda>(_, q). heap m ! q) (details m))))"

definition loadMachines :: "'w docker_machine \<Rightarrow> RunnerConfig \<Rightarrow> machineProvider \<times> 'w \<Rightarrow> 'w \<times> (machine_error + string list)" where
  "loadMachines D c st =
     (case st of (m, w) \<Rightarrow>
        (case mc_List D w of
           (w, Inl err) \<Rightarrow> (w, Inl (MachineError err))
         | (w, Inr machines) \<Rightarrow> (w, Inr (filter (mc_matchesMachineFilter D c) (machines @ intermediateMachineList m machines)))))"

definition findFreeExistingMachine ::
    "'w docker_machine \<Rightarrow> RunnerConfig \<Rightarrow> machineProvider \<times> 'w \<Rightarrow> (machineProvider \<times> 'w) \<times> (machine_error + nat option)" where
  "findFreeExistingMachine D c st =
     (case loadMachines D c st of
        (w, Inl err) \<Rightarrow> ((fst st, w), Inl err)
      | (w, Inr machines) \<Rightarrow> (case findFreeMachine D True machines (fst st, w) of (st, r) \<Rightarrow> (st, Inr r)))"

fun updateMachines ::
    "'w docker_machine \<Rightarrow> RunnerConfig \<Rightarrow> string list \<Rightarrow> machinesData \<Rightarrow> string list \<Rightarrow> machineProvider \<times> 'w
      \<Rightarrow> (machineProvider \<times> 'w) \<times> machinesData \<times> string list" where
  "updateMachines D c [] data validMachines st = (st, data, validMachines)"
| "updateMachines D c (name # rest) data validMachines st =
     (case ensureDetails D name st of ((m, w), q) \<Rightarrow>
        (case mc_Now D w of (w, seen) \<Rightarrow>
           (case mc_Now D w of (w, now) \<Rightarrow>
              (let m = set_details q (\<lambda>d. d\<lparr>LastSeen := seen\<rparr>) m;
                   reason = shouldRemoveIdle c now data (heap m ! q);
                   (st, validMachines) =
                     (if reason = dontRemoveIdleMachine then ((m, w), validMachines @ [name])
                      else (fst (provider_remove D (Name (heap m ! q)) (reason_text reason) (m, w)), validMachines))
               in updateMachines D c rest (data_Add data (heap (fst st) ! q)) validMachines st))))"

section \<open>Acquiring, using and releasing\<close>

text \<open>A configuration without machine settings has the same effect as one with an empty name.\<close>

definition Acquire ::
    "'w docker_machine \<Rightarrow> RunnerConfig \<Rightarrow> machineProvider \<times> 'w \<Rightarrow> (machineProvider \<times> 'w) \<times> (machine_error + nat option)" where
  "Acquire D c st =
     (if MachineName (Machine c) = '''' then (st, Inl MissingOptions)
      else case loadMachines D c st of
        (w, Inl err) \<Rightarrow> ((fst st, w), Inl err)
      | (w, Inr machines) \<Rightarrow>
     (case updateMachines D c machines no_machines [] (fst st, w) of (st, data, validMachines) \<Rightarrow>
     (case createMachines D c data st of
        (st, None) \<Rightarrow> (st, Inl NilPanic)
      | (st, Some data) \<Rightarrow>
     (case findFreeMachine D False validMachines st of
        (st, Some q) \<Rightarrow> (st, Inr (Some q))
      | ((m, w), None) \<Rightarrow>
     (case mc_Now D w of (w, now) \<Rightarrow>
        if GetIdleCount (Machine c) now = 0 then ((m, w), Inr None)
        else if d_Idle data = 0 then ((m, w), Inl NoFreeExecutor)
        else ((m, w), Inr None))))))"

definition signalRelease :: "RunnerConfig option \<Rightarrow> machineProvider \<Rightarrow> machineProvider" where
  "signalRelease config m = (case config of None \<Rightarrow> m | Some c \<Rightarrow> addAvailableMachine (Token c) (coordinator_of (Token c) m))"

definition Release :: "'w docker_machine \<Rightarrow> RunnerConfig option \<Rightarrow> nat option \<Rightarrow> machineProvider \<times> 'w \<Rightarrow> machineProvider \<times> 'w" where
  "Release D config data st =
     (case data of
        None \<Rightarrow> st
      | Some q \<Rightarrow>
          (let (m, w) = st;
               (m, w) = (if State (heap m ! q) = machineStateUsed
                         then (case mc_Now D w of (w, now) \<Rightarrow> (set_details q (\<lambda>d. d\<lparr>Used := now\<rparr>) m, w)) else (m, w));
               (st, removed) =
                 (case config of
                    Some c \<Rightarrow>
                      if MaxBuilds (Machine c) > 0 \<and> UsedCount (heap m ! q) \<ge> MaxBuilds (Machine c)
                      then (case provider_remove D (Name (heap m ! q)) ''Too many builds'' (m, w) of (st, err) \<Rightarrow> (st, err = None))
                      else ((m, w), False)
                  | None \<Rightarrow> ((m, w), False))
           in if removed then st
              else (signalRelease config (set_details q (\<lambda>d. d\<lparr>State := machineStateIdle\<rparr>) (fst st)), snd st)))"

text \<open>What a goroutine that waits for a machine is woken up by, and what the others do before that.\<close>

datatype wait_case = CreationResult "string option" | Wakeup
type_synonym 'w wait_event = "(machineProvider \<times> 'w \<Rightarrow> machineProvider \<times> 'w) \<times> wait_case"

definition tryGetFreeExistingMachineFromCoordinator ::
    "'w docker_machine \<Rightarrow> RunnerConfig \<Rightarrow> machineProvider \<times> 'w \<Rightarrow> (machineProvider \<times> 'w) \<times> (machine_error + nat option)" where
  "tryGetFreeExistingMachineFromCoordinator D c st =
     (case getAvailableMachine (Token c) (fst st) of
        (m, True) \<Rightarrow> findFreeExistingMachine D c (m, snd st)
      | (m, False) \<Rightarrow> ((m, snd st), Inr None))"

text \<open>The loop of \<open>createAndAcquireMachine\<close>; \<open>None\<close> is a goroutine that still waits when the events are over.\<close>

fun await_machine ::
    "'w docker_machine \<Rightarrow> RunnerConfig \<Rightarrow> nat \<Rightarrow> 'w wait_event list \<Rightarrow> machineProvider \<times> 'w
      \<Rightarrow> ((machineProvider \<times> 'w) \<times> 'w wait_event list \<times> (machine_error + nat)) option" where
  "await_machine D c newDetails [] st = None"
| "await_machine D c newDetails ((others, CreationResult (Some err)) # events) st = Some (others st, events, Inl (MachineError err))"
| "await_machine D c newDetails ((others, CreationResult None) # events) st =
     (case tryAcquireMachineDetails newDetails (fst (others st)) of
        (m, Some q) \<Rightarrow> Some ((m, snd (others st)), events, Inr q)
      | (m, None) \<Rightarrow> await_machine D c newDetails events (m, snd (others st)))"
| "await_machine D c newDetails ((others, Wakeup) # events) st =
     (case tryGetFreeExistingMachineFromCoordinator D c (others st) of
        (st, Inl err) \<Rightarrow> Some (st, events, Inl err)
      | (st, Inr (Some q)) \<Rightarrow> Some (st, events, Inr q)
      | (st, Inr None) \<Rightarrow> await_machine D c newDetails events st)"

definition createAndAcquireMachine ::
    "'w docker_machine \<Rightarrow> RunnerConfig \<Rightarrow> 'w wait_event list \<Rightarrow> machineProvider \<times> 'w
      \<Rightarrow> ((machineProvider \<times> 'w) \<times> 'w wait_event list \<times> (machine_error + nat)) option" where
  "createAndAcquireMachine D c events st =
     (case provider_create D c machineStateIdle (coordinator_of (Token c) (fst st), snd st) of
        (st, None) \<Rightarrow> Some (st, events, Inl NilPanic)
      | (st, Some newDetails) \<Rightarrow> await_machine D c newDetails events st)"

definition useMachine ::
    "'w docker_machine \<Rightarrow> RunnerConfig \<Rightarrow> 'w wait_event list \<Rightarrow> machineProvider \<times> 'w
      \<Rightarrow> ((machineProvider \<times> 'w) \<times> 'w wait_event list \<times> (machine_error + nat)) option" where
  "useMachine D c events st =
     (case findFreeExistingMachine D c st of
        (st, Inl err) \<Rightarrow> Some (st, events, Inl err)
      | (st, Inr (Some q)) \<Rightarrow> Some (st, events, Inr q)
      | (st, Inr None) \<Rightarrow> createAndAcquireMachine D c events st)"

text \<open>The first attempt and the two after an error; a panic is not retried.\<close>

fun retry_use ::
    "nat \<Rightarrow> 'w docker_machine \<Rightarrow> RunnerConfig \<Rightarrow> 'w wait_event list \<Rightarrow> machineProvider \<times> 'w
      \<Rightarrow> ((machineProvider \<times> 'w) \<times> (machine_error + nat)) option" where
  "retry_use n D c events st =
     (case useMachine D c events st of
        None \<Rightarrow> None
      | Some (st, events, Inr q) \<Rightarrow> Some (st, Inr q)
      | Some (st, events, Inl err) \<Rightarrow>
          (case n of
             0 \<Rightarrow> Some (st, Inl err)
           | Suc k \<Rightarrow> if err = NilPanic then Some (st, Inl err) else retry_use k D c events st))"

definition retryUseMachine ::
    "'w docker_machine \<Rightarrow> RunnerConfig \<Rightarrow> 'w wait_event list \<Rightarrow> machineProvider \<times> 'w
      \<Rightarrow> ((machineProvider \<times> 'w) \<times> (machine_error + nat)) option" where
  "retryUseMachine = retry_use 2"

definition mark_used :: "'w docker_machine \<Rightarrow> nat \<Rightarrow> machineProvider \<times> 'w \<Rightarrow> machineProvider \<times> 'w" where
  "mark_used D q st =
     (case st of (m, w) \<Rightarrow>
        (case mc_Now D w of (w, now) \<Rightarrow>
           (set_details q (\<lambda>d. d\<lparr>State := machineStateUsed, Used := now, UsedCount := UsedCount d + 1\<rparr>) m, w)))"

text \<open>The result is the machine and whether it is a new one.\<close>

definition Use ::
    "'w docker_machine \<Rightarrow> RunnerConfig \<Rightarrow> nat option \<Rightarrow> 'w wait_event list \<Rightarrow> machineProvider \<times> 'w
      \<Rightarrow> ((machineProvider \<times> 'w) \<times> (machine_error + nat \<times> bool)) option" where
  "Use D c data events st =
     (let (st, usable) =
        (case data of
           None \<Rightarrow> (st, False)
         | Some q \<Rightarrow>
             if \<not> canBeUsed (heap (fst st) ! q) then (st, False)
             else case mc_CanConnect D (snd st) (Name (heap (fst st) ! q)) True of (w, b) \<Rightarrow> ((fst st, w), b))
      in case (if usable then Some (st, Inr (the data)) else retryUseMachine D c events st) of
           None \<Rightarrow> None
         | Some (st, Inl err) \<Rightarrow> Some (st, Inl err)
         | Some ((m, w), Inr q) \<Rightarrow>
             (case mc_Credentials D w (Name (heap m ! q)) of
                (w, Some err) \<Rightarrow>
                  Some (if usable then (m, w) else Release D (Some c) (Some q) (m, w), Inl (MachineError err))
              | (w, None) \<Rightarrow> Some (mark_used D q (m, w), Inr (q, \<not> usable))))"


declare retry_use.simps [simp del]

end
