(* ===== verification/MachinePool.thy ===== *)
theory MachinePool
  imports MachineProvider
begin

text \<open>
  The machine provider under concurrency: a step relation whose steps are the critical sections of the functions of
  \<open>MachineProvider\<close>, the invariants of its runs, the lemmas that every function is a run, and what follows for a caller:
  a machine has one user at a time and the limits hold.
\<close>

section \<open>Interleavings\<close>

text \<open>The state with the machines that are leased to a build, or to a goroutine that has just acquired one. A step is a
  critical section of some goroutine, or what it does to a machine it has leased; steps may come in any order, so every
  interleaving of the functions above is a run. Any machine may be asked to be removed at any time, because
  \<open>updateMachines\<close> looks at a machine before it takes the lock. \<open>cfg\<close> gives the configuration of a runner.\<close>

type_synonym 'w pool = "(machineProvider \<times> 'w) \<times> nat list"

datatype pool_step =
    Ensure string | Lease nat | BeginCreation string nat | EnterGrowth nat | FinishCreation nat | LeaveGrowth nat
  | Remove string | RemovalRound nat | Touch nat | MarkUsed nat | ReturnIdle nat | GiveUp nat | Signal string | Coordinator string | TakeAvailable string
  | World

text \<open>Changes of the times of a machine.\<close>

definition same_machine :: "machineDetails \<Rightarrow> machineDetails \<Rightarrow> bool" where
  "same_machine d d' \<longleftrightarrow> State d' = State d \<and> Name d' = Name d"

inductive pool_steps :: "'w docker_machine \<Rightarrow> (string \<Rightarrow> RunnerConfig) \<Rightarrow> 'w pool \<Rightarrow> pool_step \<Rightarrow> 'w pool \<Rightarrow> bool"
  for D cfg where
  step_Ensure: "ensureDetails D n st = (st', q) \<Longrightarrow> pool_steps D cfg (st, ls) (Ensure n) (st', ls)"
| step_Lease: "q < length (heap m) \<Longrightarrow> tryAcquireMachineDetails q m = (m', Some q) \<Longrightarrow> pool_steps D cfg ((m, w), ls) (Lease q) ((m', w), q # ls)"
| step_BeginCreation: "q \<in> set ls \<Longrightarrow> Token (cfg t) = t \<Longrightarrow> begin_creation D (cfg t) machineStateIdle q st = st' \<Longrightarrow>
    pool_steps D cfg (st, ls) (BeginCreation t q) (st', remove1 q ls)"
| step_EnterGrowth: "i < length (creations m) \<Longrightarrow> cr_phase (creations m ! i) = WaitingForCapacity \<Longrightarrow> growth_capacity m (creations m ! i) \<Longrightarrow>
    pool_steps D cfg ((m, w), ls) (EnterGrowth i) ((enter_growth i m, w), ls)"
| step_FinishCreation: "i < length (creations m) \<Longrightarrow> cr_phase (creations m ! i) = CreatingMachine \<Longrightarrow>
    createWithGrowthCapacity D i (m, w) = (st', err) \<Longrightarrow> pool_steps D cfg ((m, w), ls) (FinishCreation i) (st', ls)"
| step_LeaveGrowth: "i < length (creations m) \<Longrightarrow> cr_phase (creations m ! i) = LeavingCapacity \<Longrightarrow>
    pool_steps D cfg ((m, w), ls) (LeaveGrowth i) ((leave_growth i m, w), ls)"
| step_Remove: "provider_remove D n reason st = (st', r) \<Longrightarrow> pool_steps D cfg (st, ls) (Remove n) (st', ls)"
| step_RemovalRound: "q \<in> set (removals (fst st)) \<Longrightarrow> finalizeRemoval_round D q st = st' \<Longrightarrow> pool_steps D cfg (st, ls) (RemovalRound q) (st', ls)"
| step_Touch: "q < length (heap m) \<Longrightarrow> same_machine (heap m ! q) d \<Longrightarrow>
    pool_steps D cfg ((m, w), ls) (Touch q) ((set_details q (\<lambda>_. d) m, w), ls)"
| step_MarkUsed: "q \<in> set ls \<Longrightarrow> mark_used D q st = st' \<Longrightarrow> pool_steps D cfg (st, ls) (MarkUsed q) (st', ls)"
| step_ReturnIdle: "q \<in> set ls \<Longrightarrow> pool_steps D cfg ((m, w), ls) (ReturnIdle q)
    ((set_details q (\<lambda>d. d\<lparr>State := machineStateIdle\<rparr>) m, w), remove1 q ls)"
| step_GiveUp: "pool_steps D cfg (st, ls) (GiveUp q) (st, remove1 q ls)"
| step_Signal: "pool_steps D cfg ((m, w), ls) (Signal t) ((addAvailableMachine t (coordinator_of t m), w), ls)"
| step_Coordinator: "pool_steps D cfg ((m, w), ls) (Coordinator t) ((coordinator_of t m, w), ls)"
| step_TakeAvailable: "getAvailableMachine t m = (m', b) \<Longrightarrow> pool_steps D cfg ((m, w), ls) (TakeAvailable t) ((m', w), ls)"
| step_World: "pool_steps D cfg ((m, w), ls) World ((m, w'), ls)"

inductive_cases pool_stepsE: "pool_steps D cfg s e s'"

definition pool_start :: "'w pool \<Rightarrow> bool" where
  "pool_start s \<longleftrightarrow> fst (fst s) = newMachineProvider \<and> snd s = []"

abbreviation pool_reachable :: "'w docker_machine \<Rightarrow> (string \<Rightarrow> RunnerConfig) \<Rightarrow> 'w pool \<Rightarrow> bool" where
  "pool_reachable D cfg \<equiv> reachable pool_start (pool_steps D cfg)"

section \<open>Invariant\<close>

definition unfinished :: "machineProvider \<Rightarrow> nat list" where
  "unfinished m = map cr_details (filter (\<lambda>cr. cr_phase cr \<noteq> LeavingCapacity) (creations m))"

text \<open>A machine that is leased or being created belongs to nobody else and is not idle; the map refers to machines by
  their names.\<close>

definition pool_inv :: "'w pool \<Rightarrow> bool" where
  "pool_inv s \<longleftrightarrow>
     (let m = fst (fst s); owned = snd s @ unfinished m in
      distinct owned \<and> list_all (\<lambda>q. q < length (heap m) \<and> State (heap m ! q) \<noteq> machineStateIdle) owned \<and>
      list_all (\<lambda>(n, q). q < length (heap m) \<and> Name (heap m ! q) = n) (details m) \<and> wf_map (details m))"

text \<open>The capacity of a runner is taken by the creations that have entered it.\<close>

definition entered :: "string \<Rightarrow> creation list \<Rightarrow> nat" where
  "entered t C = length (filter (\<lambda>cr. cr_token cr = t \<and> cr_phase cr \<noteq> WaitingForCapacity) C)"

definition growth_inv ::
    "(string \<Rightarrow> RunnerConfig) \<Rightarrow> (string, runnerMachinesCoordinator) gomap \<Rightarrow> creation list \<Rightarrow> bool" where
  "growth_inv cfg R C \<longleftrightarrow>
     list_all (\<lambda>cr. cr_maxGrowth cr = MaxGrowthRate (Machine (cfg (cr_token cr))) \<and> map_of R (cr_token cr) \<noteq> None) C \<and>
     (\<forall>t r. map_of R t = Some r \<longrightarrow> growing r = int (entered t C) \<and>
        (MaxGrowthRate (Machine (cfg t)) \<le> 0 \<or> int (entered t C) \<le> MaxGrowthRate (Machine (cfg t))))"

abbreviation pool_growth :: "(string \<Rightarrow> RunnerConfig) \<Rightarrow> 'w pool \<Rightarrow> bool" where
  "pool_growth cfg s \<equiv> growth_inv cfg (runners (fst (fst s))) (creations (fst (fst s)))"

lemma set_details_simps [simp]:
  "heap (set_details q f m) = (heap m)[q := f (heap m ! q)]" "details (set_details q f m) = details m"
  "runners (set_details q f m) = runners m" "creations (set_details q f m) = creations m" "removals (set_details q f m) = removals m"
  by (simp_all add: set_details_def)

lemma coordinator_simps [simp]:
  "heap (set_coordinator t g m) = heap m" "details (set_coordinator t g m) = details m" "creations (set_coordinator t g m) = creations m"
  "heap (coordinator_of t m) = heap m" "details (coordinator_of t m) = details m" "creations (coordinator_of t m) = creations m"
  "heap (addAvailableMachine t m) = heap m" "details (addAvailableMachine t m) = details m" "creations (addAvailableMachine t m) = creations m"
  "removals (coordinator_of t m) = removals m" "removals (addAvailableMachine t m) = removals m"
  by (simp_all add: set_coordinator_def coordinator_of_def addAvailableMachine_def split: option.split)

lemma set_phase_simps [simp]:
  "heap (set_phase i p m) = heap m" "details (set_phase i p m) = details m" "runners (set_phase i p m) = runners m"
  by (simp_all add: set_phase_def)

lemma getAvailableMachine_keeps:
  "getAvailableMachine t m = (m', b) \<Longrightarrow> heap m' = heap m \<and> details m' = details m \<and> creations m' = creations m"
  by (auto simp: getAvailableMachine_def split: option.splits if_splits)

text \<open>The invariant over its parts.\<close>

definition owned_inv :: "machineDetails list \<Rightarrow> (string, nat) gomap \<Rightarrow> nat list \<Rightarrow> bool" where
  "owned_inv H M owned \<longleftrightarrow>
     distinct owned \<and> list_all (\<lambda>q. q < length H \<and> State (H ! q) \<noteq> machineStateIdle) owned \<and>
     list_all (\<lambda>(n, q). q < length H \<and> Name (H ! q) = n) M \<and> wf_map M"

lemma pool_inv_owned: "pool_inv ((m, w), ls) \<longleftrightarrow> owned_inv (heap m) (details m) (ls @ unfinished m)"
  by (simp add: pool_inv_def owned_inv_def Let_def)

lemma owned_update:
  assumes "owned_inv H M X" "Name d = Name (H ! q)" "State d = machineStateIdle \<Longrightarrow> q \<notin> set X"
  shows "owned_inv (H[q := d]) M X"
proof -
  have u: "H[q := d] ! p = (if p = q \<and> q < length H then d else H ! p)" for p
    by (cases "q < length H") (auto simp: nth_list_update list_update_beyond)
  have "State (H[q := d] ! p) = (if p = q \<and> q < length H then State d else State (H ! p))"
    "Name (H[q := d] ! p) = Name (H ! p)" for p
    using assms(2) by (auto simp: u)
  then show ?thesis using assms(1,3) by (auto simp: owned_inv_def list_all_iff)
qed

lemma owned_more: "owned_inv H M X \<Longrightarrow> q < length H \<Longrightarrow> State (H ! q) \<noteq> machineStateIdle \<Longrightarrow> q \<notin> set X \<Longrightarrow> owned_inv H M (q # X)"
  by (simp add: owned_inv_def)

lemma owned_less: "owned_inv H M X \<Longrightarrow> distinct Y \<Longrightarrow> set Y \<subseteq> set X \<Longrightarrow> owned_inv H M Y"
  by (auto simp: owned_inv_def list_all_iff)

lemma owned_idle: "owned_inv H M X \<Longrightarrow> State (H ! q) = machineStateIdle \<Longrightarrow> q \<notin> set X"
  by (auto simp: owned_inv_def list_all_iff)

lemma owned_delete: "owned_inv H M X \<Longrightarrow> owned_inv H (AList.delete n M) X"
  using gm.invar_del [of M n] by (auto simp: owned_inv_def list_all_iff AList.delete_eq)

lemma ensureDetails_owned:
  assumes inv: "owned_inv (heap m) (details m) X" and e: "ensureDetails D n (m, w) = ((m', w'), q)"
  shows "owned_inv (heap m') (details m') X \<and> q < length (heap m') \<and> Name (heap m' ! q) = n \<and>
    creations m' = creations m \<and> runners m' = runners m \<and> removals m' = removals m"
proof (cases "map_of (details m) n")
  case None
  have new: "fst p \<noteq> n" if "p \<in> set (details m)" for p using None that by (auto simp: map_of_eq_None_iff)
  obtain w1 now where now: "mc_Now D w = (w1, now)" by fastforce
  define d where "d = \<lparr>Name = n, Created = now, Used = now, UsedCount = 1, State = machineStateIdle, Reason = [], RetryCount = 0, LastSeen = now\<rparr>"
  have m': "m' = m\<lparr>heap := heap m @ [d], details := AList.update n (length (heap m)) (details m)\<rparr>" and q: "q = length (heap m)"
    using e None by (auto simp: ensureDetails_def now d_def)
  then have d: "heap m' = heap m @ [d]" "details m' = AList.update n (length (heap m)) (details m)" "Name d = n"
      "q = length (heap m)" "creations m' = creations m" "runners m' = runners m" "removals m' = removals m"
    by (simp_all add: d_def)
  have "p < length (heap m) \<Longrightarrow> heap m' ! p = heap m ! p" for p by (simp add: d(1) nth_append)
  moreover have wf: "wf_map (details m)" using inv by (simp add: owned_inv_def)
  moreover have "{p \<in> set (details m). fst p \<noteq> n} = set (details m)" using new by auto
  then have "set (details m') = insert (n, length (heap m)) (set (details m))" using set_update [OF wf] d(2) by simp
  moreover have "wf_map (details m')" using gm.invar_set [OF wf] d(2) by simp
  ultimately show ?thesis using inv d by (auto simp: owned_inv_def list_all_iff)
next
  case (Some p)
  then show ?thesis using assms map_of_SomeD [OF Some] by (auto simp: ensureDetails_def owned_inv_def list_all_iff)
qed

lemma provider_remove_owned:
  assumes "owned_inv (heap m) (details m) X" "provider_remove D n reason (m, w) = ((m', w'), r)"
  shows "owned_inv (heap m') (details m') X \<and> creations m' = creations m \<and> runners m' = runners m"
  using assms owned_update by (fastforce simp: provider_remove_def split: option.splits prod.splits)

lemma finalizeRemoval_owned:
  assumes "owned_inv (heap m) (details m) X" "finalizeRemoval_round D q (m, w) = (m', w')"
  shows "owned_inv (heap m') (details m') X \<and> creations m' = creations m \<and> runners m' = runners m"
proof -
  obtain m1 w1 err where r: "removeMachine D q (m, w) = ((m1, w1), err)" by (metis surj_pair)
  have "owned_inv (heap m1) (details m1) X \<and> creations m1 = creations m \<and> runners m1 = runners m"
    using assms(1) r owned_idle [OF assms(1), of q]
    by (auto simp: removeMachine_def intro!: owned_update split: prod.splits bool.splits option.splits)
  then show ?thesis using assms(2) r by (auto simp: finalizeRemoval_round_def owned_delete split: option.splits)
qed

lemma unfinished_phase:
  assumes "i < length (creations m)" "cr_phase (creations m ! i) \<noteq> LeavingCapacity"
  shows "unfinished (set_phase i CreatingMachine m) = unfinished m"
    "set (unfinished (set_phase i LeavingCapacity m)) \<subseteq> set (unfinished m)"
    "distinct (unfinished m) \<Longrightarrow> distinct (unfinished (set_phase i LeavingCapacity m)) \<and>
      cr_details (creations m ! i) \<notin> set (unfinished (set_phase i LeavingCapacity m))"
    "cr_details (creations m ! i) \<in> set (unfinished m)"
proof -
  let ?c = "creations m ! i"
  have c: "creations m = take i (creations m) @ ?c # drop (Suc i) (creations m)" using assms(1) by (rule id_take_nth_drop)
  have u: "creations (set_phase i p m) = take i (creations m) @ ?c\<lparr>cr_phase := p\<rparr> # drop (Suc i) (creations m)" for p
    using assms(1) by (simp add: set_phase_def upd_conv_take_nth_drop)
  define l r where "l = map cr_details (filter (\<lambda>cr. cr_phase cr \<noteq> LeavingCapacity) (take i (creations m)))"
    and "r = map cr_details (filter (\<lambda>cr. cr_phase cr \<noteq> LeavingCapacity) (drop (Suc i) (creations m)))"
  have "unfinished m = l @ cr_details ?c # r" unfolding unfinished_def by (subst c) (simp add: l_def r_def assms(2))
  moreover have "unfinished (set_phase i p m) = l @ (if p = LeavingCapacity then [] else [cr_details ?c]) @ r" for p
    by (simp add: unfinished_def u l_def r_def)
  ultimately show "unfinished (set_phase i CreatingMachine m) = unfinished m"
    "set (unfinished (set_phase i LeavingCapacity m)) \<subseteq> set (unfinished m)"
    "distinct (unfinished m) \<Longrightarrow> distinct (unfinished (set_phase i LeavingCapacity m)) \<and>
      cr_details (creations m ! i) \<notin> set (unfinished (set_phase i LeavingCapacity m))"
    "cr_details (creations m ! i) \<in> set (unfinished m)" by auto
qed

lemma unfinished_cong: "creations m' = creations m \<Longrightarrow> unfinished m' = unfinished m"
  by (simp add: unfinished_def)

lemma unfinished_simps [simp]:
  "unfinished (set_details q f m) = unfinished m" "unfinished (set_coordinator t g m) = unfinished m"
  "unfinished (coordinator_of t m) = unfinished m" "unfinished (addAvailableMachine t m) = unfinished m"
  by (simp_all add: unfinished_def)

lemma unfinished_leave:
  assumes "i < length (creations m)" "cr_phase (creations m ! i) = LeavingCapacity"
  shows "unfinished (leave_growth i m) = unfinished m"
proof -
  have c: "creations m = take i (creations m) @ creations m ! i # drop (Suc i) (creations m)" using assms(1) by (rule id_take_nth_drop)
  have "filter (\<lambda>cr. cr_phase cr \<noteq> LeavingCapacity) (creations m) =
      filter (\<lambda>cr. cr_phase cr \<noteq> LeavingCapacity) (take i (creations m) @ drop (Suc i) (creations m))"
    by (subst c) (simp add: assms(2))
  then show ?thesis by (simp add: unfinished_def leave_growth_def)
qed

lemma begin_creation_owned:
  assumes "owned_inv (heap m) (details m) (ls @ unfinished m)" "q \<in> set ls" "begin_creation D c st q (m, w) = (m', w')"
  shows "owned_inv (heap m') (details m') (remove1 q ls @ unfinished m')"
proof -
  obtain now where n: "mc_Now D w = (w', now)" using assms(3) by (auto simp: begin_creation_def Let_def split: prod.splits)
  have u: "unfinished m' = unfinished m @ [q]" using assms(3) n by (auto simp: begin_creation_def Let_def unfinished_def)
  have "owned_inv (heap m') (details m') (ls @ unfinished m)"
    using assms(1,3) n by (auto simp: begin_creation_def Let_def intro!: owned_update)
  moreover have "distinct (remove1 q ls @ unfinished m @ [q])" using assms(1,2) by (auto simp: owned_inv_def)
  ultimately show ?thesis unfolding u by (rule owned_less) (use assms(2) set_remove1_subset in fastforce)
qed

lemma finish_creation_owned:
  assumes "owned_inv (heap m) (details m) (ls @ unfinished m)" "i < length (creations m)" "cr_phase (creations m ! i) = CreatingMachine"
    and "createWithGrowthCapacity D i (m, w) = ((m', w'), err)"
  shows "owned_inv (heap m') (details m') (ls @ unfinished m')"
proof -
  let ?q = "cr_details (creations m ! i)"
  note u = unfinished_phase [OF assms(2)]
  have u': "distinct (ls @ unfinished (set_phase i LeavingCapacity m))" "set (ls @ unfinished (set_phase i LeavingCapacity m)) \<subseteq> set (ls @ unfinished m)"
    "?q \<notin> set (ls @ unfinished (set_phase i LeavingCapacity m))"
    using u(2-4) assms(1,3) by (auto simp: owned_inv_def)
  then have less: "owned_inv (heap m) (details m) (ls @ unfinished (set_phase i LeavingCapacity m))" using assms(1) by (blast intro: owned_less)
  obtain w1 e where c: "mc_Create D w (Name (heap m ! ?q)) = (w1, e)" by fastforce
  show ?thesis
  proof (cases e)
    case None
    obtain w2 now where n: "mc_Now D w1 = (w2, now)" by fastforce
    have m': "heap m' = (heap m)[?q := (heap m ! ?q)\<lparr>State := cr_state (creations m ! i), Used := now\<rparr>]" "details m' = details m"
      "unfinished m' = unfinished (set_phase i LeavingCapacity m)"
      using assms(4) None c n by (auto simp: createWithGrowthCapacity_def Let_def unfinished_def set_phase_def)
    show ?thesis unfolding m' by (rule owned_update [OF less]) (use u'(3) in auto)
  next
    case (Some x)
    obtain m1 w2 r where rm: "provider_remove D (Name (heap m ! ?q)) ''Failed to create'' (m, w1) = ((m1, w2), r)" by (metis surj_pair)
    have "heap m' = heap m1" "details m' = details m1" "unfinished m' = unfinished (set_phase i LeavingCapacity m)"
      using assms(4) Some c rm provider_remove_owned [OF less rm]
      by (auto simp: createWithGrowthCapacity_def Let_def unfinished_def set_phase_def)
    then show ?thesis using provider_remove_owned [OF less rm] by simp
  qed
qed

lemma tryAcquire_owned:
  assumes "owned_inv (heap m) (details m) X" "q < length (heap m)" "tryAcquireMachineDetails q m = (m', Some p)"
  shows "p = q \<and> owned_inv (heap m') (details m') (q # X) \<and> creations m' = creations m \<and> runners m' = runners m"
proof -
  have idle: "State (heap m ! q) = machineStateIdle" and m': "p = q" "m' = set_details q (\<lambda>d. d\<lparr>State := machineStateAcquired\<rparr>) m"
    using assms(3) by (auto simp: tryAcquireMachineDetails_def isUsed_def split: if_splits)
  have "owned_inv (heap m') (details m') X" using assms(1) by (auto simp: m' intro!: owned_update)
  then show ?thesis using owned_idle [OF assms(1) idle] assms(2) by (simp add: m' owned_more)
qed

lemma pool_inv_step:
  assumes "pool_inv s" "pool_steps D cfg s e s'"
  shows "pool_inv s'"
  using assms(2)
proof cases
  case (step_Ensure n st st' q ls)
  then show ?thesis using assms(1) ensureDetails_owned [of "fst st" "ls @ unfinished (fst st)" D n "snd st" "fst st'" "snd st'" q]
      unfinished_cong [of "fst st'" "fst st"]
    by (cases st; cases st') (auto simp: pool_inv_owned)
next
  case (step_Lease q m m' w ls)
  then show ?thesis using assms(1) tryAcquire_owned [of m "ls @ unfinished m" q m' q] unfinished_cong [of m' m]
    by (auto simp: pool_inv_owned)
next
  case (step_BeginCreation q ls t st st')
  then show ?thesis using assms(1) begin_creation_owned [of "fst st" ls q D "cfg t" machineStateIdle "snd st" "fst st'" "snd st'"]
    by (cases st; cases st') (auto simp: pool_inv_owned)
next
  case (step_EnterGrowth i m w ls)
  then show ?thesis using assms(1) unfinished_phase(1) [of i "set_coordinator (cr_token (creations m ! i)) (\<lambda>r. r\<lparr>growing := growing r + 1\<rparr>) m"]
    by (auto simp: pool_inv_owned enter_growth_def)
next
  case (step_FinishCreation i m w st' err ls)
  then show ?thesis using assms(1) finish_creation_owned [of m ls i D w "fst st'" "snd st'" err] by (cases st') (auto simp: pool_inv_owned)
next
  case (step_LeaveGrowth i m w ls)
  then show ?thesis using assms(1) unfinished_leave [of i m] by (auto simp: pool_inv_owned leave_growth_def)
next
  case (step_Remove n reason st st' r ls)
  then show ?thesis using assms(1) provider_remove_owned [of "fst st" "ls @ unfinished (fst st)" D n reason "snd st" "fst st'" "snd st'" r]
      unfinished_cong [of "fst st'" "fst st"]
    by (cases st; cases st') (auto simp: pool_inv_owned)
next
  case (step_RemovalRound q st st' ls)
  then show ?thesis using assms(1) finalizeRemoval_owned [of "fst st" "ls @ unfinished (fst st)" D q "snd st" "fst st'" "snd st'"]
      unfinished_cong [of "fst st'" "fst st"]
    by (cases st; cases st') (auto simp: pool_inv_owned)
next
  case (step_Touch q m d w ls)
  then show ?thesis using assms(1) owned_idle [of "heap m" "details m" "ls @ unfinished m" q]
    by (auto simp: pool_inv_owned same_machine_def intro!: owned_update)
next
  case (step_MarkUsed q ls st st')
  then show ?thesis using assms(1)
    by (cases st; cases st') (auto simp: pool_inv_owned mark_used_def intro!: owned_update split: prod.splits)
next
  case (step_ReturnIdle q ls m w)
  have inv: "owned_inv (heap m) (details m) (ls @ unfinished m)" using assms(1) step_ReturnIdle by (simp add: pool_inv_owned)
  then have "distinct (remove1 q ls @ unfinished m)" "q \<notin> set (remove1 q ls @ unfinished m)"
    using step_ReturnIdle set_remove1_subset [of q ls] by (auto simp: owned_inv_def)
  moreover from this inv have "owned_inv (heap m) (details m) (remove1 q ls @ unfinished m)"
    by (intro owned_less [OF inv]) (use set_remove1_subset [of q ls] in auto)
  ultimately show ?thesis using step_ReturnIdle by (auto simp: pool_inv_owned intro!: owned_update)
next
  case (step_GiveUp st ls q)
  have "distinct (remove1 q ls @ unfinished (fst st))" if "distinct (ls @ unfinished (fst st))"
    using that set_remove1_subset [of q ls] by auto
  then show ?thesis
    using assms(1) step_GiveUp owned_less [of _ _ "ls @ unfinished (fst st)" "remove1 q ls @ unfinished (fst st)"] set_remove1_subset [of q ls]
    by (cases st) (fastforce simp: pool_inv_owned owned_inv_def)
next
  case (step_Signal m w ls t)
  then show ?thesis using assms(1) by (auto simp: pool_inv_owned)
next
  case (step_Coordinator m w ls t)
  then show ?thesis using assms(1) by (auto simp: pool_inv_owned)
next
  case (step_TakeAvailable t m m' b w ls)
  then show ?thesis using assms(1) getAvailableMachine_keeps [of t m m' b] unfinished_cong [of m' m] by (auto simp: pool_inv_owned)
next
  case (step_World m w ls w')
  then show ?thesis using assms(1) by (simp add: pool_inv_owned)
qed

interpretation pli: invariant_of pool_start "pool_steps D cfg" pool_inv for D :: "'w docker_machine" and cfg
proof unfold_locales
  show "pool_start s \<Longrightarrow> pool_inv s" for s :: "'w pool"
    by (auto simp: pool_start_def pool_inv_def newMachineProvider_def unfinished_def Let_def)
  show "pool_inv s \<Longrightarrow> pool_steps D cfg s e s' \<Longrightarrow> pool_inv s'" for s s' :: "'w pool" and e by (rule pool_inv_step)
qed


section \<open>The functions are runs\<close>

abbreviation runs :: "'w docker_machine \<Rightarrow> (string \<Rightarrow> RunnerConfig) \<Rightarrow> 'w pool \<Rightarrow> 'w pool \<Rightarrow> bool" where
  "runs D cfg \<equiv> (\<lambda>s s'. \<exists>e. pool_steps D cfg s e s')\<^sup>*\<^sup>*"

lemma runs_inv: "runs D cfg s s' \<Longrightarrow> pool_inv s \<Longrightarrow> pool_inv s'"
  by (induction rule: rtranclp_induct) (auto intro: pool_inv_step)

lemma runs_reachable: "runs D cfg s s' \<Longrightarrow> pool_reachable D cfg s \<Longrightarrow> pool_reachable D cfg s'"
  by (induction rule: rtranclp_induct) (auto intro: reach_step)

lemma run1: "pool_steps D cfg s e s' \<Longrightarrow> runs D cfg s s'"
  by (rule r_into_rtranclp) blast

lemma run_more: "runs D cfg s s1 \<Longrightarrow> pool_steps D cfg s1 e s' \<Longrightarrow> runs D cfg s s'"
  by (erule rtranclp.rtrancl_into_rtrancl) blast

lemma runs_world: "runs D cfg ((m, w), ls) ((m, w'), ls)"
  by (rule run1) (rule step_World)

definition lease :: "nat option \<Rightarrow> nat list \<Rightarrow> nat list" where
  "lease r ls = (case r of None \<Rightarrow> ls | Some q \<Rightarrow> q # ls)"

lemma lease_simps [simp]: "lease None ls = ls" "lease (Some q) ls = q # ls"
  by (simp_all add: lease_def)

lemma acquire_runs:
  assumes "pool_inv (st, ls)" "machineDetails_acquire D n st = (st', r)"
  shows "runs D cfg (st, ls) (st', lease r ls)"
proof -
  obtain m w where st: "st = (m, w)" by fastforce
  obtain m1 w1 q where e: "ensureDetails D n (m, w) = ((m1, w1), q)" by (metis surj_pair)
  then have run: "runs D cfg (st, ls) ((m1, w1), ls)" using st by (auto intro: run1 step_Ensure)
  have q: "q < length (heap m1)" using ensureDetails_owned [OF _ e, of "ls @ unfinished m"] assms(1) st by (auto simp: pool_inv_owned)
  obtain m2 where a: "tryAcquireMachineDetails q m1 = (m2, r)" "st' = (m2, w1)"
    using assms(2) e st by (auto simp: machineDetails_acquire_def split: prod.splits)
  show ?thesis
  proof (cases r)
    case None
    then show ?thesis using a run by (auto simp: tryAcquireMachineDetails_def split: if_splits)
  next
    case (Some p)
    then have "p = q" using a(1) by (auto simp: tryAcquireMachineDetails_def split: if_splits)
    then show ?thesis using run_more [OF run step_Lease [OF q]] a Some by simp
  qed
qed

lemma find_free_runs:
  "pool_inv (st, ls) \<Longrightarrow> find_free D skip ns st = (st', r) \<Longrightarrow> runs D cfg (st, ls) (st', lease r ls)"
proof (induction D skip ns st arbitrary: st' r rule: find_free.induct)
  case (2 D skipCache name rest st)
  obtain m w a where a: "machineDetails_acquire D name st = ((m, w), a)" by (metis surj_pair)
  note run = acquire_runs [OF "2.prems"(1) a, of cfg]
  note inv = runs_inv [OF run "2.prems"(1)]
  show ?case
  proof (cases a)
    case None
    then have "runs D cfg ((m, w), ls) (st', lease r ls)" using "2.IH"(1) [OF a [symmetric] refl] inv "2.prems"(2) a by simp
    then show ?thesis using run None by simp
  next
    case (Some q)
    obtain w1 b where c: "mc_CanConnect D w name skipCache = (w1, b)" by fastforce
    have run1: "runs D cfg (st, ls) ((m, w1), q # ls)" using rtranclp_trans [OF run runs_world] Some by simp
    show ?thesis
    proof (cases b)
      case True
      then show ?thesis using "2.prems"(2) a Some c run1 by auto
    next
      case False
      obtain st2 e where rm: "provider_remove D name ''machine is unavailable'' (m, w1) = (st2, e)" by fastforce
      have run2: "runs D cfg (st, ls) (st2, ls)"
        using run_more [OF run_more [OF run1 step_Remove [OF rm]] step_GiveUp [of D cfg st2 "q # ls" q]] by simp
      have "find_free D skipCache rest st2 = (st', r)" using "2.prems"(2) a Some c False rm by simp
      then have "runs D cfg (st2, ls) (st', lease r ls)"
        using "2.IH"(2) [OF a [symmetric] refl Some c [symmetric]] False rm runs_inv [OF run2 "2.prems"(1)] by simp
      then show ?thesis using run2 by (rule rtranclp_trans [rotated])
    qed
  qed
qed simp

lemma update_runs:
  "updateMachines D c ns data valid st = (st', r) \<Longrightarrow> pool_inv (st, ls) \<Longrightarrow> runs D cfg (st, ls) (st', ls)"
proof (induction ns arbitrary: data valid st)
  case (Cons name rest)
  obtain m w where st: "st = (m, w)" by fastforce
  obtain m1 w1 q where e: "ensureDetails D name (m, w) = ((m1, w1), q)" by (metis surj_pair)
  obtain w2 seen where n1: "mc_Now D w1 = (w2, seen)" by fastforce
  obtain w3 now where n2: "mc_Now D w2 = (w3, now)" by fastforce
  let ?m2 = "set_details q (\<lambda>d. d\<lparr>LastSeen := seen\<rparr>) m1"
  have q: "q < length (heap m1)" using ensureDetails_owned [OF _ e, of "ls @ unfinished m"] Cons.prems(2) st by (auto simp: pool_inv_owned)
  have "runs D cfg (st, ls) ((m1, w1), ls)" using st e by (auto intro: run1 step_Ensure)
  moreover have "pool_steps D cfg ((m1, w1), ls) (Touch q) ((?m2, w1), ls)"
    using step_Touch [OF q, of "(heap m1 ! q)\<lparr>LastSeen := seen\<rparr>" D cfg w1 ls] by (simp add: same_machine_def set_details_def)
  ultimately have touched: "runs D cfg (st, ls) ((?m2, w3), ls)" by (rule rtranclp_trans [OF run_more runs_world])
  let ?reason = "shouldRemoveIdle c now data (heap ?m2 ! q)"
  define next_st where "next_st = (if ?reason = dontRemoveIdleMachine then (?m2, w3)
      else fst (provider_remove D (Name (heap ?m2 ! q)) (reason_text ?reason) (?m2, w3)))"
  have run: "runs D cfg (st, ls) (next_st, ls)"
  proof (cases "?reason = dontRemoveIdleMachine")
    case False
    obtain st3 x where "provider_remove D (Name (heap ?m2 ! q)) (reason_text ?reason) (?m2, w3) = (st3, x)" by fastforce
    then show ?thesis using run_more [OF touched step_Remove] False by (simp add: next_st_def)
  qed (use touched in \<open>simp add: next_st_def\<close>)
  have "updateMachines D c rest (data_Add data (heap (fst next_st) ! q)) (if ?reason = dontRemoveIdleMachine then valid @ [name] else valid) next_st = (st', r)"
    using Cons.prems(1) by (simp add: st e n1 n2 Let_def next_st_def split: if_splits)
  from Cons.IH [OF this runs_inv [OF run Cons.prems(2)]] show ?case using run by (rule rtranclp_trans [rotated])
qed simp


lemma create_runs:
  assumes "pool_inv (st, ls)" "Token (cfg t) = t" "provider_create D (cfg t) machineStateIdle st = (st', r)"
  shows "runs D cfg (st, ls) (st', ls)"
proof -
  obtain m w where st: "st = (m, w)" by fastforce
  obtain w1 n where nm: "mc_newMachineName D (cfg t) w = (w1, n)" by fastforce
  obtain st2 a where a: "machineDetails_acquire D n (m, w1) = (st2, a)" by fastforce
  have w: "runs D cfg (st, ls) ((m, w1), ls)" unfolding st by (rule runs_world)
  have run: "runs D cfg (st, ls) (st2, lease a ls)" using rtranclp_trans [OF w acquire_runs [OF runs_inv [OF w assms(1)] a]] .
  show ?thesis
  proof (cases a)
    case None
    then show ?thesis using run assms(3) st nm a by (simp add: provider_create_def)
  next
    case (Some q)
    then show ?thesis
      using run_more [OF run step_BeginCreation [of q "lease a ls" cfg t D st2 st']] assms(2,3) st nm a by (simp add: provider_create_def)
  qed
qed

lemma createMachines_runs:
  "pool_inv (st, ls) \<Longrightarrow> Token (cfg t) = t \<Longrightarrow> createMachines D (cfg t) data st = (st', r) \<Longrightarrow> runs D cfg (st, ls) (st', ls)"
proof (induction D "cfg t" data st arbitrary: st' r rule: createMachines.induct)
  case (1 D data m w)
  obtain w1 now where n: "mc_Now D w = (w1, now)" by fastforce
  have w: "runs D cfg ((m, w), ls) ((m, w1), ls)" by (rule runs_world)
  note inv = runs_inv [OF w "1.prems"(1)]
  show ?case
  proof (cases "canCreateIdle (cfg t) now data")
    case False
    then show ?thesis using "1.prems"(3) n w by (auto simp: createMachines.simps [of D "cfg t"])
  next
    case True
    obtain st2 q where c: "provider_create D (cfg t) machineStateIdle (m, w1) = (st2, q)" by fastforce
    note run = rtranclp_trans [OF w create_runs [where cfg = cfg and t = t, OF inv "1.prems"(2) c]]
    show ?thesis
    proof (cases q)
      case None
      then show ?thesis using "1.prems"(3) n c True run by (simp add: createMachines.simps [of D "cfg t" data m w])
    next
      case (Some p)
      have "createMachines D (cfg t) (data\<lparr>d_Creating := d_Creating data + 1\<rparr>) st2 = (st', r)"
        using "1.prems"(3) n c True Some by (simp add: createMachines.simps [of D "cfg t" data m w])
      then have "runs D cfg (st2, ls) (st', ls)"
        using "1.hyps" [OF n [symmetric] _ c [symmetric] Some runs_inv [OF run "1.prems"(1)]] True "1.prems"(2) by simp
      then show ?thesis using run by (rule rtranclp_trans [rotated])
    qed
  qed
qed

lemma existing_runs:
  assumes "pool_inv (st, ls)" "findFreeExistingMachine D c st = (st', r)"
  shows "runs D cfg (st, ls) (st', lease (case r of Inl _ \<Rightarrow> None | Inr q \<Rightarrow> q) ls)"
proof -
  obtain m w where st: "st = (m, w)" by fastforce
  obtain w1 l where l: "loadMachines D c st = (w1, l)" by fastforce
  have w: "runs D cfg (st, ls) ((m, w1), ls)" unfolding st by (rule runs_world)
  show ?thesis
  proof (cases l)
    case (Inl e)
    then show ?thesis using assms(2) w l st by (auto simp: findFreeExistingMachine_def)
  next
    case (Inr ns)
    then obtain q where f: "find_free D True (rev ns) (m, w1) = (st', q)" "r = Inr q"
      using assms(2) l st by (auto simp: findFreeExistingMachine_def findFreeMachine_def split: prod.splits)
    show ?thesis using rtranclp_trans [OF w find_free_runs [OF runs_inv [OF w assms(1)] f(1)]] f(2) by simp
  qed
qed

lemma Acquire_runs:
  assumes "pool_inv (st, ls)" "Token (cfg t) = t" "Acquire D (cfg t) st = (st', Inr r)"
  shows "runs D cfg (st, ls) (st', lease r ls)"
proof -
  obtain m w where st: "st = (m, w)" by fastforce
  obtain w1 ns where l: "loadMachines D (cfg t) st = (w1, Inr ns)"
    using assms(3) st by (auto simp: Acquire_def split: if_splits prod.splits sum.splits)
  obtain st2 data valid where u: "updateMachines D (cfg t) ns no_machines [] (m, w1) = (st2, data, valid)" by (metis surj_pair)
  obtain st3 data' where c: "createMachines D (cfg t) data st2 = (st3, Some data')"
    using assms(3) st l u by (auto simp: Acquire_def split: if_splits prod.splits option.splits)
  obtain m4 w4 q where f: "find_free D False (rev valid) st3 = ((m4, w4), q)" by (metis surj_pair)
  have run1: "runs D cfg (st, ls) ((m, w1), ls)" unfolding st by (rule runs_world)
  note run2 = rtranclp_trans [OF run1 update_runs [OF u runs_inv [OF run1 assms(1)]]]
  note run3 = rtranclp_trans [OF run2 createMachines_runs [where cfg = cfg and t = t, OF runs_inv [OF run2 assms(1)] assms(2) c]]
  note run4 = rtranclp_trans [OF run3 find_free_runs [OF runs_inv [OF run3 assms(1)] f]]
  obtain w5 now where n: "mc_Now D w4 = (w5, now)" by fastforce
  show ?thesis
  proof (cases q)
    case None
    then have "st' = (m4, w5)" "r = None"
      using assms(3) st l u c f n by (auto simp: Acquire_def findFreeMachine_def split: if_splits)
    then show ?thesis using rtranclp_trans [OF run4 runs_world] None by simp
  next
    case (Some p)
    then show ?thesis using assms(3) st l u c f run4 by (auto simp: Acquire_def findFreeMachine_def split: if_splits)
  qed
qed

lemma signal_runs: "runs D cfg ((m, w), ls) ((signalRelease config m, w), ls)"
  by (cases config) (auto simp: signalRelease_def intro: run1 step_Signal)

lemma Release_runs:
  assumes "pool_inv (st, ls)" "q \<in> set ls"
  shows "runs D cfg (st, ls) (Release D config (Some q) st, remove1 q ls)"
proof -
  obtain m w where st: "st = (m, w)" by fastforce
  obtain w1 now where n: "mc_Now D w = (w1, now)" by fastforce
  have q: "q < length (heap m)" using assms st by (auto simp: pool_inv_owned owned_inv_def list_all_iff)
  define st1 where "st1 = (if State (heap m ! q) = machineStateUsed then (set_details q (\<lambda>d. d\<lparr>Used := now\<rparr>) m, w1) else (m, w))"
  have "pool_steps D cfg ((m, w), ls) (Touch q) ((set_details q (\<lambda>d. d\<lparr>Used := now\<rparr>) m, w), ls)"
    using step_Touch [OF q, of "(heap m ! q)\<lparr>Used := now\<rparr>" D cfg w ls] by (simp add: same_machine_def set_details_def)
  then have run1: "runs D cfg (st, ls) (st1, ls)" by (auto simp: st1_def st intro: rtranclp_trans [OF run1 runs_world])
  obtain m1 w1' where st1: "st1 = (m1, w1')" by fastforce
  have touch: "(if State (heap m ! q) = machineStateUsed then (case mc_Now D w of (w, now) \<Rightarrow> (set_details q (\<lambda>d. d\<lparr>Used := now\<rparr>) m, w))
      else (m, w)) = (m1, w1')" using st1 by (simp add: st1_def n split: if_splits)
  obtain st2 removed where r: "(case config of
                    Some c \<Rightarrow>
                      if MaxBuilds (Machine c) > 0 \<and> UsedCount (heap m1 ! q) \<ge> MaxBuilds (Machine c)
                      then (case provider_remove D (Name (heap m1 ! q)) ''Too many builds'' (m1, w1') of (st, err) \<Rightarrow> (st, err = None))
                      else ((m1, w1'), False)
                  | None \<Rightarrow> ((m1, w1'), False)) = (st2, removed)" by fastforce
  have run2: "runs D cfg (st, ls) (st2, ls)"
    using run1 r run_more [OF run1 step_Remove] by (auto simp: st1 split: option.splits if_splits prod.splits)
  have rel: "Release D config (Some q) st =
      (if removed then st2 else (signalRelease config (set_details q (\<lambda>d. d\<lparr>State := machineStateIdle\<rparr>) (fst st2)), snd st2))"
    unfolding Release_def st option.case Let_def prod.case touch r by (rule refl)
  obtain m2 w2 where st2: "st2 = (m2, w2)" by fastforce
  show ?thesis
  proof (cases removed)
    case True
    then show ?thesis using run_more [OF run2 step_GiveUp] rel by simp
  next
    case False
    then show ?thesis
      using rtranclp_trans [OF run_more [OF run2 [unfolded st2] step_ReturnIdle [OF assms(2)]] signal_runs] rel st2 by simp
  qed
qed


lemma step_length: "pool_steps D cfg s e s' \<Longrightarrow> length (heap (fst (fst s))) \<le> length (heap (fst (fst s')))"
  by (auto elim!: pool_stepsE simp: ensureDetails_def tryAcquireMachineDetails_def begin_creation_def enter_growth_def createWithGrowthCapacity_def
      leave_growth_def provider_remove_def finalizeRemoval_round_def removeMachine_def mark_used_def Let_def
      dest!: getAvailableMachine_keeps split: prod.splits option.splits if_splits bool.splits)

lemma runs_length: "runs D cfg s s' \<Longrightarrow> length (heap (fst (fst s))) \<le> length (heap (fst (fst s')))"
  by (induction rule: rtranclp_induct) (auto dest: step_length)

text \<open>What the other goroutines do while one waits is a run as well.\<close>

definition others_run :: "'w docker_machine \<Rightarrow> (string \<Rightarrow> RunnerConfig) \<Rightarrow> 'w wait_event list \<Rightarrow> bool" where
  "others_run D cfg events \<longleftrightarrow>
     list_all (\<lambda>(others, _). \<forall>st ls. pool_inv (st, ls) \<longrightarrow> (\<exists>ls'. runs D cfg (st, ls) (others st, ls'))) events"

abbreviation leased :: "machine_error + nat \<Rightarrow> nat option" where
  "leased r \<equiv> (case r of Inl _ \<Rightarrow> None | Inr q \<Rightarrow> Some q)"

lemma others_runD:
  assumes "others_run D cfg ((others, k) # events)" "pool_inv (st, ls)"
  obtains ls' where "runs D cfg (st, ls) (others st, ls')"
  using assms unfolding others_run_def list.pred_inject(2) prod.case by blast

lemma take_runs:
  assumes "pool_inv (st, ls)" "tryGetFreeExistingMachineFromCoordinator D c st = (st', r)"
  shows "runs D cfg (st, ls) (st', lease (case r of Inl _ \<Rightarrow> None | Inr q \<Rightarrow> q) ls)"
proof -
  obtain m w where st: "st = (m, w)" by fastforce
  obtain m1 b where g: "getAvailableMachine (Token c) m = (m1, b)" by fastforce
  have run: "runs D cfg (st, ls) ((m1, w), ls)" unfolding st using g by (auto intro: run1 step_TakeAvailable)
  show ?thesis
  proof (cases b)
    case True
    then have "findFreeExistingMachine D c (m1, w) = (st', r)" using assms(2) g st by (simp add: tryGetFreeExistingMachineFromCoordinator_def)
    from rtranclp_trans [OF run existing_runs [OF runs_inv [OF run assms(1)] this]] show ?thesis .
  next
    case False
    then show ?thesis using assms(2) g st run by (auto simp: tryGetFreeExistingMachineFromCoordinator_def)
  qed
qed

lemma await_runs:
  "await_machine D c new events st = Some (st', evs, r) \<Longrightarrow> pool_inv (st, ls) \<Longrightarrow> new < length (heap (fst st)) \<Longrightarrow> others_run D cfg events \<Longrightarrow>
    (\<exists>ls'. runs D cfg (st, ls) (st', lease (leased r) ls')) \<and> others_run D cfg evs"
proof (induction D c new events st arbitrary: ls rule: await_machine.induct)
  case (2 D c new others err events st)
  then show ?case by (cases st) (auto simp: others_run_def)
next
  case (3 D c new others events st)
  obtain ls1 where run: "runs D cfg (st, ls) (others st, ls1)" using others_runD [OF "3.prems"(4,2)] by blast
  have fair: "others_run D cfg events" using "3.prems"(4) by (simp add: others_run_def)
  note inv = runs_inv [OF run "3.prems"(2)]
  have len: "new < length (heap (fst (others st)))" using runs_length [OF run] "3.prems"(3) by simp
  obtain m a where a: "tryAcquireMachineDetails new (fst (others st)) = (m, a)" by fastforce
  show ?case
  proof (cases a)
    case None
    then have "m = fst (others st)" using a by (auto simp: tryAcquireMachineDetails_def split: if_splits)
    then have "await_machine D c new events (others st) = Some (st', evs, r)" using "3.prems"(1) a None by simp
    then obtain ls' where "runs D cfg (others st, ls1) (st', lease (leased r) ls')" "others_run D cfg evs"
      using "3.IH" [OF a [symmetric] None, of ls1] \<open>m = _\<close> inv len fair by auto
    then show ?thesis using rtranclp_trans [OF run] by blast
  next
    case (Some q)
    then have "q = new" using a by (auto simp: tryAcquireMachineDetails_def split: if_splits)
    then have "runs D cfg (st, ls) ((m, snd (others st)), q # ls1)"
      using run_more [of D cfg "(st, ls)" "((fst (others st), snd (others st)), ls1)", OF _ step_Lease [OF len]] run a Some by simp
    then show ?thesis using "3.prems"(1) a Some fair by (auto intro: exI [of _ ls1])
  qed
next
  case (4 D c new others events st)
  obtain ls1 where run: "runs D cfg (st, ls) (others st, ls1)" using others_runD [OF "4.prems"(4,2)] by blast
  have fair: "others_run D cfg events" using "4.prems"(4) by (simp add: others_run_def)
  obtain st2 a where t: "tryGetFreeExistingMachineFromCoordinator D c (others st) = (st2, a)" by fastforce
  note run2 = rtranclp_trans [OF run take_runs [OF runs_inv [OF run "4.prems"(2)] t]]
  consider e where "a = Inl e" | q where "a = Inr (Some q)" | "a = Inr None" by (metis old.sum.exhaust option.exhaust)
  then show ?case
  proof cases
    case 3
    then have "await_machine D c new events st2 = Some (st', evs, r)" using "4.prems"(1) t by simp
    moreover have "new < length (heap (fst st2))" using runs_length [OF run2] "4.prems"(3) by simp
    ultimately show ?thesis
      using "4.IH" [OF t [symmetric] 3 refl, of ls1] run2 runs_inv [OF run2 "4.prems"(2)] fair 3 rtranclp_trans [of _ "(st, ls)" "(st2, ls1)"] by fastforce
  qed (use "4.prems"(1) t run2 fair in auto)
qed simp

lemma create_new: "provider_create D c state st = (st', Some q) \<Longrightarrow> q \<in> set (unfinished (fst st'))"
  by (auto simp: provider_create_def begin_creation_def unfinished_def Let_def image_iff intro!: exI [of _ "\<lparr>cr_details = q, cr_token = Token c,
      cr_maxGrowth = MaxGrowthRate (Machine c), cr_state = state, cr_phase = WaitingForCapacity\<rparr>"] split: prod.splits option.splits)

lemma useMachine_runs:
  assumes "useMachine D (cfg t) events st = Some (st', evs, r)" "pool_inv (st, ls)" "Token (cfg t) = t" "others_run D cfg events"
  shows "(\<exists>ls'. runs D cfg (st, ls) (st', lease (leased r) ls')) \<and> others_run D cfg evs"
proof -
  obtain st1 a where f: "findFreeExistingMachine D (cfg t) st = (st1, a)" by fastforce
  note run = existing_runs [OF assms(2) f, of cfg]
  consider e where "a = Inl e" | q where "a = Inr (Some q)" | "a = Inr None" by (metis old.sum.exhaust option.exhaust)
  then show ?thesis
  proof cases
    case 3
    obtain m1 w1 where st1: "st1 = (m1, w1)" by fastforce
    obtain st3 n where c: "provider_create D (cfg t) machineStateIdle (coordinator_of t m1, w1) = (st3, n)" by fastforce
    have run2: "runs D cfg (st, ls) ((coordinator_of t m1, w1), ls)" using run_more [OF run [unfolded st1] step_Coordinator] 3 by simp
    note run3 = rtranclp_trans [OF run2 create_runs [where cfg = cfg and t = t, OF runs_inv [OF run2 assms(2)] assms(3) c]]
    note inv = runs_inv [OF run3 assms(2)]
    show ?thesis
    proof (cases n)
      case None
      then show ?thesis using assms(1,3,4) f 3 st1 c run3 by (auto simp: useMachine_def createAndAcquireMachine_def)
    next
      case (Some new)
      have "new < length (heap (fst st3))"
        using inv create_new c Some by (cases st3) (fastforce simp: pool_inv_owned owned_inv_def list_all_iff)
      moreover have "await_machine D (cfg t) new events st3 = Some (st', evs, r)"
        using assms(1,3) f 3 st1 c Some by (simp add: useMachine_def createAndAcquireMachine_def)
      ultimately show ?thesis using await_runs [OF _ inv _ assms(4)] rtranclp_trans [OF run3] by blast
    qed
  qed (use assms(1,4) f run in \<open>auto simp: useMachine_def\<close>)
qed

lemma retry_runs:
  "retry_use n D (cfg t) events st = Some (st', r) \<Longrightarrow> pool_inv (st, ls) \<Longrightarrow> Token (cfg t) = t \<Longrightarrow> others_run D cfg events \<Longrightarrow>
    \<exists>ls'. runs D cfg (st, ls) (st', lease (leased r) ls')"
proof (induction n arbitrary: events st ls)
  case 0
  then show ?case using useMachine_runs [of D cfg t events st st' _ r ls]
    by (subst (asm) retry_use.simps) (fastforce split: option.splits prod.splits sum.splits)
next
  case (Suc n)
  obtain st1 evs a where u: "useMachine D (cfg t) events st = Some (st1, evs, a)"
    using Suc.prems(1) by (subst (asm) retry_use.simps) (auto split: option.splits)
  obtain ls1 where run: "runs D cfg (st, ls) (st1, lease (leased a) ls1)" "others_run D cfg evs"
    using useMachine_runs [where cfg = cfg and t = t, OF u Suc.prems(2-4)] by blast
  show ?case
  proof (cases "\<exists>e. a = Inl e \<and> e \<noteq> NilPanic")
    case True
    then have "retry_use n D (cfg t) evs st1 = Some (st', r)"
      using Suc.prems(1) u by (subst (asm) retry_use.simps) auto
    then show ?thesis
      using Suc.IH [OF _ _ Suc.prems(3) run(2), of st1 ls1] run(1) runs_inv [OF run(1) Suc.prems(2)] True rtranclp_trans [of _ "(st, ls)" "(st1, ls1)"] by fastforce
  next
    case False
    then have "st' = st1 \<and> r = a" using Suc.prems(1) u by (subst (asm) retry_use.simps) (auto split: sum.splits)
    then show ?thesis using run(1) by blast
  qed
qed


section \<open>Limits hold\<close>

lemma provider_create_counts:
  "provider_create D c state st = (st', Some q) \<Longrightarrow> length (creations (fst st')) = Suc (length (creations (fst st)))"
  by (auto simp: provider_create_def machineDetails_acquire_def ensureDetails_def tryAcquireMachineDetails_def begin_creation_def Let_def
      split: prod.splits option.splits if_splits)

definition within_limits :: "RunnerConfig \<Rightarrow> machinesData \<Rightarrow> bool" where
  "within_limits c d \<longleftrightarrow>
     (Limit c \<le> 0 \<or> Total d \<le> Limit c) \<and> (MaxGrowthRate (Machine c) \<le> 0 \<or> d_Creating d \<le> MaxGrowthRate (Machine c)) \<and>
     Available d \<le> max_IdleCount (Machine c)"

lemma canCreateIdle_within: "canCreateIdle c now d \<Longrightarrow> within_limits c (d\<lparr>d_Creating := d_Creating d + 1\<rparr>)"
  using canCreateIdle_below [of c now d]
  by (auto simp: canCreateIdle_def within_limits_def totalMachinesExceeded_def machinesGrowthExceeded_def Total_def Available_def)

lemma createMachines_count:
  "createMachines D c data st = (st', Some data') \<Longrightarrow>
    \<exists>k. data' = data\<lparr>d_Creating := d_Creating data + int k\<rparr> \<and> length (creations (fst st')) = length (creations (fst st)) + k \<and>
      (k = 0 \<or> within_limits c data') \<and> (\<exists>now. \<not> canCreateIdle c now data')"
proof (induction D c data st rule: createMachines.induct)
  case (1 D c data m w)
  obtain w1 now where n: "mc_Now D w = (w1, now)" by fastforce
  show ?case
  proof (cases "canCreateIdle c now data")
    case False
    then have "st' = (m, w1)" "data' = data" using "1.prems" n by (auto simp: createMachines.simps [of D c data m w])
    then show ?thesis using False by (intro exI [of _ 0]) auto
  next
    case True
    obtain st2 q where p: "provider_create D c machineStateIdle (m, w1) = (st2, Some q)"
      and r: "createMachines D c (data\<lparr>d_Creating := d_Creating data + 1\<rparr>) st2 = (st', Some data')"
      using "1.prems" n True by (auto simp: createMachines.simps [of D c data m w] split: prod.splits option.splits)
    obtain k where k: "data' = data\<lparr>d_Creating := d_Creating data + 1 + int k\<rparr>" "length (creations (fst st')) = length (creations (fst st2)) + k"
        "k = 0 \<or> within_limits c data'" "\<exists>now. \<not> canCreateIdle c now data'"
      using "1.IH" [OF n [symmetric] _ p [symmetric] refl r] True by auto
    have "within_limits c data'" using k(1,3) canCreateIdle_within [OF True] by auto
    then show ?thesis using k provider_create_counts [OF p] by (intro exI [of _ "Suc k"]) auto
  qed
qed

lemma data_Add_Total: "Total (data_Add d m) = Total d + 1"
  by (simp add: data_Add_def Total_def split: machineState.split)

definition counts :: "machinesData \<Rightarrow> bool" where
  "counts d \<longleftrightarrow> d_Acquired d \<ge> 0 \<and> d_Creating d \<ge> 0 \<and> d_Idle d \<ge> 0 \<and> d_Used d \<ge> 0 \<and> d_Removing d \<ge> 0 \<and> d_StuckOnRemoving d \<ge> 0"

lemma data_Add_counts: "counts d \<Longrightarrow> counts (data_Add d m)"
  by (simp add: data_Add_def counts_def split: machineState.split)

lemma provider_remove_creations: "provider_remove D n reason st = (st', r) \<Longrightarrow> creations (fst st') = creations (fst st)"
  by (auto simp: provider_remove_def split: prod.splits option.splits)

lemma ensureDetails_creations: "ensureDetails D n st = (st', q) \<Longrightarrow> creations (fst st') = creations (fst st)"
  by (auto simp: ensureDetails_def split: prod.splits option.splits)

lemma updateMachines_counts:
  "updateMachines D c ns data valid st = (st', data', valid') \<Longrightarrow> counts data \<Longrightarrow>
    counts data' \<and> Total data' = Total data + int (length ns) \<and> creations (fst st') = creations (fst st)"
proof (induction ns arbitrary: data valid st)
  case (Cons name rest)
  obtain m w q where e: "ensureDetails D name st = ((m, w), q)" by (metis surj_pair)
  obtain d v st2 where "updateMachines D c rest (data_Add data d) v st2 = (st', data', valid')" "creations (fst st2) = creations m"
    using Cons.prems(1) e
    by (auto simp: Let_def split: prod.splits if_splits intro: provider_remove_creations) (metis fst_conv provider_remove_creations set_details_simps(4) surj_pair)+
  then show ?case
    using Cons.IH [of "data_Add data d" v st2] data_Add_counts [OF Cons.prems(2)] data_Add_Total [of data d] ensureDetails_creations [OF e] by auto
qed simp

lemma find_free_creations: "find_free D skip ns st = (st', r) \<Longrightarrow> creations (fst st') = creations (fst st)"
proof (induction ns arbitrary: st)
  case (Cons n ns)
  obtain m w a where a: "machineDetails_acquire D n st = ((m, w), a)" by (metis surj_pair)
  then have "creations m = creations (fst st)"
    by (auto simp: machineDetails_acquire_def tryAcquireMachineDetails_def dest!: ensureDetails_creations split: prod.splits if_splits)
  moreover have "creations (fst st') = creations m"
  proof (cases a)
    case None
    then show ?thesis using Cons.IH [of "(m, w)"] Cons.prems a by simp
  next
    case (Some q)
    obtain w1 b where c: "mc_CanConnect D w n skip = (w1, b)" by fastforce
    obtain st2 x where rm: "provider_remove D n ''machine is unavailable'' (m, w1) = (st2, x)" by fastforce
    show ?thesis
      using Cons.IH [of st2] Cons.prems a Some c rm provider_remove_creations [OF rm] by (cases b) auto
  qed
  ultimately show ?case by simp
qed simp



section \<open>Growth\<close>

lemma entered_simps [simp]:
  "entered t [] = 0" "entered t (cr # C) = (if cr_token cr = t \<and> cr_phase cr \<noteq> WaitingForCapacity then 1 else 0) + entered t C"
  "entered t (C @ C') = entered t C + entered t C'"
  by (simp_all add: entered_def)

lemma growth_coordinator:
  assumes "growth_inv cfg (runners m) C"
  shows "growth_inv cfg (runners (coordinator_of t m)) C \<and> map_of (runners (coordinator_of t m)) t \<noteq> None"
proof (cases "map_of (runners m) t")
  case None
  then have "filter (\<lambda>cr. cr_token cr = t \<and> cr_phase cr \<noteq> WaitingForCapacity) C = []"
    using assms by (auto simp: growth_inv_def list_all_iff filter_empty_conv)
  then show ?thesis
    using assms None by (auto simp: coordinator_of_def growth_inv_def list_all_iff gm.get_set newRunnerMachinesCoordinator_def entered_def)
qed (use assms in \<open>simp add: coordinator_of_def\<close>)

lemma growth_available:
  assumes "growth_inv cfg (runners m) C" "\<And>r. growing (g r) = growing r"
  shows "growth_inv cfg (runners (set_coordinator t g m)) C"
  using assms by (auto simp: set_coordinator_def growth_inv_def list_all_iff gm.get_set split: option.split)

lemma growth_waiting:
  assumes "growth_inv cfg R C" "map_of R (cr_token cr) \<noteq> None" "cr_phase cr = WaitingForCapacity"
    "cr_maxGrowth cr = MaxGrowthRate (Machine (cfg (cr_token cr)))"
  shows "growth_inv cfg R (C @ [cr])"
  using assms by (auto simp: growth_inv_def)

lemma growth_enter:
  assumes "growth_inv cfg (runners m) (creations m)" "i < length (creations m)" "cr_phase (creations m ! i) = WaitingForCapacity"
    "growth_capacity m (creations m ! i)"
  shows "growth_inv cfg (runners (enter_growth i m)) (creations (enter_growth i m))"
proof -
  let ?cr = "creations m ! i"
  let ?t = "cr_token ?cr"
  define l r where "l = take i (creations m)" and "r = drop (Suc i) (creations m)"
  have lr: "creations m = l @ ?cr # r" "creations (enter_growth i m) = l @ ?cr\<lparr>cr_phase := CreatingMachine\<rparr> # r"
    using assms(2) unfolding l_def r_def by (rule id_take_nth_drop) (simp add: enter_growth_def set_phase_def upd_conv_take_nth_drop assms(2))
  have inv: "growth_inv cfg (runners m) (l @ ?cr # r)" using assms(1) lr(1) by simp
  have old: "growing x = int (entered t (l @ ?cr # r)) \<and>
      (MaxGrowthRate (Machine (cfg t)) \<le> 0 \<or> int (entered t (l @ ?cr # r)) \<le> MaxGrowthRate (Machine (cfg t)))"
    if "map_of (runners m) t = Some x" for t x
    using inv that unfolding growth_inv_def by blast
  obtain c where c: "map_of (runners m) ?t = Some c" using inv by (auto simp: growth_inv_def)
  have max: "cr_maxGrowth ?cr = MaxGrowthRate (Machine (cfg ?t))" using inv by (simp add: growth_inv_def)
  have R: "map_of (runners (enter_growth i m)) = (map_of (runners m))(?t \<mapsto> c\<lparr>growing := growing c + 1\<rparr>)"
    using c by (simp add: enter_growth_def set_coordinator_def gm.get_set)
  have "MaxGrowthRate (Machine (cfg ?t)) \<le> 0 \<or> growing c < MaxGrowthRate (Machine (cfg ?t))"
    using assms(4) c max by (auto simp: growth_capacity_def)
  then have "growing x = int (entered t (l @ ?cr\<lparr>cr_phase := CreatingMachine\<rparr> # r)) \<and>
      (MaxGrowthRate (Machine (cfg t)) \<le> 0 \<or> int (entered t (l @ ?cr\<lparr>cr_phase := CreatingMachine\<rparr> # r)) \<le> MaxGrowthRate (Machine (cfg t)))"
    if "((map_of (runners m))(?t \<mapsto> c\<lparr>growing := growing c + 1\<rparr>)) t = Some x" for t x
    using that old [OF c] old [of t] assms(3) by (cases "t = ?t") auto
  moreover have "list_all (\<lambda>cr. cr_maxGrowth cr = MaxGrowthRate (Machine (cfg (cr_token cr))) \<and>
      ((map_of (runners m))(?t \<mapsto> c\<lparr>growing := growing c + 1\<rparr>)) (cr_token cr) \<noteq> None) (l @ ?cr\<lparr>cr_phase := CreatingMachine\<rparr> # r)"
    using inv by (auto simp: growth_inv_def list_all_iff)
  ultimately show ?thesis unfolding lr(2) growth_inv_def R by blast
qed

lemma growth_finish:
  assumes "growth_inv cfg R C" "i < length C" "cr_phase (C ! i) \<noteq> WaitingForCapacity"
  shows "growth_inv cfg R (C[i := (C ! i)\<lparr>cr_phase := LeavingCapacity\<rparr>])"
proof -
  have C: "C = take i C @ C ! i # drop (Suc i) C" using assms(2) by (rule id_take_nth_drop)
  have "growth_inv cfg R (l @ cr # r) \<Longrightarrow> cr_phase cr \<noteq> WaitingForCapacity \<Longrightarrow> growth_inv cfg R (l @ cr\<lparr>cr_phase := LeavingCapacity\<rparr> # r)" for l cr r
    by (auto simp: growth_inv_def)
  from this [of "take i C" "C ! i" "drop (Suc i) C"] show ?thesis
    using assms C by (simp add: upd_conv_take_nth_drop)
qed

lemma growth_leave:
  assumes "growth_inv cfg (runners m) (creations m)" "i < length (creations m)" "cr_phase (creations m ! i) = LeavingCapacity"
  shows "growth_inv cfg (runners (leave_growth i m)) (creations (leave_growth i m))"
proof -
  let ?cr = "creations m ! i"
  let ?t = "cr_token ?cr"
  define l r where "l = take i (creations m)" and "r = drop (Suc i) (creations m)"
  have lr: "creations m = l @ ?cr # r" "creations (leave_growth i m) = l @ r"
    using assms(2) unfolding l_def r_def by (rule id_take_nth_drop) (simp add: leave_growth_def)
  have inv: "growth_inv cfg (runners m) (l @ ?cr # r)" using assms(1) lr(1) by simp
  have old: "growing x = int (entered t (l @ ?cr # r)) \<and>
      (MaxGrowthRate (Machine (cfg t)) \<le> 0 \<or> int (entered t (l @ ?cr # r)) \<le> MaxGrowthRate (Machine (cfg t)))"
    if "map_of (runners m) t = Some x" for t x
    using inv that unfolding growth_inv_def by blast
  obtain c where c: "map_of (runners m) ?t = Some c" using inv by (auto simp: growth_inv_def)
  have R: "map_of (runners (leave_growth i m)) = (map_of (runners m))(?t \<mapsto> c\<lparr>growing := growing c - 1\<rparr>)"
    using c by (simp add: leave_growth_def set_coordinator_def gm.get_set)
  have "growing x = int (entered t (l @ r)) \<and>
      (MaxGrowthRate (Machine (cfg t)) \<le> 0 \<or> int (entered t (l @ r)) \<le> MaxGrowthRate (Machine (cfg t)))"
    if "((map_of (runners m))(?t \<mapsto> c\<lparr>growing := growing c - 1\<rparr>)) t = Some x" for t x
    using that old [OF c] old [of t] assms(3) by (cases "t = ?t") auto
  moreover have "list_all (\<lambda>cr. cr_maxGrowth cr = MaxGrowthRate (Machine (cfg (cr_token cr))) \<and>
      ((map_of (runners m))(?t \<mapsto> c\<lparr>growing := growing c - 1\<rparr>)) (cr_token cr) \<noteq> None) (l @ r)"
    using inv by (auto simp: growth_inv_def list_all_iff)
  ultimately show ?thesis unfolding lr(2) growth_inv_def R by blast
qed


text \<open>The steps that leave the coordinators and the creations alone.\<close>

lemma quiet_steps:
  "ensureDetails D n st = (st', q) \<Longrightarrow> runners (fst st') = runners (fst st) \<and> creations (fst st') = creations (fst st)"
  "tryAcquireMachineDetails q m = (m', r) \<Longrightarrow> runners m' = runners m \<and> creations m' = creations m"
  "provider_remove D n reason st = (st', err) \<Longrightarrow> runners (fst st') = runners (fst st) \<and> creations (fst st') = creations (fst st)"
  "finalizeRemoval_round D q st = st' \<Longrightarrow> runners (fst st') = runners (fst st) \<and> creations (fst st') = creations (fst st)"
  "mark_used D q st = st' \<Longrightarrow> runners (fst st') = runners (fst st) \<and> creations (fst st') = creations (fst st)"
  by (auto simp: ensureDetails_def tryAcquireMachineDetails_def provider_remove_def finalizeRemoval_round_def removeMachine_def mark_used_def
      split: prod.splits option.splits if_splits bool.splits)

lemma growth_begin:
  assumes "growth_inv cfg (runners m) (creations m)" "Token (cfg t) = t" "begin_creation D (cfg t) state q (m, w) = (m', w')"
  shows "growth_inv cfg (runners m') (creations m')"
proof -
  obtain now where n: "mc_Now D w = (w', now)" using assms(3) by (auto simp: begin_creation_def Let_def split: prod.splits)
  let ?m1 = "set_details q (\<lambda>d. d\<lparr>State := machineStateCreating, UsedCount := 0, RetryCount := 0, LastSeen := now\<rparr>) m"
  have "growth_inv cfg (runners (coordinator_of t ?m1)) (creations m) \<and> map_of (runners (coordinator_of t ?m1)) t \<noteq> None"
    using growth_coordinator [of cfg ?m1 "creations m" t] assms(1) by simp
  then show ?thesis using growth_waiting assms(2,3) n by (fastforce simp: begin_creation_def Let_def)
qed

lemma growth_created:
  assumes "growth_inv cfg (runners m) (creations m)" "i < length (creations m)" "cr_phase (creations m ! i) = CreatingMachine"
    "createWithGrowthCapacity D i (m, w) = ((m', w'), err)"
  shows "growth_inv cfg (runners m') (creations m')"
proof -
  let ?C = "(creations m)[i := (creations m ! i)\<lparr>cr_phase := LeavingCapacity\<rparr>]"
  have fin: "growth_inv cfg (runners m) ?C" using growth_finish [OF assms(1,2)] assms(3) by simp
  obtain w1 e where c: "mc_Create D w (Name (heap m ! cr_details (creations m ! i))) = (w1, e)" by fastforce
  show ?thesis
  proof (cases e)
    case None
    have "runners m' = runners (addAvailableMachine (cr_token (creations m ! i)) (set_details (cr_details (creations m ! i))
        (\<lambda>d. d\<lparr>State := cr_state (creations m ! i), Used := snd (mc_Now D w1)\<rparr>) m))" "creations m' = ?C"
      using assms(4) c None by (auto simp: createWithGrowthCapacity_def Let_def set_phase_def split: prod.splits)
    then show ?thesis using growth_available [OF _, of cfg _ ?C] fin by (simp add: addAvailableMachine_def)
  next
    case (Some x)
    obtain m1 w2 r where rm: "provider_remove D (Name (heap m ! cr_details (creations m ! i))) ''Failed to create'' (m, w1) = ((m1, w2), r)"
      by (metis surj_pair)
    then have "runners m' = runners m" "creations m' = ?C"
      using assms(4) c Some quiet_steps(3) [OF rm] by (auto simp: createWithGrowthCapacity_def Let_def set_phase_def)
    then show ?thesis using fin by simp
  qed
qed

lemma growth_step:
  assumes "pool_growth cfg s" "pool_steps D cfg s e s'"
  shows "pool_growth cfg s'"
  using assms(2)
proof cases
  case (step_BeginCreation q ls t st st')
  then show ?thesis using assms(1) growth_begin [of cfg "fst st" t D machineStateIdle q "snd st" "fst st'" "snd st'"] by auto
next
  case (step_EnterGrowth i m w ls)
  then show ?thesis using assms(1) growth_enter by auto
next
  case (step_FinishCreation i m w st' err ls)
  then show ?thesis using assms(1) growth_created [of cfg m i D w "fst st'" "snd st'" err] by auto
next
  case (step_LeaveGrowth i m w ls)
  then show ?thesis using assms(1) growth_leave by auto
next
  case (step_Signal m w ls t)
  then show ?thesis using assms(1) growth_available [OF conjunct1 [OF growth_coordinator]] by (auto simp: addAvailableMachine_def)
next
  case (step_Coordinator m w ls t)
  then show ?thesis using assms(1) growth_coordinator by auto
next
  case (step_TakeAvailable t m m' b w ls)
  then have "creations m' = creations m" "runners m' = runners m \<or> runners m' = runners (set_coordinator t (\<lambda>r. r\<lparr>available := available r - 1\<rparr>) m)"
    by (auto simp: getAvailableMachine_def split: option.splits if_splits)
  then show ?thesis using assms(1) step_TakeAvailable growth_available [of cfg m "creations m"] by auto
qed (use assms(1) in \<open>auto dest: quiet_steps\<close>)

interpretation plg: invariant_of pool_start "pool_steps D cfg" "pool_growth cfg" for D :: "'w docker_machine" and cfg
proof unfold_locales
  show "pool_start s \<Longrightarrow> pool_growth cfg s" for s :: "'w pool"
    by (auto simp: pool_start_def newMachineProvider_def growth_inv_def)
  show "pool_growth cfg s \<Longrightarrow> pool_steps D cfg s e s' \<Longrightarrow> pool_growth cfg s'" for s s' :: "'w pool" and e by (rule growth_step)
qed

lemma creating_le_entered: "length (filter (\<lambda>cr. cr_token cr = t \<and> cr_phase cr = CreatingMachine) C) \<le> entered t C"
  by (induction C) auto

text \<open>C35: Growth. In every interleaving, the machines of a runner that are being created at the same time are no more than
  its growth rate, if it has one.\<close>

theorem growth_rate_respected:
  assumes "pool_reachable D cfg ((m, w), ls)" "MaxGrowthRate (Machine (cfg t)) > 0"
  shows "int (length (filter (\<lambda>cr. cr_token cr = t \<and> cr_phase cr = CreatingMachine) (creations m))) \<le> MaxGrowthRate (Machine (cfg t))"
proof -
  have inv: "growth_inv cfg (runners m) (creations m)" using plg.reachable_inv [OF assms(1)] by simp
  have "int (entered t (creations m)) \<le> MaxGrowthRate (Machine (cfg t))"
  proof (cases "map_of (runners m) t")
    case None
    then have "entered t (creations m) = 0" using inv by (auto simp: growth_inv_def list_all_iff entered_def filter_empty_conv)
    then show ?thesis using assms(2) by simp
  next
    case (Some r)
    then show ?thesis using inv assms(2) unfolding growth_inv_def by fastforce
  qed
  then show ?thesis using creating_le_entered [of t "creations m"] by linarith
qed

section \<open>Machines are not shared\<close>



section \<open>A small world\<close>

text \<open>The world is the time, names are numbered by it, and one machine exists already.\<close>

definition demo_machine :: "nat docker_machine" where
  "demo_machine =
     \<lparr>mc_Now = (\<lambda>w. (Suc w, int w)), mc_newMachineName = (\<lambda>_ w. (Suc w, CHR ''n'' # replicate w CHR ''x'')),
      mc_matchesMachineFilter = (\<lambda>_ _. True), mc_List = (\<lambda>w. (w, Inr [''old''])), mc_CanConnect = (\<lambda>w _ _. (w, True)),
      mc_Exist = (\<lambda>w _. (w, True)), mc_Create = (\<lambda>w _. (w, None)), mc_Stop = (\<lambda>w _. (w, None)), mc_Remove = (\<lambda>w _. (w, None)),
      mc_Credentials = (\<lambda>w _. (w, None))\<rparr>"

definition demo_config :: RunnerConfig where
  "demo_config =
     \<lparr>Token = ''t'', Limit = 5,
      Machine = \<lparr>MaxGrowthRate = 2, IdleCount = 4, IdleScaleFactor = \<lparr>sf_positive = False, sf_times = (\<lambda>n. 0)\<rparr>, IdleCountMin = 0,
        IdleTime = 600, MaxBuilds = 0, MachineName = ''n'', AutoscalingConfigs = []\<rparr>\<rparr>"


lemma demo_start: "pool_reachable demo_machine (\<lambda>_. demo_config) ((newMachineProvider, 0), [])"
  by (rule reach_init) (simp add: pool_start_def)

theorem growth_rate_respected_witness:
  "\<exists>m w. pool_reachable demo_machine (\<lambda>_. demo_config) ((m, w), []) \<and>
     length (filter (\<lambda>cr. cr_token cr = ''t'' \<and> cr_phase cr = CreatingMachine) (creations m)) = 1 \<and> (1 :: int) \<le> MaxGrowthRate (Machine demo_config)"
proof -
  let ?c = "\<lambda>_ :: string. demo_config"
  obtain m w q where c: "provider_create demo_machine demo_config machineStateIdle (newMachineProvider, 0) = ((m, w), q)" by (metis surj_pair)
  have t: "Token demo_config = ''t''" "MaxGrowthRate (Machine demo_config) = 2" by (simp_all add: demo_config_def)
  have "creations (fst (fst (provider_create demo_machine demo_config machineStateIdle (newMachineProvider, 0)))) =
      [\<lparr>cr_details = 0, cr_token = ''t'', cr_maxGrowth = 2, cr_state = machineStateIdle, cr_phase = WaitingForCapacity\<rparr>]"
    "growth_capacity (fst (fst (provider_create demo_machine demo_config machineStateIdle (newMachineProvider, 0))))
      \<lparr>cr_details = 0, cr_token = ''t'', cr_maxGrowth = 2, cr_state = machineStateIdle, cr_phase = WaitingForCapacity\<rparr>" by code_simp+
  then have m: "creations m = [\<lparr>cr_details = 0, cr_token = ''t'', cr_maxGrowth = 2, cr_state = machineStateIdle, cr_phase = WaitingForCapacity\<rparr>]"
    "growth_capacity m (creations m ! 0)" using c by simp_all
  have "runs demo_machine ?c ((newMachineProvider, 0), []) ((m, w), [])"
    using create_runs [of "(newMachineProvider, 0)" "[]" ?c "''t''"] pli.reachable_inv [OF demo_start] c t by simp
  then have "pool_reachable demo_machine ?c ((m, w), [])" using runs_reachable demo_start by blast
  moreover have "pool_steps demo_machine ?c ((m, w), []) (EnterGrowth 0) ((enter_growth 0 m, w), [])"
    by (rule step_EnterGrowth) (use m in simp_all)
  ultimately have r: "pool_reachable demo_machine ?c ((enter_growth 0 m, w), [])" by (rule reach_step)
  have "length (filter (\<lambda>cr. cr_token cr = ''t'' \<and> cr_phase cr = CreatingMachine) (creations (enter_growth 0 m))) = 1"
    using m by (simp add: enter_growth_def set_phase_def)
  then show ?thesis using growth_rate_respected [OF r, of "''t''"] r t by (intro exI [of _ "enter_growth 0 m"] exI [of _ w]) simp
qed



end
