(* ===== verification/Spec2Isabelle.thy ===== *)
theory Spec2Isabelle
  imports Strconv TxManager ReplicationQueue StreamDirector ErrorTracker ConcurrencyLimiter Pktline
    ConflictParser FileWriter LogInvariant JobTrace WalRecovery ProcessCache MachinePool
begin

text \<open>
  A verification library for the Go programs under \<open>src/\<close>: Gitaly with its cluster proxy Praefect
  (\<open>gitaly-master\<close>) and GitLab Runner (\<open>gitlab-runner-main\<close>). It models the parts of them that keep state or transform
  data and proves what makes them correct. Paths below are relative to \<open>gitaly-master/gitaly-master/internal\<close> and to
  \<open>gitlab-runner-main/gitlab-runner-main\<close>.

  \<^bold>\<open>Praefect\<close> sends a write to several Gitaly nodes and lets them agree on it.
  \<^item> \<open>Voting\<close>, \<open>Subtransaction\<close>, \<open>Transaction\<close>, \<open>TxManager\<close> model the votes (\<open>transaction/voting\<close>) and
    \<open>praefect/transactions\<close>: the voters of a subtransaction, the sequence of subtransactions of a transaction, the
    manager and its gRPC service. Calls that wait are steps of a state machine, so every interleaving is covered. The
    lemmas show agreement (no two nodes commit different votes), that decisions are final, that a decided subtransaction
    answers every waiting call, how the results of the subtransactions become the outcome, and what callers get.
  \<^item> \<open>Coordinator\<close> models the part of \<open>praefect/coordinator.go\<close> that uses it: thresholds in which the primary is part
    of every quorum, the classification of nodes as updated or outdated, and the replication jobs the finalizers queue.
  \<^item> \<open>Router\<close> (\<open>praefect/router_per_repository.go\<close>) chooses the nodes of a call, and \<open>StreamDirector\<close> (the rest of
    \<open>praefect/coordinator.go\<close>) directs it: it rewrites the messages, registers the transaction and prepares the finalizers.
    The lemmas show that a route has every assigned replica once, that the nodes a write goes to are the voters of its
    transaction, and, over router, transaction, finalizers and queue, that no assigned replica is left behind.
  \<^item> \<open>ReplicationQueue\<close> models the in-memory queue \<open>praefect/datastore/memory.go\<close> with its interceptor: the states and
    attempts of an event, locks, acknowledgements, and the invariants that relate them.
  \<^item> \<open>ErrorTracker\<close> models \<open>praefect/nodes/tracker/errors.go\<close>: thresholds over a window of time, equal to a definition
    over the history of the reported errors.

  \<^bold>\<open>Gitaly\<close> runs git on the repositories.
  \<^item> \<open>ConcurrencyLimiter\<close> (\<open>middleware/limithandler\<close>): tokens and queues per key as a state machine over channels; the
    limit is never exceeded, no call blocks or panics on a channel, idle limiters go away.
  \<^item> \<open>Pktline\<close> (\<open>git/pktline\<close>): framing, the splitter under any division into reads, side bands.
  \<^item> \<open>ConflictParser\<close> (\<open>git/conflict\<close>): the parser of conflicted files and the resolution of its sections.
  \<^item> \<open>FileWriter\<close> (\<open>safe\<close>): files that are replaced atomically, and locked files, on a model of the file system in which
    every operation may fail.
  \<^item> \<open>UpdateRef\<close> (\<open>git/updateref\<close>): the states of the updater around \<open>git update-ref\<close>, the text it writes and how it reads
    errors; the contract of git it relies on.
  \<^item> \<open>WriteAheadLog\<close>, \<open>WalRecovery\<close> (\<open>gitaly/transaction_manager.go\<close>, over \<open>UpdateRef\<close>): transactions are verified, logged
    and applied, and recovered after a restart. The refinement shows that the references are always the entries of a
    log applied in order, whatever fails and whenever the manager restarts, if applied entries can be deleted; a further
    theorem shows what goes wrong if not.
  \<^item> \<open>CatfileQueue\<close>, \<open>ProcessCache\<close> (\<open>git/catfile\<close>): the queues of requests to \<open>git cat-file\<close> processes and the cache of these
    processes. A queue answers its requests in order whatever fails; every process is in the cache once or has one user;
    together they show that a reader from the cache, also a reused one, returns what the caller's repository has.

  \<^bold>\<open>GitLab Runner\<close> runs jobs and sends their log.
  \<^item> \<open>ShellEscape\<close>, \<open>BashWriter\<close> (\<open>helpers/shell_escape.go\<close>, \<open>shells/bash.go\<close>): quoting against a specification of how a
    shell splits a line into words, and the writer of the job scripts.
  \<^item> \<open>LogWriter\<close>, \<open>Masker\<close>, \<open>TokenSanitizer\<close>, \<open>UrlSanitizer\<close>, \<open>LimitWriter\<close>, \<open>TraceBuffer\<close>, \<open>LogInvariant\<close>
    (\<open>helpers/trace\<close>): the chain of writers every byte of a log passes: masking of URL parameters, tokens and phrases,
    the size limit, the file. Each masking writer equals a reference definition on the whole text; the size the buffer
    reports is the length of the file through the whole chain.
  \<^item> \<open>JobTrace\<close> (\<open>network/trace.go\<close> and the requests of \<open>network/gitlab.go\<close>): sending the log to the coordinator in parts
    over a connection that fails; the coordinator always has a prefix of the log, and all of it in the end.
  \<^item> \<open>MachineProvider\<close>, \<open>MachinePool\<close> (\<open>executors/docker/machine\<close> and its settings in \<open>common/config.go\<close>): the machines the
    autoscaling executor creates, hands out to jobs and removes, with the limits of the configuration. The provider's
    goroutines are steps; no machine is used by two jobs, and the limits and the growth rate hold in every state. One
    theorem shows that a machine a build gets while the idle machines are being reviewed is removed under the build.

  \<^bold>\<open>Shared\<close>: \<open>Prelude\<close> has machine words, Go maps as association lists (the list is the order of one iteration),
  reachability and its invariants; \<open>Strconv\<close> the decimal and hexadecimal conversions.

  \<^bold>\<open>How the code is modelled.\<close> A struct is a record, an error a value, a panic a value of its own. Methods are functions
  from the state to the new state and the results. Goroutines that share state under a lock are steps of a transition
  relation. Integers that can overflow are words or are wrapped explicitly. Loops are functions with a termination proof;
  where a loop may run forever (\<open>JobTrace\<close>) it is a partial function and termination is a theorem under the assumption
  that the coordinator answers in the end. There is no fuel.

  \<^bold>\<open>Interfaces.\<close> Locales state what a component expects of another: \<open>go_map\<close> and \<open>invariant_of\<close> in \<open>Prelude\<close>, the
  contracts of queues, transactions, limiters, writers and shells in their theories; each is interpreted on the
  definitions of the component that provides it. Code that is not under \<open>src/\<close> (git, the file system, the key-value store,
  HTTP, clocks) is a parameter; what is assumed of it is a named predicate (\<open>git_ok\<close>, \<open>cat_file_ok\<close>, \<open>db_ok\<close>, \<open>coordinator_ok\<close>,
  \<open>file_ok\<close>, ...), and witnesses instantiate it.

  \<^bold>\<open>Not modelled.\<close> The SQL of Praefect's stores, its replicator and reconciler; Gitaly's gRPC services,
  housekeeping, object parsers, stream cache and backups; Runner's other executors, configuration, commands, artifacts and the
  PowerShell writer; GitLab Pages, GitLab Shell and the editor extension. Most of that is glue around databases,
  processes, containers and HTTP.
\<close>

end
